(* ===== verification/Prelude.thy ===== *)
theory Prelude
  imports Main "HOL-Library.Word" "HOL-Library.Signed_Division"
begin

unbundle bit_operations_syntax

text \<open>
  Shared vocabulary of the development: the machine integers of the i686 target, C characters,
  the outcome of a kernel function (return, leave the current control flow, or undefined
  behaviour), the sequencing combinators the stateful components are written with, and the
  total-correctness rules that the component proofs use.
\<close>

section \<open>Machine integers and characters\<close>

type_synonym u8 = "8 word"
type_synonym u16 = "16 word"
type_synonym u32 = "32 word"
type_synonym u64 = "64 word"

text \<open>
  \<open>char\<close> is signed on this target: \<open>schar\<close> is the value of a \<open>char\<close> after the integer
  promotion, \<open>to_char\<close> the conversion of an \<open>int\<close> to \<open>char\<close> (reduction modulo 256).
\<close>

definition schar :: "char \<Rightarrow> int" where
  "schar c = (let n = of_char c in if n < 128 then n else n - 256)"

definition to_char :: "int \<Rightarrow> char" where
  "to_char n = char_of (n mod 256)"

definition NUL :: char where
  "NUL = CHR 0x00"

text \<open>The C string stored in an array: the characters before the first NUL.\<close>

definition cstr :: "char list \<Rightarrow> string" where
  "cstr b = takeWhile (\<lambda>c. c \<noteq> NUL) b"

lemma schar_range: "- 128 \<le> schar c \<and> schar c < 128"
proof -
  have "(of_char c :: int) < 256" and "0 \<le> (of_char c :: int)"
    by (simp_all add: of_char_def) 
  then show ?thesis by (auto simp: schar_def Let_def)
qed

lemma schar_inject: "schar c = schar d \<longleftrightarrow> c = d"
proof
  assume eq: "schar c = schar d"
  have b: "0 \<le> (of_char x :: int) \<and> (of_char x :: int) < 256" for x
    by (simp add: of_char_def)
  have "(of_char c :: int) = of_char d"
    using eq b[of c] b[of d] by (auto simp: schar_def Let_def split: if_splits)
  then show "c = d" by simp
qed simp

text \<open>The range of a two's complement integer of \<open>w\<close> bits; leaving it is undefined in C.\<close>

definition fits :: "nat \<Rightarrow> int \<Rightarrow> bool" where
  "fits w n \<longleftrightarrow> - (2 ^ (w - 1)) \<le> n \<and> n < 2 ^ (w - 1)"

section \<open>Outcomes\<close>

text \<open>
  What C leaves undefined ends in \<open>Undefined\<close>: an access outside an array, a conversion of
  \<open>printf\<close> without its argument or with one of the wrong type, a format string read past its
  end, a signed overflow, a null pointer, a division by zero, a shift by the width of the type or more, an access the
  MMU refuses, a copy between overlapping objects through pointers declared \<open>restrict\<close>.
\<close>

datatype fault =
    OutOfBounds | MissingArgument | BadArgument | FormatOverrun | SignedOverflow
  | NullPointer | BadShift | DivisionByZero | RestrictOverlap | PageFault u32

text \<open>
  How a function leaves for good: \<open>abort\<close> spins forever, \<open>proc_switch_process\<close> ends in an
  \<open>iret\<close> to user mode (eip, cs, eflags, esp, ss), and \<open>OutOfFuel\<close> is a loop of the model
  that was given fewer steps than the code takes.
\<close>

datatype exit = Abort | Iret u32 u32 u32 u32 u32 | OutOfFuel

datatype ('s, 'a) outcome = Ok 'a 's | Exit exit 's | Undefined fault

type_synonym ('s, 'a) action = "'s \<Rightarrow> ('s, 'a) outcome"

definition ret :: "'a \<Rightarrow> ('s, 'a) action" where
  "ret a = (\<lambda>s. Ok a s)"

definition andthen :: "('s, 'a) action \<Rightarrow> ('a \<Rightarrow> ('s, 'b) action) \<Rightarrow> ('s, 'b) action" where
  "andthen m k = (\<lambda>s. case m s of
      Ok a t \<Rightarrow> k a t | Exit e t \<Rightarrow> Exit e t | Undefined f \<Rightarrow> Undefined f)"

definition before :: "('s, 'a) action \<Rightarrow> ('s, 'b) action \<Rightarrow> ('s, 'b) action" where
  "before m k = andthen m (\<lambda>_. k)"

definition asks :: "('s \<Rightarrow> 'a) \<Rightarrow> ('s, 'a) action" where
  "asks f = (\<lambda>s. Ok (f s) s)"

definition change :: "('s \<Rightarrow> 's) \<Rightarrow> ('s, unit) action" where
  "change f = (\<lambda>s. Ok () (f s))"

definition stuck :: "fault \<Rightarrow> ('s, 'a) action" where
  "stuck f = (\<lambda>s. Undefined f)"

definition leave :: "exit \<Rightarrow> ('s, 'a) action" where
  "leave e = (\<lambda>s. Exit e s)"

text \<open>A pure computation that may be undefined.\<close>

definition orelse_stuck :: "fault \<Rightarrow> 'a option \<Rightarrow> ('s, 'a) action" where
  "orelse_stuck f x = (case x of None \<Rightarrow> stuck f | Some a \<Rightarrow> ret a)"

text \<open>A counted loop, run over the list of the values its counter takes.\<close>

primrec foreach :: "'i list \<Rightarrow> ('i \<Rightarrow> ('s, unit) action) \<Rightarrow> ('s, unit) action" where
  "foreach [] f = ret ()"
| "foreach (i # is) f = before (f i) (foreach is f)"

text \<open>An action on a component of the state, run on the whole state.\<close>

definition zoom :: "('s \<Rightarrow> 't) \<Rightarrow> ('t \<Rightarrow> 's \<Rightarrow> 's) \<Rightarrow> ('t, 'a) action \<Rightarrow> ('s, 'a) action" where
  "zoom get put m = (\<lambda>s. case m (get s) of
      Ok a t \<Rightarrow> Ok a (put t s) | Exit e t \<Rightarrow> Exit e (put t s) | Undefined f \<Rightarrow> Undefined f)"

lemma ret_apply [simp]: "ret a s = Ok a s"
  and asks_apply [simp]: "asks f s = Ok (f s) s"
  and change_apply [simp]: "change g s = Ok () (g s)"
  and stuck_apply [simp]: "stuck flt s = Undefined flt"
  and leave_apply [simp]: "leave e s = Exit e s"
  by (simp_all add: ret_def asks_def change_def stuck_def leave_def)

lemma andthen_Ok [simp]: "m s = Ok a t \<Longrightarrow> andthen m k s = k a t"
  and andthen_Exit [simp]: "m s = Exit e t \<Longrightarrow> andthen m k s = Exit e t"
  and andthen_Undefined [simp]: "m s = Undefined f \<Longrightarrow> andthen m k s = Undefined f"
  by (simp_all add: andthen_def)

lemma before_Ok [simp]: "m s = Ok a t \<Longrightarrow> before m n s = n t"
  and before_Exit [simp]: "m s = Exit e t \<Longrightarrow> before m n s = Exit e t"
  and before_Undefined [simp]: "m s = Undefined f \<Longrightarrow> before m n s = Undefined f"
  by (simp_all add: before_def)

lemma orelse_stuck_simps [simp]:
  "orelse_stuck f None = stuck f" "orelse_stuck f (Some a) = ret a"
  by (simp_all add: orelse_stuck_def)

lemma zoom_Ok [simp]: "m (get s) = Ok a t \<Longrightarrow> zoom get put m s = Ok a (put t s)"
  and zoom_Exit [simp]: "m (get s) = Exit e t \<Longrightarrow> zoom get put m s = Exit e (put t s)"
  and zoom_Undefined [simp]: "m (get s) = Undefined f \<Longrightarrow> zoom get put m s = Undefined f"
  by (simp_all add: zoom_def)

lemma foreach_append: "foreach (xs @ ys) f = before (foreach xs f) (foreach ys f)"
proof (induction xs)
  case Nil
  then show ?case by (simp add: before_def andthen_def fun_eq_iff)
next
  case (Cons x xs)
  then show ?case
    by (simp add: before_def andthen_def fun_eq_iff split: outcome.splits)
qed

text \<open>A loop whose body always returns is a fold of its effect.\<close>

lemma foreach_fold:
  assumes "\<And>i s. i \<in> set is \<Longrightarrow> f i s = Ok () (g i s)"
  shows "foreach is f s = Ok () (fold g is s)"
  using assms by (induction "is" arbitrary: s) simp_all

section \<open>Total correctness and invariants\<close>

text \<open>
  \<open>wp m Q s\<close>: started in \<open>s\<close>, \<open>m\<close> returns, and value and state satisfy \<open>Q\<close>.
  \<open>keeps I m\<close>: \<open>m\<close> preserves \<open>I\<close>, whether it returns or leaves.
\<close>

definition wp :: "('s, 'a) action \<Rightarrow> ('a \<Rightarrow> 's \<Rightarrow> bool) \<Rightarrow> 's \<Rightarrow> bool" where
  "wp m Q s = (case m s of Ok a t \<Rightarrow> Q a t | _ \<Rightarrow> False)"

definition keeps :: "('s \<Rightarrow> bool) \<Rightarrow> ('s, 'a) action \<Rightarrow> bool" where
  "keeps I m \<longleftrightarrow> (\<forall>s. I s \<longrightarrow>
     (case m s of Ok a t \<Rightarrow> I t | Exit e t \<Rightarrow> I t | Undefined f \<Rightarrow> True))"

named_theorems wp_simps
named_theorems keeps_intros

lemma wp_ret [wp_simps]: "wp (ret a) Q s = Q a s"
  and wp_Ok [wp_simps]: "wp (Ok a) Q s = Q a s"
  and wp_asks [wp_simps]: "wp (asks f) Q' s = Q' (f s) s"
  and wp_change [wp_simps]: "wp (change g) Q'' s = Q'' () (g s)"
  by (simp_all add: wp_def)

lemma wp_andthen [wp_simps]: "wp (andthen m k) Q s = wp m (\<lambda>a. wp (k a) Q) s"
  by (simp add: wp_def andthen_def split: outcome.splits)

lemma wp_before [wp_simps]: "wp (before m k) Q s = wp m (\<lambda>_. wp k Q) s"
  by (simp add: before_def wp_andthen)

lemma wp_zoom [wp_simps]: "wp (zoom get put m) Q s = wp m (\<lambda>a t. Q a (put t s)) (get s)"
  by (simp add: wp_def zoom_def split: outcome.splits)

lemma wp_OkD: "wp m Q s \<Longrightarrow> \<exists>a t. m s = Ok a t \<and> Q a t"
  by (auto simp: wp_def split: outcome.splits)

lemma wp_mono: "wp m Q s \<Longrightarrow> (\<And>a t. Q a t \<Longrightarrow> R a t) \<Longrightarrow> wp m R s"
  by (auto simp: wp_def split: outcome.splits)

lemma wp_foreach:
  assumes "I 0 s"
    and "\<And>k t. k < length is \<Longrightarrow> I k t \<Longrightarrow> wp (f (is ! k)) (\<lambda>_. I (Suc k)) t"
  shows "wp (foreach is f) (\<lambda>_. I (length is)) s"
  using assms
proof (induction "is" arbitrary: s I)
  case Nil
  then show ?case by (simp add: wp_simps)
next
  case (Cons i "is")
  have "wp (f i) (\<lambda>_. I (Suc 0)) s"
    using Cons.prems(1) Cons.prems(2)[of 0 s] by simp
  moreover have "wp (foreach is f) (\<lambda>_. I (Suc (length is))) t" if "I (Suc 0) t" for t
    using Cons.IH[of "\<lambda>k. I (Suc k)" t] that Cons.prems(2)[of "Suc _"] by simp
  ultimately show ?case by (auto simp: wp_simps elim: wp_mono)
qed

lemma keepsI:
  assumes ok: "\<And>s a t. I s \<Longrightarrow> m s = Ok a t \<Longrightarrow> I t"
    and ex: "\<And>s e t. I s \<Longrightarrow> m s = Exit e t \<Longrightarrow> I t"
  shows "keeps I m"
  unfolding keeps_def
proof (intro allI impI)
  fix s assume I: "I s"
  show "case m s of Ok a t \<Rightarrow> I t | Exit e t \<Rightarrow> I t | Undefined f \<Rightarrow> True"
    by (cases "m s") (simp_all add: ok [OF I] ex [OF I])
qed

lemma keeps_OkD:
  assumes "keeps I m" and "m s = Ok a t" and "I s"
  shows "I t"
proof -
  have "case m s of Ok a t \<Rightarrow> I t | Exit e t \<Rightarrow> I t | Undefined f \<Rightarrow> True"
    using assms(1,3) unfolding keeps_def by blast
  then show ?thesis by (simp add: assms(2))
qed

lemma keeps_ExitD:
  assumes "keeps I m" and "m s = Exit e t" and "I s"
  shows "I t"
proof -
  have "case m s of Ok a t \<Rightarrow> I t | Exit e t \<Rightarrow> I t | Undefined f \<Rightarrow> True"
    using assms(1,3) unfolding keeps_def by blast
  then show ?thesis by (simp add: assms(2))
qed

lemma keeps_ret [keeps_intros]: "keeps I (ret a)"
  and keeps_Ok [keeps_intros]: "keeps I (Ok a)"
  and keeps_asks [keeps_intros]: "keeps I (asks f)"
  and keeps_stuck [keeps_intros]: "keeps I (stuck flt)"
  and keeps_leave [keeps_intros]: "keeps I (leave e)"
  and keeps_Exit [keeps_intros]: "keeps I (Exit e)"
  by (simp_all add: keeps_def)

lemma keeps_change [keeps_intros]: "(\<And>s. I s \<Longrightarrow> I (g s)) \<Longrightarrow> keeps I (change g)"
  by (simp add: keeps_def)

lemma keeps_andthen [keeps_intros]:
  assumes m: "keeps I m" and k: "\<And>a. keeps I (k a)"
  shows "keeps I (andthen m k)"
proof (rule keepsI)
  fix s a t assume I: "I s" and e: "andthen m k s = Ok a t"
  then obtain b u where "m s = Ok b u" "k b u = Ok a t"
    by (auto simp: andthen_def split: outcome.splits)
  then show "I t" using keeps_OkD [OF m _ I] keeps_OkD [OF k] by blast
next
  fix s e t assume I: "I s" and e: "andthen m k s = Exit e t"
  then consider "m s = Exit e t" | b u where "m s = Ok b u" "k b u = Exit e t"
    by (auto simp: andthen_def split: outcome.splits)
  then show "I t" using keeps_OkD [OF m _ I] keeps_ExitD [OF m _ I] keeps_ExitD [OF k]
    by cases blast+
qed

lemma keeps_before [keeps_intros]: "keeps I m \<Longrightarrow> keeps I k \<Longrightarrow> keeps I (before m k)"
  unfolding before_def by (rule keeps_andthen)

lemma keeps_orelse_stuck [keeps_intros]: "keeps I (orelse_stuck f x)"
  by (cases x) (simp_all add: keeps_def)

lemma keeps_foreach [keeps_intros]:
  assumes "\<And>i. i \<in> set is \<Longrightarrow> keeps I (f i)"
  shows "keeps I (foreach is f)"
  using assms
proof (induction "is")
  case Nil
  show ?case by (simp add: keeps_def)
next
  case (Cons i "is")
  then show ?case unfolding foreach.simps by (intro keeps_before) simp_all
qed

lemma keeps_if [keeps_intros]:
  "(b \<Longrightarrow> keeps I m) \<Longrightarrow> (\<not> b \<Longrightarrow> keeps I n) \<Longrightarrow> keeps I (if b then m else n)"
  by (cases b) simp_all

lemma keeps_zoom [keeps_intros]:
  assumes m: "keeps J m" and get: "\<And>s. I s \<Longrightarrow> J (get s)"
    and put: "\<And>s t. I s \<Longrightarrow> J t \<Longrightarrow> I (put t s)"
  shows "keeps I (zoom get put m)"
  unfolding keeps_def
proof (intro allI impI)
  fix s assume I: "I s"
  then have "case m (get s) of Ok a t \<Rightarrow> J t | Exit e t \<Rightarrow> J t | Undefined f \<Rightarrow> True"
    using m get unfolding keeps_def by blast
  then show "case zoom get put m s of Ok a t \<Rightarrow> I t | Exit e t \<Rightarrow> I t | Undefined f \<Rightarrow> True"
    by (cases "m (get s)") (simp_all add: put I)
qed

section \<open>Refinement of runs\<close>

text \<open>
  A run of requests that the specification \<open>spec\<close> allows one after the other. \<open>simulation\<close> is the
  contract of a component that implements it: a legal request returns, has the effect that \<open>spec\<close>
  has on the abstraction, and uses up one unit of what \<open>ready\<close> counts.
\<close>

primrec legal_run :: "('a \<Rightarrow> 'r \<Rightarrow> bool) \<Rightarrow> ('r \<Rightarrow> 'a \<Rightarrow> 'a) \<Rightarrow> 'r list \<Rightarrow> 'a \<Rightarrow> bool" where
  "legal_run legal spec [] a \<longleftrightarrow> True"
| "legal_run legal spec (r # rs) a \<longleftrightarrow> legal a r \<and> legal_run legal spec rs (spec r a)"

locale simulation =
  fixes step :: "'r \<Rightarrow> ('s, unit) action"
    and abstract :: "'s \<Rightarrow> 'a"
    and spec :: "'r \<Rightarrow> 'a \<Rightarrow> 'a"
    and legal :: "'a \<Rightarrow> 'r \<Rightarrow> bool"
    and ready :: "nat \<Rightarrow> 's \<Rightarrow> bool"
  assumes step: "ready (Suc k) s \<Longrightarrow> legal (abstract s) r \<Longrightarrow>
      wp (step r) (\<lambda>_ s'. ready k s' \<and> abstract s' = spec r (abstract s)) s"
begin

lemma run:
  "ready (length rs + k) s \<Longrightarrow> legal_run legal spec rs (abstract s) \<Longrightarrow>
   wp (foreach rs step) (\<lambda>_ s'. ready k s' \<and> abstract s' = fold spec rs (abstract s)) s"
proof (induction rs arbitrary: s)
  case Nil
  then show ?case by (simp add: wp_simps)
next
  case (Cons r rs)
  have "ready (Suc (length rs + k)) s" "legal (abstract s) r" "legal_run legal spec rs (spec r (abstract s))"
    using Cons.prems by simp_all
  from wp_OkD[OF step[OF this(1,2)]] obtain s1 where
    "step r s = Ok () s1" "ready (length rs + k) s1" "abstract s1 = spec r (abstract s)" by auto
  then show ?case using Cons.IH[of s1] \<open>legal_run legal spec rs (spec r (abstract s))\<close> by (simp add: wp_def)
qed

end

section \<open>Words\<close>

lemma unat_less_numeral_u32 [simp]: "unat (w :: u32) < 4294967296"
  using unsigned_less[of w] by simp

text \<open>The \<open>n\<close> bytes at \<open>a\<close> and the \<open>n\<close> bytes at \<open>b\<close> have one in common.\<close>

definition ranges_meet :: "u32 \<Rightarrow> u32 \<Rightarrow> nat \<Rightarrow> bool" where
  "ranges_meet a b n \<longleftrightarrow> unat (a - b) < n \<or> unat (b - a) < n"

lemma ranges_apart:
  assumes "\<And>i j. i < n \<Longrightarrow> j < n \<Longrightarrow> a + of_nat i \<noteq> b + of_nat j"
  shows "\<not> ranges_meet a b n"
  using assms[of 0 "unat (a - b)"] assms[of "unat (b - a)" 0] by (auto simp: ranges_meet_def)

lemma ranges_meet_commonI:
  fixes a b :: u32
  assumes "a + of_nat i = b + of_nat j" "j < n" "i \<le> j"
  shows "unat (a - b) < n"
proof -
  have "a - b = of_nat (j - i)" using assms(1,3) by (simp add: algebra_simps)
  then have "unat (a - b) \<le> j - i" by (simp add: unat_of_nat)
  then show ?thesis using assms(2) by simp
qed

lemma ranges_meet_iff:
  "ranges_meet a b n \<longleftrightarrow> (\<exists>i < n. \<exists>j < n. a + of_nat i = b + of_nat j)"
  using ranges_apart[of n a b] ranges_meet_commonI[of a _ b _ n] ranges_meet_commonI[of b _ a _ n]
  unfolding ranges_meet_def by (metis linear)

lemma of_nat_unat_u32: "n < 2 ^ 32 \<Longrightarrow> unat (of_nat n :: u32) = n"
  by (simp add: unat_of_nat)

end
