(* ===== verification/Ctype.thy ===== *)
theory Ctype
  imports Prelude
begin

unbundle bit_operations_syntax

text \<open>
  \<open>libc/src/ctype/ctype.c\<close>: the character classes and case conversions on \<open>int\<close>.
  A predicate returns \<open>bool\<close> for C's 0 and 1.
\<close>

definition isalpha :: "int \<Rightarrow> bool" where
  "isalpha c \<longleftrightarrow> (c \<ge> 65 \<and> c \<le> 90) \<or> (c \<ge> 97 \<and> c \<le> 122)"

definition isdigit :: "int \<Rightarrow> bool" where
  "isdigit c \<longleftrightarrow> c \<ge> 48 \<and> c \<le> 57"

definition isalnum :: "int \<Rightarrow> bool" where
  "isalnum c \<longleftrightarrow> isalpha c \<or> isdigit c"

definition isblank :: "int \<Rightarrow> bool" where
  "isblank c \<longleftrightarrow> c = 32 \<or> c = 9"

definition iscntrl :: "int \<Rightarrow> bool" where
  "iscntrl c \<longleftrightarrow> c \<ge> 0 \<and> c \<le> 31"

definition isgraph :: "int \<Rightarrow> bool" where
  "isgraph c \<longleftrightarrow> c \<ge> 33 \<and> c \<le> 126"

definition islower :: "int \<Rightarrow> bool" where
  "islower c \<longleftrightarrow> c \<ge> 97 \<and> c \<le> 122"

definition isprint :: "int \<Rightarrow> bool" where
  "isprint c \<longleftrightarrow> c \<ge> 32 \<and> c \<le> 126"

definition ispunct :: "int \<Rightarrow> bool" where
  "ispunct c \<longleftrightarrow> (c \<ge> 33 \<and> c \<le> 47) \<or> (c \<ge> 58 \<and> c \<le> 64)
     \<or> (c \<ge> 91 \<and> c \<le> 96) \<or> (c \<ge> 123 \<and> c \<le> 126)"

definition isspace :: "int \<Rightarrow> bool" where
  "isspace c \<longleftrightarrow> c = 32 \<or> (c \<ge> 9 \<and> c \<le> 13)"

definition isupper :: "int \<Rightarrow> bool" where
  "isupper c \<longleftrightarrow> c \<ge> 65 \<and> c \<le> 90"

definition isxdigit :: "int \<Rightarrow> bool" where
  "isxdigit c \<longleftrightarrow> isdigit c \<or> (c \<ge> 97 \<and> c \<le> 102) \<or> (c \<ge> 65 \<and> c \<le> 70)"

definition tolower :: "int \<Rightarrow> int" where
  "tolower c = (if \<not> isalpha c then c else c OR 32)"

definition toupper :: "int \<Rightarrow> int" where
  "toupper c = (if \<not> isalpha c then c else c AND NOT 32)"

lemmas ctype_defs = isalpha_def isdigit_def isalnum_def isblank_def iscntrl_def isgraph_def
  islower_def isprint_def ispunct_def isspace_def isupper_def isxdigit_def

text \<open>The two case conversions only move letters, by 32.\<close>

lemma alpha_cases:
  assumes "isalpha c"
  obtains k :: nat where "k < 26" "c = 65 + int k" | k :: nat where "k < 26" "c = 97 + int k"
proof -
  have "c = 65 + int (nat (c - 65)) \<and> nat (c - 65) < 26 \<or> c = 97 + int (nat (c - 97)) \<and> nat (c - 97) < 26"
    using assms by (auto simp: isalpha_def)
  then show thesis using that by blast
qed

lemma all_less_26:
  fixes P :: "nat \<Rightarrow> bool"
  assumes "list_all P [0..<26]" and "k < 26"
  shows "P k"
  using assms by (auto simp: list_all_iff)

lemma upper_bits: "k < 26 \<Longrightarrow> (65 + int k) OR 32 = 97 + int k \<and> (65 + int k) AND NOT 32 = 65 + int k"
  by (erule all_less_26 [rotated]) (simp add: upt_rec)

lemma lower_bits: "k < 26 \<Longrightarrow> (97 + int k) OR 32 = 97 + int k \<and> (97 + int k) AND NOT 32 = 65 + int k"
  by (erule all_less_26 [rotated]) (simp add: upt_rec)

lemma toupper_letter: "isalpha c \<Longrightarrow> toupper c = (if islower c then c - 32 else c)"
  by (erule alpha_cases) (auto simp: toupper_def isalpha_def islower_def upper_bits [simplified] lower_bits [simplified])

lemma tolower_letter: "isalpha c \<Longrightarrow> tolower c = (if isupper c then c + 32 else c)"
  by (erule alpha_cases) (auto simp: tolower_def isalpha_def isupper_def upper_bits [simplified] lower_bits [simplified])

lemma toupper_eq: "toupper c = (if islower c then c - 32 else c)"
  using toupper_letter[of c] by (auto simp: toupper_def isalpha_def islower_def)

lemma tolower_eq: "tolower c = (if isupper c then c + 32 else c)"
  using tolower_letter[of c] by (auto simp: tolower_def isalpha_def isupper_def)

end
