(* ===== verification/Cstring.thy ===== *)
theory Cstring
  imports Prelude
begin

unbundle bit_operations_syntax

text \<open>
  \<open>libc/src/string/\<close>: the byte-memory routines, over a flat memory of 2^32 bytes. A pointer is
  a \<open>u32\<close>, \<open>p[i]\<close> is the byte at \<open>p + i\<close>; a routine that returns its first argument returns it
  here with the new memory.
\<close>

type_synonym mem = "u32 \<Rightarrow> u8"

definition copy_byte :: "u32 \<Rightarrow> u32 \<Rightarrow> nat \<Rightarrow> mem \<Rightarrow> mem" where
  "copy_byte dst src i m = m(dst + of_nat i := m (src + of_nat i))"

text \<open>\<open>memcpy\<close> declares both pointers \<open>restrict\<close>: a byte written through one and read through the
  other makes the call undefined.\<close>

definition memcpy :: "u32 \<Rightarrow> u32 \<Rightarrow> u32 \<Rightarrow> mem \<Rightarrow> (mem, u32) outcome" where
  "memcpy dst src sz m =
     (if ranges_meet dst src (unat sz) then Undefined RestrictOverlap
      else Ok dst (fold (copy_byte dst src) [0..<unat sz] m))"

text \<open>The second loop of \<open>memmove\<close> counts down: its body handles the index \<open>i - 1\<close>.\<close>

definition memmove :: "u32 \<Rightarrow> u32 \<Rightarrow> u32 \<Rightarrow> mem \<Rightarrow> u32 \<times> mem" where
  "memmove dst src sz m =
     (dst, if dst < src then fold (copy_byte dst src) [0..<unat sz] m
           else fold (\<lambda>i. copy_byte dst src (i - 1)) (rev [1..<Suc (unat sz)]) m)"

definition memset :: "u32 \<Rightarrow> int \<Rightarrow> u32 \<Rightarrow> mem \<Rightarrow> u32 \<times> mem" where
  "memset buf val sz m =
     (buf, fold (\<lambda>i m. m(buf + of_nat i := word_of_int val)) [0..<unat sz] m)"

fun memcmp_from :: "mem \<Rightarrow> u32 \<Rightarrow> u32 \<Rightarrow> nat list \<Rightarrow> int" where
  "memcmp_from m a b [] = 0"
| "memcmp_from m a b (i # is) =
     (if m (a + of_nat i) < m (b + of_nat i) then - 1
      else if m (b + of_nat i) < m (a + of_nat i) then 1
      else memcmp_from m a b is)"

definition memcmp :: "mem \<Rightarrow> u32 \<Rightarrow> u32 \<Rightarrow> u32 \<Rightarrow> int" where
  "memcmp m a b sz = memcmp_from m a b [0..<unat sz]"

text \<open>\<open>strlen\<close> does not return where no NUL follows: the result is then \<open>None\<close>.\<close>

partial_function (option) strlen_loop :: "mem \<Rightarrow> u32 \<Rightarrow> u32 \<Rightarrow> u32 option" where
  "strlen_loop m p result =
     (if m (p + result) \<noteq> 0 then strlen_loop m p (result + 1) else Some result)"

definition strlen :: "mem \<Rightarrow> u32 \<Rightarrow> u32 option" where
  "strlen m p = strlen_loop m p 0"

section \<open>Copying\<close>

text \<open>The memory in which the \<open>n\<close> bytes at \<open>dst\<close> are those that \<open>m\<close> has at \<open>src\<close>.\<close>

definition copied :: "u32 \<Rightarrow> u32 \<Rightarrow> nat \<Rightarrow> mem \<Rightarrow> mem" where
  "copied dst src n m = (\<lambda>a. if unat (a - dst) < n then m (src + (a - dst)) else m a)"

lemma offset_eq_iff:
  fixes a dst :: u32
  assumes "k < 2 ^ 32"
  shows "a = dst + of_nat k \<longleftrightarrow> unat (a - dst) = k"
proof -
  have "a = dst + of_nat k \<longleftrightarrow> a - dst = of_nat k" by (auto simp: algebra_simps)
  also have "\<dots> \<longleftrightarrow> unat (a - dst) = k"
    using assms by (simp add: word_unat_eq_iff of_nat_unat_u32 del: of_nat_diff)
  finally show ?thesis .
qed

lemma offset_lt_iff:
  fixes a dst :: u32
  assumes "k < 2 ^ 32"
  shows "unat (a - dst) < Suc k \<longleftrightarrow> unat (a - dst) < k \<or> a = dst + of_nat k"
  using offset_eq_iff [OF assms, of a dst] by linarith

lemma forward_copy:
  assumes "n \<le> 2 ^ 32"
    and "\<And>k. k < n \<Longrightarrow> \<not> unat (src + of_nat k - dst) < k"
  shows "fold (copy_byte dst src) [0..<n] m = copied dst src n m"
  using assms
proof (induction n)
  case 0
  show ?case by (simp add: copied_def)
next
  case (Suc n)
  have "fold (copy_byte dst src) [0..<Suc n] m = copy_byte dst src n (copied dst src n m)"
    using Suc by simp
  also have "\<dots> = copied dst src (Suc n) m"
    using Suc.prems offset_lt_iff[of n _ dst]
    by (auto simp: copy_byte_def copied_def fun_eq_iff)
  finally show ?case .
qed

text \<open>After the bytes from \<open>k\<close> up have been copied, downwards.\<close>

definition copied_from :: "u32 \<Rightarrow> u32 \<Rightarrow> nat \<Rightarrow> nat \<Rightarrow> mem \<Rightarrow> mem" where
  "copied_from dst src k n m =
     (\<lambda>a. if k \<le> unat (a - dst) \<and> unat (a - dst) < n then m (src + (a - dst)) else m a)"

lemma backward_copy:
  assumes "k \<le> n" "n \<le> 2 ^ 32"
    and "\<And>j. j < n \<Longrightarrow> unat (src + of_nat j - dst) \<le> j \<or> n \<le> unat (src + of_nat j - dst)"
  shows "fold (\<lambda>i. copy_byte dst src (i - 1)) (rev [Suc k..<Suc n]) m = copied_from dst src k n m"
  using assms(1)
proof (induction "n - k" arbitrary: k)
  case 0
  then show ?case by (auto simp: copied_from_def fun_eq_iff)
next
  case (Suc d)
  then have kn: "k < n" by simp
  then have "[Suc k..<Suc n] = Suc k # [Suc (Suc k)..<Suc n]" by (simp add: upt_rec)
  then have "fold (\<lambda>i. copy_byte dst src (i - 1)) (rev [Suc k..<Suc n]) m
      = copy_byte dst src k (copied_from dst src (Suc k) n m)"
    using Suc.hyps(1)[of "Suc k"] Suc.hyps(2) kn by simp
  also have "\<dots> = copied_from dst src k n m"
  proof
    fix a
    have at: "a = dst + of_nat k \<longleftrightarrow> unat (a - dst) = k"
      using kn assms(2) by (intro offset_eq_iff) simp
    have "\<not> (Suc k \<le> unat (src + of_nat k - dst) \<and> unat (src + of_nat k - dst) < n)"
      using assms(3)[OF kn] by linarith
    then show "copy_byte dst src k (copied_from dst src (Suc k) n m) a
        = copied_from dst src k n m a"
      using at kn by (auto simp: copy_byte_def copied_from_def)
  qed
  finally show ?case .
qed

lemma unat_add_diff_u32:
  fixes s d :: u32
  assumes "unat s + k < 2 ^ 32" "d \<le> s"
  shows "unat (s + of_nat k - d) = unat s + k - unat d"
proof -
  have "unat (s + of_nat k) = unat s + k"
    using assms(1) by (simp add: unat_word_ariths unat_of_nat)
  moreover have "d \<le> s + of_nat k"
    using calculation assms(2) by (simp add: word_le_nat_alt)
  ultimately show ?thesis by (simp add: unat_sub)
qed

text \<open>
  \<open>memmove\<close> is right for any overlap of buffers that do not wrap around the address space, \<open>memcpy\<close>
  for all buffers on which it is defined.
\<close>

lemma memmove_copied:
  assumes "unat src + unat sz \<le> 2 ^ 32" and "unat dst + unat sz \<le> 2 ^ 32"
  shows "memmove dst src sz m = (dst, copied dst src (unat sz) m)"
proof (cases "dst < src")
  case True
  have "\<not> unat (src + of_nat k - dst) < k" if "k < unat sz" for k
    using unat_add_diff_u32[of src k dst] that assms True
    by (simp add: word_less_nat_alt word_le_nat_alt)
  then show ?thesis using True by (simp add: memmove_def forward_copy less_imp_le)
next
  case False
  then have le: "src \<le> dst" by simp
  have off: "unat (src + of_nat j - dst) \<le> j \<or> unat sz \<le> unat (src + of_nat j - dst)"
    if j: "j < unat sz" for j
  proof (cases "dst \<le> src + of_nat j")
    case True
    have "unat (src + of_nat j) = unat src + j"
      using assms(1) j by (simp add: unat_word_ariths unat_of_nat)
    with True le have "unat (src + of_nat j - dst) \<le> j"
      by (subst unat_sub) (simp_all add: word_le_nat_alt)
    then show ?thesis by simp
  next
    case False
    let ?x = "src + of_nat j"
    have x: "unat ?x = unat src + j"
      using assms(1) j by (simp add: unat_word_ariths unat_of_nat)
    have lt: "unat ?x < unat dst" using False by (simp add: word_less_nat_alt not_le)
    have "unat (?x - dst) = 2 ^ 32 + unat ?x - unat dst"
      using lt by (simp add: unat_sub_if')
    moreover have "unat sz \<le> 2 ^ 32 + unat ?x - unat dst" using assms(2) lt by linarith
    ultimately show ?thesis by simp
  qed
  have "fold (\<lambda>i. copy_byte dst src (i - 1)) (rev [Suc 0..<Suc (unat sz)]) m
      = copied_from dst src 0 (unat sz) m"
    by (rule backward_copy) (use off in \<open>simp_all add: less_imp_le\<close>)
  then show ?thesis using False by (simp add: memmove_def copied_from_def copied_def)
qed

text \<open>Ranges that are apart even around the end of the address space are copied in either order.\<close>

lemma apart_reads:
  assumes "\<not> ranges_meet dst src n" "k < n"
  shows "n \<le> unat (src + of_nat k - dst)"
proof (rule ccontr)
  assume "\<not> ?thesis"
  moreover have "dst + of_nat (unat (src + of_nat k - dst)) = src + of_nat k" by simp
  ultimately show False using assms unfolding ranges_meet_iff by (metis not_le)
qed

lemma memcpy_apart:
  assumes "\<not> ranges_meet dst src (unat sz)"
  shows "memcpy dst src sz m = Ok dst (copied dst src (unat sz) m)"
    "memmove dst src sz m = (dst, copied dst src (unat sz) m)"
proof -
  note far = apart_reads[OF assms]
  have n: "unat sz \<le> 2 ^ 32" by (simp add: less_imp_le)
  have forward: "fold (copy_byte dst src) [0..<unat sz] m = copied dst src (unat sz) m"
    by (rule forward_copy[OF n]) (use far in fastforce)
  have "fold (\<lambda>i. copy_byte dst src (i - 1)) (rev [Suc 0..<Suc (unat sz)]) m = copied_from dst src 0 (unat sz) m"
    by (rule backward_copy[OF _ n]) (use far in auto)
  then have backward: "fold (\<lambda>i. copy_byte dst src (i - 1)) (rev [1..<Suc (unat sz)]) m = copied dst src (unat sz) m"
    by (simp add: copied_from_def copied_def)
  show "memcpy dst src sz m = Ok dst (copied dst src (unat sz) m)"
    using assms forward by (simp add: memcpy_def)
  show "memmove dst src sz m = (dst, copied dst src (unat sz) m)"
    by (simp only: memmove_def forward backward if_cancel)
qed

section \<open>Filling, comparing, measuring\<close>

lemma memset_filled:
  "snd (memset buf val sz m) =
     (\<lambda>a. if unat (a - buf) < unat sz then word_of_int val else m a)"
proof -
  have "fold (\<lambda>i m. m(buf + of_nat i := word_of_int val)) [0..<n] m =
      (\<lambda>a. if unat (a - buf) < n then word_of_int val else m a)" if "n \<le> 2 ^ 32" for n
    using that
  proof (induction n)
    case (Suc n)
    then show ?case using offset_lt_iff[of n _ buf] by (auto simp: fun_eq_iff)
  qed simp
  then show ?thesis by (simp add: memset_def less_imp_le)
qed

lemma memcmp_from_zero:
  "memcmp_from m a b is = 0 \<longleftrightarrow> (\<forall>i \<in> set is. m (a + of_nat i) = m (b + of_nat i))"
  by (induction "is") auto

lemma memcmp_from_negative:
  "memcmp_from m a b [k..<n] = - 1 \<longleftrightarrow>
     (\<exists>i. k \<le> i \<and> i < n \<and> m (a + of_nat i) < m (b + of_nat i)
        \<and> (\<forall>j. k \<le> j \<and> j < i \<longrightarrow> m (a + of_nat j) = m (b + of_nat j)))"
proof (induction "n - k" arbitrary: k)
  case 0
  then show ?case by auto
next
  case (Suc d)
  then have kn: "k < n" by simp
  then have upt: "[k..<n] = k # [Suc k..<n]" by (simp add: upt_rec)
  show ?case
  proof (cases "m (a + of_nat k) = m (b + of_nat k)")
    case True
    have split: "k \<le> i \<longleftrightarrow> i = k \<or> Suc k \<le> i" for i by linarith
    show ?thesis using Suc.hyps(1)[of "Suc k"] Suc.hyps(2) True
      by (simp add: upt split) (metis True nless_le split)
  next
    case False
    then show ?thesis using kn by (auto simp: upt not_less dest: le_neq_implies_less)
  qed
qed

lemma strlen_loop_NUL:
  assumes "m (p + of_nat n) = 0" and "\<And>j. k \<le> j \<Longrightarrow> j < n \<Longrightarrow> m (p + of_nat j) \<noteq> 0" and "k \<le> n"
  shows "strlen_loop m p (of_nat k) = Some (of_nat n)"
  using assms(2,3)
proof (induction "n - k" arbitrary: k)
  case 0
  then have "k = n" by simp
  then show ?case by (subst strlen_loop.simps) (simp add: assms(1))
next
  case (Suc d)
  have "m (p + of_nat k) \<noteq> 0" using Suc.hyps(2) Suc.prems(1) by simp
  moreover have "strlen_loop m p (of_nat (Suc k)) = Some (of_nat n)"
    by (rule Suc.hyps(1)) (use Suc in simp_all)
  ultimately show ?case by (subst strlen_loop.simps) (simp add: add.commute)
qed

lemma strlen_NUL:
  assumes "m (p + of_nat n) = 0" and "\<And>j. j < n \<Longrightarrow> m (p + of_nat j) \<noteq> 0"
  shows "strlen m p = Some (of_nat n)"
  unfolding strlen_def using strlen_loop_NUL[of m p n 0] assms by simp

section \<open>Properties\<close>

text \<open>C35: \<open>memmove\<close> returns its first argument, puts the bytes that were at \<open>src\<close> at \<open>dst\<close> whether
  the two ranges overlap or not, and changes nothing else. The ranges do not wrap around.\<close>

theorem memmove_moves:
  assumes "unat src + unat sz \<le> 2 ^ 32" and "unat dst + unat sz \<le> 2 ^ 32"
  shows "fst (memmove dst src sz m) = dst
    \<and> (\<forall>i < unat sz. snd (memmove dst src sz m) (dst + of_nat i) = m (src + of_nat i))
    \<and> (\<forall>a. unat sz \<le> unat (a - dst) \<longrightarrow> snd (memmove dst src sz m) a = m a)"
proof -
  have "unat (of_nat i :: u32) = i" if "i < unat sz" for i
    by (rule of_nat_unat_u32, rule less_trans [OF that]) simp
  then show ?thesis by (simp add: memmove_copied [OF assms] copied_def)
qed

theorem memmove_moves_witness:
  "snd (memmove 0x101 0x100 3 (\<lambda>a. ucast a)) 0x102 = 1 \<and> snd (memmove 0x101 0x100 3 (\<lambda>a. ucast a)) 0x104 = 4"
proof -
  have "\<forall>i < unat (3 :: u32). snd (memmove 0x101 0x100 3 (\<lambda>a. ucast a)) (0x101 + of_nat i)
      = ucast (0x100 + of_nat i :: u32)"
    and "unat (3 :: u32) \<le> unat (0x104 - 0x101 :: u32) \<longrightarrow>
      snd (memmove 0x101 0x100 3 (\<lambda>a. ucast a)) 0x104 = ucast (0x104 :: u32)"
    using memmove_moves[where src = "0x100" and sz = 3 and dst = "0x101" and m = "\<lambda>a. ucast a"] by simp_all
  from this(1) [rule_format, of 1] this(2) show ?thesis by simp
qed

text \<open>C38: \<open>memcpy\<close> is defined exactly on ranges without a byte in common, also around the end of the
  address space. There it returns the destination, in which the bytes are those the source held before the
  call and next to which nothing changes, and \<open>memmove\<close> does the same; on any other ranges, equal ones
  included, a byte written through one \<open>restrict\<close> pointer is read through the other.\<close>

theorem memcpy_copies:
  "memcpy dst src sz m =
     (if \<exists>i < unat sz. \<exists>j < unat sz. dst + of_nat i = src + of_nat j then Undefined RestrictOverlap
      else Ok dst (\<lambda>a. if unat (a - dst) < unat sz then m (src + (a - dst)) else m a))
   \<and> (memcpy dst src sz m = Ok p m' \<longrightarrow> memmove dst src sz m = (p, m'))"
  unfolding ranges_meet_iff[symmetric]
  using memcpy_apart[of dst src sz m] by (cases "ranges_meet dst src (unat sz)") (auto simp: memcpy_def copied_def)

theorem memcpy_copies_witness:
  "memcpy 0x100 0x103 3 ucast = Ok 0x100 (copied 0x100 0x103 3 ucast)
   \<and> memmove 0x100 0x103 3 ucast = (0x100, copied 0x100 0x103 3 ucast)
   \<and> memcpy 0x100 0x102 3 ucast = Undefined RestrictOverlap"
proof -
  have e: "memcpy 0x100 0x103 3 ucast = Ok 0x100 (copied 0x100 0x103 3 ucast)"
    using memcpy_apart(1)[of "0x100" "0x103" 3 ucast] by (simp add: ranges_meet_def)
  have i: "\<exists>i < unat (3 :: u32). \<exists>j < unat (3 :: u32). (0x100 :: u32) + of_nat i = 0x102 + of_nat j"
    by (intro exI[of _ 2] conjI exI[of _ 0]) simp_all
  have "memcpy 0x100 0x102 3 ucast = Undefined RestrictOverlap"
    using conjunct1[OF memcpy_copies[of "0x100" "0x102" 3 ucast undefined undefined]] unfolding if_P[OF i] .
  then show ?thesis using e memcpy_copies[of "0x100" "0x103" 3 ucast "0x100" "copied 0x100 0x103 3 ucast"] by blast
qed

text \<open>\<open>memcmp\<close> compares as unsigned bytes in lexicographic order: 0 for equal ranges, \<open>-1\<close> exactly
  when the first byte that differs is smaller in the first range, 1 otherwise.\<close>

theorem memcmp_lexicographic:
  "memcmp m a b sz =
     (if \<forall>i < unat sz. m (a + of_nat i) = m (b + of_nat i) then 0
      else if \<exists>i < unat sz. m (a + of_nat i) < m (b + of_nat i)
                \<and> (\<forall>j < i. m (a + of_nat j) = m (b + of_nat j)) then - 1 else 1)"
proof -
  have range: "memcmp_from m a b is \<in> {- 1, 0, 1}" for "is" by (induction "is") simp_all
  show ?thesis
    using range[of "[0..<unat sz]"] memcmp_from_zero[of m a b "[0..<unat sz]"]
      memcmp_from_negative[of m a b 0 "unat sz"]
    by (auto simp: memcmp_def)
qed

theorem memcmp_lexicographic_witness: "memcmp (\<lambda>a. ucast a) 0x10 0x20 4 = - 1"
proof -
  have lt: "(ucast (0x10 + of_nat 0 :: u32) :: u8) < ucast (0x20 + of_nat 0 :: u32)" by simp
  then have "\<exists>i < unat (4 :: u32). (ucast (0x10 + of_nat i :: u32) :: u8) < ucast (0x20 + of_nat i :: u32)
     \<and> (\<forall>j < i. (ucast (0x10 + of_nat j :: u32) :: u8) = ucast (0x20 + of_nat j :: u32))"
    by (intro exI[of _ 0]) simp
  moreover have "\<not> (\<forall>i < unat (4 :: u32). (ucast (0x10 + of_nat i :: u32) :: u8) = ucast (0x20 + of_nat i :: u32))"
    using lt by (auto intro!: exI[of _ 0])
  ultimately show ?thesis by (simp only: memcmp_lexicographic if_False if_True)
qed

text \<open>\<open>strlen\<close> returns the distance to the first NUL byte.\<close>

theorem strlen_first_NUL:
  assumes "m (p + of_nat n) = 0" and "\<forall>j < n. m (p + of_nat j) \<noteq> 0"
  shows "strlen m p = Some (of_nat n)"
  using strlen_NUL assms by blast

theorem strlen_first_NUL_witness: "strlen (\<lambda>a. if a = 0x102 then 0 else 1) 0x100 = Some 2"
proof -
  have "\<forall>j < 2. (if (0x100 :: u32) + of_nat j = 0x102 then 0 else 1 :: u8) \<noteq> 0"
    using less_2_cases by fastforce
  then show ?thesis
    using strlen_first_NUL[where m = "\<lambda>a. if a = 0x102 then 0 else 1" and p = "0x100" and n = 2] by simp
qed

end
