(* ===== verification/Stdlib.thy ===== *)
theory Stdlib
  imports Ctype
begin

unbundle bit_operations_syntax

text \<open>
  \<open>libc/src/stdlib/\<close> and \<open>libc/include/std_abs.h\<close>: conversions between integers and their
  text. Integers of a C type are \<open>int\<close>s; a signed overflow, which C leaves undefined, is
  \<open>None\<close>. A string argument is the list of its characters, its end standing for the NUL. The
  buffer that \<open>itoa\<close> and \<open>utoa\<close> write is a list of fixed length, and a write past its end is
  \<open>None\<close>.
\<close>

section \<open>atoi, atol, atoll and the absolute values\<close>

fun ato_digits :: "nat \<Rightarrow> int \<Rightarrow> string \<Rightarrow> int option" where
  "ato_digits w n [] = Some n"
| "ato_digits w n (c # s) =
     (if isdigit (schar c)
      then (let t = 10 * n; n' = t - (schar c - 48)
            in if fits w t \<and> fits w n' then ato_digits w n' s else None)
      else Some n)"

definition ato_sign :: "string \<Rightarrow> bool \<times> string" where
  "ato_sign s = (case s of
      [] \<Rightarrow> (False, [])
    | c # s' \<Rightarrow> if c = CHR ''-'' then (True, s') else if c = CHR ''+'' then (False, s') else (False, s))"

definition ato :: "nat \<Rightarrow> string \<Rightarrow> int option" where
  "ato w s =
     (let (neg, s') = ato_sign (dropWhile (\<lambda>c. isspace (schar c)) s)
      in case ato_digits w 0 s' of
           None \<Rightarrow> None
         | Some n \<Rightarrow> if neg then Some n else if fits w (- n) then Some (- n) else None)"

text \<open>The three functions are the same code at their types; \<open>long\<close> has 32 bits on i686.\<close>

definition atoi :: "string \<Rightarrow> int option" where
  "atoi s = ato 32 s"

definition atol :: "string \<Rightarrow> int option" where
  "atol s = ato 32 s"

definition atoll :: "string \<Rightarrow> int option" where
  "atoll s = ato 64 s"

definition abs_of :: "nat \<Rightarrow> int \<Rightarrow> int option" where
  "abs_of w x = (if x \<ge> 0 then Some x else if fits w (- x) then Some (- x) else None)"

section \<open>itoa, lltoa, utoa\<close>

definition digit_table :: string where
  "digit_table = ''zyxwvutsrqponmlkjihgfedcba9876543210123456789abcdefghijklmnopqrstuvwxyz''"

definition store :: "char list \<Rightarrow> nat \<Rightarrow> char \<Rightarrow> char list option" where
  "store b i c = (if i < length b then Some (b[i := c]) else None)"

text \<open>
  The \<open>do ... while\<close> loop: \<open>p\<close> is the offset of \<open>ptr\<close>. It writes one digit a turn, so it
  stops at the end of the buffer at the latest. The result is the offset after the digits.
\<close>

function itoa_loop :: "int \<Rightarrow> int \<Rightarrow> nat \<Rightarrow> char list \<Rightarrow> (nat \<times> char list) option" where
  "itoa_loop val base p b =
     (case store b p (digit_table ! nat (35 + val smod base)) of
        None \<Rightarrow> None
      | Some b' \<Rightarrow> if val sdiv base \<noteq> 0 then itoa_loop (val sdiv base) base (p + 1) b'
                   else Some (p + 1, b'))"
  by pat_completeness auto
termination
  by (relation "measure (\<lambda>(val, base, p, b). length b - p)") (auto simp: store_def split: if_splits)

function utoa_loop :: "u32 \<Rightarrow> u32 \<Rightarrow> nat \<Rightarrow> char list \<Rightarrow> (nat \<times> char list) option" where
  "utoa_loop val base p b =
     (case store b p (digit_table ! unat (35 + val mod base)) of
        None \<Rightarrow> None
      | Some b' \<Rightarrow> if val div base \<noteq> 0 then utoa_loop (val div base) base (p + 1) b'
                   else Some (p + 1, b'))"
  by pat_completeness auto
termination
  by (relation "measure (\<lambda>(val, base, p, b). length b - p)") (auto simp: store_def split: if_splits)

text \<open>The reversal in place of the characters from \<open>low\<close> to \<open>ptr\<close>.\<close>

function swap_loop :: "nat \<Rightarrow> nat \<Rightarrow> char list \<Rightarrow> char list" where
  "swap_loop low ptr b =
     (if low < ptr then swap_loop (low + 1) (ptr - 1) (b[low := b ! ptr, ptr := b ! low]) else b)"
  by pat_completeness auto
termination
  by (relation "measure (\<lambda>(low, ptr, b). ptr - low)") auto

text \<open>\<open>*ptr-- = '\0'\<close> after the digits, then the reversal from \<open>low\<close>.\<close>

definition finish :: "nat \<Rightarrow> (nat \<times> char list) option \<Rightarrow> char list option" where
  "finish low r = (case r of
      None \<Rightarrow> None
    | Some (ptr, b) \<Rightarrow> (case store b ptr NUL of
        None \<Rightarrow> None
      | Some b' \<Rightarrow> Some (swap_loop low (ptr - 1) b')))"

definition itoa :: "int \<Rightarrow> char list \<Rightarrow> int \<Rightarrow> char list option" where
  "itoa val str base =
     (if base < 2 \<or> base > 36 then store str 0 NUL
      else if val < 0 \<and> base = 10
      then (case store str 0 (CHR ''-'') of
              None \<Rightarrow> None
            | Some b \<Rightarrow> finish 1 (itoa_loop val base 1 b))
      else finish 0 (itoa_loop val base 0 str))"

text \<open>\<open>lltoa\<close> is the code of \<open>itoa\<close> for \<open>long long\<close>; no operation of it can overflow.\<close>

definition lltoa :: "int \<Rightarrow> char list \<Rightarrow> int \<Rightarrow> char list option" where
  "lltoa val str base =
     (if base < 2 \<or> base > 36 then store str 0 NUL
      else if val < 0 \<and> base = 10
      then (case store str 0 (CHR ''-'') of
              None \<Rightarrow> None
            | Some b \<Rightarrow> finish 1 (itoa_loop val base 1 b))
      else finish 0 (itoa_loop val base 0 str))"

definition utoa :: "u32 \<Rightarrow> char list \<Rightarrow> u32 \<Rightarrow> char list option" where
  "utoa val str base =
     (if base < 2 \<or> base > 36 then store str 0 NUL
      else finish 0 (utoa_loop val base 0 str))"

declare itoa_loop.simps [simp del] utoa_loop.simps [simp del] swap_loop.simps [simp del]

section \<open>The text of a number\<close>

text \<open>The digits of \<open>n\<close> in base \<open>b\<close>, the most significant first.\<close>

function digits :: "nat \<Rightarrow> nat \<Rightarrow> nat list" where
  "digits b n = (if b < 2 \<or> n < b then [n] else digits b (n div b) @ [n mod b])"
  by pat_completeness auto
termination
  by (relation "measure snd") auto

declare digits.simps [simp del]

definition digit_char :: "nat \<Rightarrow> char" where
  "digit_char d = digit_table ! (35 + d)"

definition numeral_text :: "nat \<Rightarrow> nat \<Rightarrow> string" where
  "numeral_text b n = map digit_char (digits b n)"

definition decimal_text :: "int \<Rightarrow> string" where
  "decimal_text v = (if v < 0 then CHR ''-'' # numeral_text 10 (nat (- v)) else numeral_text 10 (nat v))"

lemma digits_less: "2 \<le> b \<Longrightarrow> \<forall>d \<in> set (digits b n). d < b"
proof (induction b n rule: digits.induct)
  case (1 b n)
  show ?case
  proof (cases "n < b")
    case True
    then show ?thesis by (subst digits.simps) simp
  next
    case False
    then have "\<forall>d \<in> set (digits b (n div b)). d < b" using "1" by simp
    then show ?thesis using "1.prems" False by (subst digits.simps) simp
  qed
qed

lemma digits_nonempty: "digits b n \<noteq> []"
  by (subst digits.simps) simp

text \<open>A digit sequence read back.\<close>

definition digits_value :: "nat \<Rightarrow> nat list \<Rightarrow> nat" where
  "digits_value b ds = foldl (\<lambda>acc d. b * acc + d) 0 ds"

lemma digits_value_digits: "2 \<le> b \<Longrightarrow> digits_value b (digits b n) = n"
proof (induction b n rule: digits.induct)
  case (1 b n)
  show ?case
  proof (cases "n < b")
    case True
    then show ?thesis by (subst digits.simps) (simp add: digits_value_def)
  next
    case False
    then have "digits_value b (digits b (n div b)) = n div b" using "1" by simp
    then show ?thesis using "1.prems" False by (subst digits.simps) (simp add: digits_value_def)
  qed
qed

lemma digits_length: "2 \<le> b \<Longrightarrow> n < b ^ Suc k \<Longrightarrow> length (digits b n) \<le> Suc k"
proof (induction k arbitrary: n)
  case 0
  then show ?case by (subst digits.simps) simp
next
  case (Suc k)
  have "n div b < b ^ Suc k" using Suc.prems
    by (simp add: less_mult_imp_div_less mult.commute)
  then have "length (digits b (n div b)) \<le> Suc k" by (rule Suc.IH [OF Suc.prems(1)])
  then show ?case by (subst digits.simps) simp
qed

lemma digits_bound: "2 \<le> b \<Longrightarrow> n < b ^ length (digits b n)"
proof (induction b n rule: digits.induct)
  case (1 b n)
  show ?case
  proof (cases "n < b")
    case True
    then show ?thesis by (subst digits.simps) simp
  next
    case False
    then have "n div b < b ^ length (digits b (n div b))" using "1" by simp
    then have "n < b ^ length (digits b (n div b)) * b"
      using "1.prems" by (simp add: less_mult_imp_div_less div_less_iff_less_mult)
    then show ?thesis using "1.prems" False by (subst digits.simps) (simp add: mult.commute)
  qed
qed

lemma digit_table_mirror:
  assumes "d < 36"
  shows "digit_table ! (35 - d) = digit_char d"
proof -
  have "list_all (\<lambda>d. digit_table ! (35 - d) = digit_table ! (35 + d)) [0..<36]"
    by (simp add: digit_table_def upt_rec)
  then show ?thesis using assms by (simp add: list_all_iff digit_char_def)
qed

lemma digit_char_cases:
  assumes "d < 36"
  shows "schar (digit_char d) = (if d < 10 then 48 + int d else 87 + int d)"
proof -
  have "list_all (\<lambda>d. schar (digit_table ! (35 + d)) = (if d < 10 then 48 + int d else 87 + int d)) [0..<36]"
    by (simp add: digit_table_def upt_rec schar_def)
  then show ?thesis using assms by (simp add: list_all_iff digit_char_def)
qed

lemma digit_char_letter:
  assumes "d < 36"
  shows "digit_char d = ''0123456789abcdefghijklmnopqrstuvwxyz'' ! d"
proof -
  have "list_all (\<lambda>d. digit_table ! (35 + d) = ''0123456789abcdefghijklmnopqrstuvwxyz'' ! d) [0..<36]"
    by (simp add: digit_table_def upt_rec)
  then show ?thesis using assms by (simp add: list_all_iff digit_char_def)
qed

lemma digit_char_not_NUL: "d < 36 \<Longrightarrow> digit_char d \<noteq> NUL"
proof
  assume d: "d < 36" and "digit_char d = NUL"
  moreover have "schar NUL = 0" by (simp add: schar_def NUL_def)
  ultimately show False using digit_char_cases [OF d] by (simp split: if_splits)
qed

section \<open>What the conversions write\<close>

definition write_at :: "nat \<Rightarrow> char list \<Rightarrow> char list \<Rightarrow> char list" where
  "write_at p xs b = take p b @ xs @ drop (p + length xs) b"

lemma write_at_Cons:
  "p < length b \<Longrightarrow> write_at (Suc p) xs (b[p := c]) = write_at p (c # xs) b"
  by (simp add: write_at_def take_Suc_conv_app_nth take_update_cancel)

lemma length_write_at [simp]:
  "p + length xs \<le> length b \<Longrightarrow> length (write_at p xs b) = length b"
  by (simp add: write_at_def)

lemma sdiv_smod_sign:
  fixes v :: int
  assumes "2 \<le> B"
  shows "v sdiv int B = sgn v * int (nat \<bar>v\<bar> div B)" and "v smod int B = sgn v * int (nat \<bar>v\<bar> mod B)"
proof -
  have B: "sgn (int B) = 1" "\<bar>int B\<bar> = int B" using assms by simp_all
  have B0: "0 < B" using assms by simp
  show "v sdiv int B = sgn v * int (nat \<bar>v\<bar> div B)"
    by (simp add: signed_divide_int_def B B0 zdiv_int)
  show "v smod int B = sgn v * int (nat \<bar>v\<bar> mod B)"
    by (simp add: signed_modulo_int_def B zmod_int)
qed

lemma table_index:
  fixes v :: int
  assumes "2 \<le> B" "B \<le> 36"
  shows "digit_table ! nat (35 + v smod int B) = digit_char (nat \<bar>v\<bar> mod B)"
proof -
  let ?d = "nat \<bar>v\<bar> mod B"
  have "?d < B" using assms by simp
  then have d: "?d < 36" using assms(2) by simp
  show ?thesis
  proof (cases "v < 0")
    case True
    then have "nat (35 + v smod int B) = 35 - ?d" by (simp add: sdiv_smod_sign [OF assms(1)])
    then show ?thesis using digit_table_mirror [OF d] by simp
  next
    case False
    then have "nat (35 + v smod int B) = 35 + ?d"
      by (cases "v = 0") (simp_all add: sdiv_smod_sign [OF assms(1)])
    then show ?thesis by (simp add: digit_char_def)
  qed
qed

lemma numeral_text_step:
  "2 \<le> B \<Longrightarrow> rev (numeral_text B n) =
     digit_char (n mod B) # (if n < B then [] else rev (numeral_text B (n div B)))"
  by (simp add: numeral_text_def digits.simps[of B n])

definition loop_result :: "nat \<Rightarrow> char list \<Rightarrow> char list \<Rightarrow> (nat \<times> char list) option" where
  "loop_result p ds b =
     (if p + length ds \<le> length b then Some (p + length ds, write_at p ds b) else None)"

lemma loop_result_step:
  "loop_result p (c # ds) b =
     (case store b p c of None \<Rightarrow> None | Some b' \<Rightarrow> loop_result (p + 1) ds b')"
  by (simp add: loop_result_def store_def write_at_Cons)

lemma loop_result_Nil: "p \<le> length b \<Longrightarrow> loop_result p [] b = Some (p, b)"
  by (simp add: loop_result_def write_at_def)

lemma store_length: "store b p c = Some b' \<Longrightarrow> length b' = length b \<and> p < length b"
  by (auto simp: store_def split: if_splits)

lemma itoa_loop_digits:
  assumes "2 \<le> B" "B \<le> 36"
  shows "itoa_loop v (int B) p b = loop_result p (rev (numeral_text B (nat \<bar>v\<bar>))) b"
proof (induction v "int B" p b rule: itoa_loop.induct)
  case (1 v p b)
  have z: "v sdiv int B \<noteq> 0 \<longleftrightarrow> \<not> nat \<bar>v\<bar> < B"
    using assms(1) by (auto simp: sdiv_smod_sign(1) sgn_if div_eq_0_iff)
  have a: "nat \<bar>v sdiv int B\<bar> = nat \<bar>v\<bar> div B"
    by (cases "v = 0") (simp_all add: sdiv_smod_sign(1) [OF assms(1)] abs_mult abs_sgn_eq)
  show ?case
  proof (cases "store b p (digit_char (nat \<bar>v\<bar> mod B))")
    case None
    then show ?thesis
      by (simp add: itoa_loop.simps[of v] table_index assms numeral_text_step loop_result_step)
  next
    case (Some b')
    have "itoa_loop (v sdiv int B) (int B) (p + 1) b'
        = loop_result (p + 1) (rev (numeral_text B (nat \<bar>v\<bar> div B))) b'"
      if "v sdiv int B \<noteq> 0"
      using "1"[of b'] that Some a by (simp add: table_index assms)
    then show ?thesis using Some z store_length [OF Some]
      by (simp add: itoa_loop.simps[of v] table_index assms numeral_text_step loop_result_step
          loop_result_Nil)
  qed
qed

lemma unat_table_index:
  fixes v base :: u32
  assumes "2 \<le> base" "base \<le> 36"
  shows "digit_table ! unat (35 + v mod base) = digit_char (unat v mod unat base)"
proof -
  have b: "2 \<le> unat base" "unat base \<le> 36" using assms by (simp_all add: word_le_nat_alt)
  then have "unat v mod unat base < 36" by (meson less_le_trans mod_less_divisor le_less_trans zero_less_numeral not_le)
  then have "unat (35 + v mod base) = 35 + unat v mod unat base"
    by (simp add: unat_word_ariths)
  then show ?thesis by (simp add: digit_char_def)
qed

lemma utoa_loop_digits:
  assumes "2 \<le> base" "base \<le> 36"
  shows "utoa_loop v base p b = loop_result p (rev (numeral_text (unat base) (unat v))) b"
  using assms
proof (induction v base p b rule: utoa_loop.induct)
  case (1 v base p b)
  have B: "2 \<le> unat base" using "1.prems"(1) by (simp add: word_le_nat_alt)
  have z: "v div base \<noteq> 0 \<longleftrightarrow> \<not> unat v < unat base"
    using B by (simp add: word_unat_eq_iff unat_div div_eq_0_iff)
  show ?case
  proof (cases "store b p (digit_char (unat v mod unat base))")
    case None
    then show ?thesis
      by (simp add: utoa_loop.simps[of v] unat_table_index "1.prems" numeral_text_step B loop_result_step)
  next
    case (Some b')
    have "utoa_loop (v div base) base (p + 1) b'
        = loop_result (p + 1) (rev (numeral_text (unat base) (unat v div unat base))) b'"
      if "v div base \<noteq> 0"
      using "1.IH"[of b'] "1.prems" that Some by (simp add: unat_table_index unat_div)
    then show ?thesis using Some z store_length [OF Some]
      by (simp add: utoa_loop.simps[of v] unat_table_index "1.prems" numeral_text_step B loop_result_step
          loop_result_Nil)
  qed
qed

lemma swap_loop_rev:
  "swap_loop (length xs) (length xs + length ys - 1) (xs @ ys @ zs) = xs @ rev ys @ zs"
proof (induction "length ys" arbitrary: xs ys zs rule: less_induct)
  case less
  show ?case
  proof (cases "length ys < 2")
    case True
    then have "rev ys = ys" by (cases ys; cases "tl ys") auto
    moreover have "\<not> length xs < length xs + length ys - 1" using True by simp
    ultimately show ?thesis by (subst swap_loop.simps) (simp only: if_False)
  next
    case False
    then obtain a mid b where ys: "ys = a # mid @ [b]"
      by (cases ys; cases "tl ys" rule: rev_cases) auto
    have "swap_loop (length xs) (length xs + length ys - 1) (xs @ ys @ zs)
        = swap_loop (length (xs @ [b])) (length (xs @ [b]) + length mid - 1) ((xs @ [b]) @ mid @ a # zs)"
      by (subst swap_loop.simps) (simp add: ys nth_append list_update_append)
    also have "\<dots> = (xs @ [b]) @ rev mid @ a # zs"
      by (rule less) (simp add: ys)
    finally show ?thesis by (simp add: ys)
  qed
qed

lemma finish_result:
  assumes "ds \<noteq> []" "p \<le> length b"
  shows "finish p (loop_result p ds b) =
    (if p + length ds < length b then Some (write_at p (rev ds @ [NUL]) b) else None)"
proof (cases "p + length ds < length b")
  case True
  let ?tl = "drop (p + length ds + 1) b"
  have "(write_at p ds b)[p + length ds := NUL] = take p b @ ds @ NUL # ?tl"
    using True by (simp add: write_at_def list_update_append min_def Cons_nth_drop_Suc [symmetric])
  moreover have "swap_loop p (p + length ds - 1) (take p b @ ds @ NUL # ?tl)
      = take p b @ rev ds @ NUL # ?tl"
    using swap_loop_rev[of "take p b" ds "NUL # ?tl"] assms(2) by (simp add: min_absorb2)
  ultimately show ?thesis using True
    by (simp add: finish_def loop_result_def store_def write_at_def)
next
  case False
  then show ?thesis using assms by (simp add: finish_def loop_result_def store_def)
qed

lemma numeral_text_nonempty: "numeral_text b n \<noteq> []"
  by (simp add: numeral_text_def digits_nonempty)

text \<open>
  \<open>itoa\<close> and \<open>utoa\<close> write the text of the number, NUL-terminated, at the start of the buffer,
  and run past its end exactly when text and NUL do not fit.
\<close>

lemma itoa_decimal:
  "itoa v str 10 =
     (if length (decimal_text v) < length str then Some (write_at 0 (decimal_text v @ [NUL]) str)
      else None)"
proof (cases "v < 0")
  case True
  let ?t = "numeral_text 10 (nat (- v))"
  have loop: "itoa_loop v 10 1 b = loop_result 1 (rev ?t) b" for b
    using itoa_loop_digits[of 10 v 1 b] True by (simp del: One_nat_def)
  show ?thesis
  proof (cases str)
    case Nil
    then show ?thesis using True by (simp add: itoa_def store_def)
  next
    case (Cons c b)
    then have "itoa v str 10 = finish 1 (loop_result 1 (rev ?t) (CHR ''-'' # b))"
      using True by (simp add: itoa_def store_def loop del: One_nat_def)
    then show ?thesis using Cons True
      by (simp add: finish_result numeral_text_nonempty decimal_text_def write_at_def)
  qed
next
  case False
  then have "itoa v str 10 = finish 0 (loop_result 0 (rev (numeral_text 10 (nat v))) str)"
    using itoa_loop_digits[of 10 v 0 str] by (simp add: itoa_def)
  then show ?thesis using False
    by (simp add: finish_result numeral_text_nonempty decimal_text_def)
qed

lemma utoa_numeral:
  assumes "2 \<le> base" "base \<le> 36"
  shows "utoa v str base =
     (let t = numeral_text (unat base) (unat v)
      in if length t < length str then Some (write_at 0 (t @ [NUL]) str) else None)"
  using assms by (simp add: utoa_def utoa_loop_digits finish_result numeral_text_nonempty Let_def
      not_less [symmetric])

lemma numeral_text_no_NUL: "2 \<le> b \<Longrightarrow> b \<le> 36 \<Longrightarrow> \<forall>c \<in> set (numeral_text b n). c \<noteq> NUL"
  using digits_less[of b n] digit_char_not_NUL order.strict_trans2[of _ b 36]
  by (auto simp: numeral_text_def)

lemma decimal_text_no_NUL: "\<forall>c \<in> set (decimal_text v). c \<noteq> NUL"
  using numeral_text_no_NUL[of 10] by (auto simp: decimal_text_def NUL_def)

lemma cstr_write_at: "\<forall>c \<in> set t. c \<noteq> NUL \<Longrightarrow> cstr (write_at 0 (t @ [NUL]) b) = t"
  by (simp add: cstr_def write_at_def takeWhile_append)

section \<open>Reading a number back\<close>

lemma digit_char_class:
  assumes "d < 10"
  shows "isdigit (schar (digit_char d))" "schar (digit_char d) - 48 = int d"
    "\<not> isspace (schar (digit_char d))" "digit_char d \<noteq> CHR ''-''" "digit_char d \<noteq> CHR ''+''"
proof -
  have s: "schar (digit_char d) = 48 + int d" using digit_char_cases[of d] assms by simp
  then show "isdigit (schar (digit_char d))" "schar (digit_char d) - 48 = int d"
    "\<not> isspace (schar (digit_char d))" using assms by (simp_all add: isdigit_def isspace_def)
  have "schar (CHR ''-'') = 45" "schar (CHR ''+'') = 43" by (simp_all add: schar_def)
  then show "digit_char d \<noteq> CHR ''-''" "digit_char d \<noteq> CHR ''+''" using s by auto
qed

lemma digits_value_ge: "acc \<le> foldl (\<lambda>acc d. 10 * acc + d) acc (ds :: nat list)"
proof (induction ds arbitrary: acc)
  case (Cons d ds)
  from Cons[of "10 * acc + d"] show ?case by simp
qed simp

lemma ato_digits_value:
  assumes "\<forall>d \<in> set ds. d < 10" "foldl (\<lambda>acc d. 10 * acc + d) acc ds \<le> 2 ^ (w - 1)"
  shows "ato_digits w (- int acc) (map digit_char ds) = Some (- int (foldl (\<lambda>acc d. 10 * acc + d) acc ds))"
  using assms
proof (induction ds arbitrary: acc)
  case (Cons d ds)
  have le: "10 * acc + d \<le> 2 ^ (w - 1)"
    using digits_value_ge[of "10 * acc + d" ds] Cons.prems(2) by simp
  then have i: "int (10 * acc + d) \<le> 2 ^ (w - 1)" by (metis of_nat_le_iff of_nat_numeral of_nat_power)
  have "(0::int) < 2 ^ (w - 1)" by simp
  with i have "- (10 * int acc) < 2 ^ (w - 1)" "- int (10 * acc + d) < 2 ^ (w - 1)"
    by linarith+
  with i have "fits w (10 * - int acc)" "fits w (- int (10 * acc + d))"
    by (simp_all add: fits_def)
  moreover have "10 * - int acc - int d = - int (10 * acc + d)" by simp
  ultimately show ?case
    using Cons.IH[of "10 * acc + d"] Cons.prems digit_char_class[of d] by (simp add: Let_def)
qed simp

lemma ato_decimal_text:
  assumes "fits w v"
  shows "ato w (decimal_text v) = Some v"
proof -
  define n where "n = nat \<bar>v\<bar>"
  let ?ds = "digits 10 n"
  obtain d ds where ds: "?ds = d # ds" "d < 10"
    using digits_nonempty[of 10 n] digits_less[of 10 n] by (cases ?ds) auto
  have head: "dropWhile (\<lambda>c. isspace (schar c)) (numeral_text 10 n) = numeral_text 10 n"
    "ato_sign (numeral_text 10 n) = (False, numeral_text 10 n)"
    using digit_char_class[OF ds(2)] by (simp_all add: numeral_text_def ds ato_sign_def)
  have "int n \<le> 2 ^ (w - 1)" using assms by (auto simp: n_def fits_def)
  then have "n \<le> 2 ^ (w - 1)" by (metis of_nat_le_iff of_nat_numeral of_nat_power)
  then have d: "ato_digits w 0 (numeral_text 10 n) = Some (- int n)"
    using ato_digits_value[of ?ds 0 w] digits_less[of 10 n] digits_value_digits[of 10 n]
    by (simp add: numeral_text_def digits_value_def)
  show ?thesis
  proof (cases "v < 0")
    case True
    then have "decimal_text v = CHR ''-'' # numeral_text 10 n" "v = - int n"
      by (simp_all add: decimal_text_def n_def)
    moreover have "\<not> isspace (schar (CHR ''-''))" by (simp add: schar_def isspace_def)
    ultimately show ?thesis using d by (simp add: ato_def ato_sign_def)
  next
    case False
    then have "decimal_text v = numeral_text 10 n" "v = int n"
      by (simp_all add: decimal_text_def n_def)
    then show ?thesis using d head assms by (simp add: ato_def)
  qed
qed

lemma decimal_text_length: "fits 32 v \<Longrightarrow> length (decimal_text v) \<le> 11"
proof -
  assume f: "fits 32 v"
  then have "nat \<bar>v\<bar> < 10 ^ Suc 9" by (auto simp: fits_def)
  then have "length (numeral_text 10 (nat \<bar>v\<bar>)) \<le> 10"
    using digits_length[of 10 "nat \<bar>v\<bar>" 9] by (simp add: numeral_text_def)
  then show ?thesis by (auto simp: decimal_text_def)
qed

text \<open>No leading zeros.\<close>

lemma digits_head:
  "2 \<le> b \<Longrightarrow> hd (digits b n) = 0 \<Longrightarrow> digits b n = [0]"
proof (induction b n rule: digits.induct)
  case (1 b n)
  show ?case
  proof (cases "n < b")
    case True
    then have "digits b n = [n]" by (simp add: digits.simps[of b n] del: digits.simps)
    then show ?thesis using "1.prems" by simp
  next
    case False
    then have step: "digits b n = digits b (n div b) @ [n mod b]"
      using "1.prems"(1) by (simp add: digits.simps[of b n] del: digits.simps)
    then have "digits b (n div b) = [0]" using 1 False by (simp add: digits_nonempty)
    then have "n div b = 0" using digits_value_digits[OF "1.prems"(1), of "n div b"] by (simp add: digits_value_def)
    then show ?thesis using False "1.prems"(1) by (simp add: div_eq_0_iff)
  qed
qed

text \<open>Nine digits never overflow an \<open>int\<close>.\<close>

lemma ato_digits_bound:
  assumes "list_all (\<lambda>c. isdigit (schar c)) s" "- (10 ^ k) < n" "n \<le> 0" "k + length s \<le> 9"
  shows "\<exists>m. ato_digits 32 n s = Some m \<and> - (10 ^ 9) < m \<and> m \<le> 0"
  using assms
proof (induction s arbitrary: n k)
  case Nil
  then have "(10 :: int) ^ k \<le> 10 ^ 9" by (intro power_increasing) simp_all
  then show ?case using Nil by simp
next
  case (Cons c s)
  define d where "d = schar c - 48"
  have d: "isdigit (schar c)" "0 \<le> d" "d \<le> 9" using Cons.prems(1) by (auto simp: isdigit_def d_def)
  have n: "- (10 ^ Suc k) < 10 * n - d" "10 * n - d \<le> 0"
    using Cons.prems(2,3) d by simp_all
  have "(10 :: int) ^ Suc k \<le> 10 ^ 9" using Cons.prems(4) by (intro power_increasing) simp_all
  then have "fits 32 (10 * n)" "fits 32 (10 * n - d)"
    using n d Cons.prems(3) by (simp_all add: fits_def)
  moreover have "\<exists>m. ato_digits 32 (10 * n - d) s = Some m \<and> - (10 ^ 9) < m \<and> m \<le> 0"
    using Cons.IH[OF _ n] Cons.prems by simp
  ultimately show ?case using d(1) by (simp add: Let_def flip: d_def)
qed

lemma atoi_digits:
  assumes "list_all (\<lambda>c. isdigit (schar c)) s" "length s \<le> 9"
  shows "\<exists>m. atoi s = Some m \<and> 0 \<le> m"
proof -
  have "\<not> isspace (schar c) \<and> c \<noteq> CHR ''-'' \<and> c \<noteq> CHR ''+''" if "isdigit (schar c)" for c
    using that by (auto simp: isdigit_def isspace_def schar_def)
  then have "ato_sign (dropWhile (\<lambda>c. isspace (schar c)) s) = (False, s)"
    using assms(1) by (cases s) (auto simp: ato_sign_def)
  then show ?thesis
    using ato_digits_bound[OF assms(1), of 0 0] assms(2) by (auto simp: atoi_def ato_def fits_def)
qed

section \<open>Properties\<close>

text \<open>C33: \<open>itoa\<close> in base 10 writes a string that \<open>atoi\<close> reads back as the same \<open>int\<close>, for every \<open>int\<close>,
  \<open>INT_MIN\<close> included, and never writes past a buffer of 12 characters.\<close>

theorem atoi_itoa:
  assumes "fits 32 v" and "12 \<le> length str"
  shows "\<exists>b. itoa v str 10 = Some b \<and> length b = length str \<and> atoi (cstr b) = Some v"
proof -
  have "length (decimal_text v) \<le> 11" using decimal_text_length[OF assms(1)] .
  then have "itoa v str 10 = Some (write_at 0 (decimal_text v @ [NUL]) str)"
    using assms(2) by (simp add: itoa_decimal)
  then show ?thesis
    using ato_decimal_text[OF assms(1)] \<open>length (decimal_text v) \<le> 11\<close> assms(2)
    by (simp add: cstr_write_at decimal_text_no_NUL atoi_def)
qed

theorem atoi_itoa_witness:
  "\<exists>b. itoa (- 2147483648) (replicate 12 NUL) 10 = Some b \<and> length b = 12 \<and> atoi (cstr b) = Some (- 2147483648)"
  using atoi_itoa[of "- 2147483648" "replicate 12 NUL"] by (simp add: fits_def)

text \<open>C34: in any base from 2 to 36 \<open>utoa\<close> writes the digits of the number, most significant first and
  without a leading zero, into a buffer that is long enough; the digits are \<open>0\<close> to \<open>9\<close> and then \<open>a\<close> to \<open>z\<close>,
  and they denote the number.\<close>

theorem utoa_denotes:
  assumes "2 \<le> base" "base \<le> 36" "unat v < unat base ^ k" "0 < k" "k < length str"
  shows "\<exists>b ds. utoa v str base = Some b \<and> cstr b = map ((!) ''0123456789abcdefghijklmnopqrstuvwxyz'') ds
    \<and> digits_value (unat base) ds = unat v \<and> (\<forall>d \<in> set ds. d < unat base)
    \<and> ds \<noteq> [] \<and> (hd ds = 0 \<longrightarrow> ds = [0])"
proof -
  let ?b = "unat base" and ?ds = "digits (unat base) (unat v)"
  have b: "2 \<le> ?b" "?b \<le> 36" using assms(1,2) by (simp_all add: word_le_nat_alt)
  have "length ?ds \<le> k" using digits_length[of ?b "unat v" "k - 1"] assms(3,4) b by simp
  then have "utoa v str base = Some (write_at 0 (numeral_text ?b (unat v) @ [NUL]) str)"
    using assms(5) utoa_numeral[OF assms(1,2)] by (simp add: Let_def numeral_text_def)
  moreover have "cstr (write_at 0 (numeral_text ?b (unat v) @ [NUL]) str) = map digit_char ?ds"
    using cstr_write_at numeral_text_no_NUL[OF b] by (simp add: numeral_text_def)
  moreover have "map digit_char ?ds = map ((!) ''0123456789abcdefghijklmnopqrstuvwxyz'') ?ds"
    using digits_less[OF b(1)] b(2) by (fastforce intro: digit_char_letter)
  ultimately show ?thesis
    using digits_value_digits[OF b(1)] digits_less[OF b(1)] digits_nonempty digits_head[OF b(1)]
    by (intro exI[of _ "write_at 0 (numeral_text ?b (unat v) @ [NUL]) str"] exI[of _ ?ds]) auto
qed

theorem utoa_denotes_witness:
  "\<exists>b ds. utoa 0xBEEF (replicate 9 NUL) 16 = Some b
     \<and> cstr b = map ((!) ''0123456789abcdefghijklmnopqrstuvwxyz'') ds \<and> digits_value 16 ds = 0xBEEF"
  using utoa_denotes[where base = 16 and v = "0xBEEF" and k = 4 and str = "replicate 9 NUL"] by auto

text \<open>Nine digits are never too many for \<open>atoi\<close>: it returns a value without overflow.\<close>

theorem atoi_nine_digits:
  assumes "list_all (\<lambda>c. isdigit (schar c)) s" "length s \<le> 9"
  shows "\<exists>n. atoi s = Some n \<and> 0 \<le> n"
  using atoi_digits[OF assms] .

theorem atoi_nine_digits_witness: "\<exists>n. atoi ''999999999'' = Some n \<and> 0 \<le> n"
  by (rule atoi_nine_digits) (simp_all add: isdigit_def schar_def)

end
