(* ===== verification/Screen.thy ===== *)
theory Screen
  imports Ctype
begin

unbundle bit_operations_syntax

text \<open>
  The screen half of \<open>kernel/src/cpu/devices/tty.c\<close> with \<open>tty.h\<close> and the context record of
  \<open>ansi_interpreter.h\<close>: the terminal's static variables, its getters and setters, and the
  functions that write the VGA text buffer.

  The statics of \<open>tty.c\<close> are one record. \<open>vga\<close> is the text memory that \<open>term_buffer\<close> points
  to, read by cell number: the code's \<open>term_buffer[i]\<close> is \<open>vga t i\<close> for any \<open>i\<close>, so that an
  access past the 80 x 25 cells would show.
\<close>

section \<open>State\<close>

datatype ansi_interpreter_state = NORMAL | BRACKET | PARAMS

definition ANSI_BUFFER_SIZE :: nat where
  "ANSI_BUFFER_SIZE = 32"

record ansi_interpreter_context =
  ansi_state :: ansi_interpreter_state
  ansi_buf :: "char list"
  ansi_args :: "u32 list"
  current_arg :: u32
  current_index :: u32
  saved_row :: u32
  saved_col :: u32

datatype term_vga_color =
    COLOR_BLACK | COLOR_BLUE | COLOR_GREEN | COLOR_CYAN | COLOR_RED | COLOR_MAGENTA
  | COLOR_BROWN | COLOR_LIGHT_GREY | COLOR_DARK_GREY | COLOR_LIGHT_BLUE | COLOR_LIGHT_GREEN
  | COLOR_LIGHT_CYAN | COLOR_LIGHT_RED | COLOR_LIGHT_MAGENTA | COLOR_YELLOW | COLOR_WHITE
  | COLOR_COUNT

primrec color_code :: "term_vga_color \<Rightarrow> u32" where
  "color_code COLOR_BLACK = 0"
| "color_code COLOR_BLUE = 1"
| "color_code COLOR_GREEN = 2"
| "color_code COLOR_CYAN = 3"
| "color_code COLOR_RED = 4"
| "color_code COLOR_MAGENTA = 5"
| "color_code COLOR_BROWN = 6"
| "color_code COLOR_LIGHT_GREY = 7"
| "color_code COLOR_DARK_GREY = 8"
| "color_code COLOR_LIGHT_BLUE = 9"
| "color_code COLOR_LIGHT_GREEN = 10"
| "color_code COLOR_LIGHT_CYAN = 11"
| "color_code COLOR_LIGHT_RED = 12"
| "color_code COLOR_LIGHT_MAGENTA = 13"
| "color_code COLOR_YELLOW = 14"
| "color_code COLOR_WHITE = 15"
| "color_code COLOR_COUNT = 16"

definition VGA_WIDTH :: u32 where "VGA_WIDTH = 80"
definition VGA_HEIGHT :: u32 where "VGA_HEIGHT = 25"
definition VGA_MEMORY :: u32 where "VGA_MEMORY = 0xB8000"

lemmas vga_defs = VGA_WIDTH_def VGA_HEIGHT_def VGA_MEMORY_def

record tty =
  ctx :: ansi_interpreter_context
  term_row :: u32
  term_column :: u32
  term_color :: u8
  term_buffer :: u32
  vga :: "nat \<Rightarrow> u16"

text \<open>The loops over the screen count up to its size in cells.\<close>

definition cols :: "nat list" where "cols = [0..<unat VGA_WIDTH]"
definition rows :: "nat list" where "rows = [0..<unat VGA_HEIGHT]"

definition vga_index :: "u32 \<Rightarrow> u32 \<Rightarrow> nat" where
  "vga_index x y = unat (y * VGA_WIDTH + x)"

definition set_cell :: "u32 \<Rightarrow> u32 \<Rightarrow> u16 \<Rightarrow> tty \<Rightarrow> tty" where
  "set_cell x y e t = t\<lparr>vga := (vga t)(vga_index x y := e)\<rparr>"

section \<open>Operations\<close>

definition term_make_color :: "u32 \<Rightarrow> u32 \<Rightarrow> u8" where
  "term_make_color fg bg = ucast (fg OR push_bit 4 bg)"

text \<open>The character is widened with its sign.\<close>

definition term_make_entry :: "char \<Rightarrow> u8 \<Rightarrow> u16" where
  "term_make_entry c color =
     (let c16 = word_of_int (schar c); color16 = ucast color in c16 OR push_bit 8 color16)"

definition term_get_row :: "tty \<Rightarrow> u32" where
  "term_get_row t = term_row t"

definition term_get_column :: "tty \<Rightarrow> u32" where
  "term_get_column t = term_column t"

definition term_get_color :: "tty \<Rightarrow> u8" where
  "term_get_color t = term_color t"

definition term_get_fg_color :: "tty \<Rightarrow> u8" where
  "term_get_fg_color t = term_color t AND 0x0F"

definition term_get_bg_color :: "tty \<Rightarrow> u8" where
  "term_get_bg_color t = drop_bit 4 (term_color t)"

definition term_get_buffer :: "tty \<Rightarrow> u32" where
  "term_get_buffer t = term_buffer t"

definition term_set_row :: "u32 \<Rightarrow> tty \<Rightarrow> tty" where
  "term_set_row row t = t\<lparr>term_row := row\<rparr>"

definition term_set_column :: "u32 \<Rightarrow> tty \<Rightarrow> tty" where
  "term_set_column column t = t\<lparr>term_column := column\<rparr>"

definition term_set_color :: "u8 \<Rightarrow> tty \<Rightarrow> tty" where
  "term_set_color color t = t\<lparr>term_color := color\<rparr>"

definition term_set_bg_color :: "u32 \<Rightarrow> tty \<Rightarrow> tty" where
  "term_set_bg_color color t =
     t\<lparr>term_color := term_make_color (ucast (term_get_fg_color t)) color\<rparr>"

definition term_set_fg_color :: "u32 \<Rightarrow> tty \<Rightarrow> tty" where
  "term_set_fg_color color t =
     t\<lparr>term_color := term_make_color color (ucast (term_get_bg_color t))\<rparr>"

definition term_set_buffer :: "u32 \<Rightarrow> tty \<Rightarrow> tty" where
  "term_set_buffer buffer t = t\<lparr>term_buffer := buffer\<rparr>"

definition term_set_blink :: "bool \<Rightarrow> tty \<Rightarrow> tty" where
  "term_set_blink blink t =
     (if blink then t\<lparr>term_color := term_color t OR push_bit 7 1\<rparr>
      else t\<lparr>term_color := term_color t AND NOT (push_bit 7 1)\<rparr>)"

text \<open>The blank of \<open>term_init\<close> is made before the colour is set: it has the old colour.\<close>

definition term_init :: "tty \<Rightarrow> tty" where
  "term_init t =
     (let entry = term_make_entry (CHR '' '') (term_color t);
          t1 = t\<lparr>term_buffer := VGA_MEMORY\<rparr>;
          t2 = t1\<lparr>term_color := term_make_color (color_code COLOR_WHITE) (color_code COLOR_BLACK)\<rparr>;
          t3 = t2\<lparr>term_row := 0, term_column := 0\<rparr>
      in fold (\<lambda>x. fold (\<lambda>y. set_cell (of_nat x) (of_nat y) entry) rows) cols t3)"

definition recolor_cell :: "u32 \<Rightarrow> u32 \<Rightarrow> u32 \<Rightarrow> tty \<Rightarrow> tty" where
  "recolor_cell bg x y t =
     (let entry = vga t (vga_index x y);
          c = char_of (unat (entry AND 0xFF));
          fg = ucast (drop_bit 8 (entry AND 0x0F00))
      in set_cell x y (term_make_entry c (term_make_color fg bg)) t)"

definition term_change_bg_color :: "u32 \<Rightarrow> tty \<Rightarrow> tty" where
  "term_change_bg_color bg t =
     term_set_bg_color bg
       (fold (\<lambda>x. fold (\<lambda>y. recolor_cell bg (of_nat x) (of_nat y)) rows) cols t)"

definition term_putchar_at :: "char \<Rightarrow> u32 \<Rightarrow> u32 \<Rightarrow> tty \<Rightarrow> tty" where
  "term_putchar_at c x y t =
     (if y \<ge> VGA_HEIGHT \<or> x \<ge> VGA_WIDTH then t
      else set_cell x y (term_make_entry c (term_color t)) t)"

definition scroll_cell :: "u32 \<Rightarrow> u32 \<Rightarrow> tty \<Rightarrow> tty" where
  "scroll_cell x y t =
     (if y < VGA_HEIGHT - 1 then set_cell x y (vga t (vga_index x (y + 1))) t
      else set_cell x y (term_make_entry (CHR '' '') (term_color t)) t)"

definition term_scrolldown :: "tty \<Rightarrow> tty" where
  "term_scrolldown t =
     (let t' = fold (\<lambda>y. fold (\<lambda>x. scroll_cell (of_nat x) (of_nat y)) cols) rows t
      in t'\<lparr>term_row := term_row t' - 1\<rparr>)"

lemmas term_setter_defs = term_set_row_def term_set_column_def term_set_color_def
  term_set_bg_color_def term_set_fg_color_def term_set_buffer_def term_set_blink_def
lemmas term_getter_defs = term_get_row_def term_get_column_def term_get_color_def
  term_get_fg_color_def term_get_bg_color_def term_get_buffer_def

section \<open>Loops over the cells\<close>

text \<open>Two nested loops visit the pairs of their counters in order.\<close>

lemma fold_nested: "fold (\<lambda>x. fold (f x) ys) xs s = fold (\<lambda>(x, y). f x y) (List.product xs ys) s"
  by (induction xs arbitrary: s) (simp_all add: fold_map comp_def)

lemma fold_cells:
  "fold (\<lambda>p t. t\<lparr>vga := f p (term_color t) (vga t)\<rparr>) ps t
    = t\<lparr>vga := fold (\<lambda>p. f p (term_color t)) ps (vga t)\<rparr>"
  by (induction ps arbitrary: t) simp_all

lemma vga_index_small: "x < 80 \<Longrightarrow> y < 25 \<Longrightarrow> vga_index (of_nat x) (of_nat y) = y * 80 + x"
proof -
  assume "x < 80" "y < 25"
  then have "y * 80 + x < 2 ^ 32" by simp
  moreover have "(of_nat y * 80 + of_nat x :: u32) = of_nat (y * 80 + x)" by simp
  ultimately show ?thesis unfolding vga_index_def VGA_WIDTH_def by (metis of_nat_unat_u32)
qed

lemma grid_index: "map (\<lambda>(y, x). y * w + x) (List.product [0..<h] [0..<w]) = [0..<h * w]"
proof (induction h)
  case (Suc h)
  have "List.product [0..<Suc h] [0..<w] = List.product [0..<h] [0..<w] @ map (Pair h) [0..<w]"
    by (simp add: product_concat_map)
  moreover have "map (\<lambda>x. h * w + x) [0..<w] = [h * w..<Suc h * w]"
    by (rule nth_equalityI) (simp_all add: algebra_simps)
  ultimately show ?case
    using Suc upt_add_eq_append[of 0 "h * w" w] by (simp add: comp_def add.commute)
qed simp

text \<open>A loop that visits each cell once, writing a function of what it finds there.\<close>

lemma fold_pointwise:
  assumes "distinct (map idx ps)"
  shows "fold (\<lambda>p m. m(idx p := g (m (idx p)))) ps m = (\<lambda>i. if i \<in> idx ` set ps then g (m i) else m i)"
  using assms by (induction ps arbitrary: m) (auto simp: fun_eq_iff)

lemma cell_decompose: "i < (2000::nat) \<longleftrightarrow> (\<exists>x < 80. \<exists>y < 25. i = y * 80 + x)"
proof
  assume "i < 2000"
  then have "i mod 80 < 80" "i div 80 < 25" "i = i div 80 * 80 + i mod 80" by simp_all
  then show "\<exists>x < 80. \<exists>y < 25. i = y * 80 + x" by blast
qed auto

lemma grid_inj:
  fixes x y x' y' :: nat
  assumes "x < 80" "x' < 80" "y * 80 + x = y' * 80 + x'"
  shows "x = x' \<and> y = y'"
proof -
  have "x = (y * 80 + x) mod 80" "x' = (y' * 80 + x') mod 80" using assms(1,2) by simp_all
  moreover have "y = (y * 80 + x) div 80" "y' = (y' * 80 + x') div 80" using assms(1,2) by simp_all
  ultimately show ?thesis using assms(3) by metis
qed

lemma columns_distinct: "distinct (map (\<lambda>(x, y). y * 80 + x) (List.product [0..<80] [0..<25::nat]))"
proof -
  have "inj_on (\<lambda>(x, y). y * 80 + x :: nat) ({0..<80} \<times> {0..<25})"
    by (rule inj_onI) (auto dest: grid_inj)
  then show ?thesis by (simp add: distinct_map distinct_product set_product)
qed

lemma column_loop:
  assumes "\<And>x y t. x < 80 \<Longrightarrow> y < 25 \<Longrightarrow>
      f (of_nat x) (of_nat y) t = t\<lparr>vga := (vga t)(y * 80 + x := g (vga t (y * 80 + x)))\<rparr>"
  shows "fold (\<lambda>x. fold (\<lambda>y. f (of_nat x) (of_nat y)) rows) cols t
      = t\<lparr>vga := \<lambda>i. if i < 2000 then g (vga t i) else vga t i\<rparr>"
proof -
  let ?ps = "List.product [0..<80] [0..<25::nat]"
  let ?idx = "\<lambda>(x, y). y * 80 + x :: nat"
  have "fold (\<lambda>x. fold (\<lambda>y. f (of_nat x) (of_nat y)) rows) cols t
      = fold (\<lambda>(x, y). f (of_nat x) (of_nat y)) ?ps t"
    by (simp add: fold_nested rows_def cols_def vga_defs)
  also have "\<dots> = fold (\<lambda>p t. t\<lparr>vga := (vga t)(?idx p := g (vga t (?idx p)))\<rparr>) ?ps t"
    by (rule fold_cong) (auto simp: assms set_product fun_eq_iff)
  also have "\<dots> = t\<lparr>vga := fold (\<lambda>p m. m(?idx p := g (m (?idx p)))) ?ps (vga t)\<rparr>"
    by (rule fold_cells [where f = "\<lambda>p _ m. m(?idx p := g (m (?idx p)))"])
  also have "\<dots> = t\<lparr>vga := \<lambda>i. if i \<in> ?idx ` set ?ps then g (vga t i) else vga t i\<rparr>"
    by (simp only: fold_pointwise [OF columns_distinct])
  also have "?idx ` set ?ps = {i. i < 2000}"
    by (auto simp: set_product image_iff cell_decompose)
  finally show ?thesis by simp
qed

lemma term_init_eq:
  "term_init t = t\<lparr>term_buffer := VGA_MEMORY, term_color := 15, term_row := 0, term_column := 0,
     vga := \<lambda>i. if i < 2000 then term_make_entry (CHR '' '') (term_color t) else vga t i\<rparr>"
  unfolding term_init_def Let_def
  by (subst column_loop) (simp_all add: set_cell_def vga_index_small term_make_color_def cong: if_cong)

lemma term_change_bg_color_vga:
  "vga (term_change_bg_color bg t) i =
     (if i < 2000
      then term_make_entry (char_of (unat (vga t i AND 0xFF)))
             (term_make_color (ucast (drop_bit 8 (vga t i AND 0x0F00))) bg)
      else vga t i)"
  unfolding term_change_bg_color_def
  by (subst column_loop) (simp_all add: recolor_cell_def set_cell_def vga_index_small Let_def term_setter_defs
      cong: if_cong)

text \<open>Scrolling overwrites the cells from the top, each with the one below it, not yet overwritten.\<close>

lemma fold_shift:
  "n \<le> 2000 \<Longrightarrow> fold (\<lambda>i m. m(i := if i < 1920 then m (i + 80) else b)) [0..<n] m
     = (\<lambda>i. if i < n then if i < 1920 then m (i + 80) else b else m i)"
  by (induction n) (auto simp: fun_eq_iff less_Suc_eq)

lemma term_scrolldown_eq:
  "term_scrolldown t = t\<lparr>term_row := term_row t - 1,
     vga := \<lambda>i. if i < 1920 then vga t (i + 80)
                 else if i < 2000 then term_make_entry (CHR '' '') (term_color t) else vga t i\<rparr>"
proof -
  let ?ps = "List.product [0..<25] [0..<80::nat]"
  let ?idx = "\<lambda>(y, x). y * 80 + x :: nat"
  let ?b = "\<lambda>t. term_make_entry (CHR '' '') (term_color t)"
  let ?g = "\<lambda>c i m. m(i := if i < 1920 then m (i + 80) else term_make_entry (CHR '' '') c)"
  have cell: "scroll_cell (of_nat x) (of_nat y) t = t\<lparr>vga := ?g (term_color t) (y * 80 + x) (vga t)\<rparr>"
    if "x < 80" "y < 25" for x y t
  proof -
    have y: "(of_nat y :: u32) < VGA_HEIGHT - 1 \<longleftrightarrow> y < 24"
      using that by (simp add: word_less_nat_alt unat_of_nat vga_defs)
    have i: "y * 80 + x < 1920 \<longleftrightarrow> y < 24" using that(1) by (intro iffI) linarith+
    have next_row: "vga_index (of_nat x) (of_nat y + 1) = y * 80 + x + 80" if "y < 24"
      using vga_index_small[of x "Suc y"] that \<open>x < 80\<close> by (simp add: add.commute)
    show ?thesis
    proof (cases "y < 24")
      case True
      then show ?thesis
        using that by (simp only: scroll_cell_def y i set_cell_def vga_index_small next_row if_True)
    next
      case False
      then show ?thesis
        using that by (simp only: scroll_cell_def y i set_cell_def vga_index_small if_False)
    qed
  qed
  have "fold (\<lambda>y. fold (\<lambda>x. scroll_cell (of_nat x) (of_nat y)) cols) rows t
      = fold (\<lambda>(y, x). scroll_cell (of_nat x) (of_nat y)) ?ps t"
    by (simp add: fold_nested rows_def cols_def vga_defs)
  also have "\<dots> = fold (\<lambda>p t. t\<lparr>vga := ?g (term_color t) (?idx p) (vga t)\<rparr>) ?ps t"
    by (rule fold_cong) (auto simp: cell set_product fun_eq_iff)
  also have "\<dots> = t\<lparr>vga := fold (\<lambda>p. ?g (term_color t) (?idx p)) ?ps (vga t)\<rparr>"
    by (rule fold_cells [where f = "\<lambda>p c. ?g c (?idx p)"])
  also have "fold (\<lambda>p. ?g (term_color t) (?idx p)) ?ps (vga t) = fold (?g (term_color t)) [0..<2000] (vga t)"
    using fold_map[of "?g (term_color t)" ?idx ?ps] grid_index[of 80 25] by (simp add: comp_def)
  also have "\<dots> = (\<lambda>i. if i < 2000 then if i < 1920 then vga t (i + 80) else ?b t else vga t i)"
    by (rule fold_shift) simp
  finally show ?thesis
    by (simp add: term_scrolldown_def Let_def) (auto simp: fun_eq_iff intro: arg_cong)
qed

end
