(* ===== verification/Ansi.thy ===== *)
theory Ansi
  imports Screen Stdlib
begin

unbundle bit_operations_syntax

text \<open>
  \<open>kernel/src/cpu/misc/ansi_interpreter.c\<close>: the state machine that consumes escape sequences
  of the form ESC [ parameters letter. The context the code is handed is the terminal's own, the
  field \<open>ctx\<close> of \<open>tty\<close>. A write outside \<open>buf\<close> or \<open>args\<close>, and a parameter that overflows
  \<open>atoi\<close>, end in \<open>Undefined\<close>.
\<close>

definition ansi_init_context :: "ansi_interpreter_context \<Rightarrow> ansi_interpreter_context" where
  "ansi_init_context c = c\<lparr>ansi_state := NORMAL, current_arg := 0, current_index := 0,
     saved_row := 0, saved_col := 0\<rparr>"

definition set_state :: "ansi_interpreter_state \<Rightarrow> tty \<Rightarrow> tty" where
  "set_state st t = t\<lparr>ctx := (ctx t)\<lparr>ansi_state := st\<rparr>\<rparr>"

definition reset_params :: "tty \<Rightarrow> tty" where
  "reset_params t = t\<lparr>ctx := (ctx t)\<lparr>current_arg := 0, current_index := 0, ansi_state := NORMAL\<rparr>\<rparr>"

text \<open>\<open>ctx->buf[ctx->current_index] = '\0'; ctx->args[ctx->current_arg++] = atoi(ctx->buf)\<close>.\<close>

definition store_param :: "(tty, unit) action" where
  "store_param t =
     (let c = ctx t; i = unat (current_index c); a = unat (current_arg c)
      in if i \<ge> length (ansi_buf c) then Undefined OutOfBounds
         else let b = (ansi_buf c)[i := NUL]
              in case atoi (cstr b) of
                   None \<Rightarrow> Undefined SignedOverflow
                 | Some n \<Rightarrow>
                     if a \<ge> length (ansi_args c) then Undefined OutOfBounds
                     else Ok () (t\<lparr>ctx := c\<lparr>ansi_buf := b, ansi_args := (ansi_args c)[a := word_of_int n],
                                             current_arg := current_arg c + 1\<rparr>\<rparr>))"

definition store_digit :: "char \<Rightarrow> (tty, unit) action" where
  "store_digit ch t =
     (let c = ctx t; i = unat (current_index c)
      in if i \<ge> length (ansi_buf c) then Undefined OutOfBounds
         else Ok () (t\<lparr>ctx := c\<lparr>ansi_buf := (ansi_buf c)[i := ch], current_index := current_index c + 1\<rparr>\<rparr>))"

definition erase_line :: "tty \<Rightarrow> tty" where
  "erase_line t =
     fold (\<lambda>x t. term_putchar_at (CHR '' '') (of_nat x) (term_get_row t) t)
       [unat (term_get_column t)..<unat VGA_WIDTH] t"

text \<open>The \<open>switch\<close> on the final letter, up to the graphics mode.\<close>

definition cursor_command :: "char \<Rightarrow> tty \<Rightarrow> tty" where
  "cursor_command ch t =
     (let c = ctx t; arg0 = ansi_args c ! 0; arg1 = ansi_args c ! 1
      in if ch = CHR ''s'' then
           t\<lparr>ctx := c\<lparr>saved_row := term_get_row t, saved_col := term_get_column t, ansi_state := NORMAL\<rparr>\<rparr>
         else if ch = CHR ''u'' then
           set_state NORMAL (term_set_column (saved_col c) (term_set_row (saved_row c) t))
         else if ch = CHR ''K'' then set_state NORMAL (erase_line t)
         else if ch = CHR ''H'' \<or> ch = CHR ''f'' then term_set_column arg1 (term_set_row arg0 t)
         else if ch = CHR ''A'' then term_set_row (term_get_row t - arg0) t
         else if ch = CHR ''B'' then term_set_row (term_get_row t + arg0) t
         else if ch = CHR ''C'' then term_set_column (term_get_column t + arg0) t
         else if ch = CHR ''D'' then term_set_column (term_get_column t - arg0) t
         else if ch = CHR ''J'' then (if arg0 = 2 then term_init t else t)
         else t)"

text \<open>The \<open>switch\<close> on one parameter of the graphics mode.\<close>

definition graphics_arg :: "u32 \<Rightarrow> tty \<Rightarrow> tty" where
  "graphics_arg n t =
     (if n = 0 then term_set_blink False t
      else if n = 1 then t
      else if n = 4 then t
      else if n = 5 then term_set_blink True t
      else if n = 30 then term_set_fg_color (color_code COLOR_BLACK) t
      else if n = 31 then term_set_fg_color (color_code COLOR_RED) t
      else if n = 32 then term_set_fg_color (color_code COLOR_GREEN) t
      else if n = 33 then term_set_fg_color (color_code COLOR_YELLOW) t
      else if n = 34 then term_set_fg_color (color_code COLOR_BLUE) t
      else if n = 35 then term_set_fg_color (color_code COLOR_MAGENTA) t
      else if n = 36 then term_set_fg_color (color_code COLOR_CYAN) t
      else if n = 37 then term_set_fg_color (color_code COLOR_WHITE) t
      else if n = 40 then term_set_bg_color (color_code COLOR_BLACK) t
      else if n = 41 then term_set_bg_color (color_code COLOR_RED) t
      else if n = 42 then term_set_bg_color (color_code COLOR_GREEN) t
      else if n = 43 then term_set_bg_color (color_code COLOR_BROWN) t
      else if n = 44 then term_set_bg_color (color_code COLOR_BLUE) t
      else if n = 45 then term_set_bg_color (color_code COLOR_MAGENTA) t
      else if n = 46 then term_set_bg_color (color_code COLOR_CYAN) t
      else if n = 47 then term_set_bg_color (color_code COLOR_LIGHT_GREY) t
      else t)"

definition graphics_command :: "char \<Rightarrow> tty \<Rightarrow> tty" where
  "graphics_command ch t =
     (if ch = CHR ''m''
      then fold (\<lambda>i t. graphics_arg (ansi_args (ctx t) ! i) t) [0..<unat (current_arg (ctx t))] t
      else t)"

definition ansi_interpret_char :: "char \<Rightarrow> (tty, bool) action" where
  "ansi_interpret_char ch t =
     (case ansi_state (ctx t) of
        NORMAL \<Rightarrow>
          if ch = CHR 0x1B then Ok True (set_state BRACKET t) else Ok False t
      | BRACKET \<Rightarrow>
          if ch = CHR ''['' then Ok True (set_state PARAMS t)
          else Ok False (set_state NORMAL t)
      | PARAMS \<Rightarrow>
          if ch = CHR '';'' then
            before store_param
              (before (change (\<lambda>t. t\<lparr>ctx := (ctx t)\<lparr>current_index := 0\<rparr>\<rparr>)) (ret True)) t
          else if isdigit (schar ch) then
            (if unat (current_index (ctx t)) \<ge> ANSI_BUFFER_SIZE then Ok True (reset_params t)
             else before (store_digit ch) (ret True) t)
          else if isalpha (schar ch) then
            before store_param
              (before (change (cursor_command ch))
                (before (change (graphics_command ch))
                  (before (change reset_params) (ret True)))) t
          else Ok True t)"

section \<open>The context invariant\<close>

text \<open>
  What every character that is consumed keeps. It is no promise that the next access is in bounds: both
  counts may have reached 32, one behind the last element, since the code tests only the index, and only
  before it stores a digit. Which character then leaves the arrays is \<open>interpreter_undefined_exactly\<close>.
\<close>

definition wf_ctx :: "ansi_interpreter_context \<Rightarrow> bool" where
  "wf_ctx c \<longleftrightarrow> length (ansi_buf c) = 32 \<and> length (ansi_args c) = 32
     \<and> unat (current_index c) \<le> 32 \<and> unat (current_arg c) \<le> 32
     \<and> (\<forall>i < unat (current_index c). isdigit (schar (ansi_buf c ! i)))
     \<and> (ansi_state c \<noteq> PARAMS \<longrightarrow> current_index c = 0 \<and> current_arg c = 0)"

text \<open>What the commands leave alone.\<close>

lemma term_putchar_at_frame [simp]:
  "ctx (term_putchar_at c x y t) = ctx t" "term_row (term_putchar_at c x y t) = term_row t"
  "term_column (term_putchar_at c x y t) = term_column t"
  "term_color (term_putchar_at c x y t) = term_color t"
  "term_buffer (term_putchar_at c x y t) = term_buffer t"
  by (simp_all add: term_putchar_at_def set_cell_def)

lemma erase_line_frame [simp]:
  "ctx (erase_line t) = ctx t" "term_row (erase_line t) = term_row t"
  "term_column (erase_line t) = term_column t" "term_color (erase_line t) = term_color t"
proof -
  have "ctx (fold (\<lambda>x t. term_putchar_at c (of_nat x) (term_get_row t) t) xs t) = ctx t
      \<and> term_row (fold (\<lambda>x t. term_putchar_at c (of_nat x) (term_get_row t) t) xs t) = term_row t
      \<and> term_column (fold (\<lambda>x t. term_putchar_at c (of_nat x) (term_get_row t) t) xs t) = term_column t
      \<and> term_color (fold (\<lambda>x t. term_putchar_at c (of_nat x) (term_get_row t) t) xs t) = term_color t"
    for c xs by (induction xs arbitrary: t) simp_all
  then show "ctx (erase_line t) = ctx t" "term_row (erase_line t) = term_row t"
    "term_column (erase_line t) = term_column t" "term_color (erase_line t) = term_color t"
    by (simp_all add: erase_line_def)
qed

lemma ctx_graphics_arg [simp]: "ctx (graphics_arg n t) = ctx t"
  by (simp add: graphics_arg_def term_setter_defs)

lemma vga_graphics_arg [simp]: "vga (graphics_arg n t) = vga t"
  by (simp add: graphics_arg_def term_setter_defs)

lemma graphics_command_frame [simp]:
  "ctx (graphics_command ch t) = ctx t" "vga (graphics_command ch t) = vga t"
proof -
  have "ctx (fold (\<lambda>i t. graphics_arg (ansi_args (ctx t) ! i) t) xs t) = ctx t
      \<and> vga (fold (\<lambda>i t. graphics_arg (ansi_args (ctx t) ! i) t) xs t) = vga t" for xs
    by (induction xs arbitrary: t) simp_all
  then show "ctx (graphics_command ch t) = ctx t" "vga (graphics_command ch t) = vga t"
    by (simp_all add: graphics_command_def)
qed

lemma ctx_term_init [simp]: "ctx (term_init t) = ctx t"
  by (simp add: term_init_eq)

lemma cursor_command_buffers [simp]:
  "ansi_buf (ctx (cursor_command ch t)) = ansi_buf (ctx t)"
  "ansi_args (ctx (cursor_command ch t)) = ansi_args (ctx t)"
  "current_arg (ctx (cursor_command ch t)) = current_arg (ctx t)"
  by (simp_all add: cursor_command_def Let_def set_state_def term_setter_defs)

lemma wf_reset_params:
  "length (ansi_buf (ctx t)) = 32 \<Longrightarrow> length (ansi_args (ctx t)) = 32 \<Longrightarrow> wf_ctx (ctx (reset_params t))"
  by (simp add: reset_params_def wf_ctx_def)

lemma store_param_Ok:
  assumes "store_param t = Ok u t'"
  shows "length (ansi_buf (ctx t')) = length (ansi_buf (ctx t))"
    "length (ansi_args (ctx t')) = length (ansi_args (ctx t))"
    "unat (current_arg (ctx t)) < length (ansi_args (ctx t))"
    "current_arg (ctx t') = current_arg (ctx t) + 1"
    "ansi_state (ctx t') = ansi_state (ctx t)"
  using assms by (auto simp: store_param_def Let_def split: if_splits option.splits)

lemma unat_Suc_u32: "unat (x :: u32) < 32 \<Longrightarrow> unat (x + 1) = Suc (unat x)"
  by (simp add: unat_word_ariths)

lemma ansi_interpret_char_wf:
  assumes wf: "wf_ctx (ctx t)" and r: "ansi_interpret_char ch t = Ok b t'"
  shows "wf_ctx (ctx t')"
proof (cases "ansi_state (ctx t)")
  case NORMAL
  with wf r show ?thesis
    by (auto simp: ansi_interpret_char_def set_state_def wf_ctx_def split: if_splits)
next
  case BRACKET
  with wf r show ?thesis
    by (auto simp: ansi_interpret_char_def set_state_def wf_ctx_def split: if_splits)
next
  case PARAMS
  show ?thesis
  proof (cases "ch = CHR '';'' \<or> (isalpha (schar ch) \<and> \<not> isdigit (schar ch))")
    case True
    then obtain t1 where s: "store_param t = Ok () t1"
      using r PARAMS
      by (cases "store_param t") (auto simp: ansi_interpret_char_def split: if_splits)
    note st = store_param_Ok [OF s]
    show ?thesis
    proof (cases "ch = CHR '';''")
      case True
      then have "t' = t1\<lparr>ctx := (ctx t1)\<lparr>current_index := 0\<rparr>\<rparr>"
        using r PARAMS s by (simp add: ansi_interpret_char_def)
      then show ?thesis using wf st PARAMS by (simp add: wf_ctx_def unat_Suc_u32)
    next
      case False
      then have "t' = reset_params (graphics_command ch (cursor_command ch t1))"
        using True r PARAMS s by (simp add: ansi_interpret_char_def)
      moreover have "length (ansi_buf (ctx t)) = 32" "length (ansi_args (ctx t)) = 32"
        using wf by (simp_all add: wf_ctx_def)
      ultimately show ?thesis using st by (simp add: wf_reset_params)
    qed
  next
    case False
    show ?thesis
    proof (cases "isdigit (schar ch) \<and> unat (current_index (ctx t)) < 32")
      case True
      then have "t' = t\<lparr>ctx := (ctx t)\<lparr>ansi_buf := (ansi_buf (ctx t))[unat (current_index (ctx t)) := ch],
          current_index := current_index (ctx t) + 1\<rparr>\<rparr>"
        using False r PARAMS wf
        by (simp add: ansi_interpret_char_def store_digit_def Let_def wf_ctx_def ANSI_BUFFER_SIZE_def)
      then show ?thesis
        using wf True PARAMS by (auto simp: wf_ctx_def unat_Suc_u32 nth_list_update less_Suc_eq)
    next
      case d: False
      then have "t' = t \<or> t' = reset_params t"
        using False r PARAMS by (auto simp: ansi_interpret_char_def ANSI_BUFFER_SIZE_def split: if_splits)
      moreover have "wf_ctx (ctx (reset_params t))"
        using wf by (intro wf_reset_params) (simp_all add: wf_ctx_def)
      ultimately show ?thesis using wf by blast
    qed
  qed
qed

text \<open>Exactly where the interpreter leaves the defined behaviour of C.\<close>

definition param_text :: "ansi_interpreter_context \<Rightarrow> string" where
  "param_text c = take (unat (current_index c)) (ansi_buf c)"

lemma digit_not_NUL: "isdigit (schar c) \<Longrightarrow> c \<noteq> NUL"
  by (auto simp: isdigit_def schar_def NUL_def)

lemma cstr_param:
  assumes "wf_ctx c" "unat (current_index c) < 32"
  shows "cstr ((ansi_buf c)[unat (current_index c) := NUL]) = param_text c"
proof -
  let ?i = "unat (current_index c)"
  have i: "?i < length (ansi_buf c)" using assms by (simp add: wf_ctx_def)
  have "(ansi_buf c)[?i := NUL] = take ?i (ansi_buf c) @ NUL # drop (Suc ?i) (ansi_buf c)"
    by (rule upd_conv_take_nth_drop [OF i])
  moreover have "\<forall>x \<in> set (take ?i (ansi_buf c)). x \<noteq> NUL"
    using assms i digit_not_NUL by (auto simp: wf_ctx_def in_set_conv_nth)
  ultimately show ?thesis by (simp add: cstr_def param_text_def takeWhile_append)
qed

lemma store_param_undefined:
  assumes "wf_ctx (ctx t)"
  shows "(\<exists>f. store_param t = Undefined f) \<longleftrightarrow>
     unat (current_index (ctx t)) = 32 \<or> unat (current_arg (ctx t)) = 32
     \<or> atoi (param_text (ctx t)) = None"
proof (cases "unat (current_index (ctx t)) < 32")
  case True
  then show ?thesis using assms cstr_param [OF assms True]
    by (auto simp: store_param_def Let_def wf_ctx_def split: option.splits)
next
  case False
  then show ?thesis using assms by (auto simp: store_param_def Let_def wf_ctx_def)
qed

lemma ansi_undefined:
  assumes wf: "wf_ctx (ctx t)"
  shows "(\<exists>f. ansi_interpret_char ch t = Undefined f) \<longleftrightarrow>
     ansi_state (ctx t) = PARAMS \<and> (ch = CHR '';'' \<or> isalpha (schar ch))
     \<and> (unat (current_index (ctx t)) = 32 \<or> unat (current_arg (ctx t)) = 32
        \<or> atoi (param_text (ctx t)) = None)"
proof -
  have d: "isdigit (schar ch) \<Longrightarrow> \<not> isalpha (schar ch) \<and> ch \<noteq> CHR '';''"
    by (auto simp: isdigit_def isalpha_def schar_def)
  have sd: "before (store_digit c) (ret True) t \<noteq> Undefined f"
    if "unat (current_index (ctx t)) < 32" for f c
    using that wf by (simp add: store_digit_def Let_def wf_ctx_def before_def andthen_def)
  have sp: "(\<exists>f. before store_param k t = Undefined f) \<longleftrightarrow> (\<exists>f. store_param t = Undefined f)"
    if "\<And>t f. k t \<noteq> Undefined f" for k :: "(tty, bool) action"
    using that by (cases "store_param t") auto
  show ?thesis
  proof (cases "ansi_state (ctx t) = PARAMS \<and> (ch = CHR '';'' \<or> isalpha (schar ch))")
    case True
    then have "(\<exists>f. ansi_interpret_char ch t = Undefined f) \<longleftrightarrow> (\<exists>f. store_param t = Undefined f)"
      using d by (auto simp: ansi_interpret_char_def sp)
    then show ?thesis using True store_param_undefined [OF wf] by simp
  next
    case False
    then show ?thesis using sd
      by (auto simp: ansi_interpret_char_def ANSI_BUFFER_SIZE_def
          split: if_splits ansi_interpreter_state.splits)
  qed
qed

section \<open>Reading a whole sequence\<close>

text \<open>
  The interpreter while it reads parameters: \<open>qs\<close> are stored, \<open>w\<close> is the text of the one being
  read, and the terminal is otherwise \<open>t0\<close>.
\<close>

definition parsing :: "tty \<Rightarrow> int list \<Rightarrow> string \<Rightarrow> tty \<Rightarrow> bool" where
  "parsing t0 qs w t \<longleftrightarrow> wf_ctx (ctx t) \<and> ansi_state (ctx t) = PARAMS
     \<and> unat (current_arg (ctx t)) = length qs \<and> param_text (ctx t) = w \<and> unat (current_index (ctx t)) = length w
     \<and> ansi_args (ctx t) = map word_of_int qs @ drop (length qs) (ansi_args (ctx t0))
     \<and> saved_row (ctx t) = saved_row (ctx t0) \<and> saved_col (ctx t) = saved_col (ctx t0)
     \<and> t = t0\<lparr>ctx := ctx t\<rparr>"

lemma parsing_digit:
  assumes "parsing t0 qs w t" "isdigit (schar c)" "length w < 32"
  shows "\<exists>t'. ansi_interpret_char c t = Ok True t' \<and> parsing t0 qs (w @ [c]) t'"
proof -
  let ?i = "unat (current_index (ctx t))"
  let ?t' = "t\<lparr>ctx := (ctx t)\<lparr>ansi_buf := (ansi_buf (ctx t))[?i := c], current_index := current_index (ctx t) + 1\<rparr>\<rparr>"
  have i: "?i = length w" "?i < length (ansi_buf (ctx t))" "length (ansi_buf (ctx t)) = 32"
    using assms by (auto simp: parsing_def wf_ctx_def)
  have "c \<noteq> CHR '';''" using assms(2) by (auto simp: isdigit_def schar_def)
  then have step: "ansi_interpret_char c t = Ok True ?t'"
    using assms i by (simp add: ansi_interpret_char_def parsing_def ANSI_BUFFER_SIZE_def store_digit_def Let_def)
  have suc: "unat (current_index (ctx t) + 1) = Suc ?i" using i assms(3) by (simp add: unat_Suc_u32)
  then have "param_text (ctx ?t') = w @ [c]"
    using assms(1) i by (simp add: param_text_def parsing_def take_Suc_conv_app_nth)
  moreover have "wf_ctx (ctx ?t')" using ansi_interpret_char_wf [OF _ step] assms(1) by (simp add: parsing_def)
  ultimately have "parsing t0 qs (w @ [c]) ?t'"
    using assms(1) i suc unfolding parsing_def by (cases t0; cases t) simp
  with step show ?thesis by blast
qed

text \<open>Characters handed to the interpreter one after the other.\<close>

definition feed :: "string \<Rightarrow> (tty, unit) action" where
  "feed cs = foreach cs (\<lambda>c. andthen (ansi_interpret_char c) (\<lambda>_. ret ()))"

lemma feed_Cons: "ansi_interpret_char c t = Ok b t' \<Longrightarrow> feed (c # cs) t = feed cs t'"
  by (simp add: feed_def)

lemma feed_append: "feed xs t = Ok u t' \<Longrightarrow> feed (xs @ ys) t = feed ys t'"
  by (simp add: feed_def foreach_append)

lemma parsing_digits:
  "parsing t0 qs w t \<Longrightarrow> list_all (\<lambda>c. isdigit (schar c)) ds \<Longrightarrow> length w + length ds \<le> 32 \<Longrightarrow>
   \<exists>t'. feed ds t = Ok () t' \<and> parsing t0 qs (w @ ds) t'"
proof (induction ds arbitrary: w t)
  case Nil
  then show ?case by (simp add: feed_def)
next
  case (Cons d ds)
  obtain t' where t': "ansi_interpret_char d t = Ok True t'" "parsing t0 qs (w @ [d]) t'"
    using parsing_digit[OF Cons.prems(1)] Cons.prems by auto
  then show ?case using Cons.IH[OF t'(2)] Cons.prems by (simp add: feed_Cons)
qed

lemma parsing_store:
  assumes "parsing t0 qs w t" "atoi w = Some n" "length w < 32" "length qs < 32"
  obtains t1 where "store_param t = Ok () t1" "parsing t0 (qs @ [n]) [] (t1\<lparr>ctx := (ctx t1)\<lparr>current_index := 0\<rparr>\<rparr>)"
proof -
  let ?c = "ctx t"
  let ?t1 = "t\<lparr>ctx := ?c\<lparr>ansi_buf := (ansi_buf ?c)[unat (current_index ?c) := NUL],
    ansi_args := (ansi_args ?c)[unat (current_arg ?c) := word_of_int n], current_arg := current_arg ?c + 1\<rparr>\<rparr>"
  have wf: "wf_ctx ?c" and len: "length (ansi_buf ?c) = 32" "length (ansi_args ?c) = 32"
    and a: "unat (current_arg ?c) = length qs" and i: "unat (current_index ?c) = length w"
    and args: "ansi_args ?c = map word_of_int qs @ drop (length qs) (ansi_args (ctx t0))"
    using assms(1) unfolding parsing_def wf_ctx_def by blast+
  have "cstr ((ansi_buf ?c)[unat (current_index ?c) := NUL]) = w"
    using cstr_param[OF wf] assms(1,3) i by (simp add: parsing_def)
  then have store: "store_param t = Ok () ?t1"
    using assms len a i by (simp add: store_param_def Let_def)
  have suc: "unat (current_arg ?c + 1) = Suc (length qs)" using a assms(4) by (simp add: unat_Suc_u32)
  have "length qs < length (ansi_args (ctx t0))" using args len(2) assms(4) by (simp split: if_splits)
  then have "(ansi_args ?c)[length qs := word_of_int n]
      = map word_of_int (qs @ [n]) @ drop (length (qs @ [n])) (ansi_args (ctx t0))"
    unfolding args by (simp add: list_update_append flip: Cons_nth_drop_Suc)
  then have "parsing t0 (qs @ [n]) [] (?t1\<lparr>ctx := (ctx ?t1)\<lparr>current_index := 0\<rparr>\<rparr>)"
    using assms(1,4) wf len a suc unfolding parsing_def
    by (cases t0; cases t) (simp add: wf_ctx_def param_text_def)
  with store show ?thesis using that by blast
qed

lemma parsing_separator:
  assumes "parsing t0 qs w t" "atoi w = Some n" "length w < 32" "length qs < 32"
  shows "\<exists>t'. ansi_interpret_char (CHR '';'') t = Ok True t' \<and> parsing t0 (qs @ [n]) [] t'"
proof -
  obtain t1 where "store_param t = Ok () t1" "parsing t0 (qs @ [n]) [] (t1\<lparr>ctx := (ctx t1)\<lparr>current_index := 0\<rparr>\<rparr>)"
    using parsing_store[OF assms] .
  then show ?thesis using assms(1) by (simp add: ansi_interpret_char_def parsing_def)
qed

text \<open>The final letter stores the last parameter, runs the command and rests.\<close>

definition run_command :: "char \<Rightarrow> tty \<Rightarrow> tty" where
  "run_command l t = reset_params (graphics_command l (cursor_command l t))"

lemma parsing_letter:
  assumes "parsing t0 qs w t" "atoi w = Some n" "length w < 32" "length qs < 32" "isalpha (schar l)"
  shows "\<exists>c. ansi_interpret_char l t = Ok True (run_command l (t0\<lparr>ctx := c\<rparr>))
     \<and> ansi_args c = map word_of_int (qs @ [n]) @ drop (Suc (length qs)) (ansi_args (ctx t0))
     \<and> unat (current_arg c) = Suc (length qs) \<and> saved_row c = saved_row (ctx t0) \<and> saved_col c = saved_col (ctx t0)
     \<and> length (ansi_buf c) = 32 \<and> length (ansi_args c) = 32"
proof -
  obtain t1 where t1: "store_param t = Ok () t1"
    and p: "parsing t0 (qs @ [n]) [] (t1\<lparr>ctx := (ctx t1)\<lparr>current_index := 0\<rparr>\<rparr>)"
    using parsing_store[OF assms(1-4)] .
  have ch: "l \<noteq> CHR '';''" "\<not> isdigit (schar l)" using assms(5) by (auto simp: isalpha_def isdigit_def schar_def)
  have "t1 = t0\<lparr>ctx := ctx t1\<rparr>" using p unfolding parsing_def by (cases t0; cases t1) simp
  then have "ansi_interpret_char l t = Ok True (run_command l (t0\<lparr>ctx := ctx t1\<rparr>))"
    using t1 ch assms(1,5) by (simp add: ansi_interpret_char_def parsing_def run_command_def)
  moreover have wf: "wf_ctx (ctx (t1\<lparr>ctx := (ctx t1)\<lparr>current_index := 0\<rparr>\<rparr>))"
    using p unfolding parsing_def by blast
  moreover have "length (ansi_buf (ctx t1)) = 32" "length (ansi_args (ctx t1)) = 32"
    using wf by (simp_all add: wf_ctx_def)
  moreover have "ansi_args (ctx t1) = map word_of_int (qs @ [n]) @ drop (Suc (length qs)) (ansi_args (ctx t0))"
    "unat (current_arg (ctx t1)) = Suc (length qs)"
    "saved_row (ctx t1) = saved_row (ctx t0)" "saved_col (ctx t1) = saved_col (ctx t0)"
    using p unfolding parsing_def by simp_all
  ultimately show ?thesis by blast
qed

text \<open>The parameters of a sequence as text, and the sequence: ESC [ parameters letter.\<close>

fun params_text :: "nat list \<Rightarrow> string" where
  "params_text [] = []"
| "params_text [p] = numeral_text 10 p"
| "params_text (p # ps) = numeral_text 10 p @ CHR '';'' # params_text ps"

definition escape :: "nat list \<Rightarrow> char \<Rightarrow> string" where
  "escape ps l = CHR 0x1B # CHR ''['' # params_text ps @ [l]"

text \<open>The context in which the command of a sequence with the parameters \<open>qs\<close> runs.\<close>

definition has_params :: "tty \<Rightarrow> int list \<Rightarrow> ansi_interpreter_context \<Rightarrow> bool" where
  "has_params t0 qs c \<longleftrightarrow>
     ansi_args c = map word_of_int qs @ drop (length qs) (ansi_args (ctx t0))
     \<and> unat (current_arg c) = length qs \<and> saved_row c = saved_row (ctx t0) \<and> saved_col c = saved_col (ctx t0)
     \<and> length (ansi_buf c) = 32 \<and> length (ansi_args c) = 32"

lemma numeral_param:
  assumes "p < 2 ^ 31"
  shows "atoi (numeral_text 10 p) = Some (int p)" "length (numeral_text 10 p) \<le> 10"
    "list_all (\<lambda>c. isdigit (schar c)) (numeral_text 10 p)"
proof -
  have "fits 32 (int p)" using assms by (simp add: fits_def)
  then show "atoi (numeral_text 10 p) = Some (int p)"
    using ato_decimal_text[of 32 "int p"] by (simp add: atoi_def decimal_text_def)
  show "length (numeral_text 10 p) \<le> 10"
    using digits_length[of 10 p 9] assms by (simp add: numeral_text_def)
  show "list_all (\<lambda>c. isdigit (schar c)) (numeral_text 10 p)"
    using digits_less[of 10 p] digit_char_class by (simp add: numeral_text_def list_all_iff)
qed

lemma feed_params:
  "parsing t0 qs [] t \<Longrightarrow> ps \<noteq> [] \<Longrightarrow> length qs + length ps \<le> 32 \<Longrightarrow> \<forall>p \<in> set ps. p < 2 ^ 31 \<Longrightarrow> isalpha (schar l) \<Longrightarrow>
   \<exists>c. feed (params_text ps @ [l]) t = Ok () (run_command l (t0\<lparr>ctx := c\<rparr>)) \<and> has_params t0 (qs @ map int ps) c"
proof (induction ps arbitrary: qs t)
  case (Cons p ps)
  let ?w = "numeral_text 10 p"
  have p: "atoi ?w = Some (int p)" "length ?w < 32" "list_all (\<lambda>c. isdigit (schar c)) ?w"
    using numeral_param[of p] Cons.prems(4) by simp_all
  obtain t1 where t1: "feed ?w t = Ok () t1" "parsing t0 qs ?w t1"
    using parsing_digits[OF Cons.prems(1) p(3)] p(2) by auto
  have qs: "length qs < 32" using Cons.prems(3) by simp
  show ?case
  proof (cases ps)
    case Nil
    obtain c where "ansi_interpret_char l t1 = Ok True (run_command l (t0\<lparr>ctx := c\<rparr>))" "has_params t0 (qs @ [int p]) c"
      using parsing_letter[OF t1(2) p(1,2) qs Cons.prems(5)] unfolding has_params_def by auto
    then show ?thesis using Nil t1(1) by (auto simp: feed_append feed_Cons) (auto simp: feed_def)
  next
    case (Cons p' ps')
    obtain t2 where t2: "ansi_interpret_char (CHR '';'') t1 = Ok True t2" "parsing t0 (qs @ [int p]) [] t2"
      using parsing_separator[OF t1(2) p(1,2) qs] by auto
    have "feed (params_text (p # ps) @ [l]) t = feed (params_text ps @ [l]) t2"
      using Cons t1(1) t2(1) by (simp add: feed_append feed_Cons)
    then show ?thesis using Cons.IH[OF t2(2)] Cons Cons.prems by simp
  qed
qed simp

lemma feed_escape:
  assumes "wf_ctx (ctx t)" "ansi_state (ctx t) = NORMAL" "ps \<noteq> []" "length ps \<le> 32" "\<forall>p \<in> set ps. p < 2 ^ 31" "isalpha (schar l)"
  shows "\<exists>c. feed (escape ps l) t = Ok () (run_command l (t\<lparr>ctx := c\<rparr>)) \<and> has_params t (map int ps) c"
proof -
  let ?t1 = "set_state PARAMS (set_state BRACKET t)"
  have "feed (escape ps l) t = feed (params_text ps @ [l]) ?t1"
    unfolding escape_def using assms(2) by (simp add: feed_Cons ansi_interpret_char_def set_state_def)
  moreover have "parsing t [] [] ?t1"
    using assms(1,2) by (simp add: parsing_def wf_ctx_def set_state_def param_text_def)
  ultimately show ?thesis using feed_params[of t "[]" ?t1 ps l] assms by simp
qed

section \<open>Properties\<close>

text \<open>A terminal whose interpreter is at its start, for the witnesses.\<close>

definition blank_tty :: tty where
  "blank_tty = \<lparr>ctx = \<lparr>ansi_state = NORMAL, ansi_buf = replicate 32 NUL, ansi_args = replicate 32 0,
     current_arg = 0, current_index = 0, saved_row = 0, saved_col = 0\<rparr>,
     term_row = 0, term_column = 0, term_color = 15, term_buffer = VGA_MEMORY, vga = (\<lambda>_. 0)\<rparr>"

lemma blank_wf: "wf_ctx (ctx blank_tty)" "ansi_state (ctx blank_tty) = NORMAL"
  by (simp_all add: blank_tty_def wf_ctx_def)

text \<open>C15: the sequence ESC [ p1 ; ... ; pn letter, with at most 32 parameters below 2^31, is consumed
  without undefined behaviour, runs the command of its letter on the terminal with exactly these
  parameters, and leaves the interpreter at rest.\<close>

theorem escape_sequence_runs:
  assumes "wf_ctx (ctx t)" "ansi_state (ctx t) = NORMAL" "ps \<noteq> []" "length ps \<le> 32" "\<forall>p \<in> set ps. p < 2 ^ 31"
    and "isalpha (schar l)"
  shows "\<exists>c. feed (escape ps l) t = Ok () (run_command l (t\<lparr>ctx := c\<rparr>))
    \<and> take (length ps) (ansi_args c) = map of_nat ps \<and> unat (current_arg c) = length ps
    \<and> ansi_state (ctx (run_command l (t\<lparr>ctx := c\<rparr>))) = NORMAL
    \<and> wf_ctx (ctx (run_command l (t\<lparr>ctx := c\<rparr>)))"
proof -
  obtain c where c: "feed (escape ps l) t = Ok () (run_command l (t\<lparr>ctx := c\<rparr>))" "has_params t (map int ps) c"
    using feed_escape[OF assms] by blast
  have "length (ansi_buf c) = 32" "length (ansi_args c) = 32"
    using c(2) unfolding has_params_def by blast+
  then have "wf_ctx (ctx (run_command l (t\<lparr>ctx := c\<rparr>)))"
    unfolding run_command_def by (intro wf_reset_params) simp_all
  then show ?thesis using c by (intro exI[of _ c]) (simp add: has_params_def run_command_def reset_params_def)
qed

text \<open>ESC [ 31 m: what the parameter 31 of \<open>m\<close> does, on the blank terminal.\<close>

theorem escape_sequence_runs_witness:
  "\<exists>c. feed (CHR 0x1B # ''[31m'') blank_tty = Ok () (run_command (CHR ''m'') (blank_tty\<lparr>ctx := c\<rparr>))
     \<and> take 1 (ansi_args c) = [31] \<and> current_arg c = 1"
proof -
  have "numeral_text 10 31 = ''31''"
    by (simp add: numeral_text_def digit_char_def digit_table_def digits.simps[of 10 31] digits.simps[of 10 3])
  then have e: "escape [31] (CHR ''m'') = CHR 0x1B # ''[31m''" by (simp add: escape_def)
  have "isalpha (schar (CHR ''m''))" by (simp add: isalpha_def schar_def)
  then show ?thesis
    using escape_sequence_runs[of blank_tty "[31]" "CHR ''m''"] blank_wf unfolding e
    by (auto simp: word_unat_eq_iff[of "current_arg _" 1])
qed

text \<open>C29: the interpreter leaves defined behaviour exactly when a separator or a final letter arrives
  while the buffer holds 32 digits (its NUL is written behind it), 32 parameters are stored already, or
  the number does not fit an \<open>int\<close>.\<close>

theorem interpreter_undefined_exactly:
  assumes "wf_ctx (ctx t)"
  shows "(\<exists>f. ansi_interpret_char ch t = Undefined f) \<longleftrightarrow>
     ansi_state (ctx t) = PARAMS \<and> (ch = CHR '';'' \<or> isalpha (schar ch))
     \<and> (unat (current_index (ctx t)) = 32 \<or> unat (current_arg (ctx t)) = 32
        \<or> atoi (param_text (ctx t)) = None)"
  using ansi_undefined[OF assms] .

text \<open>A sequence of 32 digits: the letter behind it makes the interpreter write \<open>buf[32]\<close>.\<close>

definition full_buffer_tty :: tty where
  "full_buffer_tty = blank_tty\<lparr>ctx := (ctx blank_tty)\<lparr>ansi_state := PARAMS, ansi_buf := replicate 32 (CHR ''1''),
     current_index := 32\<rparr>\<rparr>"

theorem interpreter_undefined_exactly_witness:
  "\<exists>f. ansi_interpret_char (CHR ''m'') full_buffer_tty = Undefined f"
proof -
  have "wf_ctx (ctx full_buffer_tty)"
    by (simp add: full_buffer_tty_def blank_tty_def wf_ctx_def isdigit_def schar_def)
  from interpreter_undefined_exactly[OF this, of "CHR ''m''"] show ?thesis
    by (simp add: full_buffer_tty_def isalpha_def schar_def)
qed

end
