(* ===== verification/Tty.thy ===== *)
theory Tty
  imports Ansi
begin

unbundle bit_operations_syntax

text \<open>
  The character half of \<open>kernel/src/cpu/devices/tty.c\<close>: \<open>term_putchar\<close>, which moves the
  cursor, scrolls, feeds the escape-sequence interpreter and draws, and the functions that
  write whole buffers through it.
\<close>

section \<open>Operations\<close>

text \<open>\<open>term_putchar_at(c, term_column++, term_row)\<close>.\<close>

definition draw_char :: "char \<Rightarrow> tty \<Rightarrow> tty" where
  "draw_char c t =
     term_putchar_at c (term_column t) (term_row t) (t\<lparr>term_column := term_column t + 1\<rparr>)"

definition control_step :: "char \<Rightarrow> tty \<Rightarrow> tty" where
  "control_step c t =
     (if c = CHR 0x0A \<or> c = CHR 0x0D then t\<lparr>term_row := term_row t + 1, term_column := 0\<rparr>
      else if c = CHR 0x09 then fold (\<lambda>i. draw_char (CHR '' '')) [0..<(4::nat)] t
      else t)"

definition wrap_step :: "tty \<Rightarrow> tty" where
  "wrap_step t =
     (if term_column t \<ge> VGA_WIDTH then t\<lparr>term_row := term_row t + 1, term_column := 0\<rparr> else t)"

definition scroll_step :: "tty \<Rightarrow> tty" where
  "scroll_step t = (if term_row t \<ge> VGA_HEIGHT then term_scrolldown t else t)"

definition term_putchar :: "char \<Rightarrow> (tty, unit) action" where
  "term_putchar c =
     before (change (\<lambda>t. scroll_step (wrap_step (control_step c t))))
       (andthen (ansi_interpret_char c) (\<lambda>in_sequence.
          if in_sequence \<or> \<not> isprint (schar c) then ret () else change (draw_char c)))"

definition term_write :: "char list \<Rightarrow> nat \<Rightarrow> (tty, unit) action" where
  "term_write data n = foreach [0..<n] (\<lambda>i. term_putchar (data ! i))"

text \<open>The string is the characters before its NUL, as \<open>strlen\<close> measures it.\<close>

definition term_write_string :: "string \<Rightarrow> (tty, unit) action" where
  "term_write_string data = term_write data (length data)"

section \<open>Memory safety of the text buffer\<close>

text \<open>The cells from the 2000th on, memory that is not the screen, are those of \<open>m\<close>.\<close>

definition beyond_screen :: "(nat \<Rightarrow> u16) \<Rightarrow> tty \<Rightarrow> bool" where
  "beyond_screen m t \<longleftrightarrow> (\<forall>i \<ge> 2000. vga t i = m i)"

lemma vga_index_bound: "x < VGA_WIDTH \<Longrightarrow> y < VGA_HEIGHT \<Longrightarrow> vga_index x y < 2000"
proof -
  assume a: "x < VGA_WIDTH" "y < VGA_HEIGHT"
  then have x: "unat x < 80" and y: "unat y < 25" by (simp_all add: vga_defs word_less_nat_alt)
  then have "vga_index x y = unat y * 80 + unat x" using vga_index_small[OF x y] by simp
  then show ?thesis using x y by simp
qed

lemma beyond_putchar_at: "beyond_screen m (term_putchar_at c x y t) = beyond_screen m t"
proof (cases "y \<ge> VGA_HEIGHT \<or> x \<ge> VGA_WIDTH")
  case True
  then show ?thesis by (simp add: term_putchar_at_def)
next
  case False
  then have "vga_index x y < 2000" by (simp add: vga_index_bound not_le)
  then have "i \<noteq> vga_index x y" if "2000 \<le> i" for i using that by simp
  then show ?thesis using False
    by (simp add: term_putchar_at_def beyond_screen_def set_cell_def)
qed

lemma beyond_update [simp]:
  "beyond_screen m (t\<lparr>term_row := r\<rparr>) = beyond_screen m t"
  "beyond_screen m (t\<lparr>term_column := r\<rparr>) = beyond_screen m t"
  "beyond_screen m (t\<lparr>term_color := col\<rparr>) = beyond_screen m t"
  "beyond_screen m (t\<lparr>ctx := c\<rparr>) = beyond_screen m t"
  by (simp_all add: beyond_screen_def)

lemma beyond_draw: "beyond_screen m (draw_char c t) = beyond_screen m t"
  by (simp add: draw_char_def beyond_putchar_at)

lemma beyond_steps: "beyond_screen m (scroll_step (wrap_step (control_step c t))) = beyond_screen m t"
proof -
  have "beyond_screen m (control_step c t) = beyond_screen m t" for t
    by (simp add: control_step_def beyond_draw upt_rec)
  moreover have "beyond_screen m (wrap_step t) = beyond_screen m t" for t
    by (simp add: wrap_step_def)
  moreover have "beyond_screen m (scroll_step t) = beyond_screen m t" for t
    by (simp add: scroll_step_def term_scrolldown_eq beyond_screen_def)
  ultimately show ?thesis by simp
qed

lemma beyond_cursor_command: "beyond_screen m (cursor_command c t) = beyond_screen m t"
proof -
  have "beyond_screen m (erase_line t) = beyond_screen m t"
  proof -
    have "beyond_screen m (fold (\<lambda>x t. term_putchar_at c (of_nat x) (term_get_row t) t) xs t)
        = beyond_screen m t" for c xs
      by (induction xs arbitrary: t) (simp_all add: beyond_putchar_at)
    then show ?thesis by (simp add: erase_line_def)
  qed
  then show ?thesis
    by (auto simp: cursor_command_def Let_def set_state_def term_setter_defs term_init_eq beyond_screen_def)
qed

lemma store_param_vga: "store_param t = Ok u t' \<Longrightarrow> vga t' = vga t"
  by (auto simp: store_param_def Let_def split: if_splits option.splits)

lemma keeps_store_param [keeps_intros]: "keeps (beyond_screen m) store_param"
  by (rule keepsI)
    (auto simp: store_param_def Let_def beyond_screen_def split: if_splits option.splits)

lemma keeps_store_digit [keeps_intros]: "keeps (beyond_screen m) (store_digit c)"
  by (rule keepsI) (auto simp: store_digit_def Let_def beyond_screen_def split: if_splits)

lemma keeps_ansi [keeps_intros]: "keeps (beyond_screen m) (ansi_interpret_char c)"
proof -
  have sub: "beyond_screen m (set_state st t) = beyond_screen m t"
    "beyond_screen m (reset_params t) = beyond_screen m t"
    "beyond_screen m (graphics_command c t) = beyond_screen m t" for st t
    by (simp_all add: set_state_def reset_params_def beyond_screen_def)
  have k1: "keeps (beyond_screen m) (before store_param
      (before (change (\<lambda>t. t\<lparr>ctx := (ctx t)\<lparr>current_index := 0\<rparr>\<rparr>)) (ret True)))"
    by (intro keeps_intros) simp
  have k2: "keeps (beyond_screen m) (before (store_digit c) (ret True))"
    by (intro keeps_intros)
  have k3: "keeps (beyond_screen m) (before store_param (before (change (cursor_command c))
      (before (change (graphics_command c)) (before (change reset_params) (ret True)))))"
    by (intro keeps_intros) (simp_all add: sub beyond_cursor_command)
  show ?thesis
    unfolding keeps_def ansi_interpret_char_def
    using k1 k2 k3 by (auto simp: sub keeps_def split: ansi_interpreter_state.splits)
qed

lemma keeps_term_putchar [keeps_intros]: "keeps (beyond_screen m) (term_putchar c)"
  unfolding term_putchar_def
  by (intro keeps_intros) (simp_all add: beyond_steps beyond_draw)

lemma keeps_term_write: "keeps (beyond_screen m) (term_write d n)"
  unfolding term_write_def by (intro keeps_intros)

section \<open>Plain text\<close>

text \<open>
  Outside an escape sequence with the cursor on the screen (the column may stand just past the
  last cell, until the next character wraps), printing a character that is not ESC returns and
  keeps the terminal so.
\<close>

definition at_rest :: "tty \<Rightarrow> bool" where
  "at_rest t \<longleftrightarrow> ansi_state (ctx t) = NORMAL \<and> term_row t < VGA_HEIGHT \<and> term_column t \<le> VGA_WIDTH"

definition plain :: "char \<Rightarrow> bool" where
  "plain c \<longleftrightarrow> c \<noteq> CHR 0x1B"

lemma steps_cursor:
  assumes "term_row t < 25" "term_column t \<le> 80"
  shows "term_row (scroll_step (wrap_step (control_step c t))) < 25"
    "term_column (scroll_step (wrap_step (control_step c t))) < 80"
    "ansi_state (ctx (scroll_step (wrap_step (control_step c t)))) = ansi_state (ctx t)"
    "ctx (scroll_step (wrap_step (control_step c t))) = ctx t"
proof -
  let ?t1 = "control_step c t"
  have t1: "(term_row ?t1 < 25 \<or> term_row ?t1 = 25 \<and> term_column ?t1 = 0) \<and> term_column ?t1 \<le> 84
      \<and> ctx ?t1 = ctx t"
    using assms by (simp add: control_step_def draw_char_def upt_rec) unat_arith
  let ?t2 = "wrap_step ?t1"
  have t2: "term_row ?t2 \<le> 25 \<and> term_column ?t2 < 80 \<and> ctx ?t2 = ctx t"
    using t1 by (simp add: wrap_step_def vga_defs) unat_arith
  then show "term_row (scroll_step ?t2) < 25" "term_column (scroll_step ?t2) < 80"
    "ctx (scroll_step ?t2) = ctx t"
    by (simp_all add: scroll_step_def term_scrolldown_eq vga_defs, unat_arith?)
  then show "ansi_state (ctx (scroll_step ?t2)) = ansi_state (ctx t)" by simp
qed

lemma term_putchar_plain:
  assumes "at_rest t" "plain c"
  shows "wp (term_putchar c) (\<lambda>_ t'. at_rest t' \<and> ctx t' = ctx t) t"
proof -
  let ?s = "scroll_step (wrap_step (control_step c t))"
  have s: "term_row ?s < 25" "term_column ?s < 80" "ctx ?s = ctx t"
    using steps_cursor[of t c] assms by (simp_all add: at_rest_def vga_defs)
  have a: "ansi_interpret_char c ?s = Ok False ?s"
    using s assms by (simp add: ansi_interpret_char_def at_rest_def plain_def)
  have "term_column ?s + 1 \<le> 80" using s(2) by unat_arith
  moreover have "term_putchar c t = Ok () (if isprint (schar c) then draw_char c ?s else ?s)"
    using a by (simp add: term_putchar_def andthen_def)
  ultimately show ?thesis
    using s assms by (simp add: wp_def at_rest_def draw_char_def vga_defs less_imp_le)
qed

text \<open>A printable character lands in the cell under the cursor, which moves one column right.\<close>

lemma term_putchar_printable:
  assumes "ansi_state (ctx t) = NORMAL" "term_row t < VGA_HEIGHT" "term_column t < VGA_WIDTH"
    and "isprint (schar c)"
  shows "term_putchar c t = Ok () (t\<lparr>term_column := term_column t + 1,
      vga := (vga t)(vga_index (term_column t) (term_row t) := term_make_entry c (term_color t))\<rparr>)"
proof -
  have ne: "c \<noteq> CHR 0x0A" "c \<noteq> CHR 0x0D" "c \<noteq> CHR 0x09" "c \<noteq> CHR 0x1B"
    using assms(4) by (auto simp: isprint_def schar_def)
  then have s: "scroll_step (wrap_step (control_step c t)) = t"
    using assms by (simp add: control_step_def wrap_step_def scroll_step_def not_le [symmetric])
  then have "ansi_interpret_char c t = Ok False t"
    using assms ne by (simp add: ansi_interpret_char_def)
  then show ?thesis using s assms
    by (simp add: term_putchar_def draw_char_def term_putchar_at_def set_cell_def not_le [symmetric])
qed

section \<open>Character sinks\<close>

text \<open>
  What a printer relies on: a way to put one character, and a condition on the state, indexed by
  a mode, that putting a character carries from one mode to the next. A text is accepted when the
  modes lead through it. The terminal is such a sink twice: on the screen for characters that are
  not ESC, and in the states of the escape interpreter for texts whose escape sequences are well
  formed.
\<close>

primrec run_modes :: "('m \<Rightarrow> char \<Rightarrow> 'm option) \<Rightarrow> 'm \<Rightarrow> string \<Rightarrow> 'm option" where
  "run_modes f m [] = Some m"
| "run_modes f m (c # cs) = (case f m c of None \<Rightarrow> None | Some m' \<Rightarrow> run_modes f m' cs)"

lemma run_modes_append:
  "run_modes f m (xs @ ys) = (case run_modes f m xs of None \<Rightarrow> None | Some m' \<Rightarrow> run_modes f m' ys)"
  by (induction xs arbitrary: m) (simp_all split: option.splits)

locale char_sink =
  fixes put :: "char \<Rightarrow> ('s, unit) action"
    and ready :: "'m \<Rightarrow> 's \<Rightarrow> bool"
    and accepts :: "'m \<Rightarrow> char \<Rightarrow> 'm option"
  assumes put_ready: "ready m s \<Longrightarrow> accepts m c = Some m' \<Longrightarrow> wp (put c) (\<lambda>_. ready m') s"
begin

lemma put_all: "run_modes accepts m cs = Some m' \<Longrightarrow> ready m s \<Longrightarrow> wp (foreach cs put) (\<lambda>_. ready m') s"
proof (induction cs arbitrary: m s)
  case Nil
  then show ?case by (simp add: wp_simps)
next
  case (Cons c cs)
  then obtain m1 where "accepts m c = Some m1" "run_modes accepts m1 cs = Some m'"
    by (auto split: option.splits)
  then have "wp (put c) (\<lambda>_ t. wp (foreach cs put) (\<lambda>_. ready m') t) s"
    using Cons by (auto intro: wp_mono [OF put_ready])
  then show ?case by (simp add: wp_simps)
qed

lemma put_all_returns:
  assumes "run_modes accepts m cs = Some m'" "ready m s"
  obtains s' where "foreach cs put s = Ok () s'" "ready m' s'"
  using wp_OkD [OF put_all [OF assms]] by auto

end

definition accept_plain :: "unit \<Rightarrow> char \<Rightarrow> unit option" where
  "accept_plain m c = (if plain c then Some () else None)"

lemma run_modes_plain: "run_modes accept_plain m cs = (if list_all plain cs then Some () else None)"
  by (induction cs) (auto simp: accept_plain_def)

interpretation screen: char_sink term_putchar "\<lambda>_ :: unit. at_rest" accept_plain
  by unfold_locales (auto simp: accept_plain_def split: if_splits intro: wp_mono [OF term_putchar_plain])

text \<open>
  A mode of the interpreter: its state, the number of digits of the parameter being read, the
  number of parameters stored. A parameter of at most nine digits is always an \<open>int\<close>.
\<close>

definition next_mode :: "ansi_interpreter_state \<times> nat \<times> nat \<Rightarrow> char \<Rightarrow> (ansi_interpreter_state \<times> nat \<times> nat) option" where
  "next_mode m c = (case m of (st, d, a) \<Rightarrow>
     (case st of
        NORMAL \<Rightarrow> Some (if c = CHR 0x1B then (BRACKET, 0, 0) else (NORMAL, 0, 0))
      | BRACKET \<Rightarrow> Some (if c = CHR ''['' then (PARAMS, 0, 0) else (NORMAL, 0, 0))
      | PARAMS \<Rightarrow>
          if c = CHR '';'' then (if d \<le> 9 \<and> a < 31 then Some (PARAMS, 0, a + 1) else None)
          else if isdigit (schar c) then (if d < 9 then Some (PARAMS, d + 1, a) else None)
          else if isalpha (schar c) then (if d \<le> 9 \<and> a < 32 then Some (NORMAL, 0, 0) else None)
          else Some m))"

definition in_mode :: "ansi_interpreter_state \<times> nat \<times> nat \<Rightarrow> tty \<Rightarrow> bool" where
  "in_mode m t \<longleftrightarrow> wf_ctx (ctx t) \<and>
     m = (ansi_state (ctx t), unat (current_index (ctx t)), unat (current_arg (ctx t)))"

abbreviation resting :: "ansi_interpreter_state \<times> nat \<times> nat" where
  "resting \<equiv> (NORMAL, 0, 0)"

abbreviation quiet :: "tty \<Rightarrow> bool" where
  "quiet \<equiv> in_mode resting"

lemma in_mode_parsing: "in_mode (PARAMS, d, a) t \<Longrightarrow> \<exists>t0 qs w. parsing t0 qs w t \<and> length qs = a \<and> length w = d"
proof -
  assume m: "in_mode (PARAMS, d, a) t"
  let ?qs = "map sint (take a (ansi_args (ctx t)))"
  have a: "a \<le> length (ansi_args (ctx t))" using m by (auto simp: in_mode_def wf_ctx_def)
  have "map word_of_int ?qs = take a (ansi_args (ctx t))" by (simp add: comp_def)
  moreover have "length ?qs = a" "length (param_text (ctx t)) = d"
    using m a by (auto simp: in_mode_def wf_ctx_def param_text_def)
  ultimately have "parsing t ?qs (param_text (ctx t)) t"
    using m unfolding parsing_def in_mode_def by simp
  then show ?thesis using \<open>length ?qs = a\<close> \<open>length (param_text (ctx t)) = d\<close> by blast
qed

lemma parsing_in_mode: "parsing t0 qs w t \<Longrightarrow> in_mode (PARAMS, length w, length qs) t"
  by (auto simp: parsing_def in_mode_def)

lemma ansi_next_mode:
  assumes "in_mode m t" "next_mode m c = Some m'"
  shows "wp (ansi_interpret_char c) (\<lambda>_. in_mode m') t"
proof (cases "ansi_state (ctx t)")
  case NORMAL
  then show ?thesis
    using assms by (auto simp: wp_def ansi_interpret_char_def in_mode_def next_mode_def set_state_def wf_ctx_def)
next
  case BRACKET
  then show ?thesis
    using assms by (auto simp: wp_def ansi_interpret_char_def in_mode_def next_mode_def set_state_def wf_ctx_def)
next
  case PARAMS
  then obtain d a where m: "m = (PARAMS, d, a)" using assms(1) by (simp add: in_mode_def)
  then obtain t0 qs w where p: "parsing t0 qs w t" "length qs = a" "length w = d"
    using in_mode_parsing assms(1) by blast
  have "list_all (\<lambda>c. isdigit (schar c)) w"
    using p(1) by (auto simp: parsing_def wf_ctx_def param_text_def list_all_length)
  then have atoi: "\<exists>n. atoi w = Some n" if "d \<le> 9" using atoi_digits[of w] that p(3) by blast
  consider (semi) "c = CHR '';''" | (digit) "c \<noteq> CHR '';''" "isdigit (schar c)"
    | (letter) "c \<noteq> CHR '';''" "\<not> isdigit (schar c)" "isalpha (schar c)"
    | (other) "c \<noteq> CHR '';''" "\<not> isdigit (schar c)" "\<not> isalpha (schar c)" by blast
  then show ?thesis
  proof cases
    case semi
    then have "d \<le> 9" "a < 31" and m': "m' = (PARAMS, 0, a + 1)"
      using assms(2) m by (auto simp: next_mode_def split: if_splits)
    then obtain n t' where "ansi_interpret_char c t = Ok True t'" "parsing t0 (qs @ [n]) [] t'"
      using atoi parsing_separator[OF p(1)] p semi by fastforce
    then show ?thesis using parsing_in_mode[of t0 "qs @ [n]" "[]" t'] m' p(2) by (simp add: wp_def)
  next
    case digit
    then have "d < 9" and m': "m' = (PARAMS, d + 1, a)"
      using assms(2) m by (auto simp: next_mode_def split: if_splits)
    then obtain t' where "ansi_interpret_char c t = Ok True t'" "parsing t0 qs (w @ [c]) t'"
      using parsing_digit[OF p(1) digit(2)] p(3) by auto
    then show ?thesis using parsing_in_mode[of t0 qs "w @ [c]" t'] m' p by (simp add: wp_def)
  next
    case letter
    then have "d \<le> 9" "a < 32" and m': "m' = resting"
      using assms(2) m by (auto simp: next_mode_def split: if_splits)
    then obtain n where n: "atoi w = Some n" using atoi by blast
    obtain c' where ok: "ansi_interpret_char c t = Ok True (run_command c (t0\<lparr>ctx := c'\<rparr>))"
      using parsing_letter[OF p(1) n _ _ letter(3)] p \<open>d \<le> 9\<close> \<open>a < 32\<close> by auto
    have "wf_ctx (ctx (run_command c (t0\<lparr>ctx := c'\<rparr>)))"
      using ansi_interpret_char_wf [OF _ ok] p(1) by (simp add: parsing_def)
    then show ?thesis using ok m' by (simp add: wp_def in_mode_def run_command_def reset_params_def)
  next
    case other
    then show ?thesis using assms m
      by (auto simp: wp_def ansi_interpret_char_def in_mode_def next_mode_def)
  qed
qed

lemma ctx_steps: "ctx (scroll_step (wrap_step (control_step c t))) = ctx t" "ctx (draw_char c t) = ctx t"
  by (simp_all add: scroll_step_def wrap_step_def control_step_def draw_char_def term_scrolldown_eq upt_rec)

lemma in_mode_steps: "in_mode m (scroll_step (wrap_step (control_step c t))) = in_mode m t"
  "in_mode m (draw_char c t) = in_mode m t"
  by (simp_all only: in_mode_def ctx_steps)

lemma term_putchar_mode:
  assumes "in_mode m t" "next_mode m c = Some m'"
  shows "wp (term_putchar c) (\<lambda>_. in_mode m') t"
proof -
  have "in_mode m (scroll_step (wrap_step (control_step c t)))"
    using assms(1) by (simp only: in_mode_steps)
  from ansi_next_mode[OF this assms(2)]
  have "wp (ansi_interpret_char c) (\<lambda>_. in_mode m') (scroll_step (wrap_step (control_step c t)))" .
  then show ?thesis
    unfolding term_putchar_def wp_simps
    by (rule wp_mono) (simp add: wp_simps in_mode_steps)
qed

interpretation escapes: char_sink term_putchar in_mode next_mode
  by unfold_locales (rule term_putchar_mode)

text \<open>A line of printable characters that fits is written left to right.\<close>

lemma term_write_string_foreach: "term_write_string s = foreach s term_putchar"
proof -
  have "foreach (map f xs) g = foreach xs (\<lambda>i. g (f i))" for f :: "nat \<Rightarrow> char" and xs and g :: "char \<Rightarrow> (tty, unit) action"
    by (induction xs) simp_all
  from this [symmetric] show ?thesis by (simp add: term_write_string_def term_write_def map_nth)
qed

section \<open>Properties\<close>

text \<open>C28: whatever is written to the terminal, in whatever state its cursor and its interpreter are,
  every cell behind the 80 * 25 cells of the text buffer keeps its value.\<close>

theorem terminal_memory_safe:
  assumes "term_write data n t = Ok u t'" "2000 \<le> i"
  shows "vga t' i = vga t i"
proof -
  have "beyond_screen (vga t) t" by (simp add: beyond_screen_def)
  from keeps_OkD[OF keeps_term_write assms(1) this] show ?thesis
    using assms(2) by (simp add: beyond_screen_def)
qed

theorem terminal_memory_safe_witness:
  "vga (blank_tty\<lparr>term_column := 1, vga := (\<lambda>_. 0)(0 := term_make_entry (CHR ''A'') 15)\<rparr>) 2000 = 0"
proof -
  have "isprint (schar (CHR ''A''))" by (simp add: isprint_def schar_def)
  then have "term_putchar (CHR ''A'') blank_tty =
      Ok () (blank_tty\<lparr>term_column := 1, vga := (\<lambda>_. 0)(0 := term_make_entry (CHR ''A'') 15)\<rparr>)"
    using term_putchar_printable[of blank_tty "CHR ''A''"] by (simp add: blank_tty_def vga_defs vga_index_def)
  then have "term_write ''A'' 1 blank_tty =
      Ok () (blank_tty\<lparr>term_column := 1, vga := (\<lambda>_. 0)(0 := term_make_entry (CHR ''A'') 15)\<rparr>)"
    by (simp add: term_write_def)
  from terminal_memory_safe[OF this, of 2000] show ?thesis by (simp add: blank_tty_def)
qed

text \<open>Text without ESC is always printed: on a terminal outside an escape sequence whose cursor is
  on the screen, writing returns, and the cursor is on the screen again.\<close>

theorem plain_text_is_printed:
  assumes "at_rest t" "list_all plain s"
  shows "\<exists>t'. term_write_string s t = Ok () t' \<and> at_rest t'"
  using screen.put_all_returns[of "()" s "()" t] assms
  by (auto simp: term_write_string_foreach run_modes_plain)

theorem plain_text_is_printed_witness: "\<exists>t'. term_write_string ''Nimble OS'' blank_tty = Ok () t' \<and> at_rest t'"
  by (rule plain_text_is_printed) (simp_all add: at_rest_def blank_tty_def vga_defs plain_def)

text \<open>C27: a text whose escape sequences are complete, with parameters of at most nine digits and at most
  32 of them, is always printed and leaves the interpreter at rest, wherever the cursor is.\<close>

theorem escaped_text_is_printed:
  assumes "quiet t" "run_modes next_mode resting s = Some resting"
  shows "\<exists>t'. term_write_string s t = Ok () t' \<and> quiet t'"
  using escapes.put_all_returns[OF assms(2,1)] by (auto simp: term_write_string_foreach)

theorem escaped_text_is_printed_witness:
  "\<exists>t'. term_write_string (CHR 0x1B # ''[24;78H'' @ CHR 0x1B # ''[Kup'') blank_tty = Ok () t' \<and> quiet t'"
proof (rule escaped_text_is_printed)
  show "quiet blank_tty" using blank_wf by (simp add: in_mode_def blank_tty_def)
  show "run_modes next_mode resting (CHR 0x1B # ''[24;78H'' @ CHR 0x1B # ''[Kup'') = Some resting"
    by (simp add: next_mode_def isdigit_def isalpha_def schar_def)
qed

end
