(* ===== verification/Printf.thy ===== *)
theory Printf
  imports Tty
begin

unbundle bit_operations_syntax

text \<open>
  \<open>libc/src/stdio/\<close>, \<open>abort.c\<close> and \<open>assert.h\<close> in the kernel build (\<open>_KERNEL_\<close> defined):
  formatted output to the terminal. An argument of \<open>printf\<close> is a stack slot: a 32-bit number,
  or a pointer to a string (\<open>None\<close> is NULL). A 64-bit argument takes two slots, the low word
  first. The number of characters written, an \<open>int\<close> that no caller in the kernel reads, is counted
  in \<open>nat\<close>: that a text of 2^31 characters or more overflows it is left out.
\<close>

datatype arg = Num u32 | Str "string option"

section \<open>Operations\<close>

definition putchar :: "int \<Rightarrow> (tty, int) action" where
  "putchar ic = before (term_putchar (to_char ic)) (ret ic)"

text \<open>Several characters one after the other; the value is their number.\<close>

definition emit :: "string \<Rightarrow> (tty, nat) action" where
  "emit cs = before (foreach cs (\<lambda>c. andthen (putchar (schar c)) (\<lambda>_. ret ()))) (ret (length cs))"

text \<open>After a percent sign: the pad flag, the pad width, the conversion, the rest of the format.\<close>

definition parse_pad0 :: "string \<Rightarrow> bool \<times> string" where
  "parse_pad0 s = (case s of [] \<Rightarrow> (False, []) | c # s' \<Rightarrow> if c = CHR ''0'' then (True, s') else (False, s))"

definition parse_width :: "string \<Rightarrow> nat \<times> string" where
  "parse_width s = (case s of [] \<Rightarrow> (0, [])
     | c # s' \<Rightarrow> if schar c \<ge> 48 \<and> schar c \<le> 57 then (nat (schar c - 48), s') else (0, s))"

definition parse_spec :: "string \<Rightarrow> (bool \<times> nat \<times> char \<times> string) option" where
  "parse_spec s =
     (let (pad0, s1) = parse_pad0 s; (pad_count, s2) = parse_width s1
      in case s2 of [] \<Rightarrow> None | c # s3 \<Rightarrow> Some (pad0, pad_count, c, s3))"

definition numeric_conversion :: "char \<Rightarrow> bool" where
  "numeric_conversion c \<longleftrightarrow> c \<in> {CHR ''b'', CHR ''d'', CHR ''u'', CHR ''x'', CHR ''X'', CHR ''p''}"

text \<open>The first \<open>switch\<close>: the number's text into the 32 characters of \<open>buf\<close>.\<close>

definition convert_number :: "char \<Rightarrow> u32 \<Rightarrow> char list \<Rightarrow> char list option" where
  "convert_number c v buf =
     (if c = CHR ''b'' then utoa v buf 2
      else if c = CHR ''d'' then itoa (sint v) buf 10
      else if c = CHR ''u'' then utoa v buf 10
      else utoa v buf 16)"

text \<open>The label \<open>string\<close>: padding up to the width, then the text.\<close>

definition print_string :: "bool \<Rightarrow> nat \<Rightarrow> string \<Rightarrow> (tty, nat) action" where
  "print_string pad0 pad_count p =
     andthen (emit (replicate (pad_count - length p) (if pad0 then CHR ''0'' else CHR '' ''))) (\<lambda>n1.
     andthen (emit p) (\<lambda>n2. ret (n1 + n2)))"

definition null_text :: string where
  "null_text = ''(null)''"

definition convert :: "bool \<Rightarrow> nat \<Rightarrow> char \<Rightarrow> arg list \<Rightarrow> (tty, nat \<times> arg list) action" where
  "convert pad0 pad_count c args =
     (if numeric_conversion c then
        (case args of
           [] \<Rightarrow> stuck MissingArgument
         | Str _ # _ \<Rightarrow> stuck BadArgument
         | Num v # args' \<Rightarrow>
             andthen (if c = CHR ''p'' then emit ''0x'' else ret 0) (\<lambda>n0.
             andthen (orelse_stuck OutOfBounds (convert_number c v (replicate 32 NUL))) (\<lambda>buf.
             let p = cstr buf;
                 p' = if c = CHR ''X'' then map (\<lambda>x. to_char (toupper (schar x))) p else p
             in andthen (print_string pad0 pad_count p') (\<lambda>n. ret (n0 + n, args')))))
      else if c = CHR ''s'' then
        (case args of
           [] \<Rightarrow> stuck MissingArgument
         | Num _ # _ \<Rightarrow> stuck BadArgument
         | Str q # args' \<Rightarrow>
             andthen (print_string pad0 pad_count (case q of None \<Rightarrow> null_text | Some p \<Rightarrow> p))
               (\<lambda>n. ret (n, args')))
      else
        (case args of
           [] \<Rightarrow> stuck MissingArgument
         | Str _ # _ \<Rightarrow> stuck BadArgument
         | Num v # args' \<Rightarrow> before (putchar (sint v)) (ret (1, args'))))"

lemma parse_spec_length: "parse_spec s = Some (z, n, c, s') \<Longrightarrow> length s' < length s"
  by (auto simp: parse_spec_def parse_pad0_def parse_width_def split: list.splits if_splits prod.splits)

function printf_from :: "string \<Rightarrow> arg list \<Rightarrow> nat \<Rightarrow> (tty, nat) action" where
  "printf_from format args written =
     (case format of
        [] \<Rightarrow> ret written
      | c # rest \<Rightarrow>
          if c \<noteq> CHR ''%'' then before (putchar (schar c)) (printf_from rest args (written + 1))
          else (case parse_spec rest of
                  None \<Rightarrow> stuck FormatOverrun
                | Some (pad0, pad_count, conv, rest') \<Rightarrow>
                    andthen (convert pad0 pad_count conv args)
                      (\<lambda>(n, args'). printf_from rest' args' (written + n))))"
  by pat_completeness auto
termination
  by (relation "measure (\<lambda>(format, args, written). length format)")
    (auto dest: parse_spec_length)

declare printf_from.simps [simp del]

definition printf :: "string \<Rightarrow> arg list \<Rightarrow> (tty, nat) action" where
  "printf format args = printf_from format args 0"

definition puts :: "string \<Rightarrow> (tty, nat) action" where
  "puts s = printf ''%s\<newline>'' [Str (Some s)]"

definition abort :: "(tty, 'a) action" where
  "abort = before (printf ''Kernel Panic: abort()\<newline>'' []) (leave Abort)"

text \<open>The \<open>assert\<close> macro; file, line, function and expression are the compiler's, the expression with its macros
  expanded, since \<open>assert\<close> hands it to \<open>STRINGIFY\<close> and not to \<open>#\<close>.\<close>

definition assertion :: "string \<Rightarrow> u32 \<Rightarrow> string \<Rightarrow> string \<Rightarrow> bool \<Rightarrow> (tty, unit) action" where
  "assertion file line function expr b =
     (if \<not> b then
        before (printf (CHR 0x1B # ''[31m%s:%d: %s: Assertion `%s` failed.\<newline>'')
                  [Str (Some file), Num line, Str (Some function), Str (Some expr)])
          abort
      else ret ())"

section \<open>The text that is printed\<close>

text \<open>
  The specification: the text a format and its arguments stand for, as a function of them alone.
  \<open>None\<close> is a call without a defined meaning: an argument is missing or of the wrong type, the
  format ends inside a conversion, or a binary conversion needs more than 31 digits.
\<close>

definition padded :: "bool \<Rightarrow> nat \<Rightarrow> string \<Rightarrow> string" where
  "padded pad0 w s = replicate (w - length s) (if pad0 then CHR ''0'' else CHR '' '') @ s"

definition number_text :: "char \<Rightarrow> u32 \<Rightarrow> string option" where
  "number_text c v =
     (if c = CHR ''b'' then (if unat v < 2 ^ 31 then Some (numeral_text 2 (unat v)) else None)
      else if c = CHR ''d'' then Some (decimal_text (sint v))
      else if c = CHR ''u'' then Some (numeral_text 10 (unat v))
      else if c = CHR ''X''
      then Some (map (\<lambda>x. to_char (toupper (schar x))) (numeral_text 16 (unat v)))
      else Some (numeral_text 16 (unat v)))"

fun arg_text :: "bool \<Rightarrow> nat \<Rightarrow> char \<Rightarrow> arg list \<Rightarrow> (string \<times> arg list) option" where
  "arg_text z w c [] = None"
| "arg_text z w c (Num v # args) =
     (if numeric_conversion c
      then map_option (\<lambda>t. ((if c = CHR ''p'' then ''0x'' else []) @ padded z w t, args)) (number_text c v)
      else if c = CHR ''s'' then None
      else Some ([to_char (sint v)], args))"
| "arg_text z w c (Str q # args) =
     (if c = CHR ''s'' then Some (padded z w (case q of None \<Rightarrow> null_text | Some p \<Rightarrow> p), args)
      else None)"

function format_text :: "string \<Rightarrow> arg list \<Rightarrow> string option" where
  "format_text format args =
     (case format of
        [] \<Rightarrow> Some []
      | c # rest \<Rightarrow>
          if c \<noteq> CHR ''%'' then map_option ((#) c) (format_text rest args)
          else (case parse_spec rest of
                  None \<Rightarrow> None
                | Some (z, w, conv, rest') \<Rightarrow>
                    (case arg_text z w conv args of
                       None \<Rightarrow> None
                     | Some (t, args') \<Rightarrow> map_option ((@) t) (format_text rest' args'))))"
  by pat_completeness auto
termination
  by (relation "measure (\<lambda>(format, args). length format)") (auto dest: parse_spec_length)

declare format_text.simps [simp del]

text \<open>The equations of the two functions, by the first character of the format.\<close>

lemma printf_from_Nil [simp]: "printf_from [] args n = ret n"
  by (simp add: printf_from.simps)

lemma printf_from_Cons:
  "printf_from (c # rest) args n =
     (if c \<noteq> CHR ''%'' then before (putchar (schar c)) (printf_from rest args (n + 1))
      else (case parse_spec rest of
              None \<Rightarrow> stuck FormatOverrun
            | Some (pad0, pad_count, conv, rest') \<Rightarrow>
                andthen (convert pad0 pad_count conv args)
                  (\<lambda>(k, args'). printf_from rest' args' (n + k))))"
  by (subst printf_from.simps) simp

lemma format_text_Nil [simp]: "format_text [] args = Some []"
  by (simp add: format_text.simps)

lemma format_text_Cons:
  "format_text (c # rest) args =
     (if c \<noteq> CHR ''%'' then map_option ((#) c) (format_text rest args)
      else (case parse_spec rest of
              None \<Rightarrow> None
            | Some (z, w, conv, rest') \<Rightarrow>
                (case arg_text z w conv args of
                   None \<Rightarrow> None
                 | Some (t, args') \<Rightarrow> map_option ((@) t) (format_text rest' args'))))"
  by (subst format_text.simps) simp

section \<open>printf prints the text\<close>

lemma to_char_schar [simp]: "to_char (schar c) = c"
proof -
  have "(schar c) mod 256 = of_char c"
  proof -
    have "0 \<le> (of_char c :: int)" "(of_char c :: int) < 256" by (simp_all add: of_char_def)
    then show ?thesis by (simp add: schar_def Let_def mod_diff_eq [symmetric])
  qed
  then show ?thesis by (simp add: to_char_def)
qed

definition print_text :: "string \<Rightarrow> (tty, unit) action" where
  "print_text s = foreach s term_putchar"

lemma putchar_schar: "andthen (putchar (schar c)) (\<lambda>_. ret ()) = term_putchar c"
  by (auto simp: fun_eq_iff putchar_def before_def andthen_def split: outcome.splits)

lemma emit_text: "emit cs = before (print_text cs) (ret (length cs))"
  by (simp add: emit_def putchar_schar print_text_def)

text \<open>Putting characters returns or is undefined; it never leaves.\<close>

definition no_exit :: "('s, 'a) action \<Rightarrow> bool" where
  "no_exit m \<longleftrightarrow> (\<forall>s e t. m s \<noteq> Exit e t)"

lemma no_exit_simple: "no_exit (ret a)" "no_exit (Ok a)" "no_exit (change g)" "no_exit (stuck f)"
  by (simp_all add: no_exit_def)

lemma no_exit_andthen: "no_exit m \<Longrightarrow> (\<And>a. no_exit (k a)) \<Longrightarrow> no_exit (andthen m k)"
  by (simp add: no_exit_def andthen_def split: outcome.splits)

lemma no_exit_before: "no_exit m \<Longrightarrow> no_exit k \<Longrightarrow> no_exit (before m k)"
  unfolding before_def by (rule no_exit_andthen)

lemma no_exit_store: "no_exit store_param" "no_exit (store_digit c)"
  by (simp_all add: no_exit_def store_param_def store_digit_def Let_def split: option.splits)

lemma no_exit_ansi: "no_exit (ansi_interpret_char c)"
proof -
  note rules = no_exit_before no_exit_store no_exit_simple
  have "no_exit (before store_param
      (before (change (\<lambda>t. t\<lparr>ctx := (ctx t)\<lparr>current_index := 0\<rparr>\<rparr>)) (ret True)))"
    by (intro rules)
  moreover have "no_exit (before (store_digit c) (ret True))" for c by (intro rules)
  moreover have "no_exit (before store_param (before (change (cursor_command c))
      (before (change (graphics_command c)) (before (change reset_params) (ret True)))))" for c
    by (intro rules)
  ultimately show ?thesis
    unfolding no_exit_def ansi_interpret_char_def
    by (simp split: ansi_interpreter_state.split)
qed

lemma no_exit_term_putchar: "no_exit (term_putchar c)"
  unfolding term_putchar_def
  by (intro no_exit_before no_exit_andthen no_exit_simple no_exit_ansi) (simp add: no_exit_simple)

lemma no_exit_print_text: "no_exit (print_text s)"
  unfolding print_text_def
  by (induction s) (simp_all add: no_exit_before no_exit_term_putchar, simp add: no_exit_def)

text \<open>The two results of a stretch of output: its text printed, or undefined.\<close>

definition prints :: "(tty, 'a) action \<Rightarrow> string \<Rightarrow> 'a \<Rightarrow> bool" where
  "prints m s a \<longleftrightarrow> m = before (print_text s) (ret a)"

definition breaks :: "(tty, 'a) action \<Rightarrow> bool" where
  "breaks m \<longleftrightarrow> (\<forall>t. \<exists>f. m t = Undefined f)"

lemma print_text_append: "print_text (s @ u) = before (print_text s) (print_text u)"
  by (simp add: print_text_def foreach_append)

lemma prints_andthen:
  assumes "prints m s a" "prints (k a) u b"
  shows "prints (andthen m k) (s @ u) b"
  using assms
  by (auto simp: prints_def print_text_append before_def andthen_def fun_eq_iff split: outcome.splits)

lemma breaks_after:
  assumes "prints m s a" "breaks (k a)"
  shows "breaks (andthen m k)"
proof -
  have "\<exists>f. andthen m k t = Undefined f" for t
    using assms no_exit_print_text[of s]
    by (cases "print_text s t") (auto simp: prints_def breaks_def no_exit_def andthen_def before_def)
  then show ?thesis by (simp add: breaks_def)
qed

lemma breaks_first: "breaks m \<Longrightarrow> breaks (andthen m k)"
  unfolding breaks_def andthen_def by (metis outcome.simps(12))

lemma breaks_stuck [simp]: "breaks (stuck f)"
  by (simp add: breaks_def)

lemma prints_ret [simp]: "prints (ret a) [] a"
  by (simp add: prints_def print_text_def before_def andthen_def fun_eq_iff)

lemma prints_emit: "prints (emit cs) cs (length cs)"
  by (simp add: prints_def emit_text)

lemma prints_putchar: "prints (putchar v) [to_char v] v"
  by (auto simp: prints_def putchar_def print_text_def before_def andthen_def fun_eq_iff split: outcome.splits)

lemma prints_andthen_ret: "prints m s a \<Longrightarrow> prints (andthen m (\<lambda>n. ret (f n))) s (f a)"
  using prints_andthen[of m s a "\<lambda>n. ret (f n)" "[]" "f a"] by simp

lemma prints_print_string: "prints (print_string z w p) (padded z w p) (length (padded z w p))"
proof -
  let ?pad = "replicate (w - length p) (if z then CHR ''0'' else CHR '' '')"
  have "prints (andthen (emit p) (\<lambda>n2. ret (length ?pad + n2))) p (length ?pad + length p)"
    by (rule prints_andthen_ret [OF prints_emit])
  from prints_andthen [OF prints_emit, of "\<lambda>n1. andthen (emit p) (\<lambda>n2. ret (n1 + n2))", OF this]
  show ?thesis by (simp add: print_string_def padded_def)
qed

text \<open>The number conversions fit the 32 characters of \<open>buf\<close>, but for 32 binary digits.\<close>

lemma sint_fits: "fits 32 (sint (v :: u32))"
  using sint_range_size[of v] by (simp add: fits_def word_size)

lemma numeral_text_length:
  fixes v :: u32
  shows "length (numeral_text 10 (unat v)) < 32" "length (numeral_text 16 (unat v)) < 32"
    "length (numeral_text 2 (unat v)) < 32 \<longleftrightarrow> unat v < 2 ^ 31"
proof -
  have v: "unat v < 10 ^ Suc 9" "unat v < 16 ^ Suc 7"
    using unat_less_numeral_u32[of v] by (simp_all, linarith+)
  show "length (numeral_text 10 (unat v)) < 32"
    using digits_length[OF _ v(1)] by (simp add: numeral_text_def)
  show "length (numeral_text 16 (unat v)) < 32"
    using digits_length[OF _ v(2)] by (simp add: numeral_text_def)
  show "length (numeral_text 2 (unat v)) < 32 \<longleftrightarrow> unat v < 2 ^ 31"
  proof
    assume "unat v < 2 ^ 31"
    then have "unat v < 2 ^ Suc 30" by simp
    from digits_length[OF _ this] show "length (numeral_text 2 (unat v)) < 32"
      by (simp add: numeral_text_def)
  next
    let ?n = "length (digits 2 (unat v))"
    assume "length (numeral_text 2 (unat v)) < 32"
    then have "(2::nat) ^ ?n \<le> 2 ^ 31" by (intro power_increasing) (simp_all add: numeral_text_def)
    then show "unat v < 2 ^ 31" using digits_bound[of 2 "unat v"] by simp
  qed
qed

lemma utoa_text:
  assumes "2 \<le> base" "base \<le> 36"
  shows "map_option cstr (utoa v (replicate 32 NUL) base) =
     (if length (numeral_text (unat base) (unat v)) < 32 then Some (numeral_text (unat base) (unat v))
      else None)"
proof -
  have "\<forall>c \<in> set (numeral_text (unat base) (unat v)). c \<noteq> NUL"
    using assms by (intro numeral_text_no_NUL) (simp_all add: word_le_nat_alt)
  then show ?thesis by (simp add: utoa_numeral [OF assms] Let_def cstr_write_at)
qed

lemma itoa_text: "map_option cstr (itoa (sint (v :: u32)) (replicate 32 NUL) 10) = Some (decimal_text (sint v))"
  using decimal_text_length [OF sint_fits [of v]]
  by (simp add: itoa_decimal cstr_write_at decimal_text_no_NUL)

lemma convert_number_text:
  assumes "numeric_conversion c"
  shows "map_option cstr (convert_number c v (replicate 32 NUL)) =
     (if c = CHR ''X'' then Some (numeral_text 16 (unat v)) else number_text c v)"
proof -
  note t2 = utoa_text[of 2 v, simplified] and t10 = utoa_text[of 10 v, simplified]
    and t16 = utoa_text[of 16 v, simplified]
  show ?thesis
    using t2 t10 t16 itoa_text[of v] numeral_text_length[of v]
    by (simp add: convert_number_def number_text_def)
qed

lemma convert_text:
  "case arg_text z w c args of
     None \<Rightarrow> breaks (convert z w c args)
   | Some (t, args') \<Rightarrow> prints (convert z w c args) t (length t, args')"
proof (cases args)
  case Nil
  then show ?thesis by (simp add: convert_def)
next
  case (Cons a args')
  show ?thesis
  proof (cases a)
    case (Str q)
    have "\<not> numeric_conversion (CHR ''s'')" by (simp add: numeric_conversion_def)
    moreover have "prints (andthen (print_string z w p) (\<lambda>n. ret (n, args'))) (padded z w p) (length (padded z w p), args')" for p
      by (rule prints_andthen_ret [OF prints_print_string])
    ultimately show ?thesis using Cons Str by (auto simp: convert_def)
  next
    case (Num v)
    show ?thesis
    proof (cases "numeric_conversion c")
      case False
      have sn: "\<not> numeric_conversion (CHR ''s'')" by (simp add: numeric_conversion_def)
      have "prints (andthen (putchar (sint v)) (\<lambda>_. ret (1 :: nat, args'))) [to_char (sint v)] (1, args')"
        by (rule prints_andthen_ret [OF prints_putchar])
      then show ?thesis using False Cons Num sn by (auto simp: convert_def before_def)
    next
      case True
      let ?pre = "if c = CHR ''p'' then ''0x'' else []"
      let ?m = "if c = CHR ''p'' then emit ''0x'' else ret 0"
      have pre: "prints ?m ?pre (length ?pre)"
        using prints_emit[of "''0x''"] by simp
      note number = convert_number_text [OF True, of v]
      show ?thesis
      proof (cases "convert_number c v (replicate 32 NUL)")
        case None
        then have "number_text c v = None" using number by (auto split: if_splits)
        moreover have "breaks (convert z w c args)"
          using True Cons Num None by (simp add: convert_def breaks_after [OF pre] breaks_first)
        ultimately show ?thesis using True Cons Num by simp
      next
        case (Some buf)
        let ?p = "if c = CHR ''X'' then map (\<lambda>x. to_char (toupper (schar x))) (cstr buf) else cstr buf"
        have t: "number_text c v = Some ?p"
          using number Some by (auto simp: number_text_def split: if_splits)
        have "prints (andthen ?m (\<lambda>n0. andthen (print_string z w ?p) (\<lambda>n. ret (n0 + n, args'))))
            (?pre @ padded z w ?p) (length ?pre + length (padded z w ?p), args')"
          by (rule prints_andthen [OF pre prints_andthen_ret [OF prints_print_string]])
        moreover have "convert z w c args
            = andthen ?m (\<lambda>n0. andthen (print_string z w ?p) (\<lambda>n. ret (n0 + n, args')))"
          using True Cons Num Some by (simp add: convert_def Let_def andthen_def)
        ultimately show ?thesis using True Cons Num t by simp
      qed
    qed
  qed
qed

text \<open>The contract of \<open>printf\<close>: it prints the text of its format and returns its length.\<close>

lemma printf_from_text:
  "case format_text fmt args of
     None \<Rightarrow> breaks (printf_from fmt args n)
   | Some s \<Rightarrow> prints (printf_from fmt args n) s (n + length s)"
proof (induction "length fmt" arbitrary: fmt args n rule: less_induct)
  case less
  show ?case
  proof (cases fmt)
    case Nil
    then show ?thesis by (simp add: format_text_Cons printf_from_Cons)
  next
    case (Cons c rest)
    show ?thesis
    proof (cases "c = CHR ''%''")
      case False
      have m: "printf_from fmt args n = andthen (putchar (schar c)) (\<lambda>_. printf_from rest args (n + 1))"
        using Cons False by (simp add: printf_from_Cons before_def)
      have p: "prints (putchar (schar c)) [c] (schar c)" using prints_putchar[of "schar c"] by simp
      note IH = less [of rest args "n + 1"]
      show ?thesis
      proof (cases "format_text rest args")
        case None
        then show ?thesis using IH Cons False
          by (simp add: format_text_Cons m [unfolded Cons] breaks_after [OF p])
      next
        case (Some s)
        then show ?thesis using IH Cons False prints_andthen [OF p, of "\<lambda>_. printf_from rest args (n + 1)" s]
          by (simp add: format_text_Cons m [unfolded Cons])
      qed
    next
      case True
      show ?thesis
      proof (cases "parse_spec rest")
        case None
        then show ?thesis using Cons True
          by (simp add: format_text_Cons printf_from_Cons)
      next
        case (Some spec)
        obtain z w cv rest' where s: "spec = (z, w, cv, rest')" by (cases spec)
        have len: "length rest' < length fmt" using parse_spec_length Some s Cons by fastforce
        have m: "printf_from fmt args n
            = andthen (convert z w cv args) (\<lambda>(k, args'). printf_from rest' args' (n + k))"
          using Cons True Some s by (simp add: printf_from_Cons)
        note C = convert_text[of z w cv args]
        show ?thesis
        proof (cases "arg_text z w cv args")
          case None
          then show ?thesis using C Cons True Some s
            by (simp add: format_text_Cons m [unfolded Cons True] breaks_first)
        next
          case a: (Some r)
          obtain t args' where r: "r = (t, args')" by (cases r)
          have p: "prints (convert z w cv args) t (length t, args')" using C a r by simp
          note IH = less [OF len, of args' "n + length t"]
          show ?thesis
          proof (cases "format_text rest' args'")
            case None
            then show ?thesis using IH Cons True Some s a r
              by (simp add: format_text_Cons m [unfolded Cons True] breaks_after [OF p])
          next
            case f: (Some u)
            then show ?thesis
              using IH Cons True Some s a r
                prints_andthen [OF p, of "\<lambda>(k, args'). printf_from rest' args' (n + k)" u]
              by (simp add: format_text_Cons m [unfolded Cons True] add.assoc)
          qed
        qed
      qed
    qed
  qed
qed

section \<open>Properties\<close>

text \<open>C14: \<open>printf\<close> refines its specification: it prints exactly the text that format and arguments stand
  for and returns the number of its characters (of a text shorter than 2^31); where the specification has no
  text, it ends in undefined behaviour on every terminal.\<close>

theorem printf_refines:
  "(case format_text fmt args of
      Some s \<Rightarrow> printf fmt args = before (foreach s term_putchar) (ret (length s))
    | None \<Rightarrow> (\<forall>t. \<exists>f. printf fmt args t = Undefined f))"
proof (cases "format_text fmt args")
  case None
  then have "breaks (printf fmt args)" using printf_from_text[of fmt args 0] by (simp add: printf_def)
  then show ?thesis using None by (simp add: breaks_def)
next
  case (Some s)
  then show ?thesis
    using printf_from_text[of fmt args 0] by (simp add: printf_def prints_def print_text_def)
qed

end
