(* ===== verification/Console.thy ===== *)
theory Console
  imports Printf
begin

text \<open>
  The kernel's state as the later components extend it: its first part is the console, and the
  output functions of \<open>Printf\<close> run on that part. Every component record extends \<open>console\<close>, so
  what printing leaves alone is immediate from its definition.
\<close>

record console =
  con :: tty

definition on_console :: "(tty, 'a) action \<Rightarrow> ('s console_scheme, 'a) action" where
  "on_console m = zoom con (\<lambda>t s. s\<lparr>con := t\<rparr>) m"

definition kprintf :: "string \<Rightarrow> arg list \<Rightarrow> ('s console_scheme, unit) action" where
  "kprintf fmt args = on_console (andthen (printf fmt args) (\<lambda>_. ret ()))"

definition kabort :: "('s console_scheme, 'a) action" where
  "kabort = on_console abort"

definition kassert ::
    "string \<Rightarrow> u32 \<Rightarrow> string \<Rightarrow> string \<Rightarrow> bool \<Rightarrow> ('s console_scheme, unit) action" where
  "kassert file line function expr b = on_console (assertion file line function expr b)"

section \<open>What printing does to the state\<close>

text \<open>Only the console changes, and printing does not leave.\<close>

lemma printf_no_exit: "printf fmt args t \<noteq> Exit e t'"
proof (cases "format_text fmt args")
  case None
  then have "breaks (printf fmt args)" using printf_from_text[of fmt args 0] by (simp add: printf_def)
  then show ?thesis unfolding breaks_def by (metis outcome.distinct(5))
next
  case (Some s)
  then have "prints (printf fmt args) s (length s)"
    using printf_from_text[of fmt args 0] by (simp add: printf_def)
  then have "no_exit (printf fmt args)"
    unfolding prints_def by (simp only:) (intro no_exit_before no_exit_print_text no_exit_simple)
  then show ?thesis by (simp add: no_exit_def)
qed

lemma kprintf_cases:
  obtains t where "kprintf fmt args s = Ok () (s\<lparr>con := t\<rparr>)"
  | f where "kprintf fmt args s = Undefined f"
proof (cases "printf fmt args (con s)")
  case (Ok n t)
  then have "kprintf fmt args s = Ok () (s\<lparr>con := t\<rparr>)"
    by (simp add: kprintf_def on_console_def zoom_def)
  then show ?thesis using that by blast
next
  case (Exit e t)
  then show ?thesis using printf_no_exit by blast
next
  case (Undefined f)
  then have "kprintf fmt args s = Undefined f"
    by (simp add: kprintf_def on_console_def zoom_def)
  then show ?thesis using that by blast
qed

lemma kprintf_frame: "kprintf fmt args s = Ok u s' \<Longrightarrow> \<exists>t. s' = s\<lparr>con := t\<rparr>"
  by (rule kprintf_cases [of fmt args s]) auto

lemma kprintf_no_Exit [simp]: "kprintf fmt args s \<noteq> Exit e s'"
  by (rule kprintf_cases [of fmt args s]) auto

text \<open>A message of plain characters returns on a console at rest and leaves it at rest.\<close>

lemma kprintf_plain:
  assumes "format_text fmt args = Some out" "list_all plain out" "at_rest (con s)"
  obtains t where "kprintf fmt args s = Ok () (s\<lparr>con := t\<rparr>)" "at_rest t"
proof -
  have p: "printf fmt args = before (print_text out) (ret (length out))"
    using printf_from_text[of fmt args 0] assms(1) by (simp add: printf_def prints_def)
  obtain t where "print_text out (con s) = Ok () t" "at_rest t"
    unfolding print_text_def using screen.put_all_returns[of "()" out "()" "con s"] assms(2,3) by (auto simp: run_modes_plain)
  then have "kprintf fmt args s = Ok () (s\<lparr>con := t\<rparr>)"
    by (simp add: kprintf_def on_console_def zoom_def p)
  with \<open>at_rest t\<close> show ?thesis using that by blast
qed

text \<open>
  The modes of the escape interpreter that a format goes through, whatever the numbers printed
  are: a conversion stands outside escape sequences and is a number's or a string's.
\<close>

function format_modes :: "ansi_interpreter_state \<times> nat \<times> nat \<Rightarrow> string
    \<Rightarrow> (ansi_interpreter_state \<times> nat \<times> nat) option" where
  "format_modes m format =
     (case format of
        [] \<Rightarrow> Some m
      | c # rest \<Rightarrow>
          if c \<noteq> CHR ''%'' then
            (case next_mode m c of None \<Rightarrow> None | Some m' \<Rightarrow> format_modes m' rest)
          else (case parse_spec rest of
                  None \<Rightarrow> None
                | Some (z, w, conv, rest') \<Rightarrow>
                    if m = resting \<and> (numeric_conversion conv \<or> conv = CHR ''s'')
                    then format_modes resting rest' else None))"
  by pat_completeness auto
termination
  by (relation "measure (\<lambda>(m, format). length format)") (auto dest: parse_spec_length)

declare format_modes.simps [simp del]

lemma format_modes_Nil [simp]: "format_modes m [] = Some m"
  by (simp add: format_modes.simps)

lemma format_modes_Cons:
  "format_modes m (c # rest) =
     (if c \<noteq> CHR ''%'' then
        (case next_mode m c of None \<Rightarrow> None | Some m' \<Rightarrow> format_modes m' rest)
      else (case parse_spec rest of
              None \<Rightarrow> None
            | Some (z, w, conv, rest') \<Rightarrow>
                if m = resting \<and> (numeric_conversion conv \<or> conv = CHR ''s'')
                then format_modes resting rest' else None))"
  by (subst format_modes.simps) simp

fun plain_arg :: "arg \<Rightarrow> bool" where
  "plain_arg (Num v) = True"
| "plain_arg (Str None) = True"
| "plain_arg (Str (Some s)) = list_all plain s"

lemma plain_digit: "d < 36 \<Longrightarrow> plain (digit_char d)"
  using digit_char_cases[of d] by (auto simp: plain_def schar_def split: if_splits)

lemma plain_upper: "d < 36 \<Longrightarrow> plain (to_char (toupper (schar (digit_char d))))"
proof -
  assume "d < 36"
  then have "toupper (schar (digit_char d)) \<in> {48..127}"
    by (simp add: digit_char_cases toupper_eq islower_def)
  then have "(of_char (to_char (toupper (schar (digit_char d)))) :: int) \<noteq> 27"
    unfolding to_char_def by simp
  then show ?thesis unfolding plain_def by auto
qed

lemma plain_numeral: "2 \<le> b \<Longrightarrow> b \<le> 36 \<Longrightarrow> list_all plain (numeral_text b n)"
  using digits_less[of b n] plain_digit by (fastforce simp: numeral_text_def list_all_iff)

lemma plain_number_text:
  assumes "number_text c v = Some t"
  shows "list_all plain t"
proof -
  have "list_all plain (map (\<lambda>x. to_char (toupper (schar x))) (numeral_text 16 n))" for n
    using digits_less[of 16 n] plain_upper by (fastforce simp: numeral_text_def list_all_iff)
  then show ?thesis
    using assms plain_numeral
    by (auto simp: number_text_def decimal_text_def plain_def split: if_splits)
qed

lemma plain_padded: "list_all plain s \<Longrightarrow> list_all plain (padded z w s)"
  by (simp add: padded_def list_all_append) (simp add: plain_def list_all_iff)

lemma plain_arg_text:
  assumes "arg_text z w c args = Some (t, args')" "numeric_conversion c \<or> c = CHR ''s''"
    "list_all plain_arg args"
  shows "list_all plain t \<and> list_all plain_arg args'"
proof (cases args rule: list.exhaust)
  case Nil
  then show ?thesis using assms(1) by simp
next
  case (Cons a as)
  show ?thesis
  proof (cases a)
    case (Num v)
    then show ?thesis
      using assms Cons plain_padded plain_number_text
      by (auto simp: plain_def split: if_splits)
  next
    case (Str q)
    then show ?thesis
      using assms Cons plain_padded
      by (cases q) (auto simp: null_text_def plain_def split: if_splits)
  qed
qed

lemma plain_modes: "list_all plain t \<Longrightarrow> run_modes next_mode resting t = Some resting"
  by (induction t) (simp_all add: next_mode_def plain_def)

lemma format_text_modes:
  "format_text fmt args = Some out \<Longrightarrow> format_modes m fmt = Some m' \<Longrightarrow> list_all plain_arg args \<Longrightarrow>
   run_modes next_mode m out = Some m'"
proof (induction fmt args arbitrary: out m rule: format_text.induct)
  case (1 fmt args)
  show ?case
  proof (cases fmt)
    case Nil
    then show ?thesis using "1.prems" by simp
  next
    case (Cons c rest)
    show ?thesis
    proof (cases "c = CHR ''%''")
      case False
      then show ?thesis
        using "1.prems" "1.IH"(1)[OF Cons False] Cons
        by (auto simp: format_text_Cons format_modes_Cons split: option.splits)
    next
      case True
      obtain z w conv rest' where spec: "parse_spec rest = Some (z, w, conv, rest')"
        using "1.prems"(2) True Cons by (auto simp: format_modes_Cons split: option.splits)
      obtain t args' where arg: "arg_text z w conv args = Some (t, args')"
        using "1.prems"(1) True Cons spec by (auto simp: format_text_Cons split: option.splits)
      have conv: "numeric_conversion conv \<or> conv = CHR ''s''" "m = resting" "format_modes resting rest' = Some m'"
        using "1.prems"(2) True Cons spec by (auto simp: format_modes_Cons split: if_splits)
      obtain u where u: "format_text rest' args' = Some u" "out = t @ u"
        using "1.prems"(1) True Cons spec arg by (auto simp: format_text_Cons)
      note t = plain_arg_text[OF arg conv(1) "1.prems"(3)]
      have "run_modes next_mode resting u = Some m'"
        using "1.IH"(2)[of c rest "(z, w, conv, rest')"] u(1) conv(3) spec arg True Cons t by auto
      then show ?thesis using t u(2) conv(2) plain_modes by (simp add: run_modes_append)
    qed
  qed
qed

lemmas format_eval = format_text_Cons format_modes_Cons next_mode_def parse_spec_def parse_pad0_def
  parse_width_def numeric_conversion_def number_text_def schar_def isdigit_def isalpha_def

lemma kprintf_returns:
  assumes "format_text fmt args \<noteq> None" "format_modes resting fmt = Some resting"
    "list_all plain_arg args" "quiet (con s)"
  obtains t where "kprintf fmt args s = Ok () (s\<lparr>con := t\<rparr>)" "quiet t"
proof -
  obtain out where out: "format_text fmt args = Some out" using assms(1) by blast
  then have p: "printf fmt args = before (print_text out) (ret (length out))"
    using printf_from_text[of fmt args 0] by (simp add: printf_def prints_def)
  from escapes.put_all_returns[OF format_text_modes[OF out assms(2,3)] assms(4)]
  obtain t where "print_text out (con s) = Ok () t" "quiet t" unfolding print_text_def .
  then have "kprintf fmt args s = Ok () (s\<lparr>con := t\<rparr>)"
    by (simp add: kprintf_def on_console_def zoom_def p)
  with \<open>quiet t\<close> show ?thesis using that by blast
qed

lemma kprintf_text:
  assumes "format_text fmt args = Some out" "list_all plain out" "quiet (con s)"
  obtains t where "kprintf fmt args s = Ok () (s\<lparr>con := t\<rparr>)" "quiet t" "print_text out (con s) = Ok () t"
proof -
  have p: "printf fmt args = before (print_text out) (ret (length out))"
    using printf_from_text[of fmt args 0] assms(1) by (simp add: printf_def prints_def)
  from escapes.put_all_returns[OF plain_modes[OF assms(2)] assms(3)]
  obtain t where t: "print_text out (con s) = Ok () t" "quiet t" unfolding print_text_def .
  then have "kprintf fmt args s = Ok () (s\<lparr>con := t\<rparr>)"
    by (simp add: kprintf_def on_console_def zoom_def p)
  with t show ?thesis using that by blast
qed

lemma kabort_exits:
  assumes "quiet (con s)"
  obtains t where "kabort s = Exit Abort (s\<lparr>con := t\<rparr>)" "quiet t"
proof -
  let ?fmt = "''Kernel Panic: abort()\<newline>''"
  have "format_text ?fmt [] \<noteq> None" "format_modes resting ?fmt = Some resting" "list_all plain_arg []"
    by (simp_all add: format_eval)
  from kprintf_returns [OF this assms]
  obtain t where t: "kprintf ?fmt [] s = Ok () (s\<lparr>con := t\<rparr>)" "quiet t" .
  then obtain n v where "printf ?fmt [] (con s) = Ok n v" "s\<lparr>con := v\<rparr> = s\<lparr>con := t\<rparr>"
    by (auto simp: kprintf_def on_console_def zoom_def andthen_def split: outcome.splits)
  then have "kabort s = Exit Abort (s\<lparr>con := t\<rparr>)"
    by (simp add: kabort_def on_console_def zoom_def abort_def)
  with t(2) show ?thesis using that by blast
qed

lemma kabort_leaves: "kabort s \<noteq> Ok a s'"
  by (auto simp: kabort_def on_console_def zoom_def abort_def before_def andthen_def
      split: outcome.splits)

lemma kassert_True [simp]: "kassert file line function expr True s = Ok () s"
  by (simp add: kassert_def on_console_def zoom_def assertion_def)

lemma kprintf_undefined:
  assumes "format_text fmt args = None"
  obtains f where "kprintf fmt args s = Undefined f"
proof -
  have "breaks (printf fmt args)"
    using printf_from_text[of fmt args 0] assms by (simp add: printf_def)
  then obtain f where "printf fmt args (con s) = Undefined f" by (auto simp: breaks_def)
  then have "kprintf fmt args s = Undefined f" by (simp add: kprintf_def on_console_def zoom_def)
  then show ?thesis using that by blast
qed

lemma kprintf_then_undefined:
  assumes "\<And>u. \<exists>f. m u = Undefined f"
  shows "\<exists>f. before (kprintf fmt args) m s = Undefined f"
  using assms by (cases rule: kprintf_cases[of fmt args s]) auto

text \<open>A failed assertion prints its message and aborts.\<close>

lemma kassert_fails:
  assumes "quiet (con s)" "list_all plain file" "list_all plain function" "list_all plain expr"
  obtains t where "kassert file line function expr False s = Exit Abort (s\<lparr>con := t\<rparr>)" "quiet t"
proof -
  let ?fmt = "CHR 0x1B # ''[31m%s:%d: %s: Assertion `%s` failed.\<newline>''"
  let ?args = "[Str (Some file), Num line, Str (Some function), Str (Some expr)]"
  have "format_text ?fmt ?args \<noteq> None" "format_modes resting ?fmt = Some resting" "list_all plain_arg ?args"
    using assms by (simp_all add: format_eval)
  from kprintf_returns [OF this assms(1)]
  obtain t where t: "kprintf ?fmt ?args s = Ok () (s\<lparr>con := t\<rparr>)" "quiet t" .
  then obtain n v where v: "printf ?fmt ?args (con s) = Ok n v" "s\<lparr>con := v\<rparr> = s\<lparr>con := t\<rparr>"
    by (auto simp: kprintf_def on_console_def zoom_def andthen_def split: outcome.splits)
  have "quiet (con (s\<lparr>con := t\<rparr>))" using t(2) by simp
  from kabort_exits[OF this] obtain u where
    u: "(kabort :: ('a console_scheme, unit) action) (s\<lparr>con := t\<rparr>) = Exit Abort (s\<lparr>con := t\<rparr>\<lparr>con := u\<rparr>)" "quiet u" .
  have "v = t" using v(2) by (metis console.select_convs(1) console.surjective console.update_convs(1))
  then have "kassert file line function expr False s = Exit Abort (s\<lparr>con := u\<rparr>)"
    using v(1) u(1) by (auto simp: kassert_def kabort_def on_console_def zoom_def assertion_def split: outcome.splits)
  then show ?thesis using that u(2) by blast
qed

section \<open>Actions that only print\<close>

text \<open>\<open>says m s\<close>: from \<open>s\<close> with any console at rest, \<open>m\<close> returns, has changed the console only and left it at rest.\<close>

definition says :: "('s console_scheme, unit) action \<Rightarrow> 's console_scheme \<Rightarrow> bool" where
  "says m s \<longleftrightarrow> (\<forall>t. quiet t \<longrightarrow> (\<exists>u. m (s\<lparr>con := t\<rparr>) = Ok () (s\<lparr>con := u\<rparr>) \<and> quiet u))"

named_theorems says_intros

lemma says_ret [says_intros]: "says (ret ()) s"
  by (auto simp: says_def)

lemma says_print [says_intros]:
  assumes "format_text fmt args \<noteq> None" "format_modes resting fmt = Some resting" "list_all plain_arg args"
  shows "says (kprintf fmt args) s"
  unfolding says_def
proof (intro allI impI)
  fix t assume "quiet t"
  then have "quiet (con (s\<lparr>con := t\<rparr>))" by simp
  from kprintf_returns[OF assms this] obtain u where
    "kprintf fmt args (s\<lparr>con := t\<rparr>) = Ok () (s\<lparr>con := t\<rparr>\<lparr>con := u\<rparr>)" "quiet u" .
  then show "\<exists>u. kprintf fmt args (s\<lparr>con := t\<rparr>) = Ok () (s\<lparr>con := u\<rparr>) \<and> quiet u" by auto
qed

lemma says_before [says_intros]: "says m s \<Longrightarrow> says k s \<Longrightarrow> says (before m k) s"
  unfolding says_def by (metis before_Ok)

lemma says_if [says_intros]: "(b \<Longrightarrow> says m s) \<Longrightarrow> (\<not> b \<Longrightarrow> says k s) \<Longrightarrow> says (if b then m else k) s"
  by simp

lemma says_foreach [says_intros]: "(\<And>i. i \<in> set is \<Longrightarrow> says (f i) s) \<Longrightarrow> says (foreach is f) s"
proof (induction "is")
  case (Cons i "is")
  then show ?case unfolding foreach.simps by (intro says_before) simp_all
qed (simp add: says_ret)

lemma says_run:
  assumes "says m s" "quiet (con s)"
  obtains t where "m s = Ok () (s\<lparr>con := t\<rparr>)" "quiet t"
proof -
  have "s\<lparr>con := con s\<rparr> = s" by (cases s) simp
  then show ?thesis using assms that unfolding says_def by metis
qed

end
