(* ===== verification/Multiboot.thy ===== *)
theory Multiboot
  imports Console
begin

unbundle bit_operations_syntax

text \<open>
  \<open>kernel/include/kernel/multiboot.h\<close> and \<open>kernel/src/boot/multiboot.c\<close>: the information the boot
  loader hands over, and the function that prints it. The memory map and the list of modules are
  sequences of records in memory and the texts are C strings: \<open>entry_at\<close>, \<open>module_at\<close> and \<open>string_at\<close>
  give what lies at an address.
\<close>

section \<open>The records\<close>

definition MULTIBOOT_BOOTLOADER_MAGIC :: u32 where "MULTIBOOT_BOOTLOADER_MAGIC = 0x2BADB002"

definition MULTIBOOT_INFO_MEMORY :: u32 where "MULTIBOOT_INFO_MEMORY = 0x1"
definition MULTIBOOT_INFO_BOOTDEV :: u32 where "MULTIBOOT_INFO_BOOTDEV = 0x2"
definition MULTIBOOT_INFO_CMDLINE :: u32 where "MULTIBOOT_INFO_CMDLINE = 0x4"
definition MULTIBOOT_INFO_MODS :: u32 where "MULTIBOOT_INFO_MODS = 0x8"
definition MULTIBOOT_INFO_AOUT_SYMS :: u32 where "MULTIBOOT_INFO_AOUT_SYMS = 0x10"
definition MULTIBOOT_INFO_ELF_SHDR :: u32 where "MULTIBOOT_INFO_ELF_SHDR = 0x20"
definition MULTIBOOT_INFO_MEM_MAP :: u32 where "MULTIBOOT_INFO_MEM_MAP = 0x40"
definition MULTIBOOT_INFO_DRIVE_INFO :: u32 where "MULTIBOOT_INFO_DRIVE_INFO = 0x80"
definition MULTIBOOT_INFO_BOOT_LOADER_NAME :: u32 where "MULTIBOOT_INFO_BOOT_LOADER_NAME = 0x200"
definition MULTIBOOT_INFO_APM_TABLE :: u32 where "MULTIBOOT_INFO_APM_TABLE = 0x400"
definition MULTIBOOT_INFO_VBE_INFO :: u32 where "MULTIBOOT_INFO_VBE_INFO = 0x800"

text \<open>The union \<open>u\<close> of the symbol tables is its four words.\<close>

record multiboot_info =
  mb_flags :: u32
  mem_lower :: u32
  mem_upper :: u32
  boot_device :: u32
  cmdline :: u32
  mods_count :: u32
  mods_addr :: u32
  symbols :: "u32 \<times> u32 \<times> u32 \<times> u32"
  mmap_length :: u32
  mmap_addr :: u32
  drives_length :: u32
  drives_addr :: u32
  config_table :: u32
  boot_loader_name :: u32
  apm_table :: u32

record multiboot_mmap_entry =
  me_size :: u32
  me_addr :: u64
  me_len :: u64
  me_type :: u32

record multiboot_mod_list =
  mod_start :: u32
  mod_end :: u32
  mod_cmdline :: u32
  mod_pad :: u32

section \<open>Printing them\<close>

definition dump_modules ::
    "(u32 \<Rightarrow> string option) \<Rightarrow> (u32 \<Rightarrow> multiboot_mod_list) \<Rightarrow> multiboot_info \<Rightarrow> ('s console_scheme, unit) action" where
  "dump_modules string_at module_at mbi =
     before (kprintf ''mods_count = %d, mods_addr = 0x%x\<newline>'' [Num (mods_count mbi), Num (mods_addr mbi)])
       (foreach [0..<unat (mods_count mbi)] (\<lambda>i.
          let m = module_at (mods_addr mbi + 16 * of_nat i)
          in kprintf '' mod_start = 0x%x, mod_end = 0x%x, cmdline = %s\<newline>''
               [Num (mod_start m), Num (mod_end m), Str (string_at (mod_cmdline m))]))"

primrec dump_mmap :: "(u32 \<Rightarrow> multiboot_mmap_entry) \<Rightarrow> u32 \<Rightarrow> nat \<Rightarrow> u32 \<Rightarrow> ('s console_scheme, unit) action" where
  "dump_mmap entry_at stop 0 mmap = leave OutOfFuel"
| "dump_mmap entry_at stop (Suc fuel) mmap =
     (if mmap < stop then
        let e = entry_at mmap
        in before (kprintf '' size = 0x%x, base_addr = 0x%x%08x, length = 0x%x%08x, type = 0x%x\<newline>''
                     [Num (me_size e), Num (ucast (drop_bit 32 (me_addr e))), Num (ucast (me_addr e AND 0xFFFFFFFF)),
                      Num (ucast (drop_bit 32 (me_len e))), Num (ucast (me_len e AND 0xFFFFFFFF)), Num (me_type e)])
                  (dump_mmap entry_at stop fuel (mmap + me_size e + 4))
      else ret ())"

text \<open>The part behind the test for the two bits that exclude each other.\<close>

definition dump_tables ::
    "(u32 \<Rightarrow> string option) \<Rightarrow> (u32 \<Rightarrow> multiboot_mmap_entry) \<Rightarrow> nat \<Rightarrow> multiboot_info \<Rightarrow> ('s console_scheme, unit) action" where
  "dump_tables string_at entry_at fuel mbi =
     (let (u0, u1, u2, u3) = symbols mbi; has = (\<lambda>flag. mb_flags mbi AND flag \<noteq> 0)
      in before (if has MULTIBOOT_INFO_AOUT_SYMS
                 then kprintf ''multiboot_aout_symbol_table: tabsize = 0x%0x, strsize = 0x%x, addr = 0x%x\<newline>'' [Num u0, Num u1, Num u2]
                 else ret ())
        (before (if has MULTIBOOT_INFO_ELF_SHDR
                 then kprintf ''multiboot_elf_sec: num = %u, size = 0x%x, addr = 0x%x, shndx = 0x%x\<newline>'' [Num u0, Num u1, Num u2, Num u3]
                 else ret ())
        (before (if has MULTIBOOT_INFO_MEM_MAP
                 then before (kprintf ''mmap_addr = 0x%x, mmap_length = 0x%x\<newline>'' [Num (mmap_addr mbi), Num (mmap_length mbi)])
                        (dump_mmap entry_at (mmap_addr mbi + mmap_length mbi) fuel (mmap_addr mbi))
                 else ret ())
        (before (if has MULTIBOOT_INFO_DRIVE_INFO
                 then kprintf ''Drives: address=%X length=%d\<newline>'' [Num (drives_addr mbi), Num (drives_length mbi)] else ret ())
        (before (if has MULTIBOOT_INFO_BOOT_LOADER_NAME
                 then kprintf ''Boot loader name: %s\<newline>'' [Str (string_at (boot_loader_name mbi))] else ret ())
        (before (if has MULTIBOOT_INFO_APM_TABLE then kprintf ''APM: address=%X\<newline>'' [Num (apm_table mbi)] else ret ())
                (if has MULTIBOOT_INFO_VBE_INFO then kprintf ''VBE: not implemented\<newline>'' [] else ret ())))))))"

definition dump_multiboot_info ::
    "(u32 \<Rightarrow> string option) \<Rightarrow> (u32 \<Rightarrow> multiboot_mod_list) \<Rightarrow> (u32 \<Rightarrow> multiboot_mmap_entry) \<Rightarrow> nat \<Rightarrow> multiboot_info
      \<Rightarrow> ('s console_scheme, unit) action" where
  "dump_multiboot_info string_at module_at entry_at fuel mbi =
     (let has = (\<lambda>flag. mb_flags mbi AND flag \<noteq> 0); dev = boot_device mbi
      in before (kprintf ''=======Multiboot Header=======\<newline>'' [])
        (before (if has MULTIBOOT_INFO_BOOTDEV
                 then kprintf (''Boot device infos:\<newline>'' @ CHR 0x09 # ''boot_device value:0x%x\<newline>'' @ CHR 0x09 # ''drive number: %d'' @
                        CHR 0x09 # ''part1: %d'' @ CHR 0x09 # '' part2: %d'' @ CHR 0x09 # '' part3: %d\<newline>'')
                      [Num dev, Num (dev AND 0xFF), Num (drop_bit 8 dev AND 0xFF), Num (drop_bit 16 dev AND 0xFF), Num (drop_bit 24 dev)]
                 else ret ())
        (before (kprintf ''flags = 0x%X\<newline>'' [Num (mb_flags mbi)])
        (before (if has MULTIBOOT_INFO_MEMORY
                 then kprintf ''mem_lower = %uKB, mem_upper = %uKB\<newline>'' [Num (mem_lower mbi), Num (mem_upper mbi)] else ret ())
        (before (if has MULTIBOOT_INFO_BOOTDEV then kprintf ''boot_device = 0x%x\<newline>'' [Num dev] else ret ())
        (before (if has MULTIBOOT_INFO_CMDLINE then kprintf ''cmdline = %s\<newline>'' [Str (string_at (cmdline mbi))] else ret ())
        (before (if has MULTIBOOT_INFO_MODS then dump_modules string_at module_at mbi else ret ())
                (if has MULTIBOOT_INFO_AOUT_SYMS \<and> has MULTIBOOT_INFO_ELF_SHDR
                 then kprintf ''Both bits 4 and 5 are set.\<newline>'' []
                 else dump_tables string_at entry_at fuel mbi))))))))"

definition blank_info :: multiboot_info where
  "blank_info = \<lparr>mb_flags = 0, mem_lower = 0, mem_upper = 0, boot_device = 0, cmdline = 0, mods_count = 0, mods_addr = 0,
     symbols = (0, 0, 0, 0), mmap_length = 0, mmap_addr = 0, drives_length = 0, drives_addr = 0, config_table = 0,
     boot_loader_name = 0, apm_table = 0\<rparr>"

section \<open>The dump returns\<close>

text \<open>The walk over the memory map moves by at least 4 and ends, unless an address wraps around.\<close>

definition walkable :: "(u32 \<Rightarrow> multiboot_mmap_entry) \<Rightarrow> u32 \<Rightarrow> bool" where
  "walkable entry_at stop \<longleftrightarrow> (\<forall>p. p < stop \<longrightarrow> unat p + unat (me_size (entry_at p)) + 4 < 2 ^ 32)"

lemma dump_mmap_says:
  assumes "walkable entry_at stop"
  shows "unat stop \<le> unat mmap + 4 * fuel \<Longrightarrow> says (dump_mmap entry_at stop (Suc fuel) mmap) s"
proof (induction fuel arbitrary: mmap)
  case 0
  then have "\<not> mmap < stop" by (simp add: word_less_nat_alt)
  then show ?case unfolding dump_mmap.simps(2) by (simp only: if_False says_ret)
next
  case (Suc fuel)
  show ?case
  proof (cases "mmap < stop")
    case True
    let ?e = "entry_at mmap" and ?next = "mmap + me_size (entry_at mmap) + 4"
    have "unat mmap + unat (me_size ?e) + 4 < 2 ^ 32" using assms True by (simp add: walkable_def)
    then have "unat ?next = unat mmap + unat (me_size ?e) + 4" by (simp add: unat_word_ariths)
    then have rest: "says (dump_mmap entry_at stop (Suc fuel) ?next) s" using Suc by simp
    show ?thesis
      unfolding dump_mmap.simps(2)[of _ _ "Suc fuel"] Let_def
      by (intro says_intros rest) (simp_all add: format_eval)
  next
    case False
    then show ?thesis unfolding dump_mmap.simps(2) by (simp only: if_False says_ret)
  qed
qed

definition plain_at :: "(u32 \<Rightarrow> string option) \<Rightarrow> u32 \<Rightarrow> bool" where
  "plain_at string_at p \<longleftrightarrow> (case string_at p of None \<Rightarrow> True | Some t \<Rightarrow> list_all plain t)"

lemma plain_at_arg: "plain_at string_at p \<Longrightarrow> plain_arg (Str (string_at p))"
  by (cases "string_at p") (simp_all add: plain_at_def)

lemma dump_tables_says:
  assumes "plain_at string_at (boot_loader_name mbi)" "walkable entry_at (mmap_addr mbi + mmap_length mbi)"
    "unat (mmap_length mbi) + 4 \<le> 4 * fuel" "unat (mmap_addr mbi) + unat (mmap_length mbi) < 2 ^ 32"
  shows "says (dump_tables string_at entry_at fuel mbi) s"
proof -
  obtain u0 u1 u2 u3 where u: "symbols mbi = (u0, u1, u2, u3)" by (cases "symbols mbi") auto
  obtain f where f: "fuel = Suc f" using assms(3) by (cases fuel) auto
  have "unat (mmap_addr mbi + mmap_length mbi) = unat (mmap_addr mbi) + unat (mmap_length mbi)"
    using assms(4) by (simp add: unat_word_ariths)
  then have walk: "says (dump_mmap entry_at (mmap_addr mbi + mmap_length mbi) fuel (mmap_addr mbi)) s"
    unfolding f by (intro dump_mmap_says[OF assms(2)]) (use assms(3) f in simp)
  show ?thesis
    unfolding dump_tables_def u Let_def prod.case
    by (intro says_intros walk) (simp_all add: format_eval plain_at_arg[OF assms(1)])
qed

lemma dump_modules_says:
  assumes "\<And>p. plain_at string_at p"
  shows "says (dump_modules string_at module_at mbi) s"
  unfolding dump_modules_def Let_def
  by (intro says_intros) (simp_all add: format_eval plain_at_arg[OF assms])

section \<open>Properties\<close>

text \<open>The dump of the boot information always returns, whatever bits are set, and changes nothing but
  the console: the walk over the memory map makes progress also over entries of size 0, unlike that of
  \<open>pmm_init\<close>, and ends within a quarter of the length of the map, as long as no entry leads across the
  end of the address space. The texts of the loader have to be free of ESC.\<close>

theorem dump_returns:
  assumes "\<forall>p. plain_at string_at p" "walkable entry_at (mmap_addr mbi + mmap_length mbi)"
    "unat (mmap_length mbi) + 4 \<le> 4 * fuel" "unat (mmap_addr mbi) + unat (mmap_length mbi) < 2 ^ 32" "quiet (con s)"
  shows "\<exists>t. dump_multiboot_info string_at module_at entry_at fuel mbi s = Ok () (s\<lparr>con := t\<rparr>) \<and> quiet t"
proof -
  have plain: "plain_at string_at p" for p using assms(1) by simp
  have "says (dump_multiboot_info string_at module_at entry_at fuel mbi) s"
    unfolding dump_multiboot_info_def Let_def
    by (intro says_intros dump_modules_says plain dump_tables_says assms(2-4)) (simp_all add: format_eval plain_at_arg[OF plain])
  from says_run[OF this assms(5)] show ?thesis by blast
qed

theorem dump_returns_witness:
  "\<exists>t. dump_multiboot_info (\<lambda>p. Some ''quiet'') (\<lambda>p. \<lparr>mod_start = 0x200000, mod_end = 0x201000, mod_cmdline = 0x8000, mod_pad = 0\<rparr>)
     (\<lambda>p. \<lparr>me_size = 0, me_addr = 0, me_len = 0, me_type = 1\<rparr>) 8
     (blank_info\<lparr>mb_flags := 0xE4F, mods_count := 2, mmap_addr := 0x9000, mmap_length := 24\<rparr>)
     \<lparr>con = blank_tty\<rparr> = Ok () (\<lparr>con = t\<rparr>)"
proof -
  let ?mbi = "blank_info\<lparr>mb_flags := 0xE4F, mods_count := 2, mmap_addr := 0x9000, mmap_length := 24\<rparr>"
  have "quiet blank_tty" using blank_wf by (simp add: in_mode_def blank_tty_def)
  then have q: "quiet (con (\<lparr>con = blank_tty\<rparr> :: console))" by simp
  have "walkable (\<lambda>p. \<lparr>me_size = 0, me_addr = 0, me_len = 0, me_type = 1\<rparr>) (mmap_addr ?mbi + mmap_length ?mbi)"
    by (simp add: walkable_def word_less_nat_alt)
  moreover have "\<forall>p. plain_at (\<lambda>p. Some ''quiet'') p" by (simp add: plain_at_def plain_def)
  ultimately show ?thesis
    using dump_returns[of "\<lambda>p. Some ''quiet''" _ ?mbi 8, OF _ _ _ _ q] by (simp add: blank_info_def) blast
qed

end
