(* ===== verification/Pmm.thy ===== *)
theory Pmm
  imports Multiboot
begin

unbundle bit_operations_syntax

text \<open>
  \<open>kernel/src/mem/pmm.c\<close>: the physical memory manager, a bitmap of 4 KiB blocks that lies
  behind the kernel image. \<open>bitmap s i\<close> is the code's \<open>bitmap[i]\<close> for any \<open>i\<close>, inside the
  map or past it. The linker symbol \<open>KERNEL_END_PHYS\<close> and the loader's memory map are
  arguments.
\<close>

section \<open>State\<close>

definition PMM_BLOCK_SIZE :: u32 where
  "PMM_BLOCK_SIZE = 4096"

record pmm = console +
  mem_size :: u32
  used_blocks :: u32
  max_blocks :: u32
  bitmap :: "nat \<Rightarrow> u32"

section \<open>The bitmap\<close>

definition mmap_set :: "u32 \<Rightarrow> 's pmm_scheme \<Rightarrow> 's pmm_scheme" where
  "mmap_set b s =
     s\<lparr>bitmap := (bitmap s)(unat (b div 32) := bitmap s (unat (b div 32)) OR push_bit (unat (b mod 32)) 1),
       used_blocks := used_blocks s + 1\<rparr>"

definition mmap_unset :: "u32 \<Rightarrow> 's pmm_scheme \<Rightarrow> 's pmm_scheme" where
  "mmap_unset b s =
     s\<lparr>bitmap := (bitmap s)(unat (b div 32) := bitmap s (unat (b div 32)) AND NOT (push_bit (unat (b mod 32)) 1)),
       used_blocks := used_blocks s - 1\<rparr>"

definition mmap_test :: "u32 \<Rightarrow> 's pmm_scheme \<Rightarrow> u32" where
  "mmap_test b s = bitmap s (unat (b div 32)) AND push_bit (unat (b mod 32)) 1"

text \<open>The search for a clear bit: the words in order, and in the first that is not full its bits.\<close>

fun find_free_words :: "(nat \<Rightarrow> u32) \<Rightarrow> nat list \<Rightarrow> u32" where
  "find_free_words bm [] = 0"
| "find_free_words bm (i # is) =
     (if bm i \<noteq> 0xFFFFFFFF
      then (case find (\<lambda>j. bm i AND push_bit j 1 = 0) [0..<32] of
              Some j \<Rightarrow> of_nat i * 32 + of_nat j
            | None \<Rightarrow> find_free_words bm is)
      else find_free_words bm is)"

definition mmap_find_free :: "'s pmm_scheme \<Rightarrow> u32" where
  "mmap_find_free s = find_free_words (bitmap s) [0..<unat (max_blocks s div 32)]"

text \<open>
  The search for a run: \<open>Inl\<close> is the \<open>return\<close> inside the loops, \<open>Inr\<close> the variables
  \<open>first\<close> and \<open>count\<close> after them.
\<close>

fun frame_bits :: "u32 \<Rightarrow> u32 \<Rightarrow> nat \<Rightarrow> nat list \<Rightarrow> u32 \<times> u32 \<Rightarrow> u32 + u32 \<times> u32" where
  "frame_bits frame_size w i [] st = Inr st"
| "frame_bits frame_size w i (j # js) (first, count) =
     (let (first', count') =
            (if w AND push_bit j 1 = 0
             then (if first = 0 then of_nat i * 32 + of_nat j else first, count + 1)
             else (0, 0))
      in if count' = frame_size then Inl first'
         else frame_bits frame_size w i js (first', count'))"

fun frame_words :: "u32 \<Rightarrow> (nat \<Rightarrow> u32) \<Rightarrow> nat list \<Rightarrow> u32 \<times> u32 \<Rightarrow> u32" where
  "frame_words frame_size bm [] st = 0"
| "frame_words frame_size bm (i # is) st =
     (if bm i \<noteq> 0xFFFFFFFF
      then (case frame_bits frame_size (bm i) i [0..<32] st of
              Inl r \<Rightarrow> r | Inr st' \<Rightarrow> frame_words frame_size bm is st')
      else frame_words frame_size bm is (0, 0))"

definition mmap_find_free_frame :: "u32 \<Rightarrow> 's pmm_scheme \<Rightarrow> u32" where
  "mmap_find_free_frame frame_size s =
     frame_words frame_size (bitmap s) [0..<unat (max_blocks s div 32)] (0, 0)"

section \<open>Regions, allocation, release\<close>

definition pmm_get_map_size :: "'s pmm_scheme \<Rightarrow> u32" where
  "pmm_get_map_size s = max_blocks s div 8"

text \<open>\<open>while (num-- > 0) f(base_block++)\<close>.\<close>

definition each_block :: "(u32 \<Rightarrow> 's \<Rightarrow> 's) \<Rightarrow> u32 \<Rightarrow> u32 \<Rightarrow> 's \<Rightarrow> 's" where
  "each_block f base_block num s = fold (\<lambda>k. f (base_block + of_nat k)) [0..<unat num] s"

definition pmm_init_region :: "u32 \<Rightarrow> u32 \<Rightarrow> ('s pmm_scheme, unit) action" where
  "pmm_init_region addr sz =
     (let base_block = addr div PMM_BLOCK_SIZE; num = sz div PMM_BLOCK_SIZE
      in before (kprintf ''[PMM] Initializing blocks %d to %d at addr %p\<newline>''
                   [Num base_block, Num (base_block + num), Num addr])
           (change (each_block mmap_unset base_block num)))"

definition pmm_deinit_region :: "u32 \<Rightarrow> u32 \<Rightarrow> ('s pmm_scheme, unit) action" where
  "pmm_deinit_region addr sz =
     (let base_block = addr div PMM_BLOCK_SIZE; num = sz div PMM_BLOCK_SIZE
      in before (kprintf ''[PMM] Retaining blocks %d to %d\<newline>''
                   [Num base_block, Num (base_block + num)])
           (change (each_block mmap_set base_block num)))"

text \<open>The guard compares an unsigned difference with 0, so it only catches equality.\<close>

definition pmm_alloc_page :: "('s pmm_scheme, u32) action" where
  "pmm_alloc_page =
     andthen (asks (\<lambda>s. max_blocks s - used_blocks s \<le> 0)) (\<lambda>full.
     before (if full then before (kprintf ''[PMM] Kernel is out of physical memory!'' []) kabort
             else ret ())
     (andthen (asks mmap_find_free) (\<lambda>block.
      if block = 0 then ret 0
      else before (change (mmap_set block)) (ret (block * PMM_BLOCK_SIZE)))))"

definition pmm_alloc_aligned_large_page :: "('s pmm_scheme, u32) action" where
  "pmm_alloc_aligned_large_page s =
     (if max_blocks s - used_blocks s < 2 * 1024 then Ok 0 s
      else let free_block = mmap_find_free_frame (2 * 1024) s
           in if free_block = 0 then Ok 0 s
              else let aligned_block = ((free_block div 1024) + 1) * 1024
                   in Ok (aligned_block * PMM_BLOCK_SIZE) (each_block mmap_set aligned_block 1024 s))"

definition pmm_alloc_pages :: "u32 \<Rightarrow> ('s pmm_scheme, u32) action" where
  "pmm_alloc_pages num s =
     (if max_blocks s - used_blocks s < num then Ok 0 s
      else let first_block = mmap_find_free_frame num s
           in if first_block = 0 then Ok 0 s
              else Ok (first_block * PMM_BLOCK_SIZE) (each_block mmap_set first_block num s))"

definition pmm_free_page :: "u32 \<Rightarrow> ('s pmm_scheme, unit) action" where
  "pmm_free_page addr = change (mmap_unset (addr div PMM_BLOCK_SIZE))"

definition pmm_free_pages :: "u32 \<Rightarrow> u32 \<Rightarrow> ('s pmm_scheme, unit) action" where
  "pmm_free_pages addr num = change (each_block mmap_unset (addr div PMM_BLOCK_SIZE) num)"

section \<open>Initialisation\<close>

text \<open>\<open>memset(bitmap, 0xFF, n)\<close> seen through 32-bit words, little-endian.\<close>

definition fill_bytes :: "nat \<Rightarrow> (nat \<Rightarrow> u32) \<Rightarrow> nat \<Rightarrow> u32" where
  "fill_bytes n bm = (\<lambda>i. if 4 * i + 4 \<le> n then 0xFFFFFFFF
     else if n \<le> 4 * i then bm i else bm i OR mask (8 * (n - 4 * i)))"

definition P2V :: "u32 \<Rightarrow> u32" where
  "P2V addr = addr + 0xC0000000"

text \<open>
  The walk over the memory map. An entry of length 0 repeats the test without moving on; the
  loop has \<open>fuel\<close> for that many turns, and ends in \<open>Exit OutOfFuel\<close> when they are spent.
\<close>

fun pmm_init_loop :: "(u32 \<Rightarrow> multiboot_mmap_entry) \<Rightarrow> u32 \<Rightarrow> nat \<Rightarrow> u32 \<Rightarrow> u64 \<Rightarrow> u64
    \<Rightarrow> ('s pmm_scheme, u64 \<times> u64) action" where
  "pmm_init_loop entry_at stop 0 mmap available unavailable = leave OutOfFuel"
| "pmm_init_loop entry_at stop (Suc fuel) mmap available unavailable =
     (if mmap < stop then
        (let e = entry_at mmap; mmap' = mmap + me_size e + 4
         in if me_len e = 0 then pmm_init_loop entry_at stop fuel mmap available unavailable
            else if me_type e = 1 then
              before (pmm_init_region (ucast (me_addr e)) (ucast (me_len e)))
                (pmm_init_loop entry_at stop fuel mmap' (available + me_len e) unavailable)
            else pmm_init_loop entry_at stop fuel mmap' available (unavailable + me_len e))
      else ret (available, unavailable))"

text \<open>The two 64-bit arguments of the last messages take two slots each.\<close>

definition slots :: "u64 \<Rightarrow> arg list" where
  "slots v = [Num (ucast v), Num (ucast (drop_bit 32 v))]"

definition pmm_init :: "u32 \<Rightarrow> (u32 \<Rightarrow> multiboot_mmap_entry) \<Rightarrow> nat \<Rightarrow> multiboot_info
    \<Rightarrow> ('s pmm_scheme, unit) action" where
  "pmm_init kernel_end_phys entry_at fuel mbi =
     (let size_kb = mem_lower mbi + mem_upper mbi; blocks = (size_kb * 1024) div PMM_BLOCK_SIZE
      in before (change (\<lambda>s. s\<lparr>mem_size := size_kb, max_blocks := blocks, used_blocks := blocks,
                              bitmap := fill_bytes (unat (blocks div 8)) (bitmap s)\<rparr>))
        (andthen (pmm_init_loop entry_at (P2V (mmap_addr mbi) + mmap_length mbi) fuel
                    (P2V (mmap_addr mbi)) 0 0) (\<lambda>(available, unavailable).
         before (pmm_deinit_region 0 (kernel_end_phys + blocks div 8))
        (before (kprintf (''[PMM] Memory stats: available: '' @ CHR 0x1B # ''[32m%dMB'')
                   (slots (available div (1024 * 1024))))
                (kprintf (CHR 0x1B # ''[37m unavailable: '' @ CHR 0x1B # ''[32m%dKB'' @ CHR 0x1B # ''[37m\<newline>'')
                   (slots (unavailable div 1024)))))))"

section \<open>The set of used blocks\<close>

text \<open>
  The abstraction of the bitmap: block \<open>n\<close> is used when its bit is set. \<open>searched s\<close> is the number
  of blocks the searches look at, \<open>max_blocks\<close> rounded down to whole words.
\<close>

definition block_used :: "'s pmm_scheme \<Rightarrow> nat \<Rightarrow> bool" where
  "block_used s n \<longleftrightarrow> bit (bitmap s (n div 32)) (n mod 32)"

definition searched :: "'s pmm_scheme \<Rightarrow> nat" where
  "searched s = 32 * (unat (max_blocks s) div 32)"

lemma limit_le: "searched s \<le> unat (max_blocks s)" "searched s < 2 ^ 32"
proof -
  show "searched s \<le> unat (max_blocks s)" by (simp add: searched_def)
  also have "\<dots> < 2 ^ 32" by simp
  finally show "searched s < 2 ^ 32" .
qed

lemma and_bit_zero: "(w :: u32) AND push_bit k 1 = 0 \<longleftrightarrow> \<not> bit w k" if "k < 32"
proof
  assume "w AND push_bit k 1 = 0"
  then have "\<not> bit (w AND push_bit k 1) k" by simp
  then show "\<not> bit w k" using that by (simp add: bit_simps)
next
  assume "\<not> bit w k"
  then show "w AND push_bit k 1 = 0"
    by (intro bit_word_eqI) (auto simp: bit_simps)
qed

lemma and_power_zero: "(w :: u32) AND 2 ^ k = 0 \<longleftrightarrow> \<not> bit w k" if "k < 32"
  using and_bit_zero [OF that, of w] by simp

lemma unat_div_mod_32 [simp]: "unat ((b :: u32) div 32) = unat b div 32" "unat (b mod 32) = unat b mod 32"
  by (simp_all add: unat_div unat_mod)

lemma mmap_test_used: "mmap_test b s \<noteq> 0 \<longleftrightarrow> block_used s (unat b)"
  by (simp add: mmap_test_def block_used_def and_power_zero)

lemma same_bit: "n div 32 = m div 32 \<Longrightarrow> n mod 32 = m mod (32 :: nat) \<Longrightarrow> n = m"
  by (metis div_mult_mod_eq)

lemma block_used_set: "block_used (mmap_set b s) n \<longleftrightarrow> n = unat b \<or> block_used s n"
  using same_bit[of n "unat b"] by (auto simp: block_used_def mmap_set_def bit_simps)

lemma block_used_unset: "block_used (mmap_unset b s) n \<longleftrightarrow> n \<noteq> unat b \<and> block_used s n"
  using same_bit[of n "unat b"] by (auto simp: block_used_def mmap_unset_def bit_simps)

lemma block_used_con [simp]: "block_used (s\<lparr>con := t\<rparr>) n = block_used s n"
  "block_used (s\<lparr>used_blocks := u\<rparr>) n = block_used s n"
  by (simp_all add: block_used_def)

lemma limit_frame [simp]: "searched (s\<lparr>con := t\<rparr>) = searched s" "searched (mmap_set b s) = searched s"
  "searched (mmap_unset b s) = searched s"
  by (simp_all add: searched_def mmap_set_def mmap_unset_def)

lemma max_blocks_frame [simp]: "max_blocks (mmap_set b s) = max_blocks s"
  "max_blocks (mmap_unset b s) = max_blocks s" "con (mmap_set b s) = con s" "con (mmap_unset b s) = con s"
  by (simp_all add: mmap_set_def mmap_unset_def)

text \<open>Marking a range: the blocks and the count, for a range that does not wrap.\<close>

lemma each_block_unroll:
  "each_block f base num s = fold (\<lambda>k. f (base + of_nat k)) [0..<unat num] s"
  by (simp add: each_block_def)

lemma unat_block:
  fixes base :: u32
  shows "unat base + k < 2 ^ 32 \<Longrightarrow> unat (base + of_nat k) = unat base + k"
  by (simp add: unat_word_ariths unat_of_nat)

lemma fold_mark:
  assumes "unat base + n \<le> 2 ^ 32"
  shows "block_used (fold (\<lambda>k. mmap_set (base + of_nat k)) [0..<n] s) c
      \<longleftrightarrow> (unat base \<le> c \<and> c < unat base + n) \<or> block_used s c"
    "block_used (fold (\<lambda>k. mmap_unset (base + of_nat k)) [0..<n] s) c
      \<longleftrightarrow> \<not> (unat base \<le> c \<and> c < unat base + n) \<and> block_used s c"
    "used_blocks (fold (\<lambda>k. mmap_set (base + of_nat k)) [0..<n] s) = used_blocks s + of_nat n"
    "used_blocks (fold (\<lambda>k. mmap_unset (base + of_nat k)) [0..<n] s) = used_blocks s - of_nat n"
  using assms
proof (induction n)
  case (Suc n)
  case 1
  then show ?case using Suc by (auto simp: block_used_set unat_block)
next
  case (Suc n)
  case 2
  then show ?case using Suc by (auto simp: block_used_unset unat_block)
next
  case (Suc n)
  case 3
  then show ?case using Suc by (simp add: mmap_set_def)
next
  case (Suc n)
  case 4
  then show ?case using Suc by (simp add: mmap_unset_def)
qed auto

lemma each_block_mark:
  assumes "unat base + unat num \<le> 2 ^ 32"
  shows "block_used (each_block mmap_set base num s) c
      \<longleftrightarrow> (unat base \<le> c \<and> c < unat base + unat num) \<or> block_used s c"
    "block_used (each_block mmap_unset base num s) c
      \<longleftrightarrow> \<not> (unat base \<le> c \<and> c < unat base + unat num) \<and> block_used s c"
    "used_blocks (each_block mmap_set base num s) = used_blocks s + num"
    "used_blocks (each_block mmap_unset base num s) = used_blocks s - num"
  using fold_mark [OF assms] by (simp_all add: each_block_def)

lemma fold_frame:
  assumes "\<And>x s. g (f x s) = g s"
  shows "g (fold f xs s) = g s"
  using assms by (induction xs arbitrary: s) simp_all

lemma each_block_frame [simp]:
  "max_blocks (each_block mmap_set base num s) = max_blocks s"
  "max_blocks (each_block mmap_unset base num s) = max_blocks s"
  "con (each_block mmap_set base num s) = con s" "con (each_block mmap_unset base num s) = con s"
  "searched (each_block mmap_set base num s) = searched s"
  "searched (each_block mmap_unset base num s) = searched s"
  by (simp_all add: each_block_def fold_frame)

section \<open>The searches\<close>

text \<open>The first free block below the limit, if any: what \<open>mmap_find_free\<close> returns.\<close>

lemma full_word: "(w :: u32) = 0xFFFFFFFF \<longleftrightarrow> (\<forall>j < 32. bit w j)"
proof -
  have "(0xFFFFFFFF :: u32) = mask 32" by (simp add: mask_eq_exp_minus_1)
  moreover have "w = mask 32 \<longleftrightarrow> (\<forall>j < 32. bit w j)"
    by (auto simp: bit_simps intro!: bit_word_eqI)
  ultimately show ?thesis by simp
qed

definition first_free :: "(nat \<Rightarrow> bool) \<Rightarrow> nat \<Rightarrow> nat \<Rightarrow> nat option" where
  "first_free used lo hi = find (\<lambda>n. \<not> used n) [lo..<hi]"

lemma first_free_Some:
  "first_free used lo hi = Some n \<longleftrightarrow> lo \<le> n \<and> n < hi \<and> \<not> used n \<and> (\<forall>m. lo \<le> m \<and> m < n \<longrightarrow> used m)"
proof
  assume "first_free used lo hi = Some n"
  then obtain i where i: "i < length [lo..<hi]" "\<not> used ([lo..<hi] ! i)" "n = [lo..<hi] ! i"
      "\<forall>j<i. used ([lo..<hi] ! j)"
    by (auto simp: first_free_def find_Some_iff)
  then have n: "n = lo + i" "i < hi - lo" by simp_all
  have "used m" if "lo \<le> m" "m < n" for m
  proof -
    have "m - lo < i" "[lo..<hi] ! (m - lo) = m" using that n by auto
    then show ?thesis using i(4) by metis
  qed
  then show "lo \<le> n \<and> n < hi \<and> \<not> used n \<and> (\<forall>m. lo \<le> m \<and> m < n \<longrightarrow> used m)"
    using i n by auto
next
  assume a: "lo \<le> n \<and> n < hi \<and> \<not> used n \<and> (\<forall>m. lo \<le> m \<and> m < n \<longrightarrow> used m)"
  then have "n - lo < length [lo..<hi]" "[lo..<hi] ! (n - lo) = n" by auto
  moreover have "used ([lo..<hi] ! j)" if "j < n - lo" for j
    using a that by (subst nth_upt) auto
  ultimately show "first_free used lo hi = Some n"
    using a unfolding first_free_def find_Some_iff by (intro exI[of _ "n - lo"]) auto
qed

lemma first_free_None: "first_free used lo hi = None \<longleftrightarrow> (\<forall>m. lo \<le> m \<and> m < hi \<longrightarrow> used m)"
  by (auto simp: first_free_def find_None_iff)

lemma first_free_split:
  assumes "lo \<le> mid" "mid \<le> hi"
  shows "first_free used lo hi =
    (case first_free used lo mid of None \<Rightarrow> first_free used mid hi | Some n \<Rightarrow> Some n)"
proof (cases "first_free used lo mid")
  case None
  then have low: "used m" if "lo \<le> m" "m < mid" for m using that by (simp add: first_free_None)
  show ?thesis
  proof (cases "first_free used mid hi")
    case None
    then have "first_free used lo hi = None"
      using low by (auto simp: first_free_None) (meson not_le_imp_less)
    then show ?thesis using None \<open>first_free used lo mid = None\<close> by simp
  next
    case (Some n)
    then have "first_free used lo hi = Some n"
      using low assms by (auto simp: first_free_Some) (meson not_le_imp_less)
    then show ?thesis using Some None by simp
  qed
next
  case (Some n)
  then have "first_free used lo hi = Some n" using assms by (auto simp: first_free_Some)
  then show ?thesis using Some by simp
qed

abbreviation bit_used :: "(nat \<Rightarrow> u32) \<Rightarrow> nat \<Rightarrow> bool" where
  "bit_used bm n \<equiv> bit (bm (n div 32)) (n mod 32)"

lemma word_first_free:
  "find (\<lambda>j. bm i AND 2 ^ j = 0) [0..<32]
    = map_option (\<lambda>n. n - 32 * i) (first_free (bit_used bm) (32 * i) (32 * i + 32))"
proof -
  have find_map: "find P (map f xs) = map_option f (find (\<lambda>x. P (f x)) xs)" for P :: "nat \<Rightarrow> bool" and f :: "nat \<Rightarrow> nat" and xs
    by (induction xs) simp_all
  have "[32 * i..<32 * i + 32] = map (\<lambda>j. 32 * i + j) [0..<32]"
    by (rule nth_equalityI) simp_all
  then have "first_free (bit_used bm) (32 * i) (32 * i + 32)
      = map_option (\<lambda>j. 32 * i + j) (find (\<lambda>j. \<not> bit_used bm (32 * i + j)) [0..<32])"
    by (simp only: first_free_def find_map)
  also have "find (\<lambda>j. \<not> bit_used bm (32 * i + j)) [0..<32] = find (\<lambda>j. bm i AND 2 ^ j = 0) [0..<32]"
    by (rule find_cong) (simp_all add: and_power_zero)
  finally show ?thesis by (simp add: option.map_comp comp_def option.map_ident)
qed

lemma find_free_words_first:
  "find_free_words bm [i..<n] =
     (case first_free (bit_used bm) (32 * i) (32 * n) of None \<Rightarrow> 0 | Some m \<Rightarrow> of_nat m)"
proof (induction "n - i" arbitrary: i)
  case 0
  then have "32 * n \<le> 32 * i" by simp
  then have "first_free (bit_used bm) (32 * i) (32 * n) = None" unfolding first_free_None by linarith
  then show ?case using 0 by simp
next
  case (Suc d)
  then have "i < n" by simp
  then have upt: "[i..<n] = i # [Suc i..<n]" by (simp add: upt_rec)
  have rest: "find_free_words bm [Suc i..<n] =
      (case first_free (bit_used bm) (32 * i + 32) (32 * n) of None \<Rightarrow> 0 | Some m \<Rightarrow> of_nat m)"
    using Suc.hyps(1)[of "Suc i"] Suc.hyps(2) by (simp add: add.commute)
  have split: "first_free (bit_used bm) (32 * i) (32 * n) =
      (case first_free (bit_used bm) (32 * i) (32 * i + 32) of
         None \<Rightarrow> first_free (bit_used bm) (32 * i + 32) (32 * n) | Some m \<Rightarrow> Some m)"
    using \<open>i < n\<close> by (intro first_free_split) simp_all
  show ?case
  proof (cases "first_free (bit_used bm) (32 * i) (32 * i + 32)")
    case None
    then show ?thesis using rest split by (simp add: upt word_first_free)
  next
    case (Some m)
    then have m: "32 * i \<le> m" "m < 32 * i + 32" "\<not> bit_used bm m" by (simp_all add: first_free_Some)
    then have "m div 32 = i" by simp
    then have "bm i \<noteq> 0xFFFFFFFF" using m(3) by (subst full_word) (metis mod_less_divisor zero_less_numeral)
    moreover have "of_nat i * 32 + of_nat (m - 32 * i) = (of_nat m :: u32)"
    proof -
      have "m = i * 32 + (m - 32 * i)" using m(1) by simp
      then show ?thesis by (metis of_nat_add of_nat_mult of_nat_numeral)
    qed
    moreover have "find (\<lambda>j. bm i AND push_bit j 1 = 0) [0..<32] = Some (m - 32 * i)"
      using Some word_first_free[of bm i] by simp
    ultimately show ?thesis using Some by (simp only: split upt find_free_words.simps option.case if_True simp_thms)
  qed
qed

lemma mmap_find_free_first:
  "mmap_find_free s = (case first_free (block_used s) 0 (searched s) of None \<Rightarrow> 0 | Some n \<Rightarrow> of_nat n)"
  using find_free_words_first[of "bitmap s" 0 "unat (max_blocks s) div 32"]
  by (simp add: mmap_find_free_def searched_def block_used_def [abs_def])

section \<open>Runs of free blocks\<close>

text \<open>The run search as one loop over the blocks.\<close>

fun scan :: "u32 \<Rightarrow> (nat \<Rightarrow> bool) \<Rightarrow> nat list \<Rightarrow> u32 \<times> u32 \<Rightarrow> u32 + u32 \<times> u32" where
  "scan frame_size used [] st = Inr st"
| "scan frame_size used (p # ps) (first, count) =
     (let (first', count') =
            (if \<not> used p then (if first = 0 then of_nat p else first, count + 1) else (0, 0))
      in if count' = frame_size then Inl first' else scan frame_size used ps (first', count'))"

lemma scan_append:
  "scan fs used (xs @ ys) st =
     (case scan fs used xs st of Inl r \<Rightarrow> Inl r | Inr st' \<Rightarrow> scan fs used ys st')"
proof (induction xs arbitrary: st)
  case Nil
  then show ?case by (cases st) simp
next
  case (Cons x xs)
  obtain first count where st: "st = (first, count)" by (cases st)
  obtain f c where fc: "(if \<not> used x then (if first = 0 then of_nat x else first, count + 1) else (0, 0)) = (f, c)"
    by fastforce
  show ?case using Cons[of "(f, c)"] unfolding append_Cons st scan.simps fc by simp
qed

lemma scan_used:
  "fs \<noteq> 0 \<Longrightarrow> ps \<noteq> [] \<Longrightarrow> \<forall>p \<in> set ps. used p \<Longrightarrow> scan fs used ps st = Inr (0, 0)"
proof (induction ps arbitrary: st)
  case (Cons p ps)
  then show ?case by (cases st; cases ps) auto
qed simp

lemma frame_bits_scan:
  "\<forall>j \<in> set js. j < 32 \<Longrightarrow> frame_bits fs (bm i) i js st = scan fs (bit_used bm) (map (\<lambda>j. 32 * i + j) js) st"
proof (induction js arbitrary: st)
  case (Cons j js)
  obtain first count where st: "st = (first, count)" by (cases st)
  have c: "(bm i AND push_bit j 1 = 0) = (\<not> bit_used bm (32 * i + j))"
    using Cons.prems and_bit_zero[of j "bm i"] by simp
  have v: "(of_nat i * 32 + of_nat j :: u32) = of_nat (32 * i + j)" by (simp add: mult.commute)
  obtain f k where fk: "(if \<not> bit_used bm (32 * i + j)
      then (if first = 0 then of_nat (32 * i + j) else first, count + 1) else (0, 0)) = (f, k)"
    by fastforce
  show ?case using Cons.IH[of "(f, k)"] Cons.prems
    unfolding st list.map frame_bits.simps scan.simps c v fk by simp
qed (cases st, simp)

lemma frame_words_scan:
  assumes "fs \<noteq> 0"
  shows "frame_words fs bm [i..<n] st =
    (case scan fs (bit_used bm) [32 * i..<32 * n] st of Inl r \<Rightarrow> r | Inr _ \<Rightarrow> 0)"
proof (induction "n - i" arbitrary: i st)
  case 0
  then show ?case by (cases st) simp
next
  case (Suc d)
  then have "i < n" by simp
  then have upt: "[i..<n] = i # [Suc i..<n]" by (simp add: upt_rec)
  have word: "map (\<lambda>j. 32 * i + j) [0..<32] = [32 * i..<32 * i + 32]"
    by (rule nth_equalityI) simp_all
  have bits: "[32 * i..<32 * n] = [32 * i..<32 * i + 32] @ [32 * Suc i..<32 * n]"
    using \<open>i < n\<close> upt_add_eq_append[of "32 * i" "32 * i + 32" "32 * n - (32 * i + 32)"] by (simp add: add.commute)
  have rest: "frame_words fs bm [Suc i..<n] st' =
      (case scan fs (bit_used bm) [32 * Suc i..<32 * n] st' of Inl r \<Rightarrow> r | Inr _ \<Rightarrow> 0)" for st'
    using Suc by simp
  show ?case
  proof (cases "bm i = 0xFFFFFFFF")
    case True
    then have "\<forall>p \<in> set [32 * i..<32 * i + 32]. bit_used bm p"
      using full_word[of "bm i"] by (auto simp: div_nat_eqI)
    then have "scan fs (bit_used bm) [32 * i..<32 * i + 32] st = Inr (0, 0)"
      using assms by (intro scan_used) simp_all
    then show ?thesis using True rest[of "(0, 0)"] by (simp only: upt bits scan_append frame_words.simps) simp
  next
    case False
    have "frame_bits fs (bm i) i [0..<32] st = scan fs (bit_used bm) [32 * i..<32 * i + 32] st"
      using frame_bits_scan[of "[0..<32]" fs bm i st] by (simp only: word) simp
    then show ?thesis using False rest
      by (simp only: upt bits scan_append frame_words.simps if_True) (auto split: sum.splits)
  qed
qed

text \<open>
  What a run search should return: the start of the first run of \<open>k\<close> free blocks below \<open>hi\<close>.
\<close>

definition free_run :: "(nat \<Rightarrow> bool) \<Rightarrow> nat \<Rightarrow> nat \<Rightarrow> bool" where
  "free_run used n k \<longleftrightarrow> (\<forall>m \<in> {n..<n + k}. \<not> used m)"

definition first_run :: "(nat \<Rightarrow> bool) \<Rightarrow> nat \<Rightarrow> nat \<Rightarrow> nat \<Rightarrow> bool" where
  "first_run used k hi n \<longleftrightarrow> n + k \<le> hi \<and> free_run used n k \<and> (\<forall>m < n. \<not> free_run used m k)"

lemma free_run_Suc: "free_run used n (Suc k) \<longleftrightarrow> free_run used n k \<and> \<not> used (n + k)"
  by (auto simp: free_run_def less_Suc_eq)

lemma free_run_mono: "free_run used n k \<Longrightarrow> j \<le> k \<Longrightarrow> free_run used n j"
  by (auto simp: free_run_def)

text \<open>
  The loop invariant before block \<open>p\<close>: \<open>count\<close> blocks before \<open>p\<close> are free, that run is the
  longest one ending there, and no complete run lies below \<open>p\<close>.
\<close>

definition scanning :: "(nat \<Rightarrow> bool) \<Rightarrow> nat \<Rightarrow> nat \<Rightarrow> u32 \<times> u32 \<Rightarrow> bool" where
  "scanning used k p st = (let c = unat (snd st) in
     c < k \<and> c \<le> p \<and> (if c = 0 then fst st = 0 else c < p \<and> fst st = of_nat (p - c)) \<and>
     free_run used (p - c) c \<and> (\<forall>m < p - c. \<not> free_run used m (p - m)) \<and>
     (\<forall>m. m + k \<le> p \<longrightarrow> \<not> free_run used m k))"

lemma scanning_start: "0 < k \<Longrightarrow> scanning used k 0 (0, 0)"
  by (simp add: scanning_def free_run_def)

lemma scanning_used:
  assumes "scanning used k p st" "used p"
  shows "scanning used k (Suc p) (0, 0)"
proof -
  have hit: "\<not> free_run used m j" if "m \<le> p" "p < m + j" for m j
    using that assms(2) by (auto simp: free_run_def)
  have "\<not> free_run used m k" if "m + k \<le> Suc p" for m
    using that assms(1) hit[of m k] by (cases "m + k = Suc p") (auto simp: scanning_def Let_def)
  moreover have "free_run used (Suc p) 0" by (simp add: free_run_def)
  moreover have "0 < k" using assms(1) by (simp add: scanning_def Let_def)
  ultimately show ?thesis using hit by (simp add: scanning_def)
qed

lemma scanning_free:
  assumes inv: "scanning used k p (first, count)" and free: "\<not> used p" and zero: "used 0"
    and p: "p < 2 ^ 32 - 1"
  defines "first' \<equiv> (if first = 0 then of_nat p else first)"
  shows "unat (count + 1) = unat count + 1" "first' = of_nat (p - unat count)"
    "unat count + 1 < k \<Longrightarrow> scanning used k (Suc p) (first', count + 1)"
    "unat count + 1 = k \<Longrightarrow> first_run used k (Suc p) (p - unat count)"
proof -
  define c where "c = unat count"
  have c: "c < k" "c \<le> p" "free_run used (p - c) c" and maximal: "\<And>m. m < p - c \<Longrightarrow> \<not> free_run used m (p - m)"
    and none: "\<And>m. m + k \<le> p \<Longrightarrow> \<not> free_run used m k"
    and head: "if c = 0 then first = 0 else c < p \<and> first = of_nat (p - c)"
    using inv by (auto simp: scanning_def Let_def c_def)
  have "p \<noteq> 0" using free zero by metis
  show count: "unat (count + 1) = unat count + 1"
    using c(2) p by (simp add: c_def unat_word_ariths)
  have "(of_nat (p - c) :: u32) \<noteq> 0" if "c \<noteq> 0"
  proof -
    have "unat (of_nat (p - c) :: u32) = p - c" using p by (simp add: unat_of_nat)
    then show ?thesis using head that by auto
  qed
  then show first': "first' = of_nat (p - unat count)"
    using head by (cases "c = 0") (simp_all add: first'_def flip: c_def)
  have run: "free_run used (p - c) (Suc c)" using c free by (simp add: free_run_Suc)
  have maximal': "\<not> free_run used m j" if "m < p - c" "p \<le> m + j" for m j
    using maximal[OF that(1)] that free_run_mono[of used m j "p - m"] by (metis le_diff_conv add.commute)
  have none': "\<not> free_run used m k" if "m < p - c" for m
    using none[of m] maximal'[of m k] that by linarith
  { assume "unat count + 1 < k"
    have start: "p - unat count \<noteq> 0" "Suc p - Suc (unat count) = p - unat count"
      using head \<open>p \<noteq> 0\<close> by (cases "c = 0") (simp_all add: c_def)
    have none2: "\<not> free_run used m k" if "m + k \<le> Suc p" for m
      using none'[of m] that \<open>unat count + 1 < k\<close> by (simp add: c_def)
    show "scanning used k (Suc p) (first', count + 1)"
      using \<open>unat count + 1 < k\<close> c run maximal' none2 start
      unfolding scanning_def Let_def count first' snd_conv fst_conv by (auto simp: c_def) }
  { assume "unat count + 1 = k"
    then show "first_run used k (Suc p) (p - unat count)"
      using run c none' by (simp add: first_run_def c_def) }
qed

lemma scan_first_run:
  assumes "used 0" "hi < 2 ^ 32"
  shows "scanning used (unat fs) p st \<Longrightarrow> p \<le> hi \<Longrightarrow>
    (case scan fs used [p..<hi] st of
       Inl r \<Rightarrow> \<exists>n > 0. first_run used (unat fs) hi n \<and> r = of_nat n
     | Inr _ \<Rightarrow> \<forall>n. \<not> first_run used (unat fs) hi n)"
proof (induction "hi - p" arbitrary: p st)
  case 0
  then show ?case by (cases st) (auto simp: scanning_def Let_def first_run_def)
next
  case (Suc d)
  obtain first count where st: "st = (first, count)" by (cases st)
  have upt: "[p..<hi] = p # [Suc p..<hi]" using Suc.hyps(2) by (simp add: upt_rec)
  have d: "d = hi - Suc p" "Suc p \<le> hi" using Suc.hyps(2) by simp_all
  have fs: "fs \<noteq> 0" using Suc.prems(1) by (auto simp: scanning_def)
  show ?case
  proof (cases "used p")
    case True
    then show ?thesis
      using Suc.hyps(1)[OF d(1) scanning_used[OF Suc.prems(1) True] d(2)] fs by (simp add: st upt)
  next
    case False
    note inv = Suc.prems(1)[unfolded st]
    have p: "p < 2 ^ 32 - 1" using d assms(2) by simp
    note step = scanning_free[OF inv False assms(1) p]
    have head: "0 < p - unat count"
      using inv False assms(1) by (auto simp: scanning_def Let_def split: if_splits intro: gr0I)
    show ?thesis
    proof (cases "count + 1 = fs")
      case True
      then have k: "unat count + 1 = unat fs" using step(1) by simp
      have "first_run used (unat fs) hi (p - unat count)"
        using step(4)[OF k] d(2) by (simp add: first_run_def)
      moreover have "scan fs used [p..<hi] st = Inl (of_nat (p - unat count))"
        using False True step(2) unfolding st upt scan.simps by simp
      ultimately show ?thesis using head by (simp only: sum.case) blast
    next
      case neq: False
      then have "unat count + 1 \<noteq> unat fs" using step(1) by (metis word_unat_eq_iff)
      moreover have "unat count < unat fs" using inv by (simp add: scanning_def Let_def)
      ultimately have "unat count + 1 < unat fs" by simp
      from Suc.hyps(1)[OF d(1) step(3)[OF this] d(2)] False neq show ?thesis
        by (simp add: st upt Let_def)
    qed
  qed
qed

lemma mmap_find_free_frame_first_run:
  assumes "block_used s 0" "0 < k"
  shows "mmap_find_free_frame k s = 0 \<Longrightarrow> \<not> first_run (block_used s) (unat k) (searched s) n"
    "mmap_find_free_frame k s \<noteq> 0 \<Longrightarrow>
       first_run (block_used s) (unat k) (searched s) (unat (mmap_find_free_frame k s))"
proof -
  have used: "bit_used (bitmap s) = block_used s" by (simp add: block_used_def [abs_def])
  have "mmap_find_free_frame k s =
      (case scan k (block_used s) [0..<searched s] (0, 0) of Inl r \<Rightarrow> r | Inr _ \<Rightarrow> 0)"
    using frame_words_scan[of k "bitmap s" 0 "unat (max_blocks s) div 32" "(0, 0)"] assms(2)
    unfolding used by (simp add: mmap_find_free_frame_def searched_def)
  moreover have "0 < unat k" using assms(2) by (simp add: word_less_nat_alt)
  note run = scan_first_run[where used = "block_used s" and hi = "searched s" and fs = k and p = 0,
      OF assms(1) limit_le(2) scanning_start[OF this] le0]
  have small: "unat (of_nat m :: u32) = m" if "first_run (block_used s) (unat k) (searched s) m" for m
    using that limit_le(2)[of s] by (simp add: first_run_def unat_of_nat)
  ultimately have "if mmap_find_free_frame k s = 0
      then \<forall>n. \<not> first_run (block_used s) (unat k) (searched s) n
      else first_run (block_used s) (unat k) (searched s) (unat (mmap_find_free_frame k s))"
    using run by (auto simp: small split: sum.splits) (metis less_numeral_extra(3) small unsigned_0)
  then show "mmap_find_free_frame k s = 0 \<Longrightarrow> \<not> first_run (block_used s) (unat k) (searched s) n"
    "mmap_find_free_frame k s \<noteq> 0 \<Longrightarrow>
       first_run (block_used s) (unat k) (searched s) (unat (mmap_find_free_frame k s))"
    by (auto split: if_splits)
qed

section \<open>What the operations do\<close>

text \<open>
  The invariant of the allocator: block 0 is never free (the searches return 0 for failure) and
  every block has a 32-bit address. \<open>pmm_init\<close> computes at most \<open>2 ^ 20 - 1\<close> blocks.
\<close>

definition pmm_ok :: "'s pmm_scheme \<Rightarrow> bool" where
  "pmm_ok s \<longleftrightarrow> block_used s 0 \<and> max_blocks s < 2 ^ 20"

lemma limit_ok: "pmm_ok s \<Longrightarrow> searched s < 2 ^ 20"
  using limit_le(1)[of s] by (simp add: pmm_ok_def word_less_nat_alt)

lemma pmm_ok_con [simp]: "pmm_ok (s\<lparr>con := t\<rparr>) = pmm_ok s"
  by (simp add: pmm_ok_def)

lemma block_address:
  assumes "n < 2 ^ 20"
  shows "unat (of_nat n * PMM_BLOCK_SIZE) = n * 4096" "n \<noteq> 0 \<Longrightarrow> of_nat n * PMM_BLOCK_SIZE \<noteq> 0"
    "of_nat n * PMM_BLOCK_SIZE div PMM_BLOCK_SIZE = of_nat n"
proof -
  have "of_nat n * PMM_BLOCK_SIZE = (of_nat (n * 4096) :: u32)" by (simp add: PMM_BLOCK_SIZE_def)
  moreover have "n * 4096 < 2 ^ 32" using assms by simp
  ultimately show u: "unat (of_nat n * PMM_BLOCK_SIZE) = n * 4096"
    by (simp only: of_nat_unat_u32)
  then show "n \<noteq> 0 \<Longrightarrow> of_nat n * PMM_BLOCK_SIZE \<noteq> 0" by (metis mult_eq_0_iff unsigned_0 zero_neq_numeral)
  have "unat (of_nat n * PMM_BLOCK_SIZE div PMM_BLOCK_SIZE) = unat (of_nat n :: u32)"
    using assms by (simp add: unat_div u) (simp add: PMM_BLOCK_SIZE_def unat_of_nat)
  then show "of_nat n * PMM_BLOCK_SIZE div PMM_BLOCK_SIZE = of_nat n" by (simp only: word_unat_eq_iff)
qed

lemma unat_frame [simp]: "unat (p div PMM_BLOCK_SIZE) = unat p div 4096"
  by (simp add: unat_div PMM_BLOCK_SIZE_def)

lemma first_free_ok:
  assumes "pmm_ok s" "first_free (block_used s) 0 (searched s) = Some n"
  shows "0 < n" "n < 2 ^ 20" "\<not> block_used s n" "unat (of_nat n :: u32) = n"
proof -
  have n: "n < searched s" "\<not> block_used s n" using assms(2) by (simp_all add: first_free_Some)
  show "0 < n" using n(2) assms(1) by (cases n) (simp_all add: pmm_ok_def)
  show "n < 2 ^ 20" using n(1) limit_ok [OF assms(1)] by simp
  then show "unat (of_nat n :: u32) = n" by (simp add: unat_of_nat)
qed (use assms(2) in \<open>simp add: first_free_Some\<close>)

lemma pmm_alloc_page_full:
  assumes "max_blocks s = used_blocks s"
  shows "pmm_alloc_page s \<noteq> Ok p s'"
proof
  assume ok: "pmm_alloc_page s = Ok p s'"
  let ?m = "kprintf ''[PMM] Kernel is out of physical memory!'' [] :: ('a pmm_ext console_scheme, unit) action"
  show False
  proof (cases rule: kprintf_cases[of "''[PMM] Kernel is out of physical memory!''" "[]" s])
    case (1 t)
    then have "(before ?m kabort :: ('a pmm_ext console_scheme, unit) action) s = kabort (s\<lparr>con := t\<rparr>)" by simp
    moreover have "kabort (s\<lparr>con := t\<rparr>) \<noteq> Ok () s''" for s'' by (rule kabort_leaves)
    ultimately show False using ok assms
      by (auto simp: pmm_alloc_page_def andthen_def before_def split: outcome.splits)
  next
    case (2 f)
    then show False using ok assms by (simp add: pmm_alloc_page_def)
  qed
qed

lemma pmm_alloc_page_first:
  assumes "pmm_ok s" "max_blocks s \<noteq> used_blocks s"
  shows "pmm_alloc_page s =
    (case first_free (block_used s) 0 (searched s) of
       None \<Rightarrow> Ok 0 s
     | Some n \<Rightarrow> Ok (of_nat n * PMM_BLOCK_SIZE) (mmap_set (of_nat n) s))"
proof (cases "first_free (block_used s) 0 (searched s)")
  case None
  then have "mmap_find_free s = 0" by (simp add: mmap_find_free_first)
  then show ?thesis using assms(2) None by (simp add: pmm_alloc_page_def)
next
  case (Some n)
  then have "mmap_find_free s = of_nat n" by (simp add: mmap_find_free_first)
  moreover have "(of_nat n :: u32) \<noteq> 0"
    using first_free_ok [OF assms(1) Some] by (metis less_numeral_extra(3) unsigned_0)
  ultimately show ?thesis using assms(2) Some by (simp add: pmm_alloc_page_def)
qed

lemma pmm_alloc_page_aborts:
  assumes "max_blocks s = used_blocks s" "quiet (con s)"
  obtains t where "pmm_alloc_page s = Exit Abort (s\<lparr>con := t\<rparr>)"
proof -
  let ?fmt = "''[PMM] Kernel is out of physical memory!''"
  have "format_text ?fmt [] \<noteq> None" "format_modes resting ?fmt = Some resting" "list_all plain_arg []"
    by (simp_all add: format_eval)
  from kprintf_returns [OF this assms(2)]
  obtain t where t: "kprintf ?fmt [] s = Ok () (s\<lparr>con := t\<rparr>)" "quiet t" .
  then have "quiet (con (s\<lparr>con := t\<rparr>))" by simp
  from kabort_exits[OF this] obtain u where
    "(kabort :: ('a pmm_ext console_scheme, unit) action) (s\<lparr>con := t\<rparr>) = Exit Abort (s\<lparr>con := t\<rparr>\<lparr>con := u\<rparr>)" .
  then have "pmm_alloc_page s = Exit Abort (s\<lparr>con := u\<rparr>)"
    using t(1) assms(1) by (simp add: pmm_alloc_page_def)
  then show ?thesis using that by blast
qed

text \<open>A run that is found is marked as it stands.\<close>

definition take_blocks :: "nat \<Rightarrow> nat \<Rightarrow> (nat \<Rightarrow> bool) \<Rightarrow> nat \<Rightarrow> bool" where
  "take_blocks n k used = (\<lambda>m. (n \<le> m \<and> m < n + k) \<or> used m)"

definition drop_blocks :: "nat \<Rightarrow> nat \<Rightarrow> (nat \<Rightarrow> bool) \<Rightarrow> nat \<Rightarrow> bool" where
  "drop_blocks n k used = (\<lambda>m. \<not> (n \<le> m \<and> m < n + k) \<and> used m)"

lemma take_blocks_mark:
  "unat b + unat k \<le> 2 ^ 32 \<Longrightarrow> block_used (each_block mmap_set b k s) = take_blocks (unat b) (unat k) (block_used s)"
  by (simp add: fun_eq_iff take_blocks_def each_block_mark)

lemma drop_blocks_mark:
  "unat b + unat k \<le> 2 ^ 32 \<Longrightarrow> block_used (each_block mmap_unset b k s) = drop_blocks (unat b) (unat k) (block_used s)"
  by (simp add: fun_eq_iff drop_blocks_def each_block_mark)

lemma first_run_ok:
  assumes "pmm_ok s" "first_run (block_used s) k (searched s) n" "0 < k"
  shows "0 < n" "n + k < 2 ^ 20"
proof -
  have "\<not> block_used s n" using assms(2,3) by (auto simp: first_run_def free_run_def)
  then show "0 < n" using assms(1) by (cases n) (simp_all add: pmm_ok_def)
  show "n + k < 2 ^ 20" using assms(2) limit_ok [OF assms(1)] by (simp add: first_run_def)
qed

lemma pmm_alloc_pages_cases:
  assumes "pmm_ok s" "0 < num" "pmm_alloc_pages num s = Ok p s'"
  obtains "p = 0" "s' = s"
  | n where "first_run (block_used s) (unat num) (searched s) n" "p \<noteq> 0" "unat p = n * 4096"
    "0 < n" "n + unat num < 2 ^ 20"
    "block_used s' = take_blocks n (unat num) (block_used s)" "max_blocks s' = max_blocks s"
    "used_blocks s' = used_blocks s + num"
proof (cases "p = 0 \<and> s' = s")
  case True
  then show ?thesis using that(1) by simp
next
  case False
  let ?b = "mmap_find_free_frame num s"
  have b: "?b \<noteq> 0" "p = ?b * PMM_BLOCK_SIZE" "s' = each_block mmap_set ?b num s"
    using assms(3) False by (auto simp: pmm_alloc_pages_def Let_def split: if_splits)
  have k: "0 < unat num" using assms(2) by (simp add: word_less_nat_alt)
  have run: "first_run (block_used s) (unat num) (searched s) (unat ?b)"
    using mmap_find_free_frame_first_run(2)[of s num] assms(1,2) b(1) by (simp add: pmm_ok_def)
  note bounds = first_run_ok [OF assms(1) run k]
  then have small: "unat ?b < 2 ^ 20" "unat ?b + unat num \<le> 2 ^ 32" by simp_all
  then have "unat p = unat ?b * 4096" "p \<noteq> 0" using block_address(1,2)[of "unat ?b"] b(1,2) bounds by simp_all
  then show ?thesis
    using that(2) run bounds b(3) take_blocks_mark [OF small(2), of s] each_block_mark(3) [OF small(2), of s] by simp
qed

lemma pmm_alloc_large_cases:
  assumes "pmm_ok s" "pmm_alloc_aligned_large_page s = Ok p s'"
  obtains "p = 0" "s' = s"
  | r n where "first_run (block_used s) 2048 (searched s) r" "n = (r div 1024 + 1) * 1024"
    "p \<noteq> 0" "unat p = n * 4096" "0 < n" "n + 1024 < 2 ^ 20" "\<forall>m. n \<le> m \<and> m < n + 1024 \<longrightarrow> \<not> block_used s m"
    "block_used s' = take_blocks n 1024 (block_used s)" "max_blocks s' = max_blocks s"
    "used_blocks s' = used_blocks s + 1024"
proof (cases "p = 0 \<and> s' = s")
  case True
  then show ?thesis using that(1) by simp
next
  case False
  let ?b = "mmap_find_free_frame (2 * 1024) s"
  let ?a = "((?b div 1024) + 1) * 1024"
  have b: "?b \<noteq> 0" "p = ?a * PMM_BLOCK_SIZE" "s' = each_block mmap_set ?a 1024 s"
    using assms(2) False by (auto simp: pmm_alloc_aligned_large_page_def Let_def split: if_splits)
  have run: "first_run (block_used s) 2048 (searched s) (unat ?b)"
    using mmap_find_free_frame_first_run(2)[of s "2 * 1024"] assms(1) b(1) by (simp add: pmm_ok_def)
  note bounds = first_run_ok [OF assms(1) run]
  define n where "n = (unat ?b div 1024 + 1) * 1024"
  have small: "unat ?b + 2048 < 2 ^ 20" using bounds(2) by simp
  have between: "unat ?b < n" "n \<le> unat ?b + 1024" unfolding n_def by simp_all
  have "?b div 1024 = of_nat (unat (?b div 1024))" by simp
  then have a_n: "?a = of_nat n" by (simp add: n_def unat_div)
  have n: "n < 2 ^ 20" "n + 1024 < 2 ^ 20" "n \<noteq> 0" using small between by simp_all
  have a: "unat ?a = n" using a_n n by (simp add: unat_of_nat)
  then have range: "unat ?a + unat (1024 :: u32) \<le> 2 ^ 32" using n by simp
  have fresh: "\<forall>m. n \<le> m \<and> m < n + 1024 \<longrightarrow> \<not> block_used s m"
    using run between by (auto simp: first_run_def free_run_def)
  have p: "p \<noteq> 0" "unat p = n * 4096" using block_address(1,2) [OF n(1)] b(2) a_n n(3) by simp_all
  show ?thesis
    using that(2)[OF run n_def p _ n(2) fresh] n(3) b(3) take_blocks_mark [OF range, of s]
      each_block_mark(3) [OF range, of s] a by simp
qed

section \<open>Regions and initialisation\<close>

text \<open>On a quiet console a region is marked after the message.\<close>

lemma pmm_init_region_marks:
  assumes "quiet (con s)"
  obtains t where "quiet t"
    "pmm_init_region addr sz s =
       Ok () (each_block mmap_unset (addr div PMM_BLOCK_SIZE) (sz div PMM_BLOCK_SIZE) (s\<lparr>con := t\<rparr>))"
proof -
  let ?b = "addr div PMM_BLOCK_SIZE" and ?n = "sz div PMM_BLOCK_SIZE"
  let ?fmt = "''[PMM] Initializing blocks %d to %d at addr %p\<newline>''"
  let ?args = "[Num ?b, Num (?b + ?n), Num addr]"
  have "format_text ?fmt ?args \<noteq> None" "format_modes resting ?fmt = Some resting" "list_all plain_arg ?args"
    by (simp_all add: format_eval)
  from kprintf_returns [OF this assms]
  obtain t where "kprintf ?fmt ?args s = Ok () (s\<lparr>con := t\<rparr>)" "quiet t" .
  then show ?thesis using that by (simp add: pmm_init_region_def Let_def)
qed

lemma pmm_deinit_region_marks:
  assumes "quiet (con s)"
  obtains t where "quiet t"
    "pmm_deinit_region addr sz s =
       Ok () (each_block mmap_set (addr div PMM_BLOCK_SIZE) (sz div PMM_BLOCK_SIZE) (s\<lparr>con := t\<rparr>))"
proof -
  let ?b = "addr div PMM_BLOCK_SIZE" and ?n = "sz div PMM_BLOCK_SIZE"
  let ?fmt = "''[PMM] Retaining blocks %d to %d\<newline>''"
  let ?args = "[Num ?b, Num (?b + ?n)]"
  have "format_text ?fmt ?args \<noteq> None" "format_modes resting ?fmt = Some resting" "list_all plain_arg ?args"
    by (simp_all add: format_eval)
  from kprintf_returns [OF this assms]
  obtain t where "kprintf ?fmt ?args s = Ok () (s\<lparr>con := t\<rparr>)" "quiet t" .
  then show ?thesis using that by (simp add: pmm_deinit_region_def Let_def)
qed

text \<open>
  The memory map as the list of its entries: \<open>None\<close> when the walk meets an entry of length 0 or
  is not over after \<open>fuel\<close> tests.
\<close>

fun map_entries :: "(u32 \<Rightarrow> multiboot_mmap_entry) \<Rightarrow> u32 \<Rightarrow> nat \<Rightarrow> u32 \<Rightarrow> multiboot_mmap_entry list option" where
  "map_entries entry_at stop 0 mmap = None"
| "map_entries entry_at stop (Suc fuel) mmap =
     (if mmap < stop then
        (let e = entry_at mmap
         in if me_len e = 0 then None
            else map_option ((#) e) (map_entries entry_at stop fuel (mmap + me_size e + 4)))
      else Some [])"

text \<open>
  The blocks that lie in the region an entry describes, all of whose address and length count, and the
  blocks that the walk marks free for it: \<open>pmm_init\<close> converts both to 32 bits, and
  \<open>pmm_init_region\<close> rounds the address down. The two agree on \<open>addressable\<close> entries.
\<close>

definition entry_blocks :: "multiboot_mmap_entry \<Rightarrow> nat set" where
  "entry_blocks e = {n. me_type e = 1 \<and> unat (me_addr e) \<le> n * 4096
     \<and> (n + 1) * 4096 \<le> unat (me_addr e) + unat (me_len e)}"

definition addressable :: "multiboot_mmap_entry \<Rightarrow> bool" where
  "addressable e \<longleftrightarrow> unat (me_addr e) mod 4096 = 0 \<and> unat (me_len e) < 2 ^ 32
     \<and> unat (me_addr e) + unat (me_len e) \<le> 2 ^ 32"

definition freed_blocks :: "multiboot_mmap_entry \<Rightarrow> nat set" where
  "freed_blocks e =
     (let base = unat (ucast (me_addr e) :: u32) div 4096; num = unat (ucast (me_len e) :: u32) div 4096
      in if me_type e = 1 then {base..<base + num} else {})"

lemma freed_blocks_iff:
  "n \<in> freed_blocks e \<longleftrightarrow> me_type e = 1 \<and> unat (me_addr e) mod 2 ^ 32 div 4096 \<le> n
     \<and> n < unat (me_addr e) mod 2 ^ 32 div 4096 + unat (me_len e) mod 2 ^ 32 div 4096"
  by (simp add: freed_blocks_def Let_def unsigned_ucast_eq unsigned_take_bit_eq take_bit_eq_mod)

lemma freed_blocks_addressable:
  assumes "me_type e = 1 \<Longrightarrow> addressable e"
  shows "freed_blocks e = entry_blocks e"
proof (cases "me_type e = 1")
  case True
  let ?a = "unat (me_addr e)" and ?l = "unat (me_len e)"
  have ok: "?a mod 4096 = 0" "?l < 2 ^ 32" "?a + ?l \<le> 2 ^ 32" using assms True by (simp_all add: addressable_def)
  have "n \<in> freed_blocks e \<longleftrightarrow> n \<in> entry_blocks e" for n
  proof (cases "?a = 2 ^ 32")
    case True
    then show ?thesis using ok by (simp add: freed_blocks_iff entry_blocks_def)
  next
    case False
    then have m: "?a mod 2 ^ 32 = ?a" "?l mod 2 ^ 32 = ?l" using ok by simp_all
    obtain b where b: "?a = b * 4096" using ok(1) by (metis div_mult_mod_eq add_0_right)
    obtain q r where l: "?l = q * 4096 + r" "r < 4096" "?l div 4096 = q"
      by (metis div_mult_mod_eq mod_less_divisor zero_less_numeral)
    have "n < b + q \<longleftrightarrow> (n + 1) * 4096 \<le> b * 4096 + ?l"
    proof
      assume "n < b + q"
      then have "(n + 1) * 4096 \<le> (b + q) * 4096" by (intro mult_le_mono1) simp
      then show "(n + 1) * 4096 \<le> b * 4096 + ?l" unfolding l(1) by (simp add: add_mult_distrib)
    next
      assume "(n + 1) * 4096 \<le> b * 4096 + ?l"
      then have "(n + 1) * 4096 < (b + q + 1) * 4096" using l(2) unfolding l(1) by (simp add: add_mult_distrib)
      then show "n < b + q" by simp
    qed
    then show ?thesis using True unfolding freed_blocks_iff m unfolding b by (simp add: entry_blocks_def b l(3))
  qed
  then show ?thesis by blast
qed (auto simp: freed_blocks_iff entry_blocks_def)

lemma freed_blocks_shifted:
  assumes "me_type e = 1" "unat (me_addr e) mod 4096 = 0"
    and "k * 2 ^ 32 \<le> unat (me_addr e)" "unat (me_addr e) + unat (me_len e) < (k + 1) * 2 ^ 32"
    and "unat (me_addr e) \<le> k * 2 ^ 32 + n * 4096" "k * 2 ^ 32 + (n + 1) * 4096 \<le> unat (me_addr e) + unat (me_len e)"
  shows "n \<in> freed_blocks e"
proof -
  obtain a where a: "unat (me_addr e) = k * 2 ^ 32 + a" using assms(3) le_Suc_ex by blast
  have "a < 2 ^ 32" "unat (me_len e) < 2 ^ 32" using assms(4) unfolding a by simp_all
  then have m: "unat (me_addr e) mod 2 ^ 32 = a" "unat (me_len e) mod 2 ^ 32 = unat (me_len e)" by (simp_all add: a)
  have "k * 2 ^ 32 + a = a + 4096 * (k * 2 ^ 20)" by simp
  then have "a mod 4096 = 0" using assms(2) unfolding a by (metis mod_mult_self2)
  then obtain b where b: "a = b * 4096" by (metis div_mult_mod_eq add_0_right)
  have "b \<le> n" "(n + 1) * 4096 \<le> b * 4096 + unat (me_len e)" using assms(5,6) unfolding a b by simp_all
  then show ?thesis using assms(1) unfolding freed_blocks_iff m b by simp
qed

definition total :: "(multiboot_mmap_entry \<Rightarrow> bool) \<Rightarrow> multiboot_mmap_entry list \<Rightarrow> u64" where
  "total P es = sum_list (map me_len (filter P es))"

lemma frame_range:
  fixes addr sz :: u32
  shows "unat (addr div PMM_BLOCK_SIZE) + unat (sz div PMM_BLOCK_SIZE) \<le> 2 ^ 32"
proof -
  have "unat addr div 4096 < 2 ^ 20" "unat sz div 4096 < 2 ^ 20" by (simp_all add: div_less_iff_less_mult)
  then show ?thesis by simp
qed

text \<open>The number of blocks that an entry takes off the count of used blocks.\<close>

definition entry_count :: "multiboot_mmap_entry \<Rightarrow> u32" where
  "entry_count e = (if me_type e = 1 then ucast (me_len e) div PMM_BLOCK_SIZE else 0)"

lemma pmm_init_loop_entries:
  assumes "map_entries entry_at stop fuel mmap = Some es" "quiet (con s)"
  shows "\<exists>s'. pmm_init_loop entry_at stop fuel mmap av un s
        = Ok (av + total (\<lambda>e. me_type e = 1) es, un + total (\<lambda>e. me_type e \<noteq> 1) es) s'
      \<and> quiet (con s') \<and> max_blocks s' = max_blocks s
      \<and> (\<forall>n. block_used s' n \<longleftrightarrow> block_used s n \<and> (\<forall>e \<in> set es. n \<notin> freed_blocks e))
      \<and> used_blocks s' = used_blocks s - sum_list (map entry_count es)"
  using assms
proof (induction fuel arbitrary: mmap es av un s)
  case (Suc fuel)
  show ?case
  proof (cases "mmap < stop")
    case False
    then have "es = []" using Suc.prems(1) by simp
    then show ?thesis using False Suc.prems(2) by (intro exI[of _ s]) (simp add: total_def)
  next
    case True
    define e where "e = entry_at mmap"
    then obtain es' where len: "me_len e \<noteq> 0" and es: "es = e # es'"
        and es': "map_entries entry_at stop fuel (mmap + me_size e + 4) = Some es'"
      using Suc.prems(1) True by (auto simp: Let_def split: if_splits)
    show ?thesis
    proof (cases "me_type e = 1")
      case avail: True
      obtain t where t: "quiet t" "pmm_init_region (ucast (me_addr e)) (ucast (me_len e)) s =
          Ok () (each_block mmap_unset (ucast (me_addr e) div PMM_BLOCK_SIZE)
            (ucast (me_len e) div PMM_BLOCK_SIZE) (s\<lparr>con := t\<rparr>))"
        using pmm_init_region_marks [OF Suc.prems(2)] .
      let ?s1 = "each_block mmap_unset (ucast (me_addr e) div PMM_BLOCK_SIZE)
            (ucast (me_len e) div PMM_BLOCK_SIZE) (s\<lparr>con := t\<rparr>)"
      have used: "block_used ?s1 n \<longleftrightarrow> block_used s n \<and> n \<notin> freed_blocks e" for n
        using drop_blocks_mark[OF frame_range, of "ucast (me_addr e)" "ucast (me_len e)" "s\<lparr>con := t\<rparr>"] avail
        by (auto simp: drop_blocks_def freed_blocks_def Let_def)
      have count: "used_blocks ?s1 = used_blocks s - entry_count e"
        using each_block_mark(4)[OF frame_range, of "ucast (me_addr e)" "ucast (me_len e)" "s\<lparr>con := t\<rparr>"] avail
        by (simp add: entry_count_def)
      have "quiet (con ?s1)" using t(1) by simp
      from Suc.IH [OF es' this, of "av + me_len e" un] show ?thesis
        using True avail len t(2) used count es unfolding e_def by (auto simp: Let_def total_def add.assoc)
    next
      case False
      from Suc.IH [OF es' Suc.prems(2), of av "un + me_len e"] show ?thesis
        using True False len es unfolding e_def by (auto simp: Let_def total_def add.assoc freed_blocks_def entry_count_def)
    qed
  qed
qed simp

lemma pmm_init_loop_empty_entry:
  "mmap < stop \<Longrightarrow> me_len (entry_at mmap) = 0 \<Longrightarrow> pmm_init_loop entry_at stop fuel mmap av un s = Exit OutOfFuel s"
  by (induction fuel) (simp_all add: Let_def)

text \<open>The addresses at which the walk from \<open>p\<close> looks: \<open>p\<close>, and what it visits behind the entry at \<open>p\<close>.\<close>

inductive walk_visits :: "(u32 \<Rightarrow> multiboot_mmap_entry) \<Rightarrow> u32 \<Rightarrow> u32 \<Rightarrow> u32 \<Rightarrow> bool" for entry_at stop where
  visits_here: "walk_visits entry_at stop p p"
| visits_next: "p < stop \<Longrightarrow> me_len (entry_at p) \<noteq> 0 \<Longrightarrow> walk_visits entry_at stop (p + me_size (entry_at p) + 4) q
    \<Longrightarrow> walk_visits entry_at stop p q"

text \<open>Each visited entry has a length and ends, with its size field, before the end of the address space.\<close>

lemma map_entries_terminates:
  assumes "\<And>p. walk_visits entry_at stop mmap p \<Longrightarrow> p < stop \<Longrightarrow>
      me_len (entry_at p) \<noteq> 0 \<and> unat p + unat (me_size (entry_at p)) + 4 < 2 ^ 32"
    and "unat stop - unat mmap < fuel"
  shows "map_entries entry_at stop fuel mmap \<noteq> None"
  using assms
proof (induction fuel arbitrary: mmap)
  case (Suc fuel)
  show ?case
  proof (cases "mmap < stop")
    case True
    let ?e = "entry_at mmap" and ?next = "mmap + me_size (entry_at mmap) + 4"
    have e: "me_len ?e \<noteq> 0" "unat mmap + unat (me_size ?e) + 4 < 2 ^ 32"
      using Suc.prems(1)[OF visits_here True] by simp_all
    have "?next = of_nat (unat mmap + unat (me_size ?e) + 4)" by simp
    then have adv: "unat ?next = unat mmap + unat (me_size ?e) + 4"
      using e(2) by (simp only: of_nat_unat_u32)
    have "map_entries entry_at stop fuel ?next \<noteq> None"
    proof (rule Suc.IH)
      fix p assume "walk_visits entry_at stop ?next p" "p < stop"
      then show "me_len (entry_at p) \<noteq> 0 \<and> unat p + unat (me_size (entry_at p)) + 4 < 2 ^ 32"
        using Suc.prems(1) visits_next[of mmap stop entry_at p] True e(1) by blast
    next
      show "unat stop - unat ?next < fuel" using adv Suc.prems(2) True by (simp add: word_less_nat_alt)
    qed
    then show ?thesis using True e by (simp add: Let_def)
  qed simp
qed simp

lemma walk_stays_at_empty_entry:
  assumes "walk_visits entry_at stop mmap p" "p < stop" "me_len (entry_at p) = 0"
  shows "pmm_init_loop entry_at stop fuel mmap av un s \<noteq> Ok totals s'"
  using assms
proof (induction mmap p arbitrary: fuel av un s)
  case (visits_here p)
  then show ?case by (simp add: pmm_init_loop_empty_entry)
next
  case (visits_next p q)
  show ?case
  proof (cases fuel)
    case (Suc k)
    then show ?thesis
      using visits_next by (auto simp: Let_def before_def andthen_def split: outcome.splits)
  qed (simp add: leave_def)
qed

lemma fill_bytes_used:
  assumes "n < 8 * sz"
  shows "bit (fill_bytes sz bm (n div 32)) (n mod 32)"
proof -
  have n: "n = 32 * (n div 32) + n mod 32" "n mod 32 < 32" by simp_all
  show ?thesis
  proof (cases "4 * (n div 32) + 4 \<le> sz")
    case True
    then show ?thesis using full_word[of "0xFFFFFFFF"] by (simp add: fill_bytes_def)
  next
    case False
    then have "4 * (n div 32) < sz" "n mod 32 < 8 * (sz - 4 * (n div 32))" using n assms by linarith+
    then show ?thesis using False by (simp add: fill_bytes_def bit_simps)
  qed
qed

text \<open>
  Initialisation from a memory map that the walk gets through: the blocks behind the bitmap are
  free exactly when they lie in an available region and not in the range that is kept for low
  memory, the kernel and the bitmap. That range is rounded down to whole blocks.
\<close>

definition total_blocks :: "multiboot_info \<Rightarrow> u32" where
  "total_blocks mbi = ((mem_lower mbi + mem_upper mbi) * 1024) div PMM_BLOCK_SIZE"

lemma total_blocks_small: "total_blocks mbi < 2 ^ 20"
proof -
  have "unat (total_blocks mbi) = unat ((mem_lower mbi + mem_upper mbi) * 1024) div 4096"
    unfolding total_blocks_def by (rule unat_frame)
  also have "\<dots> < 2 ^ 20" by (simp add: div_less_iff_less_mult)
  finally show ?thesis by (simp add: word_less_nat_alt)
qed

lemma pmm_init_runs:
  assumes entries: "map_entries entry_at (P2V (mmap_addr mbi) + mmap_length mbi) fuel (P2V (mmap_addr mbi)) = Some es"
    and quiet: "quiet (con s)"
  obtains s' where "pmm_init kernel_end entry_at fuel mbi s = Ok () s'" "quiet (con s')"
    "max_blocks s' = total_blocks mbi"
    "\<And>n. n < 8 * (unat (total_blocks mbi) div 8) \<Longrightarrow>
       block_used s' n \<longleftrightarrow> n < unat (kernel_end + total_blocks mbi div 8) div 4096
         \<or> (\<forall>e \<in> set es. n \<notin> freed_blocks e)"
    "used_blocks s' = total_blocks mbi - sum_list (map entry_count es) + (kernel_end + total_blocks mbi div 8) div PMM_BLOCK_SIZE"
proof -
  let ?blocks = "total_blocks mbi"
  let ?stop = "P2V (mmap_addr mbi) + mmap_length mbi" and ?start = "P2V (mmap_addr mbi)"
  define s1 where "s1 = s\<lparr>mem_size := mem_lower mbi + mem_upper mbi, max_blocks := ?blocks, used_blocks := ?blocks,
    bitmap := fill_bytes (unat (?blocks div 8)) (bitmap s)\<rparr>"
  have "quiet (con s1)" using quiet by (simp add: s1_def)
  from pmm_init_loop_entries[OF entries this, of 0 0] obtain s2 where s2:
    "pmm_init_loop entry_at ?stop fuel ?start 0 0 s1 = Ok (total (\<lambda>e. me_type e = 1) es, total (\<lambda>e. me_type e \<noteq> 1) es) s2"
    "quiet (con s2)" "max_blocks s2 = ?blocks"
    "\<forall>n. block_used s2 n \<longleftrightarrow> block_used s1 n \<and> (\<forall>e \<in> set es. n \<notin> freed_blocks e)"
    "used_blocks s2 = ?blocks - sum_list (map entry_count es)"
    by (auto simp: s1_def)
  let ?top = "kernel_end + ?blocks div 8"
  obtain t3 where t3: "quiet t3" "pmm_deinit_region 0 ?top s2 =
      Ok () (each_block mmap_set (0 div PMM_BLOCK_SIZE) (?top div PMM_BLOCK_SIZE) (s2\<lparr>con := t3\<rparr>))"
    using pmm_deinit_region_marks[OF s2(2)] .
  let ?s3 = "each_block mmap_set (0 div PMM_BLOCK_SIZE) (?top div PMM_BLOCK_SIZE) (s2\<lparr>con := t3\<rparr>)"
  have q3: "quiet (con ?s3)" using t3(1) by simp
  let ?f1 = "''[PMM] Memory stats: available: '' @ CHR 0x1B # ''[32m%dMB''"
  let ?f2 = "CHR 0x1B # ''[37m unavailable: '' @ CHR 0x1B # ''[32m%dKB'' @ CHR 0x1B # ''[37m\<newline>''"
  have f: "format_text ?f1 (slots v) \<noteq> None" "format_modes resting ?f1 = Some resting" "list_all plain_arg (slots v)"
    "format_text ?f2 (slots v) \<noteq> None" "format_modes resting ?f2 = Some resting" for v
    by (simp_all add: slots_def format_eval)
  from kprintf_returns[OF f(1-3) q3] obtain t4 where t4:
    "kprintf ?f1 (slots (total (\<lambda>e. me_type e = 1) es div (1024 * 1024))) ?s3 = Ok () (?s3\<lparr>con := t4\<rparr>)" "quiet t4" .
  then have q4: "quiet (con (?s3\<lparr>con := t4\<rparr>))" by simp
  from kprintf_returns[OF f(4,5) f(3) q4] obtain t5 where t5:
    "kprintf ?f2 (slots (total (\<lambda>e. me_type e \<noteq> 1) es div 1024)) (?s3\<lparr>con := t4\<rparr>) = Ok () (?s3\<lparr>con := t4\<rparr>\<lparr>con := t5\<rparr>)" "quiet t5" .
  have run: "pmm_init kernel_end entry_at fuel mbi s = Ok () (?s3\<lparr>con := t4\<rparr>\<lparr>con := t5\<rparr>)"
    unfolding pmm_init_def Let_def total_blocks_def [symmetric]
    using s2(1) t3(2) t4(1) t5(1) by (simp flip: s1_def)
  have used: "block_used (?s3\<lparr>con := t4\<rparr>\<lparr>con := t5\<rparr>) n \<longleftrightarrow> n < unat ?top div 4096 \<or> (\<forall>e \<in> set es. n \<notin> freed_blocks e)"
    if "n < 8 * (unat ?blocks div 8)" for n
  proof -
    have "unat (?blocks div 8) = unat ?blocks div 8" by (simp add: unat_div)
    then have "block_used s1 n" using that fill_bytes_used by (simp add: block_used_def s1_def)
    then show ?thesis
      using s2(4) take_blocks_mark[OF frame_range, of 0 ?top "s2\<lparr>con := t3\<rparr>"] by (simp add: take_blocks_def)
  qed
  have count: "used_blocks (?s3\<lparr>con := t4\<rparr>\<lparr>con := t5\<rparr>) = used_blocks s2 + ?top div PMM_BLOCK_SIZE"
    using each_block_mark(3)[OF frame_range, of 0 ?top "s2\<lparr>con := t3\<rparr>"] by simp
  show ?thesis
    by (rule that[OF run _ _ used count[unfolded s2(5)]]) (use t5(2) s2(3) in simp_all)
qed

section \<open>Allocators\<close>

text \<open>
  The contract of an allocator of \<open>k\<close> consecutive frames, as the clients use it: what it hands
  out was free and is used, what it is given back is free, nothing else changes. Clients that
  allocate again and again get disjoint ranges.
\<close>

primrec alloc_all :: "('s, u32) action \<Rightarrow> nat \<Rightarrow> ('s, u32 list) action" where
  "alloc_all alloc 0 = ret []"
| "alloc_all alloc (Suc n) =
     andthen alloc (\<lambda>p. andthen (alloc_all alloc n) (\<lambda>ps. ret (p # ps)))"

definition frames :: "nat \<Rightarrow> u32 \<Rightarrow> nat set" where
  "frames k p = {unat p div 4096..<unat p div 4096 + k}"

locale frame_allocator =
  fixes k :: nat
    and alloc :: "('s, u32) action"
    and release :: "u32 \<Rightarrow> ('s, unit) action"
    and used :: "'s \<Rightarrow> nat \<Rightarrow> bool"
    and ok :: "'s \<Rightarrow> bool"
  assumes positive: "0 < k"
    and alloc_ok: "ok s \<Longrightarrow> alloc s = Ok p s' \<Longrightarrow> ok s'"
    and alloc_fails: "ok s \<Longrightarrow> alloc s = Ok 0 s' \<Longrightarrow> used s' = used s"
    and alloc_fresh: "ok s \<Longrightarrow> alloc s = Ok p s' \<Longrightarrow> p \<noteq> 0 \<Longrightarrow>
      unat p mod 4096 = 0 \<and> unat p div 4096 + k < 2 ^ 20 \<and> (\<forall>n \<in> frames k p. \<not> used s n)
      \<and> used s' = take_blocks (unat p div 4096) k (used s)"
    and release_frees: "ok s \<Longrightarrow> p \<noteq> 0 \<Longrightarrow> unat p mod 4096 = 0 \<Longrightarrow> unat p div 4096 + k < 2 ^ 20 \<Longrightarrow>
      wp (release p) (\<lambda>_ s'. ok s' \<and> used s' = drop_blocks (unat p div 4096) k (used s)) s"
begin

lemma alloc_grows:
  assumes "ok s" "alloc s = Ok p s'" "used s n"
  shows "used s' n"
  using alloc_fails alloc_fresh assms by (cases "p = 0") (auto simp: take_blocks_def)

lemma alloc_all_grows:
  "ok s \<Longrightarrow> alloc_all alloc m s = Ok ps s' \<Longrightarrow> used s n \<Longrightarrow> used s' n \<and> ok s'"
proof (induction m arbitrary: s ps)
  case (Suc m)
  then obtain p s1 ps' where "alloc s = Ok p s1" "alloc_all alloc m s1 = Ok ps' s'"
    by (auto simp: andthen_def split: outcome.splits)
  then show ?case using Suc alloc_ok alloc_grows by blast
qed simp

lemma alloc_all_disjoint:
  "ok s \<Longrightarrow> alloc_all alloc m s = Ok ps s' \<Longrightarrow> 0 \<notin> set ps \<Longrightarrow>
   distinct ps \<and> (\<forall>p \<in> set ps. \<forall>n \<in> frames k p. \<not> used s n)
     \<and> (\<forall>p \<in> set ps. \<forall>q \<in> set ps. p \<noteq> q \<longrightarrow> frames k p \<inter> frames k q = {})"
proof (induction m arbitrary: s ps)
  case (Suc m)
  then obtain p s1 ps' where p: "alloc s = Ok p s1" "alloc_all alloc m s1 = Ok ps' s'" "ps = p # ps'"
    by (auto simp: andthen_def split: outcome.splits)
  have fresh: "\<forall>n \<in> frames k p. \<not> used s n" "\<forall>n \<in> frames k p. used s1 n"
    using alloc_fresh[OF Suc.prems(1) p(1)] Suc.prems(3) p(3) by (auto simp: frames_def take_blocks_def)
  have IH: "distinct ps'" "\<forall>q \<in> set ps'. \<forall>n \<in> frames k q. \<not> used s1 n"
    "\<forall>p \<in> set ps'. \<forall>q \<in> set ps'. p \<noteq> q \<longrightarrow> frames k p \<inter> frames k q = {}"
    using Suc.IH[OF alloc_ok[OF Suc.prems(1) p(1)] p(2)] Suc.prems(3) p(3) by simp_all
  have "unat p div 4096 \<in> frames k p" using positive by (simp add: frames_def)
  then have "p \<notin> set ps'" using fresh IH(2) by blast
  moreover have "\<forall>q \<in> set ps'. frames k p \<inter> frames k q = {}" using fresh(2) IH(2) by blast
  moreover have "\<forall>q \<in> set ps'. \<forall>n \<in> frames k q. \<not> used s n"
    using IH(2) alloc_grows[OF Suc.prems(1) p(1)] by blast
  ultimately show ?case using IH fresh(1) p(3) by (auto simp: Int_commute)
qed simp

lemma release_alloc:
  assumes "ok s" "alloc s = Ok p s'" "p \<noteq> 0"
  shows "wp (release p) (\<lambda>_ s''. used s'' = used s) s'"
proof -
  note fresh = alloc_fresh[OF assms]
  have "drop_blocks (unat p div 4096) k (used s') = used s"
    using fresh by (auto simp: fun_eq_iff drop_blocks_def take_blocks_def frames_def)
  then show ?thesis
    using release_frees[OF alloc_ok[OF assms(1,2)] assms(3)] fresh by (auto elim: wp_mono)
qed

end

lemma drop_blocks_ok: "block_used s' = drop_blocks n k (block_used s) \<Longrightarrow> pmm_ok s \<Longrightarrow> 0 < n \<Longrightarrow>
  max_blocks s' = max_blocks s \<Longrightarrow> pmm_ok s'"
  by (simp add: pmm_ok_def drop_blocks_def)

lemma take_blocks_ok: "block_used s' = take_blocks n k (block_used s) \<Longrightarrow> pmm_ok s \<Longrightarrow>
  max_blocks s' = max_blocks s \<Longrightarrow> pmm_ok s'"
  by (simp add: pmm_ok_def take_blocks_def)

lemma aligned_positive: "p \<noteq> 0 \<Longrightarrow> unat p mod 4096 = 0 \<Longrightarrow> 0 < unat (p :: u32) div 4096"
  by (metis div_mult_mod_eq add_0_right gr0I mult_0 unat_eq_zero)

lemma pmm_alloc_page_cases:
  assumes "pmm_ok s" "pmm_alloc_page s = Ok p s'"
  obtains "p = 0" "s' = s" "first_free (block_used s) 0 (searched s) = None"
  | n where "first_free (block_used s) 0 (searched s) = Some n" "p \<noteq> 0" "unat p = n * 4096" "0 < n" "n < 2 ^ 20"
      "\<not> block_used s n" "s' = mmap_set (of_nat n) s" "block_used s' = take_blocks n 1 (block_used s)"
proof -
  have "max_blocks s \<noteq> used_blocks s" using pmm_alloc_page_full assms(2) by blast
  note first = pmm_alloc_page_first[OF assms(1) this]
  show ?thesis
  proof (cases "first_free (block_used s) 0 (searched s)")
    case None
    then show ?thesis using first assms(2) that(1) by simp
  next
    case (Some n)
    note ok = first_free_ok[OF assms(1) Some]
    have "p = of_nat n * PMM_BLOCK_SIZE" "s' = mmap_set (of_nat n) s" using first assms(2) Some by simp_all
    moreover have "block_used (mmap_set (of_nat n) s) = take_blocks n 1 (block_used s)"
      using ok(4) by (auto simp: fun_eq_iff block_used_set take_blocks_def)
    ultimately show ?thesis using that(2)[OF Some] ok block_address[OF ok(2)] by simp
  qed
qed

lemma pmm_free_pages_wp:
  assumes "pmm_ok s" "p \<noteq> 0" "unat p mod 4096 = 0" "unat p div 4096 + unat num < 2 ^ 20"
  shows "wp (pmm_free_pages p num) (\<lambda>_ s'. pmm_ok s' \<and> block_used s' = drop_blocks (unat p div 4096) (unat num) (block_used s)) s"
proof -
  have "unat (p div PMM_BLOCK_SIZE) + unat num \<le> 2 ^ 32" using assms(4) by simp
  note used = drop_blocks_mark[OF this, of s]
  from drop_blocks_ok[OF this assms(1)] show ?thesis
    using aligned_positive[OF assms(2,3)] by (simp add: pmm_free_pages_def wp_simps used)
qed

interpretation page: frame_allocator 1 pmm_alloc_page pmm_free_page block_used pmm_ok
proof unfold_locales
  fix s s' :: "'a pmm_scheme" and p
  assume ok: "pmm_ok s" "pmm_alloc_page s = Ok p s'"
  from ok show "pmm_ok s'"
  proof (cases rule: pmm_alloc_page_cases)
    case (2 n)
    from take_blocks_ok[OF 2(8) ok(1)] 2(7) show ?thesis by simp
  qed (use ok in simp)
  assume "p \<noteq> 0"
  from ok show "unat p mod 4096 = 0 \<and> unat p div 4096 + 1 < 2 ^ 20 \<and> (\<forall>n \<in> frames 1 p. \<not> block_used s n)
      \<and> block_used s' = take_blocks (unat p div 4096) 1 (block_used s)"
  proof (cases rule: pmm_alloc_page_cases)
    case (2 n)
    then have "n < searched s" by (simp add: first_free_Some)
    then show ?thesis using 2 limit_ok[OF ok(1)] by (simp add: frames_def)
  qed (use \<open>p \<noteq> 0\<close> in simp)
next
  fix s s' :: "'a pmm_scheme"
  assume "pmm_ok s" "pmm_alloc_page s = Ok 0 s'"
  then show "block_used s' = block_used s" by (cases rule: pmm_alloc_page_cases) simp_all
next
  fix s :: "'a pmm_scheme" and p :: u32
  assume p: "pmm_ok s" "p \<noteq> 0" "unat p mod 4096 = 0" "unat p div 4096 + 1 < 2 ^ 20"
  have u: "block_used (mmap_unset (p div PMM_BLOCK_SIZE) s) = drop_blocks (unat p div 4096) 1 (block_used s)"
    by (auto simp: fun_eq_iff block_used_unset drop_blocks_def)
  from drop_blocks_ok[OF this p(1)]
  show "wp (pmm_free_page p) (\<lambda>_ s'. pmm_ok s' \<and> block_used s' = drop_blocks (unat p div 4096) 1 (block_used s)) s"
    using u aligned_positive[OF p(2,3)] by (simp add: pmm_free_page_def wp_simps)
qed simp

lemma pmm_alloc_pages_allocator:
  assumes "0 < num"
  shows "frame_allocator (unat num) (pmm_alloc_pages num) (\<lambda>p. pmm_free_pages p num) block_used pmm_ok"
proof unfold_locales
  show "0 < unat num" using assms by (simp add: word_less_nat_alt)
next
  fix s s' :: "'a pmm_scheme" and p
  assume ok: "pmm_ok s" "pmm_alloc_pages num s = Ok p s'"
  from ok(1) assms ok(2) show "pmm_ok s'"
  proof (cases rule: pmm_alloc_pages_cases)
    case (2 n)
    from take_blocks_ok[OF 2(6) ok(1) 2(7)] show ?thesis .
  qed (use ok in simp)
next
  fix s s' :: "'a pmm_scheme"
  assume ok: "pmm_ok s" "pmm_alloc_pages num s = Ok 0 s'"
  from ok(1) assms ok(2) show "block_used s' = block_used s" by (cases rule: pmm_alloc_pages_cases) simp_all
next
  fix s s' :: "'a pmm_scheme" and p
  assume ok: "pmm_ok s" "pmm_alloc_pages num s = Ok p s'" and "p \<noteq> 0"
  from ok(1) assms ok(2)
  show "unat p mod 4096 = 0 \<and> unat p div 4096 + unat num < 2 ^ 20 \<and> (\<forall>n \<in> frames (unat num) p. \<not> block_used s n)
      \<and> block_used s' = take_blocks (unat p div 4096) (unat num) (block_used s)"
  proof (cases rule: pmm_alloc_pages_cases)
    case (2 n)
    then show ?thesis by (simp add: frames_def first_run_def free_run_def)
  qed (use \<open>p \<noteq> 0\<close> in simp)
next
  fix s :: "'a pmm_scheme" and p :: u32
  assume "pmm_ok s" "p \<noteq> 0" "unat p mod 4096 = 0" "unat p div 4096 + unat num < 2 ^ 20"
  then show "wp (pmm_free_pages p num) (\<lambda>_ s'. pmm_ok s'
      \<and> block_used s' = drop_blocks (unat p div 4096) (unat num) (block_used s)) s"
    by (rule pmm_free_pages_wp)
qed

interpretation large: frame_allocator 1024 pmm_alloc_aligned_large_page "\<lambda>p. pmm_free_pages p 1024" block_used pmm_ok
proof unfold_locales
  fix s s' :: "'a pmm_scheme" and p
  assume ok: "pmm_ok s" "pmm_alloc_aligned_large_page s = Ok p s'"
  then show "pmm_ok s'"
  proof (cases rule: pmm_alloc_large_cases)
    case (2 r n)
    from take_blocks_ok[OF 2(8) ok(1) 2(9)] show ?thesis .
  qed (use ok in simp)
next
  fix s s' :: "'a pmm_scheme"
  assume "pmm_ok s" "pmm_alloc_aligned_large_page s = Ok 0 s'"
  then show "block_used s' = block_used s" by (cases rule: pmm_alloc_large_cases) simp_all
next
  fix s s' :: "'a pmm_scheme" and p
  assume ok: "pmm_ok s" "pmm_alloc_aligned_large_page s = Ok p s'" and "p \<noteq> 0"
  from ok show "unat p mod 4096 = 0 \<and> unat p div 4096 + 1024 < 2 ^ 20 \<and> (\<forall>n \<in> frames 1024 p. \<not> block_used s n)
      \<and> block_used s' = take_blocks (unat p div 4096) 1024 (block_used s)"
  proof (cases rule: pmm_alloc_large_cases)
    case (2 r n)
    have "unat p div 4096 = n" "unat p mod 4096 = 0" using 2(4) by simp_all
    then show ?thesis using 2(6-8) by (simp add: frames_def)
  qed (use \<open>p \<noteq> 0\<close> in simp)
next
  fix s :: "'a pmm_scheme" and p :: u32
  assume "pmm_ok s" "p \<noteq> 0" "unat p mod 4096 = 0" "unat p div 4096 + 1024 < 2 ^ 20"
  then show "wp (pmm_free_pages p 1024) (\<lambda>_ s'. pmm_ok s'
      \<and> block_used s' = drop_blocks (unat p div 4096) 1024 (block_used s)) s"
    using pmm_free_pages_wp[of s p 1024] by simp
qed simp

section \<open>Properties\<close>

text \<open>Three of 64 blocks used, for the witnesses.\<close>

definition small_pmm :: pmm where
  "small_pmm = \<lparr>con = blank_tty, mem_size = 256, used_blocks = 3, max_blocks = 64,
     bitmap = (\<lambda>i. if i = 0 then mask 3 else 0)\<rparr>"

lemma small_pmm_simps:
  "pmm_ok small_pmm" "searched small_pmm = 64" "max_blocks small_pmm = 64" "used_blocks small_pmm = 3"
  "quiet (con small_pmm)"
  using blank_wf
  by (simp_all add: small_pmm_def pmm_ok_def block_used_def searched_def in_mode_def blank_tty_def bit_mask_iff)

lemma small_pmm_used: "n < 64 \<Longrightarrow> block_used small_pmm n \<longleftrightarrow> n < 3"
proof -
  assume "n < 64"
  then show ?thesis
    by (cases "n div 32 = 0") (auto simp: small_pmm_def block_used_def div_eq_0_iff bit_mask_iff)
qed

text \<open>C12: \<open>pmm_alloc_page\<close> takes the lowest free block: it marks that block and no other, counts it and
  returns its address. Without a free block in the words the search looks at it returns 0, and when the
  count says that all blocks are used the kernel aborts with a message.\<close>

theorem alloc_page_takes_first:
  assumes "pmm_ok s" "quiet (con s)"
  shows "if max_blocks s = used_blocks s then \<exists>t. pmm_alloc_page s = Exit Abort (s\<lparr>con := t\<rparr>)
    else (case find (\<lambda>n. \<not> block_used s n) [0..<searched s] of
            None \<Rightarrow> pmm_alloc_page s = Ok 0 s
          | Some n \<Rightarrow> 0 < n \<and> (\<exists>p s'. pmm_alloc_page s = Ok p s' \<and> unat p = 4096 * n
              \<and> (\<forall>m. block_used s' m \<longleftrightarrow> m = n \<or> block_used s m) \<and> used_blocks s' = used_blocks s + 1))"
proof (cases "max_blocks s = used_blocks s")
  case True
  then show ?thesis using pmm_alloc_page_aborts[OF True assms(2)] by auto
next
  case False
  note first = pmm_alloc_page_first[OF assms(1) False]
  show ?thesis
  proof (cases "first_free (block_used s) 0 (searched s)")
    case None
    then show ?thesis using False first by (simp add: first_free_def)
  next
    case (Some n)
    note ok = first_free_ok[OF assms(1) Some]
    have "block_used (mmap_set (of_nat n) s) m \<longleftrightarrow> m = n \<or> block_used s m" for m
      using ok(4) by (simp add: block_used_set)
    moreover have "used_blocks (mmap_set (of_nat n) s) = used_blocks s + 1" by (simp add: mmap_set_def)
    ultimately show ?thesis
      using False first Some ok block_address(1)[OF ok(2)] by (simp add: first_free_def mult.commute)
  qed
qed

theorem alloc_page_takes_first_witness:
  "\<exists>p s'. pmm_alloc_page small_pmm = Ok p s' \<and> unat p = 0x3000 \<and> block_used s' 3"
proof -
  have f: "find (\<lambda>n. \<not> block_used small_pmm n) [0..<64] = Some 3"
    using first_free_Some[of "block_used small_pmm" 0 64 3] small_pmm_used by (simp add: first_free_def)
  show ?thesis
    using alloc_page_takes_first[of small_pmm] by (auto simp: small_pmm_simps f)
qed

text \<open>Any number of successive page allocations that succeed return distinct page-aligned frames that
  were all free, and all are used afterwards.\<close>

theorem allocated_pages_are_distinct:
  assumes "pmm_ok s" "alloc_all pmm_alloc_page n s = Ok ps s'" "0 \<notin> set ps"
  shows "distinct (map (\<lambda>p. unat p div 4096) ps) \<and> (\<forall>p \<in> set ps. \<not> block_used s (unat p div 4096))"
proof -
  have frames: "frames 1 p = {unat p div 4096}" for p by (auto simp: frames_def)
  have all: "distinct ps" "\<forall>p \<in> set ps. \<not> block_used s (unat p div 4096)"
    "\<forall>p \<in> set ps. \<forall>q \<in> set ps. p \<noteq> q \<longrightarrow> unat p div 4096 \<noteq> unat q div 4096"
    using page.alloc_all_disjoint[OF assms] unfolding frames by auto
  then show ?thesis by (auto simp: distinct_map inj_on_def)
qed

theorem allocated_pages_are_distinct_witness: "distinct (map (\<lambda>p. unat (p :: u32) div 4096) [0x3000])"
proof -
  have f: "first_free (block_used small_pmm) 0 64 = Some 3"
    using first_free_Some[of "block_used small_pmm" 0 64 3] small_pmm_used by simp
  have "pmm_alloc_page small_pmm = Ok 0x3000 (mmap_set 3 small_pmm)"
    using pmm_alloc_page_first[of small_pmm] by (simp add: small_pmm_simps f PMM_BLOCK_SIZE_def)
  then have "alloc_all pmm_alloc_page 1 small_pmm = Ok [0x3000] (mmap_set 3 small_pmm)" by simp
  from allocated_pages_are_distinct[OF small_pmm_simps(1) this] show ?thesis by simp
qed

text \<open>The two outcomes of the search for a run of blocks.\<close>

lemma alloc_pages_search:
  assumes "pmm_ok s" "0 < num"
  shows "\<exists>p s'. pmm_alloc_pages num s = Ok p s' \<and>
    (if max_blocks s - used_blocks s < num \<or> (\<forall>n. \<not> first_run (block_used s) (unat num) (searched s) n)
     then p = 0 \<and> s' = s
     else first_run (block_used s) (unat num) (searched s) (unat p div 4096) \<and> p \<noteq> 0 \<and> unat p mod 4096 = 0
       \<and> block_used s' = take_blocks (unat p div 4096) (unat num) (block_used s)
       \<and> used_blocks s' = used_blocks s + num)"
proof -
  obtain p s' where ps: "pmm_alloc_pages num s = Ok p s'"
    by (cases "pmm_alloc_pages num s") (auto simp: pmm_alloc_pages_def Let_def split: if_splits)
  have zero: "block_used s 0" using assms(1) by (simp add: pmm_ok_def)
  from assms(1,2) ps show ?thesis
  proof (cases rule: pmm_alloc_pages_cases)
    case 1
    have "max_blocks s - used_blocks s < num \<or> mmap_find_free_frame num s = 0"
    proof (rule ccontr)
      assume n: "\<not> ?thesis"
      then have "first_run (block_used s) (unat num) (searched s) (unat (mmap_find_free_frame num s))"
        using mmap_find_free_frame_first_run(2)[OF zero assms(2)] by simp
      from first_run_ok[OF assms(1) this] assms(2)
      have "unat (mmap_find_free_frame num s) < 2 ^ 20" by (simp add: word_less_nat_alt)
      from block_address(2)[OF this] n have "mmap_find_free_frame num s * PMM_BLOCK_SIZE \<noteq> 0"
        by (simp add: unat_eq_zero)
      then show False using ps n 1 by (simp add: pmm_alloc_pages_def Let_def)
    qed
    then show ?thesis
      using ps 1 mmap_find_free_frame_first_run(1)[OF zero assms(2)] by auto
  next
    case (2 n)
    have "\<not> max_blocks s - used_blocks s < num"
      using ps 2(2) by (auto simp: pmm_alloc_pages_def)
    then show ?thesis using ps 2 by auto
  qed
qed

text \<open>C16: \<open>pmm_alloc_pages\<close> is a first-fit search: if fewer than \<open>num\<close> blocks are left or there is no run
  of \<open>num\<close> free blocks it returns 0 and changes nothing, otherwise it marks the first such run, counts it
  and returns the address of its first block.\<close>

theorem alloc_pages_first_fit:
  assumes "pmm_ok s" "0 < num"
  shows "\<exists>p s'. pmm_alloc_pages num s = Ok p s' \<and>
    (if max_blocks s - used_blocks s < num \<or> (\<forall>n. \<not> first_run (block_used s) (unat num) (searched s) n)
     then p = 0 \<and> s' = s
     else first_run (block_used s) (unat num) (searched s) (unat p div 4096) \<and> p \<noteq> 0 \<and> unat p mod 4096 = 0
       \<and> block_used s' = take_blocks (unat p div 4096) (unat num) (block_used s)
       \<and> used_blocks s' = used_blocks s + num)"
  by (rule alloc_pages_search[OF assms])

lemma small_pmm_run: "first_run (block_used small_pmm) 10 64 3"
  using small_pmm_used by (auto simp: first_run_def free_run_def)

theorem alloc_pages_first_fit_witness:
  "\<exists>p s'. pmm_alloc_pages 10 small_pmm = Ok p s' \<and> first_run (block_used small_pmm) 10 64 (unat p div 4096)"
proof -
  have ten: "unat (10 :: u32) = 10" by simp
  have no: "((64 :: u32) - 3 < 10 \<or> (\<forall>n. \<not> first_run (block_used small_pmm) 10 64 n)) = False"
    using small_pmm_run by auto
  have pos: "(0 :: u32) < 10" by simp
  from alloc_pages_first_fit[OF small_pmm_simps(1) pos, unfolded small_pmm_simps ten no if_False]
  show ?thesis by blast
qed

text \<open>A large page is aligned to 4 MiB, consists of 1024 blocks that were free, and marks exactly those:
  they lie inside the run of 2048 free blocks that the search finds.\<close>

theorem large_page_aligned_and_fresh:
  assumes "pmm_ok s" "pmm_alloc_aligned_large_page s = Ok p s'" "p \<noteq> 0"
  shows "unat p mod 0x400000 = 0 \<and> (\<forall>n \<in> frames 1024 p. \<not> block_used s n)
    \<and> block_used s' = take_blocks (unat p div 4096) 1024 (block_used s)
    \<and> (\<exists>r. first_run (block_used s) 2048 (searched s) r \<and> r < unat p div 4096 \<and> unat p div 4096 + 1024 \<le> r + 2048)"
  using assms(1,2)
proof (cases rule: pmm_alloc_large_cases)
  case (2 r n)
  have "r < n" "n \<le> r + 1024" unfolding 2(2) by simp_all
  moreover have "unat p mod 0x400000 = 0" "unat p div 4096 = n" using 2(2,4) by simp_all
  ultimately show ?thesis using 2(1,7,8) by (auto simp: frames_def)
qed (use assms(3) in simp)

text \<open>All but block 0 of 4096 blocks free.\<close>

definition big_pmm :: pmm where
  "big_pmm = \<lparr>con = blank_tty, mem_size = 16384, used_blocks = 1, max_blocks = 4096,
     bitmap = (\<lambda>i. if i = 0 then 1 else 0)\<rparr>"

theorem large_page_aligned_and_fresh_witness:
  "\<exists>s'. pmm_alloc_aligned_large_page big_pmm = Ok 0x400000 s' \<and> \<not> block_used big_pmm 1500"
proof -
  have ok: "pmm_ok big_pmm" "searched big_pmm = 4096" by (simp_all add: big_pmm_def pmm_ok_def block_used_def searched_def)
  have used: "block_used big_pmm n \<longleftrightarrow> n = 0" for n
    using same_bit[of n 0] by (auto simp: big_pmm_def block_used_def bit_1_iff)
  have run: "first_run (block_used big_pmm) 2048 4096 1" by (auto simp: first_run_def free_run_def used)
  have "mmap_find_free_frame 2048 big_pmm \<noteq> 0"
    using mmap_find_free_frame_first_run(1)[of big_pmm 2048 1] run ok used by auto
  then have "first_run (block_used big_pmm) 2048 4096 (unat (mmap_find_free_frame 2048 big_pmm))"
    using mmap_find_free_frame_first_run(2)[of big_pmm 2048] ok used by simp
  then have "unat (mmap_find_free_frame 2048 big_pmm) = 1"
    using run by (metis first_run_def nat_neq_iff)
  then have "mmap_find_free_frame (2 * 1024) big_pmm = 1" by (simp add: word_unat_eq_iff)
  then have "pmm_alloc_aligned_large_page big_pmm = Ok 0x400000 (each_block mmap_set 1024 1024 big_pmm)"
    by (simp add: pmm_alloc_aligned_large_page_def PMM_BLOCK_SIZE_def Let_def) (simp add: big_pmm_def)
  moreover from large_page_aligned_and_fresh[OF ok(1) this] have "\<not> block_used big_pmm 1500"
    by (simp add: frames_def)
  ultimately show ?thesis by blast
qed

text \<open>Freeing a page that was just allocated restores the set of used blocks.\<close>

theorem free_undoes_alloc:
  assumes "pmm_ok s" "pmm_alloc_page s = Ok p s'" "p \<noteq> 0"
  shows "\<exists>s''. pmm_free_page p s' = Ok () s'' \<and> block_used s'' = block_used s \<and> used_blocks s'' = used_blocks s"
proof -
  obtain s'' where s'': "pmm_free_page p s' = Ok () s''" "block_used s'' = block_used s"
    using wp_OkD[OF page.release_alloc[OF assms]] by auto
  from assms(1,2) have "used_blocks s' = used_blocks s + 1"
    by (cases rule: pmm_alloc_page_cases) (use assms(3) in \<open>simp_all add: mmap_set_def\<close>)
  moreover have "used_blocks s'' = used_blocks s' - 1" using s''(1) by (auto simp: pmm_free_page_def mmap_unset_def)
  ultimately show ?thesis using s'' by simp
qed

theorem free_undoes_alloc_witness:
  "\<exists>s''. pmm_free_page 0x3000 (mmap_set 3 small_pmm) = Ok () s'' \<and> block_used s'' = block_used small_pmm"
proof -
  have f: "first_free (block_used small_pmm) 0 64 = Some 3"
    using first_free_Some[of "block_used small_pmm" 0 64 3] small_pmm_used by simp
  have "pmm_alloc_page small_pmm = Ok 0x3000 (mmap_set 3 small_pmm)"
    using pmm_alloc_page_first[of small_pmm] by (simp add: small_pmm_simps f PMM_BLOCK_SIZE_def)
  from free_undoes_alloc[OF small_pmm_simps(1) this] show ?thesis by auto
qed

text \<open>C36: the walk over the boot loader's memory map ends exactly when every entry it visits has a length,
  as long as none of them reaches the end of the address space. The number of bytes of the map bounds the
  tests it makes; an entry of length 0 that it comes to keeps it for ever.\<close>

theorem memory_map_walk_ends:
  assumes "\<And>p. walk_visits entry_at stop mmap p \<Longrightarrow> p < stop \<Longrightarrow> unat p + unat (me_size (entry_at p)) + 4 < 2 ^ 32"
    and "unat stop - unat mmap < fuel" and "quiet (con s)"
  shows "(\<exists>totals s'. pmm_init_loop entry_at stop fuel mmap av un s = Ok totals s')
     \<longleftrightarrow> (\<forall>p. walk_visits entry_at stop mmap p \<and> p < stop \<longrightarrow> me_len (entry_at p) \<noteq> 0)"
    (is "?ends \<longleftrightarrow> ?lengths")
proof
  assume ?lengths
  then obtain es where "map_entries entry_at stop fuel mmap = Some es"
    using map_entries_terminates[of entry_at stop mmap fuel] assms(1,2) by auto
  from pmm_init_loop_entries[OF this assms(3)] show ?ends by blast
next
  assume ?ends
  then show ?lengths using walk_stays_at_empty_entry by blast
qed

text \<open>A map of one available entry: 7 MiB at 1 MiB.\<close>

definition one_entry :: "u32 \<Rightarrow> multiboot_mmap_entry" where
  "one_entry a = \<lparr>me_size = 20, me_addr = 0x100000, me_len = 0x700000, me_type = 1\<rparr>"

text \<open>A map as a boot loader leaves it: low memory, a reserved area, and the memory above 1 MiB, in 24 bytes each.
  Nothing is known of the entries at other addresses; these here have length 0.\<close>

definition three_entries :: "u32 \<Rightarrow> multiboot_mmap_entry" where
  "three_entries a =
     (if a = 0xC0009000 then \<lparr>me_size = 20, me_addr = 0, me_len = 0x9FC00, me_type = 1\<rparr>
      else if a = 0xC0009018 then \<lparr>me_size = 20, me_addr = 0xF0000, me_len = 0x10000, me_type = 2\<rparr>
      else if a = 0xC0009030 then \<lparr>me_size = 20, me_addr = 0x100000, me_len = 0x700000, me_type = 1\<rparr>
      else \<lparr>me_size = 0, me_addr = 0, me_len = 0, me_type = 0\<rparr>)"

lemma three_entries_visited:
  assumes "walk_visits three_entries 0xC0009048 0xC0009000 p"
  shows "p \<in> {0xC0009000, 0xC0009018, 0xC0009030, 0xC0009048}"
  using assms
  by (auto elim!: walk_visits.cases[of _ _ "0xC0009000"] walk_visits.cases[of _ _ "0xC0009018"]
      walk_visits.cases[of _ _ "0xC0009030"] walk_visits.cases[of _ _ "0xC0009048"] simp: three_entries_def)

theorem memory_map_walk_ends_witness:
  "\<exists>totals s'. pmm_init_loop three_entries 0xC0009048 73 0xC0009000 0 0 small_pmm = Ok totals s'"
proof (rule iffD2[OF memory_map_walk_ends])
  have v: "p \<in> {0xC0009000, 0xC0009018, 0xC0009030}"
    if "walk_visits three_entries 0xC0009048 0xC0009000 p" "p < 0xC0009048" for p
    using three_entries_visited[OF that(1)] that(2) by auto
  show "unat p + unat (me_size (three_entries p)) + 4 < 2 ^ 32"
    if "walk_visits three_entries 0xC0009048 0xC0009000 p" "p < 0xC0009048" for p
    using v[OF that] by (auto simp: three_entries_def)
  show "\<forall>p. walk_visits three_entries 0xC0009048 0xC0009000 p \<and> p < 0xC0009048 \<longrightarrow> me_len (three_entries p) \<noteq> 0"
    using v by (auto simp: three_entries_def)
qed (simp_all add: small_pmm_simps)

text \<open>An entry of length 0 stops the walk for good: however long it runs, it tests the same entry.\<close>

theorem memory_map_walk_hangs:
  assumes "mmap < stop" "me_len (entry_at mmap) = 0"
  shows "\<forall>fuel. pmm_init_loop entry_at stop fuel mmap av un s = Exit OutOfFuel s"
  by (intro allI) (rule pmm_init_loop_empty_entry, fact+)

theorem memory_map_walk_hangs_witness:
  "\<forall>fuel. pmm_init_loop (\<lambda>a. (one_entry a)\<lparr>me_len := 0\<rparr>) 0xC0009018 fuel 0xC0009000 0 0 small_pmm
     = Exit OutOfFuel small_pmm"
  by (rule memory_map_walk_hangs) simp_all

text \<open>C13: when the available entries of the memory map start at page boundaries and describe memory below
  4 GiB, a block of the bitmap is free after \<open>pmm_init\<close> exactly when all its bytes lie in the region of an
  available entry and it is not below the end of kernel and bitmap, rounded down to a block. So all of low
  memory and all but the last, partly used, block of kernel and bitmap are kept, and every block that is
  handed out is available memory.\<close>

theorem pmm_init_free_blocks:
  assumes "map_entries entry_at (P2V (mmap_addr mbi) + mmap_length mbi) fuel (P2V (mmap_addr mbi)) = Some es"
    and "quiet (con s)"
    and "\<forall>e \<in> set es. me_type e = 1 \<longrightarrow> unat (me_addr e) mod 4096 = 0 \<and> unat (me_len e) < 2 ^ 32
           \<and> unat (me_addr e) + unat (me_len e) \<le> 2 ^ 32"
  shows "\<exists>s'. pmm_init kernel_end entry_at fuel mbi s = Ok () s' \<and> max_blocks s' = total_blocks mbi
    \<and> (\<forall>n < 8 * (unat (total_blocks mbi) div 8).
         \<not> block_used s' n \<longleftrightarrow> unat (kernel_end + total_blocks mbi div 8) div 4096 \<le> n
           \<and> (\<exists>e \<in> set es. me_type e = 1
                \<and> {n * 4096..<(n + 1) * 4096} \<subseteq> {unat (me_addr e)..<unat (me_addr e) + unat (me_len e)}))"
proof -
  obtain s' where s': "pmm_init kernel_end entry_at fuel mbi s = Ok () s'" "max_blocks s' = total_blocks mbi"
    "\<And>n. n < 8 * (unat (total_blocks mbi) div 8) \<Longrightarrow>
       block_used s' n \<longleftrightarrow> n < unat (kernel_end + total_blocks mbi div 8) div 4096
         \<or> (\<forall>e \<in> set es. n \<notin> freed_blocks e)"
    using pmm_init_runs[OF assms(1,2)] by metis
  have "freed_blocks e = entry_blocks e" if "e \<in> set es" for e
    using that assms(3) by (intro freed_blocks_addressable) (auto simp: addressable_def)
  then have "\<not> block_used s' n \<longleftrightarrow> unat (kernel_end + total_blocks mbi div 8) div 4096 \<le> n
      \<and> (\<exists>e \<in> set es. n \<in> entry_blocks e)" if "n < 8 * (unat (total_blocks mbi) div 8)" for n
    using s'(3)[OF that] by auto
  then show ?thesis using s'(1,2) by (simp add: entry_blocks_def)
qed

text \<open>The kernel and the bitmap end inside block 421, which is free after initialisation.\<close>

theorem pmm_init_free_blocks_witness:
  "\<exists>s'. pmm_init 0x1A5432 one_entry 3 (blank_info\<lparr>mb_flags := 0x40, mem_lower := 639, mem_upper := 7168, mmap_length := 24,
       mmap_addr := 0x9000\<rparr>) small_pmm = Ok () s' \<and> block_used s' 420 \<and> \<not> block_used s' 421"
proof -
  let ?mbi = "blank_info\<lparr>mb_flags := 0x40, mem_lower := 639, mem_upper := 7168, mmap_length := 24, mmap_addr := 0x9000\<rparr>"
  have blocks: "total_blocks ?mbi = 1951" by (simp add: total_blocks_def PMM_BLOCK_SIZE_def)
  have entries: "map_entries one_entry (P2V (mmap_addr ?mbi) + mmap_length ?mbi) 3 (P2V (mmap_addr ?mbi)) = Some [one_entry (P2V 0x9000)]"
    by (simp add: one_entry_def P2V_def numeral_3_eq_3)
  have sane: "\<forall>e \<in> set [one_entry (P2V 0x9000)]. me_type e = 1 \<longrightarrow> unat (me_addr e) mod 4096 = 0
      \<and> unat (me_len e) < 2 ^ 32 \<and> unat (me_addr e) + unat (me_len e) \<le> 2 ^ 32"
    by (simp add: one_entry_def)
  from pmm_init_free_blocks[OF entries small_pmm_simps(5) sane, of "0x1A5432"] obtain s' where
    run: "pmm_init 0x1A5432 one_entry 3 ?mbi small_pmm = Ok () s'" and
    all: "\<forall>n < 8 * (unat (1951 :: u32) div 8). \<not> block_used s' n \<longleftrightarrow> unat (0x1A5432 + 1951 div 8 :: u32) div 4096 \<le> n
      \<and> (\<exists>e \<in> set [one_entry (P2V 0x9000)]. me_type e = 1
           \<and> {n * 4096..<(n + 1) * 4096} \<subseteq> {unat (me_addr e)..<unat (me_addr e) + unat (me_len e)})"
    unfolding blocks by blast
  have "\<not> block_used s' 421" "block_used s' 420"
    using all[rule_format, of 421] all[rule_format, of 420] by (simp_all add: one_entry_def)
  then show ?thesis using run by blast
qed

text \<open>C37: the conversion of an entry's 64-bit address and length to 32 bits frees blocks that no entry covers:
  an available region behind 4 GiB marks the blocks 4 GiB (or a multiple) below it as free.\<close>

theorem high_memory_frees_low_blocks:
  assumes "map_entries entry_at (P2V (mmap_addr mbi) + mmap_length mbi) fuel (P2V (mmap_addr mbi)) = Some es"
    and "quiet (con s)"
    and "e \<in> set es" "me_type e = 1" "unat (me_addr e) mod 4096 = 0"
    and "k * 2 ^ 32 \<le> unat (me_addr e)" "unat (me_addr e) + unat (me_len e) < (k + 1) * 2 ^ 32"
    and "{k * 2 ^ 32 + n * 4096..<k * 2 ^ 32 + (n + 1) * 4096} \<subseteq> {unat (me_addr e)..<unat (me_addr e) + unat (me_len e)}"
    and "n < 8 * (unat (total_blocks mbi) div 8)" "unat (kernel_end + total_blocks mbi div 8) div 4096 \<le> n"
  shows "\<exists>s'. pmm_init kernel_end entry_at fuel mbi s = Ok () s' \<and> \<not> block_used s' n"
proof -
  obtain s' where s': "pmm_init kernel_end entry_at fuel mbi s = Ok () s'"
    "block_used s' n \<longleftrightarrow> n < unat (kernel_end + total_blocks mbi div 8) div 4096 \<or> (\<forall>e \<in> set es. n \<notin> freed_blocks e)"
    using pmm_init_runs[OF assms(1,2)] assms(9) by metis
  have "n \<in> freed_blocks e"
    using assms(4-8) by (intro freed_blocks_shifted) auto
  then show ?thesis using s' assms(3,10) by (intro exI[of _ s']) auto
qed

text \<open>Memory up to 8 MiB, a hole, and a region of 64 MiB behind 4 GiB: block 4000, in the hole, is free.\<close>

definition high_entry :: "u32 \<Rightarrow> multiboot_mmap_entry" where
  "high_entry a = (if a = 0xC0009000 then one_entry a
     else \<lparr>me_size = 20, me_addr = 0x100000000, me_len = 0x4000000, me_type = 1\<rparr>)"

theorem high_memory_frees_low_blocks_witness:
  "\<exists>s'. pmm_init 0x1A5432 high_entry 3 (blank_info\<lparr>mb_flags := 0x40, mem_lower := 639, mem_upper := 31744, mmap_length := 48,
       mmap_addr := 0x9000\<rparr>) small_pmm = Ok () s' \<and> \<not> block_used s' 4000
    \<and> 4000 \<notin> entry_blocks (high_entry 0xC0009000) \<union> entry_blocks (high_entry 0xC0009018)"
proof -
  let ?mbi = "blank_info\<lparr>mb_flags := 0x40, mem_lower := 639, mem_upper := 31744, mmap_length := 48, mmap_addr := 0x9000\<rparr>"
  have blocks: "total_blocks ?mbi = 8095" by (simp add: total_blocks_def PMM_BLOCK_SIZE_def)
  have entries: "map_entries high_entry (P2V (mmap_addr ?mbi) + mmap_length ?mbi) 3 (P2V (mmap_addr ?mbi)) =
      Some [high_entry 0xC0009000, high_entry 0xC0009018]"
    by (simp add: high_entry_def one_entry_def P2V_def numeral_3_eq_3)
  have e: "high_entry 0xC0009018 \<in> set [high_entry 0xC0009000, high_entry 0xC0009018]" by simp
  have "\<exists>s'. pmm_init 0x1A5432 high_entry 3 ?mbi small_pmm = Ok () s' \<and> \<not> block_used s' 4000"
    by (rule high_memory_frees_low_blocks[OF entries small_pmm_simps(5) e, where k = 1])
      (simp_all add: high_entry_def blocks)
  moreover have "4000 \<notin> entry_blocks (high_entry 0xC0009000) \<union> entry_blocks (high_entry 0xC0009018)"
    by (simp add: entry_blocks_def high_entry_def one_entry_def)
  ultimately show ?thesis by blast
qed

end
