(* ===== verification/Cpu.thy ===== *)
theory Cpu
  imports Pmm
begin

unbundle bit_operations_syntax

text \<open>
  The processor's tables and ports: \<open>kernel/src/cpu/misc/pmio.c\<close>, \<open>gdt.c\<close> and \<open>idt.c\<close> with their
  headers and \<open>cpu.h\<close>. The devices are the environment: \<open>device s h p\<close> is what port \<open>p\<close> reads
  after the port accesses \<open>h\<close>. The addresses of the tables and of the TSS are the linker's and
  are arguments.
\<close>

section \<open>State\<close>

datatype io = Out8 u16 u8 | Out16 u16 u16 | Out32 u16 u32 | In8 u16 | In16 u16 | In32 u16

record gdt_entry =
  g_limit_low :: u16
  g_base_low :: u16
  g_base_middle :: u8
  g_access :: u8
  g_limit_and_flags :: u8
  g_base_high :: u8

record idt_entry =
  i_base_low :: u16
  i_selector :: u16
  i_zero :: u8
  i_flags :: u8
  i_base_high :: u16

record tss_entry =
  t_prev_tss :: u32
  t_esp0 :: u32
  t_ss0 :: u32
  t_esp1 :: u32
  t_ss1 :: u32
  t_esp2 :: u32
  t_ss2 :: u32
  t_cr3 :: u32
  t_eip :: u32
  t_eflags :: u32
  t_eax :: u32
  t_ecx :: u32
  t_edx :: u32
  t_ebx :: u32
  t_esp :: u32
  t_ebp :: u32
  t_esi :: u32
  t_edi :: u32
  t_es :: u32
  t_cs :: u32
  t_ss :: u32
  t_ds :: u32
  t_fs :: u32
  t_gs :: u32
  t_ldtr :: u32
  t_trap :: u16
  t_iomap_base :: u16
  t_ssp :: u32

text \<open>A pointer record of \<open>lgdt\<close> and \<open>lidt\<close>: size and offset.\<close>

type_synonym table_pointer = "u16 \<times> u32"

record cpu = pmm +
  io_events :: "io list"
  device :: "io list \<Rightarrow> u16 \<Rightarrow> u32"
  interrupt_flag :: bool
  gdt_entries :: "gdt_entry list"
  gdt_ptr :: table_pointer
  tss :: tss_entry
  task_register :: u16
  gdtr :: table_pointer
  idt_entries :: "idt_entry list"
  idt_entry_ptr :: table_pointer
  idtr :: table_pointer

section \<open>Ports\<close>

definition port_read :: "io \<Rightarrow> u16 \<Rightarrow> ('s cpu_scheme, u32) action" where
  "port_read e port s = Ok (device s (io_events s) port) (s\<lparr>io_events := io_events s @ [e]\<rparr>)"

definition port_write :: "io \<Rightarrow> ('s cpu_scheme, unit) action" where
  "port_write e = change (\<lambda>s. s\<lparr>io_events := io_events s @ [e]\<rparr>)"

definition inportb :: "u16 \<Rightarrow> ('s cpu_scheme, u8) action" where
  "inportb port = andthen (port_read (In8 port) port) (\<lambda>v. ret (ucast v))"

definition outportb :: "u16 \<Rightarrow> u8 \<Rightarrow> ('s cpu_scheme, unit) action" where
  "outportb port data = port_write (Out8 port data)"

definition inports :: "u16 \<Rightarrow> ('s cpu_scheme, u16) action" where
  "inports port = andthen (port_read (In16 port) port) (\<lambda>v. ret (ucast v))"

definition outports :: "u16 \<Rightarrow> u16 \<Rightarrow> ('s cpu_scheme, unit) action" where
  "outports port data = port_write (Out16 port data)"

definition inportl :: "u16 \<Rightarrow> ('s cpu_scheme, u32) action" where
  "inportl port = port_read (In32 port) port"

definition outportl :: "u16 \<Rightarrow> u32 \<Rightarrow> ('s cpu_scheme, unit) action" where
  "outportl port data = port_write (Out32 port data)"

text \<open>The string instructions move \<open>sz\<close> 16-bit words; the buffer is the list of its words.\<close>

definition outportsm :: "u16 \<Rightarrow> u16 list \<Rightarrow> u32 \<Rightarrow> ('s cpu_scheme, unit) action" where
  "outportsm port data sz =
     foreach [0..<unat sz] (\<lambda>i. if i < length data then outports port (data ! i) else stuck OutOfBounds)"

primrec read_words :: "u16 \<Rightarrow> nat \<Rightarrow> ('s cpu_scheme, u16 list) action" where
  "read_words port 0 = ret []"
| "read_words port (Suc n) = andthen (inports port) (\<lambda>w. andthen (read_words port n) (\<lambda>ws. ret (w # ws)))"

definition inportsm :: "u16 \<Rightarrow> u16 list \<Rightarrow> u32 \<Rightarrow> ('s cpu_scheme, u16 list) action" where
  "inportsm port data sz =
     (if length data < unat sz then stuck OutOfBounds
      else andthen (read_words port (unat sz)) (\<lambda>ws. ret (ws @ drop (unat sz) data)))"

definition io_wait :: "('s cpu_scheme, unit) action" where
  "io_wait = outportb 0x80 0"

definition STI :: "('s cpu_scheme, unit) action" where
  "STI = change (\<lambda>s. s\<lparr>interrupt_flag := True\<rparr>)"

section \<open>The global descriptor table\<close>

definition GDT_SELECTOR_KERNEL_CODE :: u32 where "GDT_SELECTOR_KERNEL_CODE = 0x08"
definition GDT_SELECTOR_KERNEL_DATA :: u32 where "GDT_SELECTOR_KERNEL_DATA = 0x10"
definition GDT_SELECTOR_USER_CODE :: u32 where "GDT_SELECTOR_USER_CODE = 0x18"
definition GDT_SELECTOR_USER_DATA :: u32 where "GDT_SELECTOR_USER_DATA = 0x20"
definition GDT_SELECTOR_TSS :: u32 where "GDT_SELECTOR_TSS = 0x28"

lemmas selector_defs = GDT_SELECTOR_KERNEL_CODE_def GDT_SELECTOR_KERNEL_DATA_def
  GDT_SELECTOR_USER_CODE_def GDT_SELECTOR_USER_DATA_def GDT_SELECTOR_TSS_def

definition SEG_SELECTOR_REQUESTED_PRIV :: "u32 \<Rightarrow> u32" where
  "SEG_SELECTOR_REQUESTED_PRIV x = x AND 0x03"

definition GDT_SEG_FLAGS :: u8 where
  "GDT_SEG_FLAGS = push_bit 4 (push_bit 1 0) OR push_bit 4 (push_bit 2 1) OR push_bit 4 (push_bit 3 1)"

text \<open>The access byte from its bits: accessed, rw, conforming, executable, type, present, privilege.\<close>

definition seg_access :: "u8 \<Rightarrow> u8 \<Rightarrow> u8 \<Rightarrow> u8 \<Rightarrow> u8 \<Rightarrow> u8 \<Rightarrow> u8 \<Rightarrow> u8" where
  "seg_access ac rw conf ex ty pres priv =
     push_bit 0 ac OR push_bit 1 rw OR push_bit 2 conf OR push_bit 3 ex OR push_bit 4 ty
       OR push_bit 7 pres OR push_bit 5 (priv AND 0x03)"

definition GDT_ACCESS_KERNEL_CODE :: u8 where "GDT_ACCESS_KERNEL_CODE = seg_access 0 1 0 1 1 1 0"
definition GDT_ACCESS_KERNEL_DATA :: u8 where "GDT_ACCESS_KERNEL_DATA = seg_access 0 1 0 0 1 1 0"
definition GDT_ACCESS_USER_CODE :: u8 where "GDT_ACCESS_USER_CODE = seg_access 0 1 0 1 1 1 3"
definition GDT_ACCESS_USER_DATA :: u8 where "GDT_ACCESS_USER_DATA = seg_access 0 1 0 0 1 1 3"
definition GDT_TSS_ACCESS :: u8 where "GDT_TSS_ACCESS = seg_access 1 0 0 1 0 1 3"

lemmas gdt_access_defs = GDT_ACCESS_KERNEL_CODE_def GDT_ACCESS_KERNEL_DATA_def
  GDT_ACCESS_USER_CODE_def GDT_ACCESS_USER_DATA_def GDT_TSS_ACCESS_def seg_access_def GDT_SEG_FLAGS_def

definition make_gdt_entry :: "u32 \<Rightarrow> u32 \<Rightarrow> u8 \<Rightarrow> u8 \<Rightarrow> gdt_entry" where
  "make_gdt_entry base limit access flags = \<lparr>
     g_limit_low = ucast (limit AND 0xFFFF),
     g_base_low = ucast (base AND 0xFFFF),
     g_base_middle = ucast (drop_bit 16 base AND 0xFF),
     g_access = access,
     g_limit_and_flags = ucast (drop_bit 16 limit AND 0x0F) OR (flags AND 0xF0),
     g_base_high = ucast (drop_bit 24 base)\<rparr>"

definition gdt_set_entry :: "u32 \<Rightarrow> u32 \<Rightarrow> u32 \<Rightarrow> u8 \<Rightarrow> u8 \<Rightarrow> ('s cpu_scheme, unit) action" where
  "gdt_set_entry num base limit access flags s =
     (if unat num < length (gdt_entries s)
      then Ok () (s\<lparr>gdt_entries := (gdt_entries s)[unat num := make_gdt_entry base limit access flags]\<rparr>)
      else Undefined OutOfBounds)"

definition TSS_SIZE :: u32 where
  "TSS_SIZE = 108"

definition zero_tss :: tss_entry where
  "zero_tss = \<lparr>t_prev_tss = 0, t_esp0 = 0, t_ss0 = 0, t_esp1 = 0, t_ss1 = 0, t_esp2 = 0, t_ss2 = 0,
     t_cr3 = 0, t_eip = 0, t_eflags = 0, t_eax = 0, t_ecx = 0, t_edx = 0, t_ebx = 0, t_esp = 0,
     t_ebp = 0, t_esi = 0, t_edi = 0, t_es = 0, t_cs = 0, t_ss = 0, t_ds = 0, t_fs = 0, t_gs = 0,
     t_ldtr = 0, t_trap = 0, t_iomap_base = 0, t_ssp = 0\<rparr>"

definition gdt_write_tss :: "u32 \<Rightarrow> u32 \<Rightarrow> u32 \<Rightarrow> u32 \<Rightarrow> ('s cpu_scheme, unit) action" where
  "gdt_write_tss tss_addr num ss0 esp0 =
     (let limit = tss_addr + TSS_SIZE;
          data = GDT_SELECTOR_KERNEL_DATA OR SEG_SELECTOR_REQUESTED_PRIV 3
      in before (gdt_set_entry num tss_addr limit GDT_TSS_ACCESS 0)
           (change (\<lambda>s. s\<lparr>tss := zero_tss\<lparr>t_ss0 := ss0, t_esp0 := esp0,
              t_cs := GDT_SELECTOR_KERNEL_CODE OR SEG_SELECTOR_REQUESTED_PRIV 3,
              t_ss := data, t_ds := data, t_es := data, t_fs := data, t_gs := data,
              t_iomap_base := ucast TSS_SIZE\<rparr>\<rparr>)))"

definition gdt_set_kernel_stack :: "u32 \<Rightarrow> ('s cpu_scheme, unit) action" where
  "gdt_set_kernel_stack stack = change (\<lambda>s. s\<lparr>tss := (tss s)\<lparr>t_esp0 := stack\<rparr>\<rparr>)"

text \<open>\<open>gdt_load\<close> and \<open>tss_load\<close> are assembly: they load the two registers.\<close>

definition gdt_init :: "u32 \<Rightarrow> u32 \<Rightarrow> ('s cpu_scheme, unit) action" where
  "gdt_init gdt_addr tss_addr =
     before (change (\<lambda>s. s\<lparr>gdt_ptr := (6 * 8 - 1, gdt_addr)\<rparr>))
    (before (gdt_set_entry 0 0 0 0 0)
    (before (gdt_set_entry 1 0 0xFFFFFFFF GDT_ACCESS_KERNEL_CODE GDT_SEG_FLAGS)
    (before (gdt_set_entry 2 0 0xFFFFFFFF GDT_ACCESS_KERNEL_DATA GDT_SEG_FLAGS)
    (before (gdt_set_entry 3 0 0xFFFFFFFF GDT_ACCESS_USER_CODE GDT_SEG_FLAGS)
    (before (gdt_set_entry 4 0 0xFFFFFFFF GDT_ACCESS_USER_DATA GDT_SEG_FLAGS)
    (before (gdt_write_tss tss_addr 5 GDT_SELECTOR_KERNEL_DATA 0)
    (before (change (\<lambda>s. s\<lparr>gdtr := gdt_ptr s\<rparr>))
            (change (\<lambda>s. s\<lparr>task_register := ucast (GDT_SELECTOR_TSS OR SEG_SELECTOR_REQUESTED_PRIV 3)\<rparr>)))))))))"

section \<open>The interrupt descriptor table\<close>

definition ISR_COUNT :: nat where
  "ISR_COUNT = 256"

definition IDT_INT_KERNEL :: u8 where
  "IDT_INT_KERNEL = push_bit 7 1 OR push_bit 5 (0 AND 0x03) OR 0xE"

definition IDT_INT_USER :: u8 where
  "IDT_INT_USER = push_bit 7 1 OR push_bit 5 (3 AND 0x03) OR 0xE"

definition idt_init :: "u32 \<Rightarrow> ('s cpu_scheme, unit) action" where
  "idt_init idt_addr =
     before (change (\<lambda>s. s\<lparr>idt_entry_ptr := (of_nat (ISR_COUNT * 8 - 1), idt_addr)\<rparr>))
            (change (\<lambda>s. s\<lparr>idtr := idt_entry_ptr s\<rparr>))"

definition make_idt_entry :: "u32 \<Rightarrow> u16 \<Rightarrow> u8 \<Rightarrow> idt_entry" where
  "make_idt_entry base selector flags = \<lparr>
     i_base_low = ucast (base AND 0xFFFF), i_selector = selector, i_zero = 0, i_flags = flags,
     i_base_high = ucast (drop_bit 16 base)\<rparr>"

definition idt_set_entry :: "u8 \<Rightarrow> u32 \<Rightarrow> u16 \<Rightarrow> u8 \<Rightarrow> ('s cpu_scheme, unit) action" where
  "idt_set_entry num base selector flags =
     change (\<lambda>s. s\<lparr>idt_entries := (idt_entries s)[unat num := make_idt_entry base selector flags]\<rparr>)"

section \<open>What the processor reads\<close>

text \<open>A descriptor as the processor decodes it: base, 20-bit limit, access byte, upper flags.\<close>

definition segment_base :: "gdt_entry \<Rightarrow> u32" where
  "segment_base e = ucast (g_base_low e) OR push_bit 16 (ucast (g_base_middle e)) OR push_bit 24 (ucast (g_base_high e))"

definition segment_limit :: "gdt_entry \<Rightarrow> u32" where
  "segment_limit e = ucast (g_limit_low e) OR push_bit 16 (ucast (g_limit_and_flags e AND 0x0F))"

definition segment_flags :: "gdt_entry \<Rightarrow> u8" where
  "segment_flags e = g_limit_and_flags e AND 0xF0"

definition gate_offset :: "idt_entry \<Rightarrow> u32" where
  "gate_offset e = ucast (i_base_low e) OR push_bit 16 (ucast (i_base_high e))"

lemma bit_numeral_masks:
  "bit (0xFFFF :: 'a :: len word) n \<longleftrightarrow> n < LENGTH('a) \<and> n < 16"
  "bit (0xFF :: 'a word) n \<longleftrightarrow> n < LENGTH('a) \<and> n < 8"
  "bit (0x0F :: 'a word) n \<longleftrightarrow> n < LENGTH('a) \<and> n < 4"
  "bit (0xFFFFF :: 'a word) n \<longleftrightarrow> n < LENGTH('a) \<and> n < 20"
  "bit (0xFFF :: 'a word) n \<longleftrightarrow> n < LENGTH('a) \<and> n < 12"
  "bit (0x3FF :: 'a word) n \<longleftrightarrow> n < LENGTH('a) \<and> n < 10"
  "bit (0xF0 :: 'a word) n \<longleftrightarrow> n < LENGTH('a) \<and> 4 \<le> n \<and> n < 8"
proof -
  have e: "(0xFFFF :: 'a word) = mask 16" "(0xFF :: 'a word) = mask 8" "(0x0F :: 'a word) = mask 4"
    "(0xFFFFF :: 'a word) = mask 20" "(0xFFF :: 'a word) = mask 12" "(0x3FF :: 'a word) = mask 10"
    "(0xF0 :: 'a word) = push_bit 4 (mask 4)"
    by (simp_all add: mask_eq_exp_minus_1 push_bit_eq_mult)
  show "bit (0xFFFF :: 'a :: len word) n \<longleftrightarrow> n < LENGTH('a) \<and> n < 16"
    "bit (0xFF :: 'a word) n \<longleftrightarrow> n < LENGTH('a) \<and> n < 8"
    "bit (0x0F :: 'a word) n \<longleftrightarrow> n < LENGTH('a) \<and> n < 4"
    "bit (0xFFFFF :: 'a word) n \<longleftrightarrow> n < LENGTH('a) \<and> n < 20"
    "bit (0xFFF :: 'a word) n \<longleftrightarrow> n < LENGTH('a) \<and> n < 12"
    "bit (0x3FF :: 'a word) n \<longleftrightarrow> n < LENGTH('a) \<and> n < 10"
    "bit (0xF0 :: 'a word) n \<longleftrightarrow> n < LENGTH('a) \<and> 4 \<le> n \<and> n < 8"
    unfolding e by (auto simp: bit_mask_iff bit_push_bit_iff)
qed

lemma bit_numeral_masks_int:
  "bit (0xFFFF :: int) n \<longleftrightarrow> n < 16" "bit (0xFF :: int) n \<longleftrightarrow> n < 8" "bit (0x0F :: int) n \<longleftrightarrow> n < 4"
  "bit (0xFFFFF :: int) n \<longleftrightarrow> n < 20" "bit (0xFFF :: int) n \<longleftrightarrow> n < 12" "bit (0x3FF :: int) n \<longleftrightarrow> n < 10"
  "bit (0xF0 :: int) n \<longleftrightarrow> 4 \<le> n \<and> n < 8"
proof -
  have e: "(0xFFFF :: int) = mask 16" "(0xFF :: int) = mask 8" "(0x0F :: int) = mask 4"
    "(0xFFFFF :: int) = mask 20" "(0xFFF :: int) = mask 12" "(0x3FF :: int) = mask 10"
    "(0xF0 :: int) = push_bit 4 (mask 4)"
    by (simp_all add: mask_eq_exp_minus_1 push_bit_eq_mult)
  show "bit (0xFFFF :: int) n \<longleftrightarrow> n < 16" "bit (0xFF :: int) n \<longleftrightarrow> n < 8" "bit (0x0F :: int) n \<longleftrightarrow> n < 4"
    "bit (0xFFFFF :: int) n \<longleftrightarrow> n < 20" "bit (0xFFF :: int) n \<longleftrightarrow> n < 12" "bit (0x3FF :: int) n \<longleftrightarrow> n < 10"
    "bit (0xF0 :: int) n \<longleftrightarrow> 4 \<le> n \<and> n < 8"
    unfolding e by (auto simp: bit_mask_iff bit_push_bit_iff)
qed

lemmas mask_bits = bit_numeral_masks bit_numeral_masks_int

lemma segment_base_entry: "segment_base (make_gdt_entry base limit access flags) = base"
proof (rule bit_word_eqI)
  fix n
  show "bit (segment_base (make_gdt_entry base limit access flags)) n = bit base n" if "n < LENGTH(32)"
    using that by (cases "24 \<le> n") (auto simp: segment_base_def make_gdt_entry_def bit_simps mask_bits)
qed

lemma segment_limit_entry: "segment_limit (make_gdt_entry base limit access flags) = limit AND 0xFFFFF"
  by (rule bit_word_eqI)
    (auto simp: segment_limit_def make_gdt_entry_def bit_simps mask_bits)

lemma segment_flags_entry: "segment_flags (make_gdt_entry base limit access flags) = flags AND 0xF0"
  by (rule bit_word_eqI)
    (auto simp: segment_flags_def make_gdt_entry_def bit_simps mask_bits)

lemma gate_offset_entry: "gate_offset (make_idt_entry base selector flags) = base"
  by (rule bit_word_eqI)
    (auto simp: gate_offset_def make_idt_entry_def bit_simps mask_bits)

text \<open>Both tables after their initialisation, entry by entry.\<close>

lemma gdt_init_entries:
  assumes "length (gdt_entries s) = 6"
  shows "\<exists>s'. gdt_init gdt_addr tss_addr s = Ok () s'
    \<and> gdt_entries s' = [make_gdt_entry 0 0 0 0, make_gdt_entry 0 0xFFFFFFFF GDT_ACCESS_KERNEL_CODE GDT_SEG_FLAGS,
        make_gdt_entry 0 0xFFFFFFFF GDT_ACCESS_KERNEL_DATA GDT_SEG_FLAGS, make_gdt_entry 0 0xFFFFFFFF GDT_ACCESS_USER_CODE GDT_SEG_FLAGS,
        make_gdt_entry 0 0xFFFFFFFF GDT_ACCESS_USER_DATA GDT_SEG_FLAGS, make_gdt_entry tss_addr (tss_addr + 108) GDT_TSS_ACCESS 0]
    \<and> gdtr s' = (47, gdt_addr) \<and> task_register s' = 0x2B
    \<and> t_ss0 (tss s') = 0x10 \<and> t_esp0 (tss s') = 0 \<and> con s' = con s"
proof -
  obtain a b c d e f where "gdt_entries s = [a, b, c, d, e, f]"
    using assms by (auto simp: numeral_eq_Suc length_Suc_conv)
  then show ?thesis
    by (simp add: gdt_init_def gdt_write_tss_def gdt_set_entry_def Let_def TSS_SIZE_def selector_defs
        SEG_SELECTOR_REQUESTED_PRIV_def)
qed

section \<open>Properties\<close>

text \<open>A descriptor written by \<open>gdt_set_entry\<close> decodes, in the scattered layout the processor reads,
  to the base, the low 20 bits of the limit, the access byte and the upper flags it was given, and the
  other descriptors keep their value; an index outside the table is undefined.\<close>

theorem descriptor_decodes:
  "if unat num < length (gdt_entries s)
   then \<exists>s'. gdt_set_entry num base limit access flags s = Ok () s'
     \<and> segment_base (gdt_entries s' ! unat num) = base
     \<and> segment_limit (gdt_entries s' ! unat num) = limit AND 0xFFFFF
     \<and> g_access (gdt_entries s' ! unat num) = access
     \<and> segment_flags (gdt_entries s' ! unat num) = flags AND 0xF0
     \<and> (\<forall>i. i \<noteq> unat num \<longrightarrow> gdt_entries s' ! i = gdt_entries s ! i)
   else gdt_set_entry num base limit access flags s = Undefined OutOfBounds"
proof (cases "unat num < length (gdt_entries s)")
  case True
  have "g_access (make_gdt_entry base limit access flags) = access" by (simp add: make_gdt_entry_def)
  then show ?thesis
    using True by (simp add: gdt_set_entry_def segment_base_entry segment_limit_entry segment_flags_entry)
qed (simp add: gdt_set_entry_def)

text \<open>A machine with empty tables, for the witnesses.\<close>

definition blank_cpu :: cpu where
  "blank_cpu = pmm.extend big_pmm \<lparr>io_events = [], device = (\<lambda>h p. 0), interrupt_flag = False,
     gdt_entries = replicate 6 (make_gdt_entry 0 0 0 0), gdt_ptr = (0, 0), tss = zero_tss, task_register = 0,
     gdtr = (0, 0), idt_entries = replicate 256 (make_idt_entry 0 0 0), idt_entry_ptr = (0, 0), idtr = (0, 0)\<rparr>"

theorem descriptor_decodes_witness:
  "\<exists>s'. gdt_set_entry 2 0x12345678 0xABCDE 0x9A 0xC0 blank_cpu = Ok () s'
     \<and> segment_base (gdt_entries s' ! 2) = 0x12345678 \<and> segment_limit (gdt_entries s' ! 2) = 0xABCDE"
proof -
  have "length (gdt_entries blank_cpu) = 6" by (simp add: blank_cpu_def pmm.defs)
  then show ?thesis
    using descriptor_decodes[where num = 2 and s = blank_cpu and base = "0x12345678" and limit = "0xABCDE"
        and access = "0x9A" and flags = "0xC0"] by auto
qed

text \<open>\<open>gdt_init\<close> builds flat 4 GiB code and data segments for kernel and user mode with the access
  bytes its comments give, and loads the table and the task register. The limit of the TSS descriptor is
  the low 20 bits of the address behind the TSS.\<close>

theorem flat_segments:
  assumes "length (gdt_entries s) = 6"
  shows "\<exists>s'. gdt_init gdt_addr tss_addr s = Ok () s'
    \<and> map g_access (gdt_entries s') = [0, 0x9A, 0x92, 0xFA, 0xF2, 0xE9]
    \<and> map segment_base (gdt_entries s') = [0, 0, 0, 0, 0, tss_addr]
    \<and> map segment_limit (gdt_entries s') = [0, 0xFFFFF, 0xFFFFF, 0xFFFFF, 0xFFFFF, (tss_addr + 108) AND 0xFFFFF]
    \<and> map segment_flags (gdt_entries s') = [0, 0xC0, 0xC0, 0xC0, 0xC0, 0]
    \<and> gdtr s' = (47, gdt_addr) \<and> task_register s' = 0x2B"
proof -
  have acc: "g_access (make_gdt_entry b l a f) = a" for b l a f by (simp add: make_gdt_entry_def)
  from gdt_init_entries[OF assms, of gdt_addr tss_addr] obtain s' where
    s': "gdt_init gdt_addr tss_addr s = Ok () s'" "gdtr s' = (47, gdt_addr)" "task_register s' = 0x2B"
    and e: "gdt_entries s' = [make_gdt_entry 0 0 0 0, make_gdt_entry 0 0xFFFFFFFF GDT_ACCESS_KERNEL_CODE GDT_SEG_FLAGS,
        make_gdt_entry 0 0xFFFFFFFF GDT_ACCESS_KERNEL_DATA GDT_SEG_FLAGS, make_gdt_entry 0 0xFFFFFFFF GDT_ACCESS_USER_CODE GDT_SEG_FLAGS,
        make_gdt_entry 0 0xFFFFFFFF GDT_ACCESS_USER_DATA GDT_SEG_FLAGS, make_gdt_entry tss_addr (tss_addr + 108) GDT_TSS_ACCESS 0]"
    by blast
  have "map g_access (gdt_entries s') = [0, 0x9A, 0x92, 0xFA, 0xF2, 0xE9]"
    unfolding e by (simp add: acc gdt_access_defs)
  moreover have "map segment_flags (gdt_entries s') = [0, 0xC0, 0xC0, 0xC0, 0xC0, 0]"
    unfolding e by (simp add: segment_flags_entry gdt_access_defs)
  moreover have "map segment_base (gdt_entries s') = [0, 0, 0, 0, 0, tss_addr]"
    "map segment_limit (gdt_entries s') = [0, 0xFFFFF, 0xFFFFF, 0xFFFFF, 0xFFFFF, (tss_addr + 108) AND 0xFFFFF]"
    unfolding e by (simp_all add: segment_base_entry segment_limit_entry)
  ultimately show ?thesis using s'(2,3) by (intro exI[of _ s'] conjI s'(1)) assumption+
qed

theorem flat_segments_witness:
  "\<exists>s'. gdt_init 0xC0106000 0xC0107100 blank_cpu = Ok () s' \<and> segment_limit (gdt_entries s' ! 5) = 0x0716C"
proof -
  have "length (gdt_entries blank_cpu) = 6" by (simp add: blank_cpu_def pmm.defs)
  from flat_segments[OF this, of "0xC0106000" "0xC0107100"] obtain s' where
    s': "gdt_init 0xC0106000 0xC0107100 blank_cpu = Ok () s'"
    and l: "map segment_limit (gdt_entries s') = [0, 0xFFFFF, 0xFFFFF, 0xFFFFF, 0xFFFFF, (0xC0107100 + 108) AND 0xFFFFF]"
    by (elim exE conjE) (rule that)
  have "length (gdt_entries s') = 6" using arg_cong[OF l, of length] by simp
  then have "segment_limit (gdt_entries s' ! 5) = map segment_limit (gdt_entries s') ! 5" by simp
  also have "\<dots> = 0x0716C" unfolding l by simp
  finally show ?thesis using s' by blast
qed

end
