(* ===== verification/Isr.thy ===== *)
theory Isr
  imports Cpu
begin

unbundle bit_operations_syntax

text \<open>
  \<open>kernel/src/cpu/isr.c\<close>: the gates of the processor's exceptions and of the system call, and the
  dispatch to the handlers that are registered for them. A handler is named by the function it is;
  the dispatch calls it through \<open>call\<close>, the meaning of the function pointers, which is an argument
  because the handlers live in components behind this one.
\<close>

section \<open>State\<close>

record registers =
  r_gs :: u32
  r_fs :: u32
  r_es :: u32
  r_ds :: u32
  r_edi :: u32
  r_esi :: u32
  r_ebp :: u32
  r_kernel_esp :: u32
  r_ebx :: u32
  r_edx :: u32
  r_ecx :: u32
  r_eax :: u32
  r_int_no :: u32
  r_err_code :: u32
  r_eip :: u32
  r_cs :: u32
  r_eflags :: u32
  r_esp :: u32
  r_ss :: u32

text \<open>The functions whose address the kernel registers.\<close>

datatype handler =
    Paging_fault_handler | Syscall_handler | Timer_callback | Keyboard_handler | Proc_timer_callback

record isr = cpu +
  isr_handlers :: "handler option list"

section \<open>Operations\<close>

definition exception_msgs :: "string list" where
  "exception_msgs =
     [''Division By Zero'', ''Debugger'', ''Non-Maskable Interrupt'', ''Breakpoint'', ''Overflow'',
      ''Bounds'', ''Invalid Opcode'', ''Coprocessor Not Available'', ''Double fault'',
      ''Coprocessor Segment Overrun'', ''Invalid Task State Segment'', ''Segment Not Present'',
      ''Stack Fault'', ''General Protection Fault'', ''Page Fault'', ''Reserved'', ''Math Fault'',
      ''Alignement Check'', ''Machine Check'', ''SIMD Floating-Point Exception'',
      ''Virtualization Exception'', ''Control Protection Exception'',
      ''Reserved'', ''Reserved'', ''Reserved'', ''Reserved'', ''Reserved'', ''Reserved'',
      ''Reserved'', ''Reserved'', ''Reserved'', ''Reserved'']"

text \<open>The last message has five conversions and four arguments.\<close>

definition print_registers :: "registers \<Rightarrow> ('s isr_scheme, unit) action" where
  "print_registers reg =
     before (kprintf ''REGISTERS:\<newline>'' [])
    (before (kprintf ''err_code=%d\<newline>'' [Num (r_err_code reg)])
    (before (kprintf ''eax=0x%x, ebx=0x%x, ecx=0x%x, edx=0x%x\<newline>''
               [Num (r_eax reg), Num (r_ebx reg), Num (r_ecx reg), Num (r_edx reg)])
    (before (kprintf ''edi=0x%x, esi=0x%x, ebp=0x%x, kernel_esp=0x%x\<newline>''
               [Num (r_edi reg), Num (r_esi reg), Num (r_ebp reg), Num (r_kernel_esp reg)])
            (kprintf ''eip=0x%x, cs=0x%x, ss=0x%x, eflags=0x%x, esp=0x%x\<newline>''
               [Num (r_eip reg), Num (r_ss reg), Num (r_eflags reg), Num (r_esp reg)]))))"

text \<open>The entry points of \<open>isr.S\<close> are the linker's: \<open>isr_stub n\<close> is the address of \<open>isr\<close> n.\<close>

definition isr_init :: "(nat \<Rightarrow> u32) \<Rightarrow> ('s isr_scheme, unit) action" where
  "isr_init isr_stub =
     before (foreach [0..<32] (\<lambda>n. idt_set_entry (of_nat n) (isr_stub n) (ucast GDT_SELECTOR_KERNEL_CODE) IDT_INT_KERNEL))
       (idt_set_entry 48 (isr_stub 48) (ucast GDT_SELECTOR_KERNEL_CODE) IDT_INT_USER)"

definition isr_handler ::
    "(handler \<Rightarrow> registers \<Rightarrow> ('s isr_scheme, unit) action) \<Rightarrow> registers \<Rightarrow> ('s isr_scheme, unit) action" where
  "isr_handler call regs =
     before (kassert ''src/cpu/isr.c'' 109 ''isr_handler'' ''regs->int_no < 256'' (unat (r_int_no regs) < ISR_COUNT))
       (andthen (asks (\<lambda>s. isr_handlers s ! unat (r_int_no regs))) (\<lambda>h. case h of
          Some handler \<Rightarrow> call handler regs
        | None \<Rightarrow>
            before (kprintf ''[ISR] Unhandled %s %d: %s\<newline>''
                      [Str (Some (if r_int_no regs < 32 then ''exception'' else ''interrupt'')), Num (r_int_no regs),
                       Str (Some (if r_int_no regs < 32 then exception_msgs ! unat (r_int_no regs) else ''Unknown''))])
           (before (print_registers regs) kabort)))"

text \<open>The message of a handler that is registered already reads \<open>exception_msgs[num]\<close>.\<close>

definition isr_register_handler :: "u32 \<Rightarrow> handler \<Rightarrow> ('s isr_scheme, unit) action" where
  "isr_register_handler num handler =
     before (kassert ''src/cpu/isr.c'' 128 ''isr_register_handler'' ''num < 256'' (unat num < ISR_COUNT))
       (andthen (asks (\<lambda>s. isr_handlers s ! unat num)) (\<lambda>h. case h of
          Some _ \<Rightarrow>
            (if unat num < length exception_msgs
             then kprintf ''[ISR] Interrupt handler %d already registered\<newline>''
                    [Num num, Str (Some (exception_msgs ! unat num))]
             else stuck OutOfBounds)
        | None \<Rightarrow> change (\<lambda>s. s\<lparr>isr_handlers := (isr_handlers s)[unat num := Some handler]\<rparr>)))"

section \<open>Tables of handlers\<close>

text \<open>
  What a table of handlers promises to those who register: a free slot takes the handler, a taken
  one keeps its own and only a message is printed. So of several registrations the first wins.
\<close>

locale handler_table =
  fixes lookup :: "'s \<Rightarrow> nat \<Rightarrow> handler option"
    and register :: "nat \<Rightarrow> handler \<Rightarrow> ('s, unit) action"
    and ready :: "'s \<Rightarrow> bool"
    and slots :: "nat set"
  assumes register_free: "ready s \<Longrightarrow> n \<in> slots \<Longrightarrow> lookup s n = None \<Longrightarrow>
      wp (register n h) (\<lambda>_ s'. ready s' \<and> (\<forall>m \<in> slots. lookup s' m = (if m = n then Some h else lookup s m))) s"
    and register_taken: "ready s \<Longrightarrow> n \<in> slots \<Longrightarrow> lookup s n = Some g \<Longrightarrow>
      wp (register n h) (\<lambda>_ s'. ready s' \<and> (\<forall>m \<in> slots. lookup s' m = lookup s m)) s"
begin

lemma register_one:
  assumes "ready s" "n \<in> slots"
  shows "wp (register n h) (\<lambda>_ s'. ready s' \<and> (\<forall>m \<in> slots. lookup s' m =
    (case lookup s m of Some g \<Rightarrow> Some g | None \<Rightarrow> if m = n then Some h else None))) s"
proof (cases "lookup s n")
  case None
  then show ?thesis using register_free[OF assms None, of h] by (auto elim!: wp_mono split: option.splits)
next
  case (Some g)
  then show ?thesis using register_taken[OF assms Some, of h] by (auto elim!: wp_mono split: option.splits)
qed

lemma register_all:
  "ready s \<Longrightarrow> \<forall>(n, h) \<in> set rs. n \<in> slots \<Longrightarrow>
   wp (foreach rs (\<lambda>(n, h). register n h))
     (\<lambda>_ s'. ready s' \<and> (\<forall>m \<in> slots. lookup s' m = (case lookup s m of Some g \<Rightarrow> Some g | None \<Rightarrow> map_of rs m))) s"
proof (induction rs arbitrary: s)
  case Nil
  then show ?case by (simp add: wp_simps split: option.splits)
next
  case (Cons r rs)
  obtain n h where r: "r = (n, h)" by (cases r)
  then have "n \<in> slots" using Cons.prems by simp
  from register_one[OF Cons.prems(1) this, of h] obtain s1 where s1: "register n h s = Ok () s1" "ready s1"
    "\<forall>m \<in> slots. lookup s1 m = (case lookup s m of Some g \<Rightarrow> Some g | None \<Rightarrow> if m = n then Some h else None)"
    using wp_OkD by force
  have "wp (foreach rs (\<lambda>(n, h). register n h)) (\<lambda>_ s'. ready s' \<and>
      (\<forall>m \<in> slots. lookup s' m = (case lookup s1 m of Some g \<Rightarrow> Some g | None \<Rightarrow> map_of rs m))) s1"
    using Cons s1(2) by simp
  then have "wp (foreach rs (\<lambda>(n, h). register n h)) (\<lambda>_ s'. ready s' \<and>
      (\<forall>m \<in> slots. lookup s' m = (case lookup s m of Some g \<Rightarrow> Some g | None \<Rightarrow> map_of (r # rs) m))) s1"
    using s1(3) r by (auto elim!: wp_mono split: option.splits)
  then show ?case using r s1(1) by (simp add: wp_def)
qed

end

definition isr_ready :: "'s isr_scheme \<Rightarrow> bool" where
  "isr_ready s \<longleftrightarrow> quiet (con s) \<and> length (isr_handlers s) = 256"

lemma exception_msgs_plain: "n < 32 \<Longrightarrow> list_all plain (exception_msgs ! n)"
proof -
  have "list_all (list_all plain) exception_msgs" by (simp add: exception_msgs_def plain_def)
  moreover have "length exception_msgs = 32" by (simp add: exception_msgs_def)
  moreover assume "n < 32"
  ultimately show ?thesis by (simp add: list_all_length)
qed

lemma length_exception_msgs: "length exception_msgs = 32"
  by (simp add: exception_msgs_def)

lemma isr_register_free:
  assumes "n < 256" "isr_handlers s ! n = None"
  shows "isr_register_handler (of_nat n) h s = Ok () (s\<lparr>isr_handlers := (isr_handlers s)[n := Some h]\<rparr>)"
proof -
  have "unat (of_nat n :: u32) = n" using assms(1) by (simp add: unat_of_nat)
  then show ?thesis using assms by (simp add: isr_register_handler_def ISR_COUNT_def)
qed

lemma isr_register_taken:
  assumes "n < 32" "isr_handlers s ! n = Some g" "quiet (con s)"
  obtains t where "isr_register_handler (of_nat n) h s = Ok () (s\<lparr>con := t\<rparr>)" "quiet t"
proof -
  have n: "unat (of_nat n :: u32) = n" using assms(1) by (simp add: unat_of_nat)
  let ?fmt = "''[ISR] Interrupt handler %d already registered\<newline>''"
  let ?args = "[Num (of_nat n), Str (Some (exception_msgs ! n))]"
  have "format_text ?fmt ?args \<noteq> None" "format_modes resting ?fmt = Some resting" "list_all plain_arg ?args"
    using exception_msgs_plain[OF assms(1)] by (simp_all add: format_eval)
  from kprintf_returns[OF this assms(3)] obtain t where
    "kprintf ?fmt ?args s = Ok () (s\<lparr>con := t\<rparr>)" "quiet t" .
  then show ?thesis
    using that n assms by (simp add: isr_register_handler_def ISR_COUNT_def length_exception_msgs)
qed

interpretation exceptions: handler_table "\<lambda>s. (!) (isr_handlers s)"
  "\<lambda>n. isr_register_handler (of_nat n)" isr_ready "{..<32}"
proof unfold_locales
  fix s :: "'a isr_scheme" and n h
  assume "isr_ready s" "n \<in> {..<32}" "isr_handlers s ! n = None"
  then show "wp (isr_register_handler (of_nat n) h) (\<lambda>_ s'. isr_ready s' \<and>
      (\<forall>m \<in> {..<32}. isr_handlers s' ! m = (if m = n then Some h else isr_handlers s ! m))) s"
    using isr_register_free[of n s h] by (simp add: wp_def isr_ready_def)
next
  fix s :: "'a isr_scheme" and n g h
  assume r: "isr_ready s" "n \<in> {..<32}" "isr_handlers s ! n = Some g"
  then have q: "n < 32" "quiet (con s)" by (simp_all add: isr_ready_def)
  from isr_register_taken[OF q(1) r(3) q(2)] obtain t where
    "isr_register_handler (of_nat n) h s = Ok () (s\<lparr>con := t\<rparr>)" "quiet t" .
  then show "wp (isr_register_handler (of_nat n) h) (\<lambda>_ s'. isr_ready s' \<and>
      (\<forall>m \<in> {..<32}. isr_handlers s' ! m = isr_handlers s ! m)) s"
    using r(1) by (simp add: wp_def isr_ready_def)
qed

section \<open>The register dump\<close>

text \<open>The dump fails in its last message, and everything that prints and then dumps fails with it.\<close>

lemma print_registers_undefined: "\<exists>f. print_registers regs s = Undefined f"
proof -
  let ?fmt = "''eip=0x%x, cs=0x%x, ss=0x%x, eflags=0x%x, esp=0x%x\<newline>''"
  let ?args = "[Num (r_eip regs), Num (r_ss regs), Num (r_eflags regs), Num (r_esp regs)]"
  have "\<exists>f. kprintf ?fmt ?args t = Undefined f" for t :: "'a isr_scheme"
    by (rule kprintf_undefined[of ?fmt ?args t]) (auto simp: format_eval)
  then show ?thesis unfolding print_registers_def by (intro kprintf_then_undefined) blast
qed

lemma dump_undefined: "\<exists>f. before (kprintf fmt args) (before (print_registers regs) kabort) s = Undefined f"
  by (rule kprintf_then_undefined) (metis before_Undefined print_registers_undefined)

section \<open>Properties\<close>

text \<open>Of any number of handlers registered for exceptions the first one of each number stays; later
  ones are refused with a message, and a handler that was there before stays as well.\<close>

theorem first_exception_handler_wins:
  assumes "quiet (con s)" "length (isr_handlers s) = 256" "\<forall>(n, h) \<in> set rs. n < 32"
  shows "\<exists>s'. foreach rs (\<lambda>(n, h). isr_register_handler (of_nat n) h) s = Ok () s'
    \<and> (\<forall>n < 32. isr_handlers s' ! n =
          (case isr_handlers s ! n of Some g \<Rightarrow> Some g | None \<Rightarrow> map_of rs n))"
proof -
  have "isr_ready s" using assms by (simp add: isr_ready_def)
  moreover have "\<forall>(n, h) \<in> set rs. n \<in> {..<32}" using assms(3) by auto
  ultimately have "wp (foreach rs (\<lambda>(n, h). isr_register_handler (of_nat n) h)) (\<lambda>_ s'. isr_ready s' \<and>
      (\<forall>m \<in> {..<32}. isr_handlers s' ! m = (case isr_handlers s ! m of Some g \<Rightarrow> Some g | None \<Rightarrow> map_of rs m))) s"
    by (rule exceptions.register_all)
  from wp_OkD[OF this] show ?thesis by fastforce
qed

definition blank_isr :: isr where
  "blank_isr = cpu.extend blank_cpu \<lparr>isr_handlers = replicate 256 None\<rparr>"

lemma blank_isr_simps: "quiet (con blank_isr)" "length (isr_handlers blank_isr) = 256"
  "n < 256 \<Longrightarrow> isr_handlers blank_isr ! n = None"
  using blank_wf
  by (simp_all add: blank_isr_def cpu.defs blank_cpu_def pmm.defs big_pmm_def in_mode_def)
    (simp add: blank_tty_def)

theorem first_exception_handler_wins_witness:
  "\<exists>s'. foreach [(14, Paging_fault_handler), (14, Timer_callback)] (\<lambda>(n, h). isr_register_handler (of_nat n) h) blank_isr = Ok () s'
     \<and> isr_handlers s' ! 14 = Some Paging_fault_handler"
proof -
  obtain s' where s': "foreach [(14, Paging_fault_handler), (14, Timer_callback)] (\<lambda>(n, h). isr_register_handler (of_nat n) h) blank_isr = Ok () s'"
    "\<forall>n < 32. isr_handlers s' ! n = (case isr_handlers blank_isr ! n of Some g \<Rightarrow> Some g
       | None \<Rightarrow> map_of [(14, Paging_fault_handler), (14, Timer_callback)] n)"
    using first_exception_handler_wins[of blank_isr "[(14, Paging_fault_handler), (14, Timer_callback)]"] blank_isr_simps
    by auto
  then show ?thesis using blank_isr_simps(3)[of 14] by (auto dest: spec[of _ 14])
qed

text \<open>C32: what \<open>isr_handler\<close> does with an interrupt: a number outside the table fails the assertion and
  aborts, a registered handler is called with the registers, and an interrupt nobody handles ends in
  undefined behaviour, because the register dump has a conversion without an argument.\<close>

theorem interrupt_dispatch:
  fixes s :: "'s isr_scheme"
  assumes "quiet (con s)"
  shows "if 256 \<le> unat (r_int_no regs) then \<exists>t. isr_handler call regs s = Exit Abort (s\<lparr>con := t\<rparr>)
    else (case isr_handlers s ! unat (r_int_no regs) of
            Some h \<Rightarrow> isr_handler call regs s = call h regs s
          | None \<Rightarrow> \<exists>f. isr_handler call regs s = Undefined f)"
proof (cases "256 \<le> unat (r_int_no regs)")
  case True
  let ?a = "kassert ''src/cpu/isr.c'' 109 ''isr_handler'' ''regs->int_no < 256'' False"
  have "list_all plain ''src/cpu/isr.c''" "list_all plain ''isr_handler''" "list_all plain ''regs->int_no < 256''"
    by (simp_all add: plain_def)
  from kassert_fails[OF assms this, of 109] obtain t where "?a s = Exit Abort (s\<lparr>con := t\<rparr>)" .
  moreover have "(unat (r_int_no regs) < ISR_COUNT) = False" using True by (simp add: ISR_COUNT_def)
  ultimately show ?thesis using True by (auto simp: isr_handler_def)
next
  case False
  then have n: "(unat (r_int_no regs) < ISR_COUNT) = True" by (simp add: ISR_COUNT_def)
  show ?thesis
  proof (cases "isr_handlers s ! unat (r_int_no regs)")
    case (Some h)
    then show ?thesis using False n by (simp add: isr_handler_def)
  next
    case None
    then show ?thesis using False n dump_undefined by (auto simp: isr_handler_def)
  qed
qed

text \<open>An alignment check that no handler is registered for.\<close>

theorem interrupt_dispatch_witness:
  "\<exists>f. isr_handler (\<lambda>h r. ret ()) \<lparr>r_gs = 0, r_fs = 0, r_es = 0, r_ds = 0, r_edi = 0, r_esi = 0, r_ebp = 0,
     r_kernel_esp = 0, r_ebx = 0, r_edx = 0, r_ecx = 0, r_eax = 0, r_int_no = 17, r_err_code = 0, r_eip = 0,
     r_cs = 8, r_eflags = 2, r_esp = 0, r_ss = 0\<rparr> blank_isr = Undefined f"
  using interrupt_dispatch[OF blank_isr_simps(1), of "\<lparr>r_gs = 0, r_fs = 0, r_es = 0, r_ds = 0, r_edi = 0, r_esi = 0,
     r_ebp = 0, r_kernel_esp = 0, r_ebx = 0, r_edx = 0, r_ecx = 0, r_eax = 0, r_int_no = 17, r_err_code = 0, r_eip = 0,
     r_cs = 8, r_eflags = 2, r_esp = 0, r_ss = 0\<rparr>" "\<lambda>h r. ret ()"] blank_isr_simps(3)[of 17]
  by simp

end
