(* ===== verification/Irq.thy ===== *)
theory Irq
  imports Isr
begin

unbundle bit_operations_syntax

text \<open>
  \<open>kernel/src/cpu/irq.c\<close> with \<open>irq.h\<close>: the two cascaded interrupt controllers (PICs), their masks,
  and the dispatch of hardware interrupts.
\<close>

section \<open>State\<close>

record irq = isr +
  irq_handlers :: "handler option list"

definition PIC1_CMD :: u16 where "PIC1_CMD = 0x20"
definition PIC1_DATA :: u16 where "PIC1_DATA = 0x20 + 1"
definition PIC2_CMD :: u16 where "PIC2_CMD = 0xA0"
definition PIC2_DATA :: u16 where "PIC2_DATA = 0xA0 + 1"
definition PIC_EOI :: u8 where "PIC_EOI = 0x20"
definition PIC_ISR :: u8 where "PIC_ISR = 0x0B"

lemmas pic_defs = PIC1_CMD_def PIC1_DATA_def PIC2_CMD_def PIC2_DATA_def PIC_EOI_def PIC_ISR_def

definition IRQ0 :: u32 where "IRQ0 = 32"
definition IRQ7 :: u32 where "IRQ7 = 39"
definition IRQ8 :: u32 where "IRQ8 = 40"
definition IRQ15 :: u32 where "IRQ15 = 47"

lemmas irq_defs = IRQ0_def IRQ7_def IRQ8_def IRQ15_def

section \<open>Operations\<close>

definition irq_send_eoi :: "u32 \<Rightarrow> ('s irq_scheme, unit) action" where
  "irq_send_eoi irq =
     before (if irq > IRQ7 then outportb PIC2_CMD PIC_EOI else ret ()) (outportb PIC1_CMD PIC_EOI)"

text \<open>C leaves the order of the two reads open; they are taken from left to right.\<close>

definition irq_get_isr :: "('s irq_scheme, u16) action" where
  "irq_get_isr =
     before (outportb PIC1_CMD PIC_ISR)
    (before (outportb PIC2_CMD PIC_ISR)
    (andthen (inportb PIC2_CMD) (\<lambda>high.
     andthen (inportb PIC1_CMD) (\<lambda>low.
     ret (ucast (push_bit 8 (ucast high :: u32) OR ucast low))))))"

definition irq_remap :: "u8 \<Rightarrow> u8 \<Rightarrow> ('s irq_scheme, unit) action" where
  "irq_remap offset1 offset2 =
     andthen (inportb PIC1_DATA) (\<lambda>a1.
     andthen (inportb PIC2_DATA) (\<lambda>a2.
     before (outportb PIC1_CMD (0x10 OR 0x01)) (before io_wait
    (before (outportb PIC2_CMD (0x10 OR 0x01)) (before io_wait
    (before (outportb PIC1_DATA offset1) (before io_wait
    (before (outportb PIC2_DATA offset2) (before io_wait
    (before (outportb PIC1_DATA 4) (before io_wait
    (before (outportb PIC2_DATA 2) (before io_wait
    (before (outportb PIC1_DATA 0x01) (before io_wait
    (before (outportb PIC2_DATA 0x01) (before io_wait
    (before (outportb PIC1_DATA a1) (outportb PIC2_DATA a2)))))))))))))))))))"

text \<open>The entry points of \<open>irq.S\<close> are the linker's: \<open>irq_stub n\<close> is the address of \<open>irq\<close> n.\<close>

definition irq_init :: "(nat \<Rightarrow> u32) \<Rightarrow> ('s irq_scheme, unit) action" where
  "irq_init irq_stub =
     before (irq_remap (ucast IRQ0) (ucast IRQ8))
    (before (foreach [0..<16] (\<lambda>n. idt_set_entry (ucast (IRQ0 + of_nat n)) (irq_stub n)
               (ucast GDT_SELECTOR_KERNEL_CODE) IDT_INT_KERNEL))
            STI)"

text \<open>The test for a spurious interrupt: \<open>True\<close> when the handler returns early.\<close>

definition irq_spurious :: "u32 \<Rightarrow> ('s irq_scheme, bool) action" where
  "irq_spurious irq =
     (if irq = IRQ7 \<or> irq = IRQ15 then
        andthen irq_get_isr (\<lambda>active_irq_mask.
        let current_irq_mask = ucast (push_bit (unat (irq - IRQ0)) (1 :: u32)) :: u8
        in if active_irq_mask AND ucast current_irq_mask = 0
           then before (if irq = IRQ15 then outportb PIC1_CMD PIC_EOI else ret ())
                  (before STI (ret True))
           else ret False)
      else ret False)"

definition irq_handler ::
    "(handler \<Rightarrow> registers \<Rightarrow> ('s irq_scheme, unit) action) \<Rightarrow> registers \<Rightarrow> ('s irq_scheme, unit) action" where
  "irq_handler call regs =
     (let irq = r_int_no regs
      in andthen (irq_spurious irq) (\<lambda>spurious.
         if spurious then ret ()
         else before (irq_send_eoi irq)
                (if unat (irq - IRQ0) < 16 then
                   andthen (asks (\<lambda>s. irq_handlers s ! unat (irq - IRQ0))) (\<lambda>h.
                   before (case h of
                             Some handler \<Rightarrow> call handler regs
                           | None \<Rightarrow> kprintf ''[IRQ] Unhandled IRQ%d\<newline>'' [Num (irq - IRQ0)])
                     STI)
                 else stuck OutOfBounds)))"

definition irq_register_handler :: "u8 \<Rightarrow> handler \<Rightarrow> ('s irq_scheme, unit) action" where
  "irq_register_handler irq handler =
     before (kassert ''src/cpu/irq.c'' 82 ''irq_register_handler'' ''irq >= 32 && irq <= 47''
               (ucast irq \<ge> IRQ0 \<and> ucast irq \<le> IRQ15))
       (andthen (asks (\<lambda>s. irq_handlers s ! unat (ucast irq - IRQ0))) (\<lambda>h. case h of
          None \<Rightarrow> change (\<lambda>s. s\<lparr>irq_handlers := (irq_handlers s)[unat (ucast irq - IRQ0) := Some handler]\<rparr>)
        | Some _ \<Rightarrow> kprintf ''IRQ %d already registered\<newline>'' [Num (ucast irq)]))"

definition irq_getmask :: "u16 \<Rightarrow> ('s irq_scheme, u8) action" where
  "irq_getmask pic = inportb pic"

definition irq_setmask :: "u16 \<Rightarrow> u8 \<Rightarrow> ('s irq_scheme, unit) action" where
  "irq_setmask pic msk = outportb pic msk"

text \<open>The controller and the line on it of an interrupt number.\<close>

definition pic_line :: "u8 \<Rightarrow> u16 \<times> u8" where
  "pic_line irq = (if irq < 8 then (PIC1_DATA, irq) else (PIC2_DATA, irq - 8))"

text \<open>\<open>1 << n\<close> of an \<open>int\<close>, which is undefined from 32 on.\<close>

definition shift_one :: "u8 \<Rightarrow> ('s, u32) action" where
  "shift_one n = (if unat n < 32 then ret (push_bit (unat n) 1) else stuck BadShift)"

definition irq_mask :: "u8 \<Rightarrow> ('s irq_scheme, unit) action" where
  "irq_mask irq =
     (let (pic, line) = pic_line irq
      in andthen (irq_getmask pic) (\<lambda>msk.
         andthen (shift_one line) (\<lambda>b.
         irq_setmask pic (ucast (ucast msk OR b)))))"

text \<open>The bit that is cleared is \<open>1 << mask\<close>, not \<open>1 << irq\<close>.\<close>

definition irq_unmask :: "u8 \<Rightarrow> ('s irq_scheme, unit) action" where
  "irq_unmask irq =
     (let (pic, line) = pic_line irq
      in andthen (irq_getmask pic) (\<lambda>msk.
         andthen (shift_one msk) (\<lambda>b.
         irq_setmask pic (ucast (ucast msk AND NOT b)))))"

section \<open>Registration\<close>

definition irq_ready :: "'s irq_scheme \<Rightarrow> bool" where
  "irq_ready s \<longleftrightarrow> quiet (con s) \<and> length (irq_handlers s) = 16"

lemma irq_number:
  assumes "n < 16"
  shows "unat (ucast (of_nat (32 + n) :: u8) - IRQ0) = n"
    "IRQ0 \<le> ucast (of_nat (32 + n) :: u8)" "ucast (of_nat (32 + n) :: u8) \<le> IRQ15"
proof -
  have "n \<in> set [0..<16]" using assms by simp
  then have "unat (ucast (of_nat (32 + n) :: u8) - IRQ0) = n \<and> IRQ0 \<le> ucast (of_nat (32 + n) :: u8)
      \<and> ucast (of_nat (32 + n) :: u8) \<le> IRQ15"
    by (auto simp: irq_defs upt_rec)
  then show "unat (ucast (of_nat (32 + n) :: u8) - IRQ0) = n"
    "IRQ0 \<le> ucast (of_nat (32 + n) :: u8)" "ucast (of_nat (32 + n) :: u8) \<le> IRQ15" by blast+
qed

lemma irq_register_free:
  assumes "n < 16" "irq_handlers s ! n = None"
  shows "irq_register_handler (of_nat (32 + n)) h s = Ok () (s\<lparr>irq_handlers := (irq_handlers s)[n := Some h]\<rparr>)"
  using assms irq_number[OF assms(1)] by (simp add: irq_register_handler_def del: of_nat_add)

lemma irq_register_taken:
  assumes "n < 16" "irq_handlers s ! n = Some g" "quiet (con s)"
  obtains t where "irq_register_handler (of_nat (32 + n)) h s = Ok () (s\<lparr>con := t\<rparr>)" "quiet t"
proof -
  let ?fmt = "''IRQ %d already registered\<newline>''"
  let ?args = "[Num (ucast (of_nat (32 + n) :: u8))]"
  have "format_text ?fmt ?args \<noteq> None" "format_modes resting ?fmt = Some resting" "list_all plain_arg ?args"
    by (simp_all add: format_eval)
  from kprintf_returns[OF this assms(3)] obtain t where
    "kprintf ?fmt ?args s = Ok () (s\<lparr>con := t\<rparr>)" "quiet t" .
  then show ?thesis
    using that assms irq_number[OF assms(1)] by (simp add: irq_register_handler_def del: of_nat_add)
qed

interpretation lines: handler_table "\<lambda>s. (!) (irq_handlers s)"
  "\<lambda>n. irq_register_handler (of_nat (32 + n))" irq_ready "{..<16}"
proof unfold_locales
  fix s :: "'a irq_scheme" and n h
  assume "irq_ready s" "n \<in> {..<16}" "irq_handlers s ! n = None"
  then show "wp (irq_register_handler (of_nat (32 + n)) h) (\<lambda>_ s'. irq_ready s' \<and>
      (\<forall>m \<in> {..<16}. irq_handlers s' ! m = (if m = n then Some h else irq_handlers s ! m))) s"
    using irq_register_free[of n s h] by (simp add: wp_def irq_ready_def del: of_nat_add)
next
  fix s :: "'a irq_scheme" and n g h
  assume r: "irq_ready s" "n \<in> {..<16}" "irq_handlers s ! n = Some g"
  then have q: "n < 16" "quiet (con s)" by (simp_all add: irq_ready_def)
  from irq_register_taken[OF q(1) r(3) q(2)] obtain t where
    "irq_register_handler (of_nat (32 + n)) h s = Ok () (s\<lparr>con := t\<rparr>)" "quiet t" .
  then show "wp (irq_register_handler (of_nat (32 + n)) h) (\<lambda>_ s'. irq_ready s' \<and>
      (\<forall>m \<in> {..<16}. irq_handlers s' ! m = irq_handlers s ! m)) s"
    using r(1) by (simp add: wp_def irq_ready_def)
qed

section \<open>Effects\<close>

lemmas port_effects = inportb_def outportb_def port_read_def port_write_def io_wait_def andthen_def before_def

lemma irq_remap_runs:
  obtains l where "irq_remap offset1 offset2 s = Ok () (s\<lparr>io_events := io_events s @ l\<rparr>)"
    "filter (\<lambda>e. e \<noteq> Out8 0x80 0) l = [In8 0x21, In8 0xA1, Out8 0x20 0x11, Out8 0xA0 0x11, Out8 0x21 offset1, Out8 0xA1 offset2,
       Out8 0x21 4, Out8 0xA1 2, Out8 0x21 1, Out8 0xA1 1,
       Out8 0x21 (ucast (device s (io_events s) 0x21)), Out8 0xA1 (ucast (device s (io_events s @ [In8 0x21]) 0xA1))]"
  by (rule that[of "[In8 0x21, In8 0xA1, Out8 0x20 0x11, Out8 0x80 0, Out8 0xA0 0x11, Out8 0x80 0, Out8 0x21 offset1, Out8 0x80 0,
       Out8 0xA1 offset2, Out8 0x80 0, Out8 0x21 4, Out8 0x80 0, Out8 0xA1 2, Out8 0x80 0, Out8 0x21 1, Out8 0x80 0,
       Out8 0xA1 1, Out8 0x80 0,
       Out8 0x21 (ucast (device s (io_events s) 0x21)), Out8 0xA1 (ucast (device s (io_events s @ [In8 0x21]) 0xA1))]"])
    (simp_all add: irq_remap_def port_effects pic_defs)

lemma gates_set:
  assumes "b + k \<le> 256" "length (idt_entries s) = 256" "\<And>n. n < k \<Longrightarrow> unat (num n) = b + n"
  obtains es where "foreach [0..<k] (\<lambda>n. idt_set_entry (num n) (base n) sel fl) s = Ok () (s\<lparr>idt_entries := es\<rparr>)"
    "length es = 256"
    "\<And>m. m < 256 \<Longrightarrow> es ! m = (if b \<le> m \<and> m < b + k then make_idt_entry (base (m - b)) sel fl else idt_entries s ! m)"
proof -
  let ?I = "\<lambda>j t. \<exists>es. t = s\<lparr>idt_entries := es\<rparr> \<and> length es = 256 \<and>
    (\<forall>m < 256. es ! m = (if b \<le> m \<and> m < b + j then make_idt_entry (base (m - b)) sel fl else idt_entries s ! m))"
  have "wp (foreach [0..<k] (\<lambda>n. idt_set_entry (num n) (base n) sel fl)) (\<lambda>_. ?I (length [0..<k])) s"
  proof (rule wp_foreach)
    show "?I 0 s" using assms(2) by (intro exI[of _ "idt_entries s"]) auto
  next
    fix j t assume j: "j < length [0..<k]" and "?I j t"
    then obtain es where es: "t = s\<lparr>idt_entries := es\<rparr>" "length es = 256"
      "\<forall>m < 256. es ! m = (if b \<le> m \<and> m < b + j then make_idt_entry (base (m - b)) sel fl else idt_entries s ! m)" by blast
    have "?I (Suc j) (s\<lparr>idt_entries := es[b + j := make_idt_entry (base j) sel fl]\<rparr>)"
      using es assms(1) j by (intro exI[of _ "es[b + j := make_idt_entry (base j) sel fl]"]) (auto simp: nth_list_update)
    then show "wp (idt_set_entry (num ([0..<k] ! j)) (base ([0..<k] ! j)) sel fl) (\<lambda>_. ?I (Suc j)) t"
      using j es(1) assms(3)[of j] by (simp add: idt_set_entry_def wp_simps)
  qed
  then show ?thesis by (elim wp_OkD[THEN exE]) (auto intro: that)
qed

lemma pic_line_number:
  assumes "n < 16"
  shows "pic_line (of_nat n) = (if n < 8 then 0x21 else 0xA1, of_nat (n mod 8))"
proof -
  have "n \<in> set [0..<16]" using assms by simp
  then show ?thesis by (auto simp: upt_rec pic_line_def pic_defs)
qed

lemma bit_128: "bit (0x80 :: int) k \<longleftrightarrow> k = 7"
proof -
  have "(0x80 :: int) = push_bit 7 1" by simp
  then show ?thesis by (simp only: bit_push_bit_iff bit_1_iff) auto
qed

text \<open>Bit 7 of the combined in-service register is the master's.\<close>

lemma query_bit:
  "(ucast (push_bit 8 (ucast (ucast high :: u8) :: u32) OR ucast (ucast low :: u8)) AND (0x80 :: u16) = 0)
   = (\<not> bit (low :: u32) 7)"
  by (subst bit_eq_iff) (auto simp: bit_128 bit_simps dest: spec[of _ 7])

section \<open>The gates after the initialisation\<close>

text \<open>
  The gates 0 to 31 lead to the exception stubs, 32 to 47 to the interrupt stubs and 48 to the system call
  stub; only the last can be called from user mode, its flags being 0xEE, no other gate is touched, and
  interrupts are enabled.
\<close>

lemma gates_init_runs:
  assumes "length (idt_entries s) = 256"
  obtains fs l where "before (isr_init isr_stub) (irq_init irq_stub) s
      = Ok () (s\<lparr>idt_entries := fs, io_events := io_events s @ l, interrupt_flag := True\<rparr>)"
    "length fs = 256"
    "\<forall>n < 256. fs ! n =
          (if n < 32 then make_idt_entry (isr_stub n) 8 0x8E
           else if n < 48 then make_idt_entry (irq_stub (n - 32)) 8 0x8E
           else if n = 48 then make_idt_entry (isr_stub 48) 8 0xEE
           else idt_entries s ! n)"
proof -
  have k: "ucast GDT_SELECTOR_KERNEL_CODE = (8 :: u16)" "IDT_INT_KERNEL = 0x8E" "IDT_INT_USER = 0xEE"
    by (simp_all add: GDT_SELECTOR_KERNEL_CODE_def IDT_INT_KERNEL_def IDT_INT_USER_def)
  have n: "n < 16 \<Longrightarrow> unat (ucast (IRQ0 + of_nat n) :: u8) = 32 + n" for n
  proof -
    assume "n < 16"
    then have "n \<in> set [0..<16]" by simp
    then show ?thesis by (auto simp: irq_defs upt_rec)
  qed
  obtain es where es: "foreach [0..<32] (\<lambda>n. idt_set_entry (of_nat n) (isr_stub n) 8 0x8E) s = Ok () (s\<lparr>idt_entries := es\<rparr>)"
    "length es = 256" "\<And>m. m < 256 \<Longrightarrow> es ! m = (if m < 32 then make_idt_entry (isr_stub m) 8 0x8E else idt_entries s ! m)"
    by (rule gates_set[of 0 32 s "\<lambda>n. of_nat n" isr_stub 8 "0x8E"]) (use assms in \<open>auto simp: unat_of_nat\<close>)
  let ?s1 = "s\<lparr>idt_entries := es[48 := make_idt_entry (isr_stub 48) 8 0xEE]\<rparr>"
  have 1: "isr_init isr_stub s = Ok () ?s1"
    using es(1) by (simp add: isr_init_def k idt_set_entry_def)
  obtain l where l: "irq_remap (ucast IRQ0) (ucast IRQ8) ?s1 = Ok () (?s1\<lparr>io_events := io_events ?s1 @ l\<rparr>)"
    by (rule irq_remap_runs)
  let ?s2 = "?s1\<lparr>io_events := io_events ?s1 @ l\<rparr>"
  obtain fs where fs: "foreach [0..<16] (\<lambda>n. idt_set_entry (ucast (IRQ0 + of_nat n)) (irq_stub n) 8 0x8E) ?s2 = Ok () (?s2\<lparr>idt_entries := fs\<rparr>)"
    "length fs = 256" "\<And>m. m < 256 \<Longrightarrow> fs ! m = (if 32 \<le> m \<and> m < 48 then make_idt_entry (irq_stub (m - 32)) 8 0x8E else idt_entries ?s2 ! m)"
    by (rule gates_set[of 32 16 ?s2 "\<lambda>n. ucast (IRQ0 + of_nat n)" irq_stub 8 "0x8E"]) (use es(2) n in auto)
  have "before (isr_init isr_stub) (irq_init irq_stub) s = Ok () (?s2\<lparr>idt_entries := fs, interrupt_flag := True\<rparr>)"
    using 1 l fs(1) by (simp add: irq_init_def k STI_def)
  then have "before (isr_init isr_stub) (irq_init irq_stub) s = Ok () (s\<lparr>idt_entries := fs, io_events := io_events s @ l, interrupt_flag := True\<rparr>)"
    by simp
  then show ?thesis using that[of l fs] fs(2,3) es(2,3) by (auto simp: nth_list_update)
qed

section \<open>Properties\<close>

text \<open>C31: how a hardware interrupt is dispatched. IRQ 15 is always taken for spurious, because its bit
  does not fit the 8-bit mask that is compared: the master controller gets its end of interrupt, the
  slave does not and no handler runs. IRQ 7 is spurious when the master does not report it in service
  and is then not acknowledged. Every other line is acknowledged (the slave first for lines 8 to 14)
  before its handler is called, and interrupts are enabled again after the handler returned.\<close>

theorem hardware_interrupt_dispatch:
  assumes "n < 16" "r_int_no regs = of_nat (32 + n)" "irq_handlers s ! n = Some h"
  shows "irq_handler call regs s =
    (if n = 15 then
       Ok () (s\<lparr>io_events := io_events s @ [Out8 0x20 0x0B, Out8 0xA0 0x0B, In8 0xA0, In8 0x20, Out8 0x20 0x20],
                interrupt_flag := True\<rparr>)
     else if n = 7 then
       (let query = [Out8 0x20 0x0B, Out8 0xA0 0x0B, In8 0xA0, In8 0x20]
        in if bit (device s (io_events s @ [Out8 0x20 0x0B, Out8 0xA0 0x0B, In8 0xA0]) 0x20) 7
           then before (call h regs) STI (s\<lparr>io_events := io_events s @ query @ [Out8 0x20 0x20]\<rparr>)
           else Ok () (s\<lparr>io_events := io_events s @ query, interrupt_flag := True\<rparr>))
     else before (call h regs) STI
            (s\<lparr>io_events := io_events s @ (if 8 \<le> n then [Out8 0xA0 0x20, Out8 0x20 0x20] else [Out8 0x20 0x20])\<rparr>))"
proof -
  have word: "ucast (of_nat (32 + k) :: u8) = (of_nat (32 + k) :: u32)" if "k < 16" for k :: nat
  proof -
    have "k \<in> set [0..<16]" using that by simp
    then show ?thesis by (auto simp: upt_rec)
  qed
  have line: "unat (of_nat (32 + n) - IRQ0) = n" using irq_number(1)[OF assms(1)] word[OF assms(1)] by simp
  have ack: "irq_send_eoi (of_nat (32 + n)) t = Ok () (t\<lparr>io_events := io_events t
      @ (if 8 \<le> n then [Out8 0xA0 0x20, Out8 0x20 0x20] else [Out8 0x20 0x20])\<rparr>)" for t :: "'a irq_scheme"
  proof -
    have "(of_nat (32 + n) > IRQ7) = (8 \<le> n)"
      using assms(1) by (simp add: irq_defs word_less_nat_alt unat_of_nat del: of_nat_add) arith
    then show ?thesis by (simp add: irq_send_eoi_def port_effects pic_defs)
  qed
  have run: "irq_handler call regs s =
      (case irq_spurious (of_nat (32 + n)) s of
         Ok b t \<Rightarrow> if b then Ok () t else before (irq_send_eoi (of_nat (32 + n)))
           (andthen (asks (\<lambda>s. irq_handlers s ! n)) (\<lambda>g. before (case g of Some f \<Rightarrow> call f regs
             | None \<Rightarrow> kprintf ''[IRQ] Unhandled IRQ%d\<newline>'' [Num (of_nat (32 + n) - IRQ0)]) STI)) t
       | Exit e t \<Rightarrow> Exit e t | Undefined f \<Rightarrow> Undefined f)"
    using assms(1) line by (simp add: irq_handler_def assms(2) andthen_def Let_def del: of_nat_add split: outcome.splits)
  consider "n = 15" | "n = 7" | "n \<noteq> 15" "n \<noteq> 7" by blast
  then show ?thesis
  proof cases
    case 1
    then show ?thesis
      by (simp add: run irq_spurious_def irq_get_isr_def port_effects pic_defs irq_defs STI_def)
  next
    case 2
    let ?low = "device s (io_events s @ [Out8 0x20 0x0B, Out8 0xA0 0x0B, In8 0xA0]) 0x20"
    let ?high = "device s (io_events s @ [Out8 0x20 0x0B, Out8 0xA0 0x0B]) 0xA0"
    have "(ucast (push_bit 8 (ucast (ucast ?high :: u8) :: u32) OR ucast (ucast ?low :: u8)) AND (0x80 :: u16) = 0)
        = (\<not> bit ?low 7)"
      by (rule query_bit)
    then show ?thesis using 2 ack assms(3)
      by (simp add: run irq_spurious_def irq_get_isr_def port_effects pic_defs irq_defs STI_def Let_def)
  next
    case 3
    then have "\<not> (of_nat (32 + n) = IRQ7 \<or> of_nat (32 + n) = IRQ15)"
      using line by (auto simp: irq_defs)
    then show ?thesis using 3 ack assms(3) by (simp add: run irq_spurious_def)
  qed
qed

text \<open>\<open>irq_mask\<close> reads the mask of the controller that has the line and writes it back with the bit
  of the line set and all others as they were.\<close>

theorem irq_mask_hides_the_line:
  assumes "n < 16"
  shows "let port = (if n < 8 then 0x21 else 0xA1); old = device s (io_events s) port
    in \<exists>v. irq_mask (of_nat n) s = Ok () (s\<lparr>io_events := io_events s @ [In8 port, Out8 port v]\<rparr>)
         \<and> (\<forall>k < 8. bit v k \<longleftrightarrow> bit old k \<or> k = n mod 8)"
proof -
  let ?port = "if n < 8 then 0x21 else 0xA1 :: u16"
  have "pic_line (of_nat n) = (?port, of_nat (n mod 8))" using pic_line_number[OF assms] .
  moreover have "n mod 8 < 32" "unat (of_nat (n mod 8) :: u8) = n mod 8"
    by (simp_all add: unat_of_nat mod_less order.strict_trans[OF mod_less_divisor])
  ultimately have "irq_mask (of_nat n) s = Ok () (s\<lparr>io_events := io_events s
      @ [In8 ?port, Out8 ?port (ucast (ucast (ucast (device s (io_events s) ?port) :: u8) OR push_bit (n mod 8) (1 :: u32)))]\<rparr>)"
    by (simp add: irq_mask_def irq_getmask_def irq_setmask_def shift_one_def port_effects)
  then show ?thesis unfolding Let_def
    by (intro exI conjI) (assumption, auto simp: bit_simps)
qed

text \<open>\<open>irq_unmask\<close> shifts by the mask it read instead of by the line: a mask of 32 or more makes the
  shift undefined, and otherwise the bit whose number is the mask is cleared, whatever the line. A mask
  from 8 to 31 is therefore written back unchanged.\<close>

theorem irq_unmask_shifts_by_mask:
  assumes "n < 16"
  shows "let port = (if n < 8 then 0x21 else 0xA1); old = ucast (device s (io_events s) port) :: u8
    in if 32 \<le> unat old then irq_unmask (of_nat n) s = Undefined BadShift
       else \<exists>v. irq_unmask (of_nat n) s = Ok () (s\<lparr>io_events := io_events s @ [In8 port, Out8 port v]\<rparr>)
         \<and> (\<forall>k < 8. bit v k \<longleftrightarrow> bit old k \<and> k \<noteq> unat old)"
proof -
  let ?port = "if n < 8 then 0x21 else 0xA1 :: u16"
  let ?old = "ucast (device s (io_events s) ?port) :: u8"
  note line = pic_line_number[OF assms]
  show ?thesis
  proof (cases "32 \<le> unat ?old")
    case True
    then have "irq_unmask (of_nat n) s = Undefined BadShift"
      by (simp add: irq_unmask_def line irq_getmask_def shift_one_def port_effects)
    with True show ?thesis by (simp only: Let_def if_True)
  next
    case False
    then have "irq_unmask (of_nat n) s = Ok () (s\<lparr>io_events := io_events s
        @ [In8 ?port, Out8 ?port (ucast (ucast ?old AND NOT (push_bit (unat ?old) (1 :: u32))))]\<rparr>)"
      by (simp add: irq_unmask_def line irq_getmask_def irq_setmask_def shift_one_def port_effects)
    with False show ?thesis unfolding Let_def
      by (simp only: if_False) (intro exI conjI, rule refl, auto simp: bit_simps)
  qed
qed

section \<open>Concrete runs\<close>

text \<open>A machine at rest whose devices answer \<open>v\<close> on every port.\<close>

definition quiet_irq :: "u32 \<Rightarrow> irq" where
  "quiet_irq v = isr.extend (blank_isr\<lparr>device := \<lambda>h p. v\<rparr>) \<lparr>irq_handlers = replicate 16 None\<rparr>"

lemma quiet_irq_simps: "device (quiet_irq v) h p = v" "length (idt_entries (quiet_irq v)) = 256"
  "irq_handlers (quiet_irq v) = replicate 16 None" "quiet (con (quiet_irq v))" "io_events (quiet_irq v) = []"
  "isr_handlers (quiet_irq v) = replicate 256 None" "gdt_entries (quiet_irq v) = gdt_entries blank_cpu"
  using blank_isr_simps(1)
  by (simp_all add: quiet_irq_def isr.defs blank_isr_def cpu.defs blank_cpu_def pmm.defs)

definition interrupt_frame :: "u32 \<Rightarrow> registers" where
  "interrupt_frame n = \<lparr>r_gs = 0, r_fs = 0, r_es = 0, r_ds = 0, r_edi = 0, r_esi = 0, r_ebp = 0,
     r_kernel_esp = 0, r_ebx = 0, r_edx = 0, r_ecx = 0, r_eax = 0, r_int_no = n, r_err_code = 0, r_eip = 0,
     r_cs = 8, r_eflags = 2, r_esp = 0, r_ss = 0\<rparr>"

text \<open>An IRQ 15 with everything in service, whose handler would abort.\<close>

theorem hardware_interrupt_dispatch_witness:
  "\<exists>s'. irq_handler (\<lambda>h r. kabort) (interrupt_frame 47) ((quiet_irq 0xFF)\<lparr>irq_handlers := replicate 16 (Some Timer_callback)\<rparr>) = Ok () s'"
  using hardware_interrupt_dispatch[of 15 "interrupt_frame 47" "(quiet_irq 0xFF)\<lparr>irq_handlers := replicate 16 (Some Timer_callback)\<rparr>"
    Timer_callback "\<lambda>h r. kabort"]
  by (simp add: interrupt_frame_def)

text \<open>The mask is 0xB8: line 3 is set, line 6 becomes set; unmasking line 3 is undefined.\<close>

theorem irq_mask_hides_the_line_witness:
  "\<exists>v. irq_mask 6 (quiet_irq 0xB8) = Ok () ((quiet_irq 0xB8)\<lparr>io_events := [In8 0x21, Out8 0x21 v]\<rparr>) \<and> bit v 6 \<and> bit v 3 \<and> \<not> bit v 2"
proof -
  from irq_mask_hides_the_line[of 6 "quiet_irq 0xB8"] obtain v where
    "irq_mask 6 (quiet_irq 0xB8) = Ok () ((quiet_irq 0xB8)\<lparr>io_events := [In8 0x21, Out8 0x21 v]\<rparr>)"
    and v: "\<forall>k < 8. bit v k \<longleftrightarrow> bit (0xB8 :: u32) k \<or> k = 6" by (auto simp: quiet_irq_simps Let_def)
  with v[rule_format, of 6] v[rule_format, of 3] v[rule_format, of 2] show ?thesis
    by (intro exI[of _ v]) (simp add: bit_numeral_rec)
qed

theorem irq_unmask_shifts_by_mask_witness: "irq_unmask 3 (quiet_irq 0xB8) = Undefined BadShift"
  using irq_unmask_shifts_by_mask[of 3 "quiet_irq 0xB8"] by (simp add: quiet_irq_simps Let_def)

end
