(* ===== verification/Devices.thy ===== *)
theory Devices
  imports Irq
begin

unbundle bit_operations_syntax

text \<open>
  \<open>kernel/src/cpu/devices/timer.c\<close> and \<open>keyboard.c\<close> with their headers. The time in seconds that
  \<open>timer_get_time\<close> computes is a \<open>double\<close> and is not modelled.
\<close>

section \<open>The timer\<close>

record timer = irq +
  current_tick :: u32
  callback :: "handler option"

definition TIMER_FREQ :: u32 where "TIMER_FREQ = 10"
definition TIMER_QUOTIENT :: u32 where "TIMER_QUOTIENT = 1193182"
definition PIT_0 :: u16 where "PIT_0 = 0x40"
definition PIT_CMD :: u16 where "PIT_CMD = 0x43"
definition PIT_MODE :: u8 where "PIT_MODE = 0x36"

definition timer_init :: "('s timer_scheme, unit) action" where
  "timer_init =
     (let divisor = TIMER_QUOTIENT div TIMER_FREQ
      in before (outportb PIT_CMD PIT_MODE)
        (before (outportb PIT_0 (ucast (divisor AND 0xFF)))
        (before (outportb PIT_0 (ucast (drop_bit 8 divisor AND 0xFF)))
                (irq_register_handler (ucast IRQ0) Timer_callback))))"

definition timer_callback ::
    "(handler \<Rightarrow> registers \<Rightarrow> ('s timer_scheme, unit) action) \<Rightarrow> registers \<Rightarrow> ('s timer_scheme, unit) action" where
  "timer_callback call regs =
     before (change (\<lambda>s. s\<lparr>current_tick := current_tick s + 1\<rparr>))
       (andthen (asks callback) (\<lambda>c. case c of Some h \<Rightarrow> call h regs | None \<Rightarrow> ret ()))"

definition timer_get_tick :: "('s timer_scheme, u32) action" where
  "timer_get_tick = asks current_tick"

definition timer_register_callback :: "handler \<Rightarrow> ('s timer_scheme, unit) action" where
  "timer_register_callback handler =
     andthen (asks callback) (\<lambda>c. case c of
        Some _ \<Rightarrow> before (kprintf ''[TIMER] Callback already registered!\<newline>'' [])
                   (kprintf ''[TIMER] Add support for multiple callbacks!\<newline>'' [])
      | None \<Rightarrow> change (\<lambda>s. s\<lparr>callback := Some handler\<rparr>))"

section \<open>The keyboard\<close>

datatype key_state = KEY_STATE_RELEASED | KEY_STATE_PRESSED

record key_event =
  ke_key :: u8
  ke_pressed :: bool
  ke_alt :: bool
  ke_alt_gr :: bool
  ke_shift :: bool
  ke_super :: bool
  ke_control :: bool
  ke_scroll_lock :: bool
  ke_caps_lock :: bool
  ke_num_lock :: bool

record keyboard = timer +
  keys_state :: "key_state list"

text \<open>The constants of \<open>key_t\<close> that the handler reads, numbered as the enumeration counts them.\<close>

definition KEY_L_CTRL :: nat where "KEY_L_CTRL = 29"
definition KEY_L_SHIFT :: nat where "KEY_L_SHIFT = 42"
definition KEY_R_SHIFT :: nat where "KEY_R_SHIFT = 54"
definition KEY_L_ALT :: nat where "KEY_L_ALT = 56"
definition KEY_CAPSLOCK :: nat where "KEY_CAPSLOCK = 58"
definition KEY_NUMLOCK :: nat where "KEY_NUMLOCK = 69"
definition KEY_SCROLLLOCK :: nat where "KEY_SCROLLLOCK = 70"
definition KEY_SUPER :: nat where "KEY_SUPER = 0x5B"

lemmas key_defs = KEY_L_CTRL_def KEY_L_SHIFT_def KEY_R_SHIFT_def KEY_L_ALT_def KEY_CAPSLOCK_def
  KEY_NUMLOCK_def KEY_SCROLLLOCK_def KEY_SUPER_def

definition KBD_DATA :: u16 where "KBD_DATA = 0x60"
definition KBD_KEY_RELEASED :: u8 where "KBD_KEY_RELEASED = push_bit 7 1"

definition sc_to_char :: "char list" where
  "sc_to_char = [NUL, NUL] @ ''1234567890'' @ ''-='' @ [CHR 0x08, CHR 0x09] @ ''qwertyuiop'' @ ''[]'' @
     [CHR 0x0D, NUL] @ ''asdfghjkl'' @ '';'' @ [CHR 0x27] @ [CHR 0x60] @ [NUL] @ [CHR 0x5C] @ ''zxcvbnm'' @
     '',./'' @ [NUL] @ ''*'' @ [NUL] @ '' '' @ replicate 13 NUL @ ''789-456+1230.'' @ replicate 8 NUL"

definition key_pressed :: "nat \<Rightarrow> 's keyboard_scheme \<Rightarrow> bool" where
  "key_pressed k s \<longleftrightarrow> keys_state s ! k = KEY_STATE_PRESSED"

definition keyboard_init :: "('s keyboard_scheme, unit) action" where
  "keyboard_init = irq_register_handler (ucast (IRQ0 + 1)) Keyboard_handler"

text \<open>The event the handler fills in from the scan code and the state of the modifier keys.\<close>

definition make_key_event :: "u8 \<Rightarrow> bool \<Rightarrow> 's keyboard_scheme \<Rightarrow> key_event" where
  "make_key_event sc pressed s = \<lparr>ke_key = sc, ke_pressed = pressed,
     ke_alt = key_pressed KEY_L_ALT s, ke_alt_gr = False,
     ke_shift = (key_pressed KEY_L_SHIFT s \<or> key_pressed KEY_R_SHIFT s),
     ke_super = key_pressed KEY_SUPER s, ke_control = key_pressed KEY_L_CTRL s,
     ke_scroll_lock = key_pressed KEY_SCROLLLOCK s, ke_caps_lock = key_pressed KEY_CAPSLOCK s,
     ke_num_lock = key_pressed KEY_NUMLOCK s\<rparr>"

definition keyboard_handler :: "registers \<Rightarrow> ('s keyboard_scheme, unit) action" where
  "keyboard_handler regs =
     andthen (inportb KBD_DATA) (\<lambda>scancode.
     let sc = scancode AND NOT KBD_KEY_RELEASED;
         pressed = (scancode AND KBD_KEY_RELEASED = 0)
     in before (change (\<lambda>s. s\<lparr>keys_state := (keys_state s)[unat sc :=
                  if pressed then KEY_STATE_PRESSED else KEY_STATE_RELEASED]\<rparr>))
       (andthen (asks (make_key_event sc pressed)) (\<lambda>key_event.
        if unat sc < length sc_to_char then
          (if sc_to_char ! unat sc \<noteq> NUL then
             kprintf ''%c%s%s%s%s'' [Num (word_of_int (schar (sc_to_char ! unat sc))),
               Str (Some (if ke_alt key_event then '' Alt '' else '''')),
               Str (Some (if ke_shift key_event then '' Shift '' else '''')),
               Str (Some (if ke_control key_event then '' Control '' else '''')),
               Str (Some (if ke_super key_event then '' Super '' else ''''))]
           else ret ())
        else stuck OutOfBounds)))"

section \<open>Properties\<close>

lemma register_timer:
  assumes "irq_handlers s ! 0 = None"
  shows "irq_register_handler (ucast IRQ0) h s = Ok () (s\<lparr>irq_handlers := (irq_handlers s)[0 := Some h]\<rparr>)"
  using irq_register_free[of 0 s h] assms by (simp add: irq_defs)

lemma register_keyboard:
  assumes "irq_handlers s ! 1 = None"
  shows "irq_register_handler (ucast (IRQ0 + 1)) h s = Ok () (s\<lparr>irq_handlers := (irq_handlers s)[1 := Some h]\<rparr>)"
  using irq_register_free[of 1 s h] assms by (simp add: irq_defs)

text \<open>\<open>timer_init\<close> takes line 0 and programs channel 0 of the timer with the two low bytes of the
  divisor. The divisor 119318 of 10 Hz needs 17 bits, so the device divides by 53782 and ticks at
  22 Hz, while \<open>timer_get_time\<close> counts ten ticks as a second.\<close>

theorem timer_runs_too_fast:
  assumes "irq_handlers s ! 0 = None"
  shows "\<exists>lo hi. timer_init s = Ok () (s\<lparr>io_events := io_events s @ [Out8 0x43 0x36, Out8 0x40 lo, Out8 0x40 hi],
      irq_handlers := (irq_handlers s)[0 := Some Timer_callback]\<rparr>)
    \<and> unat lo + 256 * unat hi = 53782 \<and> unat (TIMER_QUOTIENT div TIMER_FREQ) = 119318 \<and> 1193182 div 53782 = (22 :: nat)"
proof -
  have "TIMER_QUOTIENT div TIMER_FREQ = 119318" by (simp add: TIMER_QUOTIENT_def TIMER_FREQ_def)
  moreover have "(119318 :: u32) AND 0xFF = 0x16" "drop_bit 8 (119318 :: u32) AND 0xFF = 0xD2" by simp_all
  ultimately show ?thesis
    using register_timer[of "s\<lparr>io_events := _\<rparr>"] assms
    by (intro exI[of _ "0x16"] exI[of _ "0xD2"])
      (simp add: timer_init_def port_effects PIT_CMD_def PIT_MODE_def PIT_0_def)
qed

theorem timer_runs_too_fast_witness:
  "\<exists>lo hi. timer_init (irq.extend (quiet_irq 0) \<lparr>current_tick = 0, callback = None\<rparr>)
     = Ok () ((irq.extend (quiet_irq 0) \<lparr>current_tick = 0, callback = None\<rparr>)\<lparr>io_events := [Out8 0x43 0x36, Out8 0x40 lo, Out8 0x40 hi],
         irq_handlers := (replicate 16 None)[0 := Some Timer_callback]\<rparr>)"
  using timer_runs_too_fast[of "irq.extend (quiet_irq 0) \<lparr>current_tick = 0, callback = None\<rparr>"]
    quiet_irq_simps(3,5)[of 0] by (auto simp: irq.defs)

lemma released_bit:
  "(code :: u8) AND NOT KBD_KEY_RELEASED = code AND 0x7F" "(code AND KBD_KEY_RELEASED = 0) = (\<not> bit code 7)"
proof -
  have "NOT KBD_KEY_RELEASED = 0x7F" by (simp add: KBD_KEY_RELEASED_def)
  then show "code AND NOT KBD_KEY_RELEASED = code AND 0x7F" by (simp only:)
  show "(code AND KBD_KEY_RELEASED = 0) = (\<not> bit code 7)"
    by (subst bit_eq_iff) (auto simp: KBD_KEY_RELEASED_def bit_simps bit_128 dest: spec[of _ 7])
qed

text \<open>What the handler prints for a key.\<close>

definition key_text :: "char \<Rightarrow> key_event \<Rightarrow> string" where
  "key_text c e = (if c = NUL then [] else [c] @ (if ke_alt e then '' Alt '' else []) @ (if ke_shift e then '' Shift '' else [])
     @ (if ke_control e then '' Control '' else []) @ (if ke_super e then '' Super '' else []))"

text \<open>The modifiers among the keys that are down, by the numbers of the keys: Alt is key 56, Shift 42 on the left
  and 54 on the right, Control 29, Super 91.\<close>

definition held_text :: "key_state list \<Rightarrow> string" where
  "held_text ks = (if ks ! 56 = KEY_STATE_PRESSED then '' Alt '' else [])
     @ (if ks ! 42 = KEY_STATE_PRESSED \<or> ks ! 54 = KEY_STATE_PRESSED then '' Shift '' else [])
     @ (if ks ! 29 = KEY_STATE_PRESSED then '' Control '' else [])
     @ (if ks ! 91 = KEY_STATE_PRESSED then '' Super '' else [])"

lemma key_text_held:
  "key_text c (make_key_event sc pressed s) = (if c = NUL then [] else c # held_text (keys_state s))"
  by (simp add: key_text_def held_text_def make_key_event_def key_pressed_def key_defs)

lemma sc_to_char_plain: "n < 92 \<Longrightarrow> plain (sc_to_char ! n)"
proof -
  have "list_all plain sc_to_char" "length sc_to_char = 92" by (simp_all add: sc_to_char_def plain_def NUL_def list_all_iff)
  moreover assume "n < 92"
  ultimately show ?thesis by (simp add: list_all_length)
qed

lemma key_message:
  assumes "plain c" "c \<noteq> NUL" "quiet (con s)"
  obtains t where "kprintf ''%c%s%s%s%s'' [Num (word_of_int (schar c)), Str (Some (if ke_alt e then '' Alt '' else '''')),
      Str (Some (if ke_shift e then '' Shift '' else '''')), Str (Some (if ke_control e then '' Control '' else '''')),
      Str (Some (if ke_super e then '' Super '' else ''''))] s = Ok () (s\<lparr>con := t\<rparr>)"
    "quiet t" "print_text (key_text c e) (con s) = Ok () t"
proof -
  define v :: u32 where "v = word_of_int (schar c)"
  have "sint (word_of_int (schar c) :: u32) = schar c"
    using schar_range[of c] by (simp add: signed_of_int signed_take_bit_int_eq_self)
  then have "to_char (sint v) = c" by (simp add: v_def)
  then have "format_text ''%c%s%s%s%s'' [Num v, Str (Some (if ke_alt e then '' Alt '' else '''')),
      Str (Some (if ke_shift e then '' Shift '' else '''')), Str (Some (if ke_control e then '' Control '' else '''')),
      Str (Some (if ke_super e then '' Super '' else ''''))] = Some (key_text c e)"
    using assms(2) by (simp add: format_eval padded_def key_text_def)
  moreover have "list_all plain (key_text c e)"
    using assms(1) by (simp add: key_text_def plain_def)
  ultimately show ?thesis unfolding v_def by (rule kprintf_text[OF _ _ assms(3)]) (rule that)
qed

lemma keyboard_handler_runs:
  fixes s :: "'s keyboard_scheme"
  assumes "quiet (con s)"
  shows "let scancode = ucast (device s (io_events s) 0x60) :: u8; sc = scancode AND 0x7F; pressed = (\<not> bit scancode 7);
      s1 = s\<lparr>io_events := io_events s @ [In8 0x60],
             keys_state := (keys_state s)[unat sc := if pressed then KEY_STATE_PRESSED else KEY_STATE_RELEASED]\<rparr>
    in if 92 \<le> unat sc then keyboard_handler regs s = Undefined OutOfBounds
       else \<exists>t. keyboard_handler regs s = Ok () (s1\<lparr>con := t\<rparr>) \<and> quiet t
              \<and> print_text (key_text (sc_to_char ! unat sc) (make_key_event sc pressed s1)) (con s) = Ok () t"
proof -
  let ?code = "ucast (device s (io_events s) 0x60) :: u8"
  let ?sc = "?code AND 0x7F" and ?pressed = "\<not> bit ?code 7"
  let ?s1 = "s\<lparr>io_events := io_events s @ [In8 0x60],
    keys_state := (keys_state s)[unat ?sc := if ?pressed then KEY_STATE_PRESSED else KEY_STATE_RELEASED]\<rparr>"
  let ?c = "sc_to_char ! unat ?sc" and ?e = "make_key_event ?sc ?pressed ?s1"
  have len: "length sc_to_char = 92" by (simp add: sc_to_char_def)
  have code: "?code AND NOT KBD_KEY_RELEASED = ?sc" "(?code AND KBD_KEY_RELEASED = 0) = ?pressed"
    by (rule released_bit)+
  have run: "keyboard_handler regs s =
      (if unat ?sc < 92 then
         if ?c \<noteq> NUL then kprintf ''%c%s%s%s%s'' [Num (word_of_int (schar ?c)), Str (Some (if ke_alt ?e then '' Alt '' else '''')),
           Str (Some (if ke_shift ?e then '' Shift '' else '''')), Str (Some (if ke_control ?e then '' Control '' else '''')),
           Str (Some (if ke_super ?e then '' Super '' else ''''))] ?s1
         else Ok () ?s1
       else Undefined OutOfBounds)"
    by (simp add: keyboard_handler_def port_effects KBD_DATA_def Let_def code len)
  show ?thesis
  proof (cases "92 \<le> unat ?sc")
    case True
    then show ?thesis unfolding Let_def by (simp only: if_True run) simp
  next
    case False
    then have "\<exists>t. keyboard_handler regs s = Ok () (?s1\<lparr>con := t\<rparr>) \<and> quiet t \<and> print_text (key_text ?c ?e) (con s) = Ok () t"
    proof (cases "?c = NUL")
      case True
      then have "keyboard_handler regs s = Ok () (?s1\<lparr>con := con s\<rparr>)" using False by (simp add: run)
      moreover have "print_text (key_text ?c ?e) (con s) = Ok () (con s)" using True by (simp add: key_text_def print_text_def)
      ultimately show ?thesis using assms by blast
    next
      case c: False
      have p: "plain ?c" using False by (intro sc_to_char_plain) simp
      have q: "quiet (con ?s1)" using assms by simp
      from run False c have r: "keyboard_handler regs s =
          kprintf ''%c%s%s%s%s'' [Num (word_of_int (schar ?c)), Str (Some (if ke_alt ?e then '' Alt '' else '''')),
           Str (Some (if ke_shift ?e then '' Shift '' else '''')), Str (Some (if ke_control ?e then '' Control '' else '''')),
           Str (Some (if ke_super ?e then '' Super '' else ''''))] ?s1" by (simp only: not_le if_True if_False not_False_eq_True)
      from key_message[OF p c q, of ?e] obtain t where "keyboard_handler regs s = Ok () (?s1\<lparr>con := t\<rparr>)" "quiet t"
        "print_text (key_text ?c ?e) (con ?s1) = Ok () t" unfolding r by blast
      then show ?thesis by auto
    qed
    with False show ?thesis unfolding Let_def by (simp only: if_False)
  qed
qed

text \<open>C39: the keyboard handler records the key as pressed or released, whichever bit 7 of the scan code
  says, and prints the character of the key followed by the modifiers that are then held, in the order Alt,
  Shift (of either side), Control, Super, or nothing for a key without character. A code of 92 or more, as
  the prefix 0xE0 of the extended keys has, reads behind the table of characters.\<close>

theorem keyboard_echoes_keys:
  fixes s :: "'s keyboard_scheme"
  assumes "quiet (con s)" "length (keys_state s) = 256"
  shows "let scancode = ucast (device s (io_events s) 0x60) :: u8; sc = unat (scancode AND 0x7F);
      ks = (keys_state s)[sc := if bit scancode 7 then KEY_STATE_RELEASED else KEY_STATE_PRESSED];
      held = (if ks ! 56 = KEY_STATE_PRESSED then '' Alt '' else '''')
        @ (if ks ! 42 = KEY_STATE_PRESSED \<or> ks ! 54 = KEY_STATE_PRESSED then '' Shift '' else '''')
        @ (if ks ! 29 = KEY_STATE_PRESSED then '' Control '' else '''')
        @ (if ks ! 91 = KEY_STATE_PRESSED then '' Super '' else '''')
    in if 92 \<le> sc then keyboard_handler regs s = Undefined OutOfBounds
       else \<exists>t. keyboard_handler regs s = Ok () (s\<lparr>io_events := io_events s @ [In8 0x60], keys_state := ks, con := t\<rparr>)
              \<and> quiet t
              \<and> print_text (if sc_to_char ! sc = NUL then '''' else sc_to_char ! sc # held) (con s) = Ok () t"
proof -
  let ?code = "ucast (device s (io_events s) 0x60) :: u8"
  let ?ks = "(keys_state s)[unat (?code AND 0x7F) := if bit ?code 7 then KEY_STATE_RELEASED else KEY_STATE_PRESSED]"
  have ks: "(if \<not> bit ?code 7 then KEY_STATE_PRESSED else KEY_STATE_RELEASED) = (if bit ?code 7 then KEY_STATE_RELEASED else KEY_STATE_PRESSED)"
    by simp
  have held: "key_text c (make_key_event x y (s\<lparr>io_events := h, keys_state := ?ks\<rparr>)) = (if c = NUL then [] else c # held_text ?ks)" for c x y h
    unfolding key_text_held by simp
  from keyboard_handler_runs[OF assms(1), of regs, unfolded Let_def ks held] show ?thesis
    unfolding Let_def held_text_def by simp
qed

text \<open>A keyboard on which the right shift key and Alt are held and whose port reads \<open>code\<close>.\<close>

definition shifted_keyboard :: "u32 \<Rightarrow> keyboard" where
  "shifted_keyboard code = timer.extend (irq.extend (quiet_irq code) \<lparr>current_tick = 0, callback = None\<rparr>)
     \<lparr>keys_state = (replicate 256 KEY_STATE_RELEASED)[54 := KEY_STATE_PRESSED, 56 := KEY_STATE_PRESSED]\<rparr>"

lemma shifted_keyboard_simps: "quiet (con (shifted_keyboard v))" "device (shifted_keyboard v) h p = v"
  "keys_state (shifted_keyboard v) = (replicate 256 KEY_STATE_RELEASED)[54 := KEY_STATE_PRESSED, 56 := KEY_STATE_PRESSED]"
  using quiet_irq_simps(1,4) by (simp_all add: shifted_keyboard_def timer.defs irq.defs)

text \<open>The prefix of an extended key, the letter \<open>a\<close>, and \<open>a\<close> after the right shift key is let go.\<close>

theorem keyboard_echoes_keys_witness:
  "keyboard_handler (interrupt_frame 33) (shifted_keyboard 0xE0) = Undefined OutOfBounds
   \<and> (\<exists>s'. keyboard_handler (interrupt_frame 33) (shifted_keyboard 0x1E) = Ok () s'
        \<and> print_text ''a Alt  Shift '' (con (shifted_keyboard 0x1E)) = Ok () (con s'))
   \<and> (\<exists>s'. keyboard_handler (interrupt_frame 33) (shifted_keyboard 0xB6) = Ok () s'
        \<and> keys_state s' = (replicate 256 KEY_STATE_RELEASED)[56 := KEY_STATE_PRESSED] \<and> con s' = con (shifted_keyboard 0xB6))"
proof (intro conjI)
  show "keyboard_handler (interrupt_frame 33) (shifted_keyboard 0xE0) = Undefined OutOfBounds"
    using keyboard_echoes_keys[of "shifted_keyboard 0xE0" "interrupt_frame 33"]
    by (simp add: shifted_keyboard_simps Let_def)
  have "sc_to_char ! 30 = CHR ''a''" "sc_to_char ! 54 = NUL" by (simp_all add: sc_to_char_def)
  note c = this
  have up: "(replicate 256 KEY_STATE_RELEASED)[54 := KEY_STATE_PRESSED, 56 := KEY_STATE_PRESSED, 54 := KEY_STATE_RELEASED]
      = (replicate 256 KEY_STATE_RELEASED)[56 := KEY_STATE_PRESSED]"
    by (simp add: list_eq_iff_nth_eq nth_list_update)
  show "\<exists>s'. keyboard_handler (interrupt_frame 33) (shifted_keyboard 0x1E) = Ok () s'
        \<and> print_text ''a Alt  Shift '' (con (shifted_keyboard 0x1E)) = Ok () (con s')"
    using keyboard_echoes_keys[of "shifted_keyboard 0x1E" "interrupt_frame 33"]
    by (fastforce simp: shifted_keyboard_simps Let_def bit_numeral_rec c NUL_def)
  show "\<exists>s'. keyboard_handler (interrupt_frame 33) (shifted_keyboard 0xB6) = Ok () s'
        \<and> keys_state s' = (replicate 256 KEY_STATE_RELEASED)[56 := KEY_STATE_PRESSED] \<and> con s' = con (shifted_keyboard 0xB6)"
    using keyboard_echoes_keys[of "shifted_keyboard 0xB6" "interrupt_frame 33"]
    by (fastforce simp: shifted_keyboard_simps Let_def bit_numeral_rec c print_text_def up)
qed

end
