(* ===== verification/Kheap.thy ===== *)
theory Kheap
  imports Devices
begin

text \<open>
  \<open>kernel/src/mem/kheap.c\<close>: the kernel's heap, a pointer that only moves up through 4 MiB of
  mapped memory. There is no operation that frees.
\<close>

section \<open>State and operations\<close>

record heap = keyboard +
  heap_pointer :: u32

definition KERNEL_HEAP_BASE_VIRT :: u32 where "KERNEL_HEAP_BASE_VIRT = 0xD0000000"
definition KERNEL_HEAP_END_VIRT :: u32 where "KERNEL_HEAP_END_VIRT = 0xD0400000"

lemmas heap_defs = KERNEL_HEAP_BASE_VIRT_def KERNEL_HEAP_END_VIRT_def

definition kmalloc :: "u32 \<Rightarrow> ('s heap_scheme, u32) action" where
  "kmalloc n =
     andthen (asks heap_pointer) (\<lambda>p.
     if p + n \<ge> KERNEL_HEAP_END_VIRT then ret 0
     else before (change (\<lambda>s. s\<lparr>heap_pointer := heap_pointer s + n\<rparr>)) (ret p))"

definition kamalloc :: "u32 \<Rightarrow> u32 \<Rightarrow> ('s heap_scheme, u32) action" where
  "kamalloc n align =
     (if align = 0 then stuck DivisionByZero
      else andthen (asks heap_pointer) (\<lambda>p.
        let nxt = (p div align + 1) * align
        in if nxt + n \<ge> KERNEL_HEAP_END_VIRT then ret 0
           else before (change (\<lambda>s. s\<lparr>heap_pointer := nxt + n\<rparr>)) (ret nxt)))"

section \<open>Allocators that only grow\<close>

text \<open>
  The contract of a bump allocator: a request is refused and changes nothing, or is granted a
  block that starts at or above the top of everything granted before and becomes the new top.
\<close>

primrec alloc_each :: "('r \<Rightarrow> ('s, u32) action) \<Rightarrow> 'r list \<Rightarrow> ('s, u32 list) action" where
  "alloc_each alloc [] = ret []"
| "alloc_each alloc (r # rs) = andthen (alloc r) (\<lambda>p. andthen (alloc_each alloc rs) (\<lambda>ps. ret (p # ps)))"

locale bump_allocator =
  fixes alloc :: "'r \<Rightarrow> ('s, u32) action"
    and top_of :: "'s \<Rightarrow> nat"
    and need :: "'r \<Rightarrow> nat"
    and sane :: "'r \<Rightarrow> bool"
    and ready :: "'s \<Rightarrow> bool"
    and bound :: nat
  assumes alloc: "ready s \<Longrightarrow> sane r \<Longrightarrow> wp (alloc r) (\<lambda>p s'. ready s' \<and>
      (if p = 0 then s' = s
       else top_of s \<le> unat p \<and> top_of s' = unat p + need r \<and> top_of s' < bound)) s"
begin

lemma alloc_each_disjoint:
  "ready s \<Longrightarrow> list_all sane rs \<Longrightarrow>
   wp (alloc_each alloc rs) (\<lambda>ps s'. ready s' \<and> top_of s \<le> top_of s' \<and> length ps = length rs
     \<and> (\<forall>i < length rs. ps ! i \<noteq> 0 \<longrightarrow> top_of s \<le> unat (ps ! i) \<and> unat (ps ! i) + need (rs ! i) \<le> top_of s'
          \<and> unat (ps ! i) + need (rs ! i) < bound)
     \<and> (\<forall>j < length rs. \<forall>i < j. ps ! i \<noteq> 0 \<and> ps ! j \<noteq> 0 \<longrightarrow> unat (ps ! i) + need (rs ! i) \<le> unat (ps ! j))) s"
proof (induction rs arbitrary: s)
  case Nil
  then show ?case by (simp add: wp_simps)
next
  case (Cons r rs)
  from alloc[of s r] Cons.prems obtain p s1 where p: "alloc r s = Ok p s1" "ready s1"
    and c: "if p = 0 then s1 = s else top_of s \<le> unat p \<and> top_of s1 = unat p + need r \<and> top_of s1 < bound"
    using wp_OkD by force
  then have up: "top_of s \<le> top_of s1" by (auto split: if_splits)
  have sane: "list_all sane rs" using Cons.prems(2) by simp
  obtain ps s2 where ps: "alloc_each alloc rs s1 = Ok ps s2" "ready s2" "top_of s1 \<le> top_of s2" "length ps = length rs"
    and ea: "\<forall>i < length rs. ps ! i \<noteq> 0 \<longrightarrow> top_of s1 \<le> unat (ps ! i) \<and> unat (ps ! i) + need (rs ! i) \<le> top_of s2
          \<and> unat (ps ! i) + need (rs ! i) < bound"
    and tw: "\<forall>j < length rs. \<forall>i < j. ps ! i \<noteq> 0 \<and> ps ! j \<noteq> 0 \<longrightarrow> unat (ps ! i) + need (rs ! i) \<le> unat (ps ! j)"
    using wp_OkD[OF Cons.IH[OF p(2) sane]] by (elim exE conjE) (rule that)
  note each = ea[rule_format] and two = tw[rule_format]
  have "top_of s \<le> unat ((p # ps) ! i) \<and> unat ((p # ps) ! i) + need ((r # rs) ! i) \<le> top_of s2
      \<and> unat ((p # ps) ! i) + need ((r # rs) ! i) < bound" if "i < Suc (length rs)" "(p # ps) ! i \<noteq> 0" for i
    using that c up ps(3) each[of "i - 1"] by (cases i) auto
  moreover have "unat ((p # ps) ! i) + need ((r # rs) ! i) \<le> unat ((p # ps) ! j)"
    if "j < Suc (length rs)" "i < j" "(p # ps) ! i \<noteq> 0 \<and> (p # ps) ! j \<noteq> 0" for i j
  proof (cases i)
    case 0
    then show ?thesis using that c each[of "j - 1"] by (cases j) (auto split: if_splits)
  next
    case (Suc k)
    then show ?thesis using that two[of "j - 1" k] by (cases j) auto
  qed
  moreover have "alloc_each alloc (r # rs) s = Ok (p # ps) s2" using p(1) ps(1) by simp
  ultimately show ?case using ps(2-4) up by (simp add: wp_def)
qed

end

section \<open>The heap is one\<close>

datatype heap_request = Kmalloc u32 | Kamalloc u32 u32

fun run_request :: "heap_request \<Rightarrow> ('s heap_scheme, u32) action" where
  "run_request (Kmalloc n) = kmalloc n"
| "run_request (Kamalloc n align) = kamalloc n align"

fun request_size :: "heap_request \<Rightarrow> nat" where
  "request_size (Kmalloc n) = unat n"
| "request_size (Kamalloc n align) = unat n"

text \<open>Requests for which the sums of the code stay below \<open>2 ^ 32\<close>.\<close>

fun request_sane :: "heap_request \<Rightarrow> bool" where
  "request_sane (Kmalloc n) \<longleftrightarrow> unat n \<le> 0x2FC00000"
| "request_sane (Kamalloc n align) \<longleftrightarrow> align \<noteq> 0 \<and> unat n + unat align \<le> 0x2FC00000"

definition heap_ready :: "'s heap_scheme \<Rightarrow> bool" where
  "heap_ready s \<longleftrightarrow> KERNEL_HEAP_BASE_VIRT \<le> heap_pointer s \<and> heap_pointer s < KERNEL_HEAP_END_VIRT"

lemma unat_next_aligned:
  assumes "unat p + unat align < 2 ^ 32" "align \<noteq> (0 :: u32)"
  shows "unat ((p div align + 1) * align) = (unat p div unat align + 1) * unat align"
    "unat p < unat ((p div align + 1) * align)" "unat ((p div align + 1) * align) \<le> unat p + unat align"
proof -
  let ?n = "unat p div unat align" and ?a = "unat align"
  have a: "0 < ?a" using assms(2) by (simp add: unat_gt_0)
  have m: "?n * ?a + unat p mod ?a = unat p" "unat p mod ?a < ?a" using a by simp_all
  then have "?n * ?a + ?a \<le> unat p + ?a" "unat p < ?n * ?a + ?a" by linarith+
  then have le: "(?n + 1) * ?a \<le> unat p + ?a" and gt: "unat p < (?n + 1) * ?a" by (simp_all only: add_mult_distrib mult_1)
  have "p div align + 1 = of_nat (?n + 1)" by (simp add: unat_div[symmetric])
  then have "(p div align + 1) * align = of_nat ((?n + 1) * ?a)" by (simp add: algebra_simps)
  moreover have "(?n + 1) * ?a < 2 ^ 32" by (rule le_less_trans[OF le assms(1)])
  ultimately have "unat ((p div align + 1) * align) = (?n + 1) * ?a" by (simp only: of_nat_unat_u32)
  then show "unat ((p div align + 1) * align) = (?n + 1) * ?a"
    "unat p < unat ((p div align + 1) * align)" "unat ((p div align + 1) * align) \<le> unat p + ?a"
    using le gt by simp_all
qed

lemma heap_limits:
  "KERNEL_HEAP_END_VIRT \<le> w \<longleftrightarrow> 0xD0400000 \<le> unat w" "w < KERNEL_HEAP_END_VIRT \<longleftrightarrow> unat w < 0xD0400000"
  "KERNEL_HEAP_BASE_VIRT \<le> w \<longleftrightarrow> 0xD0000000 \<le> unat w"
  by (simp_all add: heap_defs word_le_nat_alt word_less_nat_alt)

lemma unat_sum: "unat a + unat b < 2 ^ 32 \<Longrightarrow> unat (a + b :: u32) = unat a + unat b"
  by (simp add: unat_word_ariths)

interpretation heap: bump_allocator run_request "\<lambda>s. unat (heap_pointer s)" request_size request_sane
  heap_ready "0xD0400000"
proof unfold_locales
  fix s :: "'a heap_scheme" and r
  assume s: "heap_ready s" and r: "request_sane r"
  have p: "0xD0000000 \<le> unat (heap_pointer s)" "unat (heap_pointer s) < 0xD0400000"
    using s by (simp_all add: heap_ready_def heap_limits)
  show "wp (run_request r) (\<lambda>p s'. heap_ready s' \<and> (if p = 0 then s' = s
      else unat (heap_pointer s) \<le> unat p \<and> unat (heap_pointer s') = unat p + request_size r
        \<and> unat (heap_pointer s') < 0xD0400000)) s"
  proof (cases r)
    case (Kmalloc n)
    have sum: "unat (heap_pointer s + n) = unat (heap_pointer s) + unat n"
      using p r Kmalloc by (intro unat_sum) simp
    have "heap_pointer s \<noteq> 0" using p(1) by auto
    then show ?thesis using s p
      by (cases "0xD0400000 \<le> unat (heap_pointer s) + unat n")
        (simp_all add: Kmalloc kmalloc_def wp_simps heap_ready_def heap_limits sum)
  next
    case (Kamalloc n align)
    let ?next = "(heap_pointer s div align + 1) * align"
    have a: "unat (heap_pointer s) + unat align < 2 ^ 32" "align \<noteq> 0" using Kamalloc r p by simp_all
    note nxt = unat_next_aligned(2,3)[OF a]
    have sum: "unat (?next + n) = unat ?next + unat n"
      using p r nxt Kamalloc by (intro unat_sum) simp
    have "?next \<noteq> 0" using nxt(1) by (metis not_less_zero unat_0)
    then show ?thesis using s p nxt a(2)
      by (cases "0xD0400000 \<le> unat ?next + unat n")
        (simp_all add: Kamalloc kamalloc_def wp_simps heap_ready_def heap_limits sum Let_def)
  qed
qed

section \<open>Properties\<close>

text \<open>C40: blocks granted by any sequence of \<open>kmalloc\<close> and \<open>kamalloc\<close> lie inside the heap, above everything
  granted before the sequence, and do not overlap, as long as the sizes and alignments are small enough
  for the sums not to wrap around.\<close>

theorem heap_blocks_disjoint:
  assumes "0xD0000000 \<le> heap_pointer s" "heap_pointer s < 0xD0400000" "list_all request_sane rs"
  shows "\<exists>ps s'. alloc_each run_request rs s = Ok ps s'
    \<and> (\<forall>i < length rs. ps ! i \<noteq> 0 \<longrightarrow>
          unat (heap_pointer s) \<le> unat (ps ! i) \<and> unat (ps ! i) + request_size (rs ! i) < 0xD0400000)
    \<and> (\<forall>j < length rs. \<forall>i < j. ps ! i \<noteq> 0 \<and> ps ! j \<noteq> 0 \<longrightarrow>
          unat (ps ! i) + request_size (rs ! i) \<le> unat (ps ! j))"
proof -
  have "heap_ready s" using assms(1,2) by (simp add: heap_ready_def heap_defs)
  from wp_OkD[OF heap.alloc_each_disjoint[OF this assms(3)]] show ?thesis by blast
qed

definition blank_heap :: heap where
  "blank_heap = keyboard.extend (shifted_keyboard 0) \<lparr>heap_pointer = 0xD0000010\<rparr>"

lemma heap_pointer_blank: "heap_pointer blank_heap = 0xD0000010"
  by (simp add: blank_heap_def keyboard.defs)

theorem heap_blocks_disjoint_witness:
  "\<exists>ps s'. alloc_each run_request [Kmalloc 100, Kamalloc 4096 4096] blank_heap = Ok ps s'
     \<and> (ps ! 0 \<noteq> 0 \<and> ps ! 1 \<noteq> 0 \<longrightarrow> unat (ps ! 0) + 100 \<le> unat (ps ! 1))"
proof -
  have "list_all request_sane [Kmalloc 100, Kamalloc 4096 4096]" by simp
  moreover have "0xD0000000 \<le> heap_pointer blank_heap" "heap_pointer blank_heap < 0xD0400000"
    by (simp_all add: heap_pointer_blank)
  ultimately obtain ps s' where
    e: "alloc_each run_request [Kmalloc 100, Kamalloc 4096 4096] blank_heap = Ok ps s'"
    and "\<forall>j < length [Kmalloc 100, Kamalloc 4096 4096]. \<forall>i < j. ps ! i \<noteq> 0 \<and> ps ! j \<noteq> 0 \<longrightarrow>
          unat (ps ! i) + request_size ([Kmalloc 100, Kamalloc 4096 4096] ! i) \<le> unat (ps ! j)"
    using heap_blocks_disjoint by blast
  from this(2)[rule_format, of 1 0] have "ps ! 0 \<noteq> 0 \<and> ps ! 1 \<noteq> 0 \<longrightarrow> unat (ps ! 0) + 100 \<le> unat (ps ! 1)" by simp
  then show ?thesis using e by blast
qed

text \<open>A request so large that the end of the block passes the end of the address space is granted, and
  moves the heap pointer down: what is granted next overlaps blocks in use.\<close>

theorem huge_request_moves_heap_back:
  assumes "2 ^ 32 \<le> unat (heap_pointer s) + unat n" "unat (heap_pointer s) < 0xD0400000"
  shows "\<exists>s'. kmalloc n s = Ok (heap_pointer s) s' \<and> heap_pointer s \<noteq> 0 \<and> heap_pointer s' < heap_pointer s"
proof -
  have "unat (heap_pointer s + n) = unat (heap_pointer s) + unat n - 2 ^ 32"
    using assms(1) unat_less_numeral_u32[of n] assms(2) by (simp add: unat_plus_if')
  moreover have "x + y - 2 ^ 32 < x" if "y < 2 ^ 32" "2 ^ 32 \<le> x + y" for x y :: nat
    using that by arith
  ultimately have "heap_pointer s + n < heap_pointer s"
    using unsigned_less[of n] assms(1) unfolding word_less_nat_alt by simp
  moreover from this have "\<not> KERNEL_HEAP_END_VIRT \<le> heap_pointer s + n"
    using assms(2) by (simp add: heap_defs word_le_nat_alt word_less_nat_alt)
  moreover have "heap_pointer s \<noteq> 0"
    using assms(1) unat_less_numeral_u32[of n] by (auto simp del: unat_less_numeral_u32)
  ultimately show ?thesis by (simp add: kmalloc_def)
qed

theorem huge_request_moves_heap_back_witness:
  "\<exists>s'. kmalloc 0xFFFFFFF8 blank_heap = Ok 0xD0000010 s' \<and> heap_pointer s' < 0xD0000010"
  using huge_request_moves_heap_back[of blank_heap "0xFFFFFFF8"] by (simp add: heap_pointer_blank)

end
