(* ===== verification/Paging.thy ===== *)
theory Paging
  imports Kheap
begin

unbundle bit_operations_syntax

text \<open>
  \<open>kernel/src/mem/paging.c\<close> with \<open>paging.h\<close>: the two-level page tables of the processor, which the
  kernel edits through the recursive last entry of the page directory.

  \<open>ram\<close> is the physical memory that holds page tables and user pages, as 4 KiB frames of 32-bit
  words. Every access goes through the walk of the memory management unit from \<open>cr3\<close>, with the 4 MiB
  pages that \<open>boot.S\<close> enables and without a cache of translations, so \<open>invlpg\<close> has no effect. The
  kernel runs in ring 0 with CR0.WP clear: the present bits are all that is checked. An access the
  walk refuses is \<open>PageFault\<close>. The address of \<open>kernel_directory\<close> is the linker's and is an argument.
\<close>

section \<open>State\<close>

type_synonym frame = "20 word"
type_synonym memory = "frame \<Rightarrow> 10 word \<Rightarrow> u32"

record vmm = heap +
  ram :: memory
  cr3 :: u32
  cr2 :: u32
  current_page_directory :: u32

definition PAGE_PRESENT :: u32 where "PAGE_PRESENT = push_bit 0 1"
definition PAGE_RW :: u32 where "PAGE_RW = push_bit 1 1"
definition PAGE_USER :: u32 where "PAGE_USER = push_bit 2 1"
definition PAGE_FRAME :: u32 where "PAGE_FRAME = 0xFFFFF000"
definition PAGE_FLAGS :: u32 where "PAGE_FLAGS = 0x00000FFF"
definition PAGE_SIZE :: u32 where "PAGE_SIZE = 4096"
definition PAGE_ENTRIES :: u32 where "PAGE_ENTRIES = 1024"
definition KERNEL_VGA_BASE_VIRT :: u32 where "KERNEL_VGA_BASE_VIRT = KERNEL_HEAP_BASE_VIRT - PAGE_SIZE"

lemmas page_defs = PAGE_PRESENT_def PAGE_RW_def PAGE_USER_def PAGE_FRAME_def PAGE_FLAGS_def
  PAGE_SIZE_def PAGE_ENTRIES_def

definition V2P :: "u32 \<Rightarrow> u32" where "V2P addr = addr - 0xC0000000"

definition DIRECTORY_INDEX :: "u32 \<Rightarrow> u32" where "DIRECTORY_INDEX x = drop_bit 22 x"
definition TABLE_INDEX :: "u32 \<Rightarrow> u32" where "TABLE_INDEX x = drop_bit 12 x AND 0x3FF"
definition PAGE_OFFSET :: "u32 \<Rightarrow> u32" where "PAGE_OFFSET x = x AND 0xFFF"

text \<open>The bit fields of a directory or page entry that the kernel reads.\<close>

definition entry_present :: "u32 \<Rightarrow> bool" where "entry_present e = bit e 0"
definition entry_user :: "u32 \<Rightarrow> bool" where "entry_user e = bit e 2"
definition entry_large :: "u32 \<Rightarrow> bool" where "entry_large e = bit e 7"
definition entry_frame :: "u32 \<Rightarrow> frame" where "entry_frame e = ucast (drop_bit 12 e)"

section \<open>The memory management unit\<close>

text \<open>Directory index, table index and word index of a virtual address.\<close>

definition dir_of :: "u32 \<Rightarrow> 10 word" where "dir_of v = ucast (DIRECTORY_INDEX v)"
definition table_of :: "u32 \<Rightarrow> 10 word" where "table_of v = ucast (TABLE_INDEX v)"
definition word_of :: "u32 \<Rightarrow> 10 word" where "word_of v = ucast (drop_bit 2 v)"
definition lane_of :: "u32 \<Rightarrow> nat" where "lane_of v = 8 * (unat v mod 4)"

definition walk :: "memory \<Rightarrow> frame \<Rightarrow> u32 \<Rightarrow> frame option" where
  "walk m d v =
     (let pde = m d (dir_of v)
      in if \<not> entry_present pde then None
         else if entry_large pde then Some (ucast (drop_bit 22 pde) * 1024 + ucast (TABLE_INDEX v))
         else let pte = m (entry_frame pde) (table_of v)
              in if entry_present pte then Some (entry_frame pte) else None)"

definition translate :: "'s vmm_scheme \<Rightarrow> u32 \<Rightarrow> frame option" where
  "translate s v = walk (ram s) (entry_frame (cr3 s)) v"

definition poke :: "frame \<Rightarrow> 10 word \<Rightarrow> u32 \<Rightarrow> 's vmm_scheme \<Rightarrow> 's vmm_scheme" where
  "poke f i x s = s\<lparr>ram := (ram s)(f := (ram s f)(i := x))\<rparr>"

text \<open>Aligned accesses to words, and accesses to bytes, little-endian.\<close>

definition read32 :: "u32 \<Rightarrow> ('s vmm_scheme, u32) action" where
  "read32 v s = (case translate s v of None \<Rightarrow> Undefined (PageFault v) | Some f \<Rightarrow> Ok (ram s f (word_of v)) s)"

definition write32 :: "u32 \<Rightarrow> u32 \<Rightarrow> ('s vmm_scheme, unit) action" where
  "write32 v x s = (case translate s v of None \<Rightarrow> Undefined (PageFault v) | Some f \<Rightarrow> Ok () (poke f (word_of v) x s))"

definition get_byte :: "nat \<Rightarrow> u32 \<Rightarrow> u8" where
  "get_byte lane w = ucast (drop_bit lane w)"

definition put_byte :: "nat \<Rightarrow> u8 \<Rightarrow> u32 \<Rightarrow> u32" where
  "put_byte lane b w = (w AND NOT (push_bit lane 0xFF)) OR push_bit lane (ucast b)"

definition read8 :: "u32 \<Rightarrow> ('s vmm_scheme, u8) action" where
  "read8 v = andthen (read32 v) (\<lambda>w. ret (get_byte (lane_of v) w))"

definition write8 :: "u32 \<Rightarrow> u8 \<Rightarrow> ('s vmm_scheme, unit) action" where
  "write8 v b = andthen (read32 v) (\<lambda>w. write32 v (put_byte (lane_of v) b w))"

text \<open>The loops of \<open>memset\<close> and \<open>memcpy\<close> on virtual memory; the pointers of \<open>memcpy\<close> are
  \<open>restrict\<close> (\<open>Cstring\<close>).\<close>

definition virt_memset :: "u32 \<Rightarrow> u8 \<Rightarrow> nat \<Rightarrow> ('s vmm_scheme, unit) action" where
  "virt_memset dst b n = foreach [0..<n] (\<lambda>i. write8 (dst + of_nat i) b)"

definition virt_memcpy :: "u32 \<Rightarrow> u32 \<Rightarrow> nat \<Rightarrow> ('s vmm_scheme, unit) action" where
  "virt_memcpy dst src n =
     (if ranges_meet dst src n then stuck RestrictOverlap
      else foreach [0..<n] (\<lambda>i. andthen (read8 (src + of_nat i)) (\<lambda>b. write8 (dst + of_nat i) b)))"

section \<open>Operations\<close>

definition paging_invalidate_page :: "u32 \<Rightarrow> ('s vmm_scheme, unit) action" where
  "paging_invalidate_page virt = ret ()"

definition paging_invalidate_cache :: "('s vmm_scheme, unit) action" where
  "paging_invalidate_cache = change (\<lambda>s. s\<lparr>cr3 := cr3 s\<rparr>)"

definition paging_switch_directory :: "u32 \<Rightarrow> ('s vmm_scheme, unit) action" where
  "paging_switch_directory dir_phys =
     change (\<lambda>s. s\<lparr>cr3 := dir_phys, current_page_directory := P2V dir_phys\<rparr>)"

definition paging_get_kernel_directory :: "u32 \<Rightarrow> u32" where
  "paging_get_kernel_directory kernel_directory = V2P kernel_directory"

definition paging_get_page :: "u32 \<Rightarrow> bool \<Rightarrow> u32 \<Rightarrow> ('s vmm_scheme, u32) action" where
  "paging_get_page virt create flags =
     before (if virt mod PAGE_SIZE \<noteq> 0
             then before (kprintf ''[VMM] Tried to access a page at an unaligned address!\<newline>'' []) kabort
             else ret ())
     (let dir_index = DIRECTORY_INDEX virt;
          table_index = TABLE_INDEX virt;
          dir = 0xFFFFF000;
          table = 0xFFC00000 + 4 * (PAGE_ENTRIES * dir_index)
      in andthen (read32 (dir + 4 * dir_index)) (\<lambda>e.
         before (if \<not> entry_present e \<and> create
                 then andthen pmm_alloc_page (\<lambda>new_table.
                      before (write32 (dir + 4 * dir_index)
                                (new_table OR PAGE_PRESENT OR PAGE_RW OR (flags AND PAGE_FLAGS)))
                             (virt_memset table 0x00 (unat PAGE_SIZE)))
                 else ret ())
        (andthen (read32 (dir + 4 * dir_index)) (\<lambda>e'.
         if entry_present e' then ret (table + 4 * table_index) else ret 0))))"

definition paging_map_page :: "u32 \<Rightarrow> u32 \<Rightarrow> u32 \<Rightarrow> ('s vmm_scheme, unit) action" where
  "paging_map_page virt phys flags =
     andthen (paging_get_page virt True flags) (\<lambda>page.
     andthen (read32 page) (\<lambda>e.
     before (if entry_present e
             then before (kprintf ''[VMM] Tried to map an already mapped virtual address 0x%X to 0x%X\<newline>''
                            [Num virt, Num phys])
                 (andthen (read32 page) (\<lambda>raw_val.
                  before (kprintf ''[VMM] Previous mapping: 0x%X to 0x%X\<newline>'' [Num virt, Num (raw_val AND PAGE_FRAME)])
                         kabort))
             else ret ())
    (before (write32 page (phys OR PAGE_PRESENT OR (flags AND PAGE_FLAGS)))
            (paging_invalidate_page virt))))"

definition paging_map_pages :: "u32 \<Rightarrow> u32 \<Rightarrow> u32 \<Rightarrow> u32 \<Rightarrow> ('s vmm_scheme, unit) action" where
  "paging_map_pages virt phys num flags =
     foreach [0..<unat num] (\<lambda>i. paging_map_page (virt + of_nat i * PAGE_SIZE) (phys + of_nat i * PAGE_SIZE) flags)"

definition paging_unmap_page :: "u32 \<Rightarrow> ('s vmm_scheme, unit) action" where
  "paging_unmap_page virt =
     andthen (paging_get_page virt False 0) (\<lambda>page.
     if page \<noteq> 0 then
       andthen (read32 page) (\<lambda>e. before (write32 page (e AND NOT PAGE_PRESENT)) (paging_invalidate_page virt))
     else kprintf ''[VMM] Tried to unmap a page that doesn't exist with virt address %p\<newline>'' [Num virt])"

definition paging_unmap_pages :: "u32 \<Rightarrow> u32 \<Rightarrow> ('s vmm_scheme, unit) action" where
  "paging_unmap_pages virt num =
     foreach [0..<unat num] (\<lambda>i. paging_unmap_page (virt + of_nat i * PAGE_SIZE))"

definition paging_virt_to_phys :: "u32 \<Rightarrow> ('s vmm_scheme, u32) action" where
  "paging_virt_to_phys virt =
     andthen (paging_get_page (virt AND PAGE_FRAME) False 0) (\<lambda>p.
     if p = 0 then ret 0
     else andthen (read32 p) (\<lambda>raw_val. ret ((raw_val AND PAGE_FRAME) + PAGE_OFFSET virt)))"

definition paging_fault_handler :: "registers \<Rightarrow> ('s vmm_scheme, unit) action" where
  "paging_fault_handler regs =
     (let err = r_err_code regs;
          choice = (\<lambda>m a b. Str (Some (if err AND m \<noteq> 0 then a else b)))
      in andthen (asks cr2) (\<lambda>cr2.
         before (kprintf (CHR 0x1B # ''[37;44m'') [])
        (before (kprintf ''The page at 0x%X %s present '' [Num cr2, choice 0x01 ''was'' ''wasn't''])
        (before (kprintf ''when a process tried to %s it.\<newline>'' [choice 0x02 ''write to'' ''read from''])
        (before (kprintf ''This process was in %s mode.\<newline>'' [choice 0x04 ''user'' ''kernel''])
        (andthen (paging_get_page (cr2 AND PAGE_FRAME) False 0) (\<lambda>page.
         before (if page \<noteq> 0 then andthen (read32 page) (\<lambda>e.
                   kprintf ''The page was in %s mode.\<newline>'' [Str (Some (if entry_user e then ''user'' else ''kernel''))])
                 else ret ())
        (before (kprintf ''The reserved bits %s overwritten.\<newline>'' [choice 0x08 ''were'' ''weren't''])
        (before (kprintf ''The fault %s during an instruction fetch.\<newline>'' [choice 0x10 ''occured'' ''didn't occur''])
                kabort)))))))))"

definition paging_init :: "u32 \<Rightarrow> ('s vmm_scheme, unit) action" where
  "paging_init kernel_directory =
     before (isr_register_handler 14 Paging_fault_handler)
     (let dir_phys = V2P kernel_directory;
          heap_pages = (KERNEL_HEAP_END_VIRT - KERNEL_HEAP_BASE_VIRT) div PAGE_SIZE
      in before (write32 (kernel_directory + 4 * (PAGE_ENTRIES - 1)) (dir_phys OR PAGE_PRESENT OR PAGE_RW))
        (before (paging_invalidate_page 0xFFC00000)
        (before (write32 kernel_directory 0)
        (before (paging_invalidate_page 0x00000000)
        (before (paging_map_pages 0x00000000 0x00000000 256 PAGE_RW)
        (before (change (\<lambda>s. s\<lparr>current_page_directory := kernel_directory\<rparr>))
        (andthen (pmm_alloc_pages heap_pages) (\<lambda>heap_phys.
         before (paging_map_pages KERNEL_HEAP_BASE_VIRT heap_phys heap_pages PAGE_RW)
        (before (paging_map_page KERNEL_VGA_BASE_VIRT VGA_MEMORY PAGE_RW)
                (on_console (change (term_set_buffer KERNEL_VGA_BASE_VIRT))))))))))))"

section \<open>Addresses\<close>

lemma unat_ucast_10: "unat (ucast (x :: u32) :: 10 word) = unat x mod 1024"
  by (simp add: unsigned_ucast_eq take_bit_eq_mod)

lemma unat_DIRECTORY_INDEX: "unat (DIRECTORY_INDEX v) = unat v div 2 ^ 22"
  by (simp add: DIRECTORY_INDEX_def unat_drop_bit_eq drop_bit_eq_div unat_div)

lemma unat_TABLE_INDEX: "unat (TABLE_INDEX v) = unat v div 4096 mod 1024"
proof -
  have m: "(0x3FF :: u32) = mask 10" by (simp add: mask_eq_exp_minus_1)
  have "TABLE_INDEX v = take_bit 10 (drop_bit 12 v)"
    unfolding TABLE_INDEX_def m by (simp only: take_bit_eq_mask)
  then show ?thesis by (simp add: unsigned_take_bit_eq unat_drop_bit_eq drop_bit_eq_div take_bit_eq_mod unat_div unat_mod)
qed

lemma unat_dir_of: "unat (dir_of v) = unat v div 2 ^ 22"
proof -
  have "unat v div 2 ^ 22 < 1024" using unat_less_numeral_u32[of v] by (simp add: less_mult_imp_div_less)
  then show ?thesis by (simp add: dir_of_def unat_ucast_10 unat_DIRECTORY_INDEX)
qed

lemma unat_table_of: "unat (table_of v) = unat v div 4096 mod 1024"
  by (simp add: table_of_def unat_ucast_10 unat_TABLE_INDEX)

lemma unat_word_of: "unat (word_of v) = unat v div 4 mod 1024"
  by (simp add: word_of_def unat_ucast_10 unat_drop_bit_eq drop_bit_eq_div unat_div)

lemma split_address:
  assumes "unat w = a * 2 ^ 22 + b * 4096 + c" "b < 1024" "c < 4096"
  shows "dir_of w = of_nat a" "table_of w = of_nat b" "word_of w = of_nat (c div 4)" "lane_of w = 8 * (c mod 4)"
proof -
  have f: "unat w = (a * 1024 + b) * 4096 + c" "unat w = ((a * 1024 + b) * 1024) * 4 + c" using assms(1) by simp_all
  have page: "unat w div 4096 = a * 1024 + b" unfolding f(1) using assms(3) by simp
  have "unat w div 2 ^ 22 = unat w div 4096 div 1024" by (simp add: div_mult2_eq[symmetric])
  then have d: "unat w div 2 ^ 22 = a" using page assms(2) by simp
  have "unat w div 4 = (a * 1024 + b) * 1024 + c div 4" unfolding f(2) by simp
  then have "unat w div 4 mod 1024 = c div 4 mod 1024" by (simp only: mod_mult_self3)
  then have i: "unat w div 4 mod 1024 = c div 4" using assms(3) by simp
  have l: "unat w mod 4 = c mod 4" unfolding f(2) by (rule mod_mult_self3)
  from d i l page have "unat (dir_of w) = a" "unat (table_of w) = b" "unat (word_of w) = c div 4" "lane_of w = 8 * (c mod 4)"
    using assms(2) by (simp_all add: unat_dir_of unat_table_of unat_word_of lane_of_def)
  then show "dir_of w = of_nat a" "table_of w = of_nat b" "word_of w = of_nat (c div 4)" "lane_of w = 8 * (c mod 4)"
    by (metis word_of_nat_eq_0_iff of_nat_unat ucast_id)+
qed

text \<open>The recursive entry makes the directory and its tables words of the last 4 MiB.\<close>

definition dir_entry_addr :: "u32 \<Rightarrow> u32" where
  "dir_entry_addr v = 0xFFFFF000 + 4 * DIRECTORY_INDEX v"

definition table_addr :: "u32 \<Rightarrow> u32" where
  "table_addr v = 0xFFC00000 + 4 * (PAGE_ENTRIES * DIRECTORY_INDEX v)"

lemma unat_sum2: "unat a = x \<Longrightarrow> unat b = y \<Longrightarrow> x + y < 2 ^ 32 \<Longrightarrow> unat (a + b :: u32) = x + y"
  by (simp add: unat_sum)

lemma unat_prod2: "unat a = x \<Longrightarrow> unat b = y \<Longrightarrow> x * y < 2 ^ 32 \<Longrightarrow> unat (a * b :: u32) = x * y"
  by (simp add: unat_word_ariths)

lemma directory_index_less: "unat (v :: u32) div 2 ^ 22 < 1024"
  using unat_less_numeral_u32[of v] by (simp add: less_mult_imp_div_less)

lemma dir_entry_addr_split:
  "dir_of (dir_entry_addr v) = 1023" "table_of (dir_entry_addr v) = 1023" "word_of (dir_entry_addr v) = dir_of v"
proof -
  let ?d = "unat v div 2 ^ 22"
  have d: "?d < 1024" by (rule directory_index_less)
  have "unat (4 * DIRECTORY_INDEX v) = 4 * ?d"
    by (rule unat_prod2) (use d in \<open>simp_all add: unat_DIRECTORY_INDEX\<close>)
  then have "unat (dir_entry_addr v) = 0xFFFFF000 + 4 * ?d"
    unfolding dir_entry_addr_def by (rule unat_sum2[rotated]) (use d in simp_all)
  then have u: "unat (dir_entry_addr v) = 1023 * 2 ^ 22 + 1023 * 4096 + 4 * ?d" by simp
  have "of_nat (unat (dir_of v)) = dir_of v" by simp
  then have "of_nat ?d = dir_of v" by (simp only: unat_dir_of)
  then show "dir_of (dir_entry_addr v) = 1023" "table_of (dir_entry_addr v) = 1023" "word_of (dir_entry_addr v) = dir_of v"
    using split_address(1-3)[OF u] d by simp_all
qed

lemma table_addr_split:
  assumes "k < 4096"
  shows "dir_of (table_addr v + of_nat k) = 1023" "table_of (table_addr v + of_nat k) = dir_of v"
    "word_of (table_addr v + of_nat k) = of_nat (k div 4)" "lane_of (table_addr v + of_nat k) = 8 * (k mod 4)"
    "table_addr v + of_nat k \<noteq> 0"
proof -
  let ?d = "unat v div 2 ^ 22"
  have d: "?d < 1024" by (rule directory_index_less)
  have "unat (PAGE_ENTRIES * DIRECTORY_INDEX v) = 1024 * ?d"
    by (rule unat_prod2) (use d in \<open>simp_all add: unat_DIRECTORY_INDEX PAGE_ENTRIES_def\<close>)
  then have "unat (4 * (PAGE_ENTRIES * DIRECTORY_INDEX v)) = 4 * (1024 * ?d)"
    by (rule unat_prod2[rotated]) (use d in simp_all)
  then have "unat (table_addr v) = 0xFFC00000 + 4 * (1024 * ?d)"
    unfolding table_addr_def by (rule unat_sum2[rotated]) (use d in simp_all)
  then have "unat (table_addr v + of_nat k) = 0xFFC00000 + 4 * (1024 * ?d) + k"
    by (rule unat_sum2) (use d assms in \<open>simp_all add: unat_of_nat\<close>)
  then have u: "unat (table_addr v + of_nat k) = 1023 * 2 ^ 22 + ?d * 4096 + k" by simp
  have "of_nat (unat (dir_of v)) = dir_of v" by simp
  then have "of_nat ?d = dir_of v" by (simp only: unat_dir_of)
  then show "dir_of (table_addr v + of_nat k) = 1023" "table_of (table_addr v + of_nat k) = dir_of v"
    "word_of (table_addr v + of_nat k) = of_nat (k div 4)" "lane_of (table_addr v + of_nat k) = 8 * (k mod 4)"
    using split_address[OF u d assms] by simp_all
  show "table_addr v + of_nat k \<noteq> 0" using u by auto
qed

lemma table_entry_split:
  "dir_of (table_addr v + 4 * TABLE_INDEX v) = 1023" "table_of (table_addr v + 4 * TABLE_INDEX v) = dir_of v"
  "word_of (table_addr v + 4 * TABLE_INDEX v) = table_of v" "table_addr v + 4 * TABLE_INDEX v \<noteq> 0"
proof -
  let ?t = "unat (TABLE_INDEX v)"
  have t: "?t < 1024" by (simp add: unat_TABLE_INDEX)
  have "4 * TABLE_INDEX v = of_nat (4 * ?t)" by simp
  moreover have "of_nat (4 * ?t div 4) = table_of v" by (simp add: table_of_def)
  ultimately show "dir_of (table_addr v + 4 * TABLE_INDEX v) = 1023" "table_of (table_addr v + 4 * TABLE_INDEX v) = dir_of v"
    "word_of (table_addr v + 4 * TABLE_INDEX v) = table_of v" "table_addr v + 4 * TABLE_INDEX v \<noteq> 0"
    using table_addr_split[of "4 * ?t" v] t by simp_all
qed

section \<open>Whole pages\<close>

text \<open>
  \<open>with_frame s f g\<close> is \<open>s\<close> with the contents \<open>g\<close> in frame \<open>f\<close>; a page is stable when its mapping
  does not depend on what the frame behind it holds.
\<close>

definition with_frame :: "'s vmm_scheme \<Rightarrow> frame \<Rightarrow> (10 word \<Rightarrow> u32) \<Rightarrow> 's vmm_scheme" where
  "with_frame s f g = s\<lparr>ram := (ram s)(f := g)\<rparr>"

definition maps_page :: "'s vmm_scheme \<Rightarrow> u32 \<Rightarrow> frame \<Rightarrow> bool" where
  "maps_page s w f \<longleftrightarrow> (\<forall>k < 4096. translate s (w + of_nat k) = Some f
     \<and> word_of (w + of_nat k) = of_nat (k div 4) \<and> lane_of (w + of_nat k) = 8 * (k mod 4))"

definition stable_page :: "'s vmm_scheme \<Rightarrow> u32 \<Rightarrow> frame \<Rightarrow> bool" where
  "stable_page s w f \<longleftrightarrow> (\<forall>g. maps_page (with_frame s f g) w f)"

lemma with_frame_simps [simp]:
  "ram (with_frame s f g) = (ram s)(f := g)" "cr3 (with_frame s f g) = cr3 s" "con (with_frame s f g) = con s"
  "with_frame (with_frame s f g) f h = with_frame s f h" "with_frame s f (ram s f) = s"
  by (simp_all add: with_frame_def)

lemma poke_with_frame: "poke f i x s = with_frame s f ((ram s f)(i := x))"
  by (simp add: poke_def with_frame_def)

lemma copy_lane:
  assumes "take_bit l (w :: u32) = take_bit l x"
  shows "take_bit (l + 8) (put_byte l (get_byte l x) w) = take_bit (l + 8) x"
proof (rule bit_word_eqI)
  fix n
  have "bit w n = bit x n" if "n < l" "n < 32"
    using arg_cong[OF assms, of "\<lambda>x. bit x n"] that by (simp add: bit_take_bit_iff)
  then show "bit (take_bit (l + 8) (put_byte l (get_byte l x) w)) n = bit (take_bit (l + 8) x) n" if "n < LENGTH(32)"
    using that by (cases "n < l") (auto simp: put_byte_def get_byte_def bit_simps mask_bits)
qed

text \<open>The first \<open>k\<close> bytes of a frame agree with those of \<open>h\<close>.\<close>

definition agree :: "nat \<Rightarrow> (10 word \<Rightarrow> u32) \<Rightarrow> (10 word \<Rightarrow> u32) \<Rightarrow> bool" where
  "agree k g h \<longleftrightarrow> (\<forall>i < k div 4. g (of_nat i) = h (of_nat i))
     \<and> take_bit (8 * (k mod 4)) (g (of_nat (k div 4))) = take_bit (8 * (k mod 4)) (h (of_nat (k div 4)))"

lemma agree_0 [simp]: "agree 0 g h"
  by (simp add: agree_def)

lemma agree_4096: "agree 4096 g h \<Longrightarrow> g = h"
proof
  fix i :: "10 word"
  assume "agree 4096 g h"
  moreover have "unat i < 1024" using unsigned_less[of i] by simp
  ultimately have "g (of_nat (unat i)) = h (of_nat (unat i))" unfolding agree_def by auto
  then show "g i = h i" by simp
qed

lemma of_nat_10_inject: "a < 1024 \<Longrightarrow> b < 1024 \<Longrightarrow> (of_nat a :: 10 word) = of_nat b \<longleftrightarrow> a = b"
proof
  assume less: "a < 1024" "b < 1024"
  have "unat (of_nat a :: 10 word) = a" "unat (of_nat b :: 10 word) = b" using less by (simp_all add: unat_of_nat)
  moreover assume "(of_nat a :: 10 word) = of_nat b"
  ultimately show "a = b" by metis
qed simp

lemma agree_Suc:
  assumes "agree k g h" "k < 4096" "b = get_byte (8 * (k mod 4)) (h (of_nat (k div 4)))"
  shows "agree (Suc k) (g(of_nat (k div 4) := put_byte (8 * (k mod 4)) b (g (of_nat (k div 4))))) h"
proof -
  let ?i = "of_nat (k div 4) :: 10 word" and ?l = "8 * (k mod 4)"
  have lane: "take_bit (?l + 8) (put_byte ?l b (g ?i)) = take_bit (?l + 8) (h ?i)"
    using copy_lane[of ?l "g ?i" "h ?i"] assms(1,3) by (simp add: agree_def)
  have other: "j < k div 4 \<Longrightarrow> (of_nat j :: 10 word) \<noteq> ?i" for j
    using of_nat_10_inject[of j "k div 4"] assms(2) by simp
  show ?thesis
  proof (cases "k mod 4 = 3")
    case True
    then have s: "Suc k div 4 = Suc (k div 4)" "Suc k mod 4 = 0" by presburger+
    have "take_bit 32 (put_byte ?l b (g ?i)) = take_bit 32 (h ?i)" using lane True by simp
    then have "put_byte ?l b (g ?i) = h ?i" by (simp add: take_bit_word_eq_self)
    then show ?thesis using s assms(1) other by (auto simp: agree_def less_Suc_eq)
  next
    case False
    then have s: "Suc k div 4 = k div 4" "Suc k mod 4 = Suc (k mod 4)" by presburger+
    then show ?thesis using lane assms(1) other by (auto simp: agree_def add.commute)
  qed
qed

lemma read8_maps:
  assumes "maps_page s w f" "k < 4096"
  shows "read8 (w + of_nat k) s = Ok (get_byte (8 * (k mod 4)) (ram s f (of_nat (k div 4)))) s"
  using assms by (simp add: maps_page_def read8_def read32_def)

lemma write8_maps:
  assumes "maps_page s w f" "k < 4096"
  shows "write8 (w + of_nat k) b s = Ok () (with_frame s f ((ram s f)(of_nat (k div 4) :=
    put_byte (8 * (k mod 4)) b (ram s f (of_nat (k div 4))))))"
  using assms by (simp add: maps_page_def write8_def read32_def write32_def poke_with_frame)

text \<open>A loop over the bytes of a stable page that writes those of \<open>h\<close> leaves \<open>h\<close> in its frame.\<close>

lemma fill_page:
  assumes "stable_page s w f"
    and step: "\<And>k g. k < 4096 \<Longrightarrow> body k (with_frame s f g) =
      write8 (w + of_nat k) (get_byte (8 * (k mod 4)) (h (of_nat (k div 4)))) (with_frame s f g)"
  shows "foreach [0..<4096] body s = Ok () (with_frame s f h)"
proof -
  let ?I = "\<lambda>k t. \<exists>g. t = with_frame s f g \<and> agree k g h"
  have "wp (foreach [0..<4096] body) (\<lambda>_. ?I (length [0..<4096])) s"
  proof (rule wp_foreach)
    show "?I 0 s" by (rule exI[of _ "ram s f"]) simp
  next
    fix k t assume k: "k < length [0..<4096]" and "?I k t"
    then obtain g where g: "t = with_frame s f g" "agree k g h" by blast
    have k': "k < 4096" using k by simp
    have m: "maps_page (with_frame s f g) w f" using assms(1) by (simp add: stable_page_def)
    show "wp (body ([0..<4096] ! k)) (\<lambda>_. ?I (Suc k)) t"
      using agree_Suc[OF g(2) k' refl] k' g(1) step[OF k', of g] write8_maps[OF m k']
      by (auto simp: wp_def intro: exI)
  qed
  then obtain g where "foreach [0..<4096] body s = Ok () (with_frame s f g)" "agree 4096 g h"
    by (auto dest!: wp_OkD)
  with agree_4096[OF this(2)] show ?thesis by simp
qed

lemma virt_memset_page:
  assumes "stable_page s w f"
  shows "virt_memset w 0 4096 s = Ok () (with_frame s f (\<lambda>_. 0))"
  unfolding virt_memset_def by (rule fill_page[OF assms]) (simp add: get_byte_def)

lemma virt_memcpy_page:
  assumes "stable_page s w f" "\<And>g. maps_page (with_frame s f g) v f'" "f' \<noteq> f" "\<not> ranges_meet w v 4096"
  shows "virt_memcpy w v 4096 s = Ok () (with_frame s f (ram s f'))"
  unfolding virt_memcpy_def if_not_P[OF assms(4)]
proof (rule fill_page[OF assms(1)])
  fix k g assume "k < (4096 :: nat)"
  from read8_maps[OF assms(2) this] assms(3)
  show "andthen (read8 (v + of_nat k)) (\<lambda>b. write8 (w + of_nat k) b) (with_frame s f g) =
      write8 (w + of_nat k) (get_byte (8 * (k mod 4)) (ram s f' (of_nat (k div 4)))) (with_frame s f g)"
    by simp
qed

section \<open>Address spaces\<close>

text \<open>
  The directory is the frame in \<open>cr3\<close>. An address space is in order when the last directory entry
  leads back to the directory, no two entries share a table, and the memory manager holds every
  table for used.
\<close>

definition directory :: "'s vmm_scheme \<Rightarrow> frame" where
  "directory s = entry_frame (cr3 s)"

definition dir_entry :: "'s vmm_scheme \<Rightarrow> 10 word \<Rightarrow> u32" where
  "dir_entry s i = ram s (directory s) i"

definition has_table :: "'s vmm_scheme \<Rightarrow> 10 word \<Rightarrow> bool" where
  "has_table s i \<longleftrightarrow> entry_present (dir_entry s i) \<and> \<not> entry_large (dir_entry s i)"

definition table_frame :: "'s vmm_scheme \<Rightarrow> 10 word \<Rightarrow> frame" where
  "table_frame s i = entry_frame (dir_entry s i)"

definition large_pages :: "'s vmm_scheme \<Rightarrow> 10 word set" where
  "large_pages s = {i. entry_present (dir_entry s i) \<and> entry_large (dir_entry s i)}"

definition recursive :: "'s vmm_scheme \<Rightarrow> bool" where
  "recursive s \<longleftrightarrow> has_table s 1023 \<and> table_frame s 1023 = directory s"

definition space_ok :: "'s vmm_scheme \<Rightarrow> bool" where
  "space_ok s \<longleftrightarrow> recursive s \<and> pmm_ok s
     \<and> (\<forall>i j. has_table s i \<and> has_table s j \<and> table_frame s i = table_frame s j \<longrightarrow> i = j)
     \<and> (\<forall>i. has_table s i \<longrightarrow> block_used s (unat (table_frame s i)))"

lemmas space_defs = directory_def dir_entry_def has_table_def table_frame_def

lemma space_okD:
  assumes "space_ok s"
  shows "recursive s" "pmm_ok s" "has_table s i \<Longrightarrow> has_table s j \<Longrightarrow> table_frame s i = table_frame s j \<Longrightarrow> i = j"
    "has_table s i \<Longrightarrow> block_used s (unat (table_frame s i))"
    "has_table s i \<Longrightarrow> i \<noteq> 1023 \<Longrightarrow> table_frame s i \<noteq> directory s"
proof -
  show "recursive s" "pmm_ok s" "has_table s i \<Longrightarrow> has_table s j \<Longrightarrow> table_frame s i = table_frame s j \<Longrightarrow> i = j"
    "has_table s i \<Longrightarrow> block_used s (unat (table_frame s i))"
    using assms unfolding space_ok_def by blast+
  show "has_table s i \<Longrightarrow> i \<noteq> 1023 \<Longrightarrow> table_frame s i \<noteq> directory s"
    using assms unfolding space_ok_def recursive_def by metis
qed

text \<open>What the other components change is not read by the walk.\<close>

lemma mmap_set_frame [simp]: "ram (mmap_set b s) = ram s" "cr3 (mmap_set b s) = cr3 s" "cr2 (mmap_set b s) = cr2 s"
  by (simp_all add: mmap_set_def)

lemma space_frames [simp]:
  "directory (mmap_set b s) = directory s" "dir_entry (mmap_set b s) = dir_entry s" "translate (mmap_set b s) = translate s"
  "directory (s\<lparr>con := t\<rparr>) = directory s" "dir_entry (s\<lparr>con := t\<rparr>) = dir_entry s" "translate (s\<lparr>con := t\<rparr>) = translate s"
  "directory (with_frame s f g) = directory s"
  by (simp_all add: directory_def dir_entry_def translate_def fun_eq_iff)

lemma pmm_frames [simp]:
  "block_used (with_frame s f g) = block_used s" "pmm_ok (with_frame s f g) = pmm_ok s" "searched (with_frame s f g) = searched s"
  "max_blocks (with_frame s f g) = max_blocks s" "used_blocks (with_frame s f g) = used_blocks s"
  by (simp_all add: with_frame_def block_used_def pmm_ok_def searched_def fun_eq_iff)

lemma dir_entry_with_frame [simp]:
  "dir_entry (with_frame s f g) i = (if f = directory s then g i else dir_entry s i)"
  by (simp add: dir_entry_def directory_def)

lemma translate_eq:
  "translate s v =
     (let pde = dir_entry s (dir_of v)
      in if \<not> entry_present pde then None
         else if entry_large pde then Some (ucast (drop_bit 22 pde) * 1024 + ucast (TABLE_INDEX v))
         else let pte = ram s (entry_frame pde) (table_of v)
              in if entry_present pte then Some (entry_frame pte) else None)"
  by (simp add: translate_def walk_def dir_entry_def directory_def)

lemma translate_cong:
  assumes "dir_entry s' (dir_of v) = dir_entry s (dir_of v)"
    and "has_table s (dir_of v) \<Longrightarrow> ram s' (table_frame s (dir_of v)) (table_of v) = ram s (table_frame s (dir_of v)) (table_of v)"
  shows "translate s' v = translate s v"
  using assms by (simp add: translate_eq Let_def has_table_def table_frame_def)

lemma translate_window:
  assumes "recursive s" "dir_of a = 1023" "entry_present (dir_entry s (table_of a))"
  shows "translate s a = Some (table_frame s (table_of a))"
proof -
  have "table_of a = 1023 \<Longrightarrow> \<not> entry_large (dir_entry s (table_of a))" using assms(1) by (simp add: recursive_def has_table_def)
  then show ?thesis using assms
    by (auto simp: translate_eq recursive_def has_table_def table_frame_def Let_def dir_entry_def)
qed

lemma dir_entry_access:
  assumes "recursive s"
  shows "read32 (dir_entry_addr v) s = Ok (dir_entry s (dir_of v)) s"
    "write32 (dir_entry_addr v) x s = Ok () (poke (directory s) (dir_of v) x s)"
proof -
  have "translate s (dir_entry_addr v) = Some (directory s)"
    using translate_window[OF assms, of "dir_entry_addr v"] assms
    by (simp add: dir_entry_addr_split recursive_def has_table_def)
  then show "read32 (dir_entry_addr v) s = Ok (dir_entry s (dir_of v)) s"
    "write32 (dir_entry_addr v) x s = Ok () (poke (directory s) (dir_of v) x s)"
    by (simp_all add: read32_def write32_def dir_entry_addr_split dir_entry_def)
qed

text \<open>The entry that the walk uses for \<open>v\<close> is the word of the window at \<open>page_entry_addr v\<close>.\<close>

definition page_entry_addr :: "u32 \<Rightarrow> u32" where
  "page_entry_addr v = table_addr v + 4 * TABLE_INDEX v"

definition page_entry :: "'s vmm_scheme \<Rightarrow> u32 \<Rightarrow> u32" where
  "page_entry s v = ram s (table_frame s (dir_of v)) (table_of v)"

lemma page_entry_access:
  assumes "recursive s" "entry_present (dir_entry s (dir_of v))"
  shows "read32 (page_entry_addr v) s = Ok (page_entry s v) s"
    "write32 (page_entry_addr v) x s = Ok () (poke (table_frame s (dir_of v)) (table_of v) x s)"
proof -
  have "translate s (page_entry_addr v) = Some (table_frame s (dir_of v))"
    using translate_window[OF assms(1), of "page_entry_addr v"] assms(2)
    by (simp add: table_entry_split page_entry_addr_def)
  then show "read32 (page_entry_addr v) s = Ok (page_entry s v) s"
    "write32 (page_entry_addr v) x s = Ok () (poke (table_frame s (dir_of v)) (table_of v) x s)"
    by (simp_all add: read32_def write32_def table_entry_split page_entry_addr_def page_entry_def)
qed

lemma page_entry_addr_nonzero [simp]: "page_entry_addr v \<noteq> 0"
  by (simp add: page_entry_addr_def table_entry_split)

lemma stable_table:
  assumes "recursive s" "entry_present (dir_entry s (dir_of v))" "table_frame s (dir_of v) \<noteq> directory s"
  shows "stable_page s (table_addr v) (table_frame s (dir_of v))"
  unfolding stable_page_def maps_page_def
proof (intro allI impI conjI)
  fix g k assume k: "k < (4096 :: nat)"
  let ?s = "with_frame s (table_frame s (dir_of v)) g"
  note split = table_addr_split[OF k, of v]
  have same: "dir_entry ?s i = dir_entry s i" "table_frame ?s i = table_frame s i" for i
    using assms(3) by (simp_all add: table_frame_def)
  then have "recursive ?s" using assms(1) by (simp add: recursive_def has_table_def)
  from translate_window[OF this, of "table_addr v + of_nat k"]
  show "translate ?s (table_addr v + of_nat k) = Some (table_frame s (dir_of v))"
    using split assms(2) same by simp
  show "word_of (table_addr v + of_nat k) = of_nat (k div 4)" "lane_of (table_addr v + of_nat k) = 8 * (k mod 4)"
    using split by simp_all
qed

section \<open>Finding and making entries\<close>

lemma aligned_offset: "virt mod PAGE_SIZE \<noteq> 0 \<longleftrightarrow> unat virt mod 4096 \<noteq> 0"
  by (simp add: PAGE_SIZE_def word_unat_eq_iff unat_mod)

lemma paging_get_page_aligned:
  assumes "unat virt mod 4096 = 0" "recursive s"
  shows "paging_get_page virt create flags s =
    (if entry_present (dir_entry s (dir_of virt)) then Ok (page_entry_addr virt) s
     else if create then
       andthen pmm_alloc_page (\<lambda>new_table.
         before (write32 (dir_entry_addr virt) (new_table OR PAGE_PRESENT OR PAGE_RW OR (flags AND PAGE_FLAGS)))
        (before (virt_memset (table_addr virt) 0 4096)
        (andthen (read32 (dir_entry_addr virt)) (\<lambda>e. if entry_present e then ret (page_entry_addr virt) else ret 0)))) s
     else Ok 0 s)"
proof -
  have "unat PAGE_SIZE = 4096" by (simp add: PAGE_SIZE_def)
  then show ?thesis
    using assms aligned_offset[of virt] dir_entry_access(1)[OF assms(2), of virt]
    by (simp add: paging_get_page_def Let_def dir_entry_addr_def[symmetric] table_addr_def[symmetric]
        page_entry_addr_def[symmetric] before_def andthen_def split: outcome.splits)
qed

text \<open>Entries made from the address of a frame and flags.\<close>

lemma aligned_bits:
  assumes "unat (p :: u32) mod 4096 = 0" "k < 12"
  shows "\<not> bit p k"
proof -
  obtain q where q: "unat p = 4096 * q" using assms(1) by (auto simp: mod_eq_0_iff_dvd)
  have "(4096 :: nat) = 2 ^ k * 2 ^ (12 - k)" using assms(2) by (simp add: power_add[symmetric])
  then have "unat p = 2 ^ k * (2 ^ (12 - k) * q)" unfolding q by (simp only: mult.assoc)
  then have "unat p div 2 ^ k = 2 ^ (12 - k) * q" by simp
  then have "even (unat p div 2 ^ k)" using assms(2) by simp
  then have "\<not> bit (unat p) k" by (simp add: bit_iff_odd)
  then show ?thesis by (simp add: bit_unsigned_iff)
qed

lemma unat_entry_frame: "unat (entry_frame p) = unat p div 4096"
proof -
  have "unat p div 4096 < 2 ^ 20" using unat_less_numeral_u32[of p] by (simp add: less_mult_imp_div_less)
  then show ?thesis
    by (simp add: entry_frame_def unsigned_ucast_eq unat_drop_bit_eq drop_bit_eq_div unat_div take_bit_nat_eq_self)
qed

lemma page_bits: "bit PAGE_PRESENT k \<longleftrightarrow> k = 0" "bit PAGE_RW k \<longleftrightarrow> k = 1" "bit PAGE_FLAGS k \<longleftrightarrow> k < 12"
  by (auto simp: page_defs bit_simps mask_bits)

lemma entry_fields:
  assumes "unat p mod 4096 = 0"
  shows "entry_frame (p OR PAGE_PRESENT OR PAGE_RW OR (flags AND PAGE_FLAGS)) = entry_frame p"
    "entry_frame (p OR PAGE_PRESENT OR (flags AND PAGE_FLAGS)) = entry_frame p"
    "entry_present (p OR PAGE_PRESENT OR PAGE_RW OR (flags AND PAGE_FLAGS))"
    "entry_present (p OR PAGE_PRESENT OR (flags AND PAGE_FLAGS))"
    "entry_large (p OR PAGE_PRESENT OR PAGE_RW OR (flags AND PAGE_FLAGS)) = bit flags 7"
proof -
  show "entry_frame (p OR PAGE_PRESENT OR PAGE_RW OR (flags AND PAGE_FLAGS)) = entry_frame p"
    "entry_frame (p OR PAGE_PRESENT OR (flags AND PAGE_FLAGS)) = entry_frame p"
    by (rule bit_word_eqI; auto simp: entry_frame_def bit_simps page_bits)+
  show "entry_present (p OR PAGE_PRESENT OR PAGE_RW OR (flags AND PAGE_FLAGS))"
    "entry_present (p OR PAGE_PRESENT OR (flags AND PAGE_FLAGS))"
    by (simp_all add: entry_present_def bit_simps page_bits)
  show "entry_large (p OR PAGE_PRESENT OR PAGE_RW OR (flags AND PAGE_FLAGS)) = bit flags 7"
    using aligned_bits[OF assms, of 7] by (simp add: entry_large_def bit_simps page_bits)
qed

section \<open>Memory for tables\<close>

text \<open>\<open>roomy s k\<close>: the memory manager can still give out \<open>k\<close> single blocks.\<close>

definition roomy :: "'s pmm_scheme \<Rightarrow> nat \<Rightarrow> bool" where
  "roomy s k \<longleftrightarrow> k \<le> card {n. n < searched s \<and> \<not> block_used s n} \<and> unat (used_blocks s) + k \<le> unat (max_blocks s)"

lemma roomy_mono: "roomy s k \<Longrightarrow> j \<le> k \<Longrightarrow> roomy s j"
  by (simp add: roomy_def)

lemma roomy_frame [simp]: "roomy (with_frame s f g) k = roomy s k"
  by (simp add: roomy_def)

lemma roomy_alloc:
  assumes "pmm_ok s" "roomy s (Suc k)"
  obtains n where "pmm_alloc_page s = Ok (of_nat n * PMM_BLOCK_SIZE) (mmap_set (of_nat n) s)"
    "n < 2 ^ 20" "\<not> block_used s n" "unat (of_nat n * PMM_BLOCK_SIZE) = n * 4096"
    "block_used (mmap_set (of_nat n) s) = (\<lambda>m. m = n \<or> block_used s m)" "pmm_ok (mmap_set (of_nat n) s)"
    "roomy (mmap_set (of_nat n) s) k"
proof -
  let ?F = "\<lambda>s. {n. n < searched s \<and> \<not> block_used s n}"
  have "?F s \<noteq> {}" using assms(2) unfolding roomy_def by (metis card.empty not_less_eq_eq zero_le)
  then have "first_free (block_used s) 0 (searched s) \<noteq> None" by (auto simp: first_free_None)
  then obtain n where n: "first_free (block_used s) 0 (searched s) = Some n" by blast
  note ok = first_free_ok[OF assms(1) n]
  have full: "max_blocks s \<noteq> used_blocks s" using assms(2) by (auto simp: roomy_def)
  have used: "block_used (mmap_set (of_nat n) s) = (\<lambda>m. m = n \<or> block_used s m)"
    using ok(4) by (simp add: fun_eq_iff block_used_set)
  have "n \<in> ?F s" using n ok(3) by (simp add: first_free_Some)
  moreover have "?F (mmap_set (of_nat n) s) = ?F s - {n}" by (auto simp: used)
  ultimately have c: "card (?F (mmap_set (of_nat n) s)) = card (?F s) - 1" by (simp add: card_Diff_singleton)
  have counted: "used_blocks (mmap_set (of_nat n) s) = used_blocks s + 1" by (simp add: mmap_set_def)
  have "unat (used_blocks s + 1) = unat (used_blocks s) + 1"
    using assms(2) unat_less_numeral_u32[of "max_blocks s"] unfolding roomy_def
    by (intro unat_sum2) (simp_all del: unat_less_numeral_u32)
  then have "roomy (mmap_set (of_nat n) s) k"
    using assms(2) c by (simp add: roomy_def counted) linarith
  moreover have "pmm_ok (mmap_set (of_nat n) s)" using assms(1) by (simp add: pmm_ok_def used)
  ultimately show ?thesis
    using that[OF _ ok(2,3) block_address(1)[OF ok(2)] used] pmm_alloc_page_first[OF assms(1) full] n by simp
qed

text \<open>
  Making tables and mapping pages writes nothing but the bitmap, its count and physical memory,
  and frees no block.
\<close>

definition pages_changed :: "'s vmm_scheme \<Rightarrow> 's vmm_scheme \<Rightarrow> bool" where
  "pages_changed s s' \<longleftrightarrow> (\<exists>m b u. s' = s\<lparr>bitmap := b, used_blocks := u, ram := m\<rparr>)
     \<and> (\<forall>n. block_used s n \<longrightarrow> block_used s' n)"

lemma pages_changedI:
  "s' = s\<lparr>bitmap := b, used_blocks := u, ram := m\<rparr> \<Longrightarrow> (\<And>n. block_used s n \<Longrightarrow> block_used s' n) \<Longrightarrow> pages_changed s s'"
  unfolding pages_changed_def by blast

lemma pages_changed_refl [simp]: "pages_changed s s"
  by (rule pages_changedI[where b = "bitmap s" and u = "used_blocks s" and m = "ram s"]) simp_all

lemma pages_changed_trans:
  assumes "pages_changed s t" "pages_changed t u"
  shows "pages_changed s u"
proof -
  from assms obtain m b c m' b' c' where "t = s\<lparr>bitmap := b, used_blocks := c, ram := m\<rparr>"
    "u = t\<lparr>bitmap := b', used_blocks := c', ram := m'\<rparr>" unfolding pages_changed_def by blast
  then have "u = s\<lparr>bitmap := b', used_blocks := c', ram := m'\<rparr>" by simp
  then show ?thesis using assms by (intro pages_changedI) (simp_all add: pages_changed_def)
qed

lemma pages_changed_with_frame [intro]:
  assumes "pages_changed s t"
  shows "pages_changed s (with_frame t f g)"
proof -
  from assms obtain m b u where "t = s\<lparr>bitmap := b, used_blocks := u, ram := m\<rparr>" by (auto simp: pages_changed_def)
  then have "with_frame t f g = s\<lparr>bitmap := b, used_blocks := u, ram := m(f := g)\<rparr>" by (simp add: with_frame_def)
  then show ?thesis by (rule pages_changedI) (use assms in \<open>simp add: pages_changed_def\<close>)
qed

lemma pages_changed_directory:
  assumes "pages_changed s t"
  shows "pages_changed (s\<lparr>current_page_directory := c\<rparr>) (t\<lparr>current_page_directory := c\<rparr>)"
proof -
  from assms obtain m b u where t: "t = s\<lparr>bitmap := b, used_blocks := u, ram := m\<rparr>" by (auto simp: pages_changed_def)
  show ?thesis
    by (rule pages_changedI[where m = m and b = b and u = u])
      (use assms in \<open>auto simp: t pages_changed_def block_used_def\<close>)
qed

lemma pages_changed_mmap_set [intro]: "pages_changed s (mmap_set b s)"
proof -
  have "mmap_set b s = s\<lparr>bitmap := bitmap (mmap_set b s), used_blocks := used_blocks s + 1, ram := ram s\<rparr>"
    by (simp add: mmap_set_def)
  then show ?thesis by (rule pages_changedI) (simp add: block_used_set)
qed

lemma pages_changed_fields:
  assumes "pages_changed s s'"
  shows "cr3 s' = cr3 s" "cr2 s' = cr2 s" "con s' = con s" "max_blocks s' = max_blocks s" "isr_handlers s' = isr_handlers s"
    "current_page_directory s' = current_page_directory s" "directory s' = directory s" "searched s' = searched s"
    "heap_pointer s' = heap_pointer s" "block_used s n \<Longrightarrow> block_used s' n"
  using assms by (auto simp: pages_changed_def directory_def searched_def)

text \<open>The state after an absent table is made: a fresh zeroed frame that only its entry leads to.\<close>

definition new_table :: "'s vmm_scheme \<Rightarrow> u32 \<Rightarrow> u32 \<Rightarrow> nat \<Rightarrow> 's vmm_scheme" where
  "new_table s virt flags n =
     with_frame (poke (directory s) (dir_of virt)
       (of_nat n * PMM_BLOCK_SIZE OR PAGE_PRESENT OR PAGE_RW OR (flags AND PAGE_FLAGS)) (mmap_set (of_nat n) s))
       (of_nat n) (\<lambda>_. 0)"

lemma new_table_fields:
  assumes "space_ok s" "\<not> entry_present (dir_entry s (dir_of virt))" "\<not> bit flags 7"
    and n: "n < 2 ^ 20" "\<not> block_used s n" "unat (of_nat n * PMM_BLOCK_SIZE) = n * 4096"
  shows "directory (new_table s virt flags n) = directory s"
    "unat (of_nat n :: frame) = n"
    "has_table (new_table s virt flags n) j \<longleftrightarrow> j = dir_of virt \<or> has_table s j"
    "dir_entry (new_table s virt flags n) j = (if j = dir_of virt then dir_entry (new_table s virt flags n) j else dir_entry s j)"
    "table_frame (new_table s virt flags n) j = (if j = dir_of virt then of_nat n else table_frame s j)"
    "has_table s j \<Longrightarrow> table_frame s j \<noteq> of_nat n" "directory s \<noteq> of_nat n"
    "ram (new_table s virt flags n) (of_nat n) = (\<lambda>_. 0)"
    "g \<noteq> of_nat n \<Longrightarrow> g \<noteq> directory s \<Longrightarrow> ram (new_table s virt flags n) g = ram s g"
proof -
  let ?p = "of_nat n * PMM_BLOCK_SIZE" and ?f = "of_nat n :: frame"
  let ?e = "?p OR PAGE_PRESENT OR PAGE_RW OR (flags AND PAGE_FLAGS)"
  show f: "unat ?f = n" using n(1) by (simp add: unat_of_nat)
  show fresh: "has_table s j \<Longrightarrow> table_frame s j \<noteq> ?f" for j
    using space_okD(4)[OF assms(1)] n(2) f by metis
  have "has_table s 1023" "table_frame s 1023 = directory s" using space_okD(1)[OF assms(1)] by (simp_all add: recursive_def)
  then show d: "directory s \<noteq> ?f" using fresh by metis
  have "unat ?p mod 4096 = 0" using n(3) by simp
  note e = entry_fields[OF this, of flags]
  have "entry_frame ?p = ?f" using n(3) f by (simp add: word_unat_eq_iff unat_entry_frame)
  note e = e[unfolded this]
  have entry: "dir_entry (new_table s virt flags n) j = (if j = dir_of virt then ?e else dir_entry s j)" for j
    using d by (simp add: new_table_def poke_with_frame dir_entry_def[of s] directory_def[symmetric])
  show "directory (new_table s virt flags n) = directory s" by (simp add: new_table_def poke_with_frame)
  show "has_table (new_table s virt flags n) j \<longleftrightarrow> j = dir_of virt \<or> has_table s j"
    using e(3,5) assms(3) by (auto simp: has_table_def entry)
  show "dir_entry (new_table s virt flags n) j = (if j = dir_of virt then dir_entry (new_table s virt flags n) j else dir_entry s j)"
    by (simp add: entry)
  show "table_frame (new_table s virt flags n) j = (if j = dir_of virt then ?f else table_frame s j)"
    using e(1) by (simp add: table_frame_def entry)
  show "ram (new_table s virt flags n) ?f = (\<lambda>_. 0)" by (simp add: new_table_def)
  show "g \<noteq> ?f \<Longrightarrow> g \<noteq> directory s \<Longrightarrow> ram (new_table s virt flags n) g = ram s g"
    by (simp add: new_table_def poke_with_frame)
qed

lemma new_table_space:
  assumes "space_ok s" "\<not> entry_present (dir_entry s (dir_of virt))" "\<not> bit flags 7"
    and n: "n < 2 ^ 20" "\<not> block_used s n" "unat (of_nat n * PMM_BLOCK_SIZE) = n * 4096"
      "block_used (mmap_set (of_nat n) s) = (\<lambda>m. m = n \<or> block_used s m)" "pmm_ok (mmap_set (of_nat n) s)"
  shows "space_ok (new_table s virt flags n)"
    "dir_of v \<noteq> 1023 \<Longrightarrow> translate (new_table s virt flags n) v = translate s v"
    "page_entry (new_table s virt flags n) virt = 0"
proof -
  note t = new_table_fields[OF assms(1-3) n(1-3)]
  have used: "block_used (new_table s virt flags n) m \<longleftrightarrow> m = n \<or> block_used s m" for m
    by (simp add: new_table_def poke_with_frame n(4))
  have last: "has_table s 1023" "table_frame s 1023 = directory s" "dir_of virt \<noteq> 1023"
    using space_okD(1)[OF assms(1)] assms(2) by (auto simp: recursive_def has_table_def)
  have "recursive (new_table s virt flags n)"
    using last unfolding recursive_def t(1,3,5) by simp
  moreover have "pmm_ok (new_table s virt flags n)" using n(5) by (simp add: new_table_def poke_with_frame)
  moreover have "i = j" if "has_table (new_table s virt flags n) i" "has_table (new_table s virt flags n) j"
    "table_frame (new_table s virt flags n) i = table_frame (new_table s virt flags n) j" for i j
    using that space_okD(3)[OF assms(1)] t(6) unfolding t(3,5) by (metis (full_types))
  moreover have "block_used (new_table s virt flags n) (unat (table_frame (new_table s virt flags n) i))"
    if "has_table (new_table s virt flags n) i" for i
    using that space_okD(4)[OF assms(1)] t(2) unfolding used t(3,5) by auto
  ultimately show "space_ok (new_table s virt flags n)" unfolding space_ok_def by blast
  show pe: "page_entry (new_table s virt flags n) virt = 0"
    unfolding page_entry_def t(5) by (simp add: t(8))
  assume v: "dir_of v \<noteq> 1023"
  show "translate (new_table s virt flags n) v = translate s v"
  proof (cases "dir_of v = dir_of virt")
    case True
    have "has_table (new_table s virt flags n) (dir_of v)" using True by (simp add: t(3))
    moreover have "ram (new_table s virt flags n) (table_frame (new_table s virt flags n) (dir_of v)) (table_of v) = 0"
      using True by (simp add: t(5,8))
    ultimately have "translate (new_table s virt flags n) v = None"
      by (simp add: translate_eq has_table_def table_frame_def Let_def entry_present_def)
    moreover have "translate s v = None" using True assms(2) by (simp add: translate_eq)
    ultimately show ?thesis by simp
  next
    case False
    have d: "dir_entry (new_table s virt flags n) (dir_of v) = dir_entry s (dir_of v)"
      using False by (subst t(4)) simp
    moreover have "has_table s (dir_of v) \<Longrightarrow> ram (new_table s virt flags n) (table_frame s (dir_of v)) = ram s (table_frame s (dir_of v))"
      using t(6,9) space_okD(5)[OF assms(1) _ v] by blast
    ultimately show ?thesis by (intro translate_cong) simp_all
  qed
qed

lemma paging_get_page_present:
  assumes "unat virt mod 4096 = 0" "recursive s" "entry_present (dir_entry s (dir_of virt))"
  shows "paging_get_page virt create flags s = Ok (page_entry_addr virt) s"
  using assms by (simp add: paging_get_page_aligned)

lemma paging_get_page_absent:
  assumes "unat virt mod 4096 = 0" "recursive s" "\<not> entry_present (dir_entry s (dir_of virt))"
  shows "paging_get_page virt False flags s = Ok 0 s"
  using assms by (simp add: paging_get_page_aligned)

lemma paging_get_page_creates:
  assumes "unat virt mod 4096 = 0" "space_ok s" "\<not> entry_present (dir_entry s (dir_of virt))" "\<not> bit flags 7"
    and "roomy s (Suc k)"
  obtains n where "paging_get_page virt True flags s = Ok (page_entry_addr virt) (new_table s virt flags n)"
    "n < 2 ^ 20" "\<not> block_used s n" "unat (of_nat n * PMM_BLOCK_SIZE) = n * 4096"
    "block_used (mmap_set (of_nat n) s) = (\<lambda>m. m = n \<or> block_used s m)" "pmm_ok (mmap_set (of_nat n) s)"
    "roomy (new_table s virt flags n) k" "pmm_alloc_page s = Ok (of_nat n * PMM_BLOCK_SIZE) (mmap_set (of_nat n) s)"
proof -
  from roomy_alloc[OF space_okD(2)[OF assms(2)] assms(5)] obtain n where
    n: "pmm_alloc_page s = Ok (of_nat n * PMM_BLOCK_SIZE) (mmap_set (of_nat n) s)"
    "n < 2 ^ 20" "\<not> block_used s n" "unat (of_nat n * PMM_BLOCK_SIZE) = n * 4096"
    "block_used (mmap_set (of_nat n) s) = (\<lambda>m. m = n \<or> block_used s m)" "pmm_ok (mmap_set (of_nat n) s)"
    "roomy (mmap_set (of_nat n) s) k" .
  let ?s1 = "mmap_set (of_nat n) s" and ?d = "directory s" and ?i = "dir_of virt" and ?f = "of_nat n :: frame"
  let ?e = "of_nat n * PMM_BLOCK_SIZE OR PAGE_PRESENT OR PAGE_RW OR (flags AND PAGE_FLAGS)"
  let ?s2 = "poke ?d ?i ?e ?s1"
  note t = new_table_fields[OF assms(2-4) n(2-4)]
  have rec: "recursive s" using space_okD(1)[OF assms(2)] .
  have rec1: "recursive ?s1" using rec by (simp add: recursive_def has_table_def table_frame_def)
  have i: "?i \<noteq> 1023" using rec assms(3) by (auto simp: recursive_def has_table_def)
  have entry2: "dir_entry ?s2 j = (if j = ?i then ?e else dir_entry s j)" for j
    by (simp add: poke_with_frame dir_entry_def[of s] directory_def[symmetric])
  have d2: "directory ?s2 = ?d" by (simp add: poke_with_frame)
  have rec2: "recursive ?s2" using rec i by (simp add: recursive_def has_table_def table_frame_def entry2 d2)
  have p: "unat (of_nat n * PMM_BLOCK_SIZE) mod 4096 = 0" using n(4) by simp
  note e = entry_fields[OF p, of flags]
  have "entry_frame (of_nat n * PMM_BLOCK_SIZE) = ?f" using n(4) t(2) by (simp add: word_unat_eq_iff unat_entry_frame)
  then have tf: "table_frame ?s2 ?i = ?f" using e(1) by (simp add: table_frame_def entry2)
  have stable: "stable_page ?s2 (table_addr virt) ?f"
    using stable_table[OF rec2, of virt] tf t(7) e(3) by (simp add: entry2 d2)
  have w: "write32 (dir_entry_addr virt) ?e ?s1 = Ok () ?s2"
    using dir_entry_access(2)[OF rec1] by simp
  have m: "virt_memset (table_addr virt) 0 4096 ?s2 = Ok () (new_table s virt flags n)"
    using virt_memset_page[OF stable] by (simp add: new_table_def)
  have "recursive (new_table s virt flags n)" using new_table_space(1)[OF assms(2-4) n(2-6)] by (rule space_okD)
  then have r: "read32 (dir_entry_addr virt) (new_table s virt flags n)
      = Ok (dir_entry (new_table s virt flags n) ?i) (new_table s virt flags n)" by (rule dir_entry_access)
  have "entry_present (dir_entry (new_table s virt flags n) ?i)" using t(3)[of ?i] by (simp add: has_table_def)
  then have "paging_get_page virt True flags s = Ok (page_entry_addr virt) (new_table s virt flags n)"
    using assms(1,3) rec n(1) w m r by (simp add: paging_get_page_aligned)
  then show ?thesis using that[OF _ n(2-6) _ n(1)] n(7) by (simp add: new_table_def poke_with_frame)
qed

section \<open>Mapping and unmapping\<close>

lemma same_page: "dir_of v = dir_of w \<and> table_of v = table_of w \<longleftrightarrow> unat v div 4096 = unat w div 4096"
proof -
  have split: "unat x div 4096 = (unat x div 2 ^ 22) * 1024 + unat x div 4096 mod 1024" for x :: u32
    by (simp add: div_mult2_eq[of _ 4096 1024, simplified])
  have "dir_of v = dir_of w \<longleftrightarrow> unat v div 2 ^ 22 = unat w div 2 ^ 22"
    by (simp only: word_unat_eq_iff unat_dir_of)
  moreover have "table_of v = table_of w \<longleftrightarrow> unat v div 4096 mod 1024 = unat w div 4096 mod 1024"
    by (simp only: word_unat_eq_iff unat_table_of)
  moreover have "unat v div 2 ^ 22 = unat v div 4096 div 1024" "unat w div 2 ^ 22 = unat w div 4096 div 1024"
    by (simp_all add: div_mult2_eq[symmetric])
  ultimately show ?thesis using split[of v] split[of w] by metis
qed

definition set_entry :: "'s vmm_scheme \<Rightarrow> u32 \<Rightarrow> u32 \<Rightarrow> 's vmm_scheme" where
  "set_entry s virt x = poke (table_frame s (dir_of virt)) (table_of virt) x s"

lemma set_entry_space:
  assumes "space_ok s" "has_table s (dir_of virt)" "dir_of virt \<noteq> 1023"
  shows "dir_entry (set_entry s virt x) j = dir_entry s j" "directory (set_entry s virt x) = directory s"
    "space_ok (set_entry s virt x)" "roomy (set_entry s virt x) k = roomy s k"
    "translate (set_entry s virt x) v =
      (if unat v div 4096 = unat virt div 4096 then if entry_present x then Some (entry_frame x) else None
       else translate s v)"
proof -
  let ?f = "table_frame s (dir_of virt)" and ?s = "set_entry s virt x"
  have f: "?f \<noteq> directory s" by (rule space_okD(5)[OF assms])
  show d: "dir_entry ?s j = dir_entry s j" for j using f by (simp add: set_entry_def poke_with_frame)
  show dir: "directory ?s = directory s" by (simp add: set_entry_def poke_with_frame)
  have t: "has_table ?s j = has_table s j" "table_frame ?s j = table_frame s j" for j
    by (simp_all add: has_table_def table_frame_def d)
  have "block_used ?s = block_used s" "pmm_ok ?s = pmm_ok s" by (simp_all add: set_entry_def poke_with_frame)
  then show "space_ok ?s" using assms(1) by (simp add: space_ok_def recursive_def t dir)
  show "roomy ?s k = roomy s k" by (simp add: set_entry_def poke_with_frame)
  show "translate ?s v = (if unat v div 4096 = unat virt div 4096 then if entry_present x then Some (entry_frame x) else None
       else translate s v)"
  proof (cases "unat v div 4096 = unat virt div 4096")
    case True
    then have v: "dir_of v = dir_of virt" "table_of v = table_of virt" using same_page by blast+
    have "ram ?s (entry_frame (dir_entry s (dir_of virt))) (table_of virt) = x"
      by (simp add: set_entry_def poke_with_frame table_frame_def)
    then show ?thesis using True v assms(2) by (simp add: translate_eq d has_table_def)
  next
    case False
    have "ram ?s (table_frame s (dir_of v)) (table_of v) = ram s (table_frame s (dir_of v)) (table_of v)"
      if "has_table s (dir_of v)"
    proof (cases "dir_of v = dir_of virt")
      case True
      then have "table_of v \<noteq> table_of virt" using False same_page by blast
      then show ?thesis by (simp add: set_entry_def poke_with_frame)
    next
      case dv: False
      then have "table_frame s (dir_of v) \<noteq> ?f" using space_okD(3)[OF assms(1) that assms(2)] by blast
      then show ?thesis by (simp add: set_entry_def poke_with_frame)
    qed
    then have "translate ?s v = translate s v" using d by (intro translate_cong) simp_all
    with False show ?thesis by simp
  qed
qed

lemma set_entry_write:
  assumes "space_ok s" "has_table s (dir_of virt)"
  shows "write32 (page_entry_addr virt) x s = Ok () (set_entry s virt x)"
  using page_entry_access(2)[OF space_okD(1)[OF assms(1)]] assms(2) by (simp add: set_entry_def has_table_def)

text \<open>The page table for \<open>virt\<close> is there or is made.\<close>

lemma paging_get_page_ready:
  assumes "unat virt mod 4096 = 0" "space_ok s" "dir_of virt \<noteq> 1023" "translate s virt = None" "\<not> bit flags 7"
    and "roomy s (Suc k)"
  obtains s' where "paging_get_page virt True flags s = Ok (page_entry_addr virt) s'" "space_ok s'" "has_table s' (dir_of virt)"
    "\<not> entry_present (page_entry s' virt)" "roomy s' k" "pages_changed s s'"
    "\<And>v. dir_of v \<noteq> 1023 \<Longrightarrow> translate s' v = translate s v" "large_pages s' = large_pages s"
proof (cases "entry_present (dir_entry s (dir_of virt))")
  case True
  then have t: "has_table s (dir_of virt)" "\<not> entry_present (page_entry s virt)"
    using assms(4) by (auto simp: translate_eq has_table_def page_entry_def table_frame_def Let_def split: if_splits)
  show ?thesis
    using that[OF paging_get_page_present[OF assms(1) space_okD(1)[OF assms(2)] True] assms(2) t roomy_mono[OF assms(6)]]
    by simp
next
  case False
  from paging_get_page_creates[OF assms(1,2) False assms(5,6)] obtain n where
    g: "paging_get_page virt True flags s = Ok (page_entry_addr virt) (new_table s virt flags n)"
    and n: "n < 2 ^ 20" "\<not> block_used s n" "unat (of_nat n * PMM_BLOCK_SIZE) = n * 4096"
      "block_used (mmap_set (of_nat n) s) = (\<lambda>m. m = n \<or> block_used s m)" "pmm_ok (mmap_set (of_nat n) s)"
    and r: "roomy (new_table s virt flags n) k" by blast
  note sp = new_table_space[OF assms(2) False assms(5) n]
  note t = new_table_fields[OF assms(2) False assms(5) n(1-3)]
  have changed: "pages_changed s (new_table s virt flags n)" unfolding new_table_def poke_with_frame by blast
  have large: "large_pages (new_table s virt flags n) = large_pages s"
  proof -
    have "has_table (new_table s virt flags n) (dir_of virt)" by (simp add: t(3))
    moreover have "dir_entry (new_table s virt flags n) j = dir_entry s j" if "j \<noteq> dir_of virt" for j
      by (subst t(4)) (simp add: that)
    ultimately show ?thesis using False by (auto simp: large_pages_def has_table_def) metis+
  qed
  show ?thesis
    by (rule that[OF g sp(1) _ _ r changed sp(2) large]) (simp_all add: t(3) sp(3) entry_present_def)
qed

lemma paging_map_page_runs:
  assumes "unat virt mod 4096 = 0" "unat phys mod 4096 = 0" "space_ok s" "dir_of virt \<noteq> 1023" "translate s virt = None"
    "\<not> bit flags 7" "roomy s (Suc k)"
  obtains s' where "paging_map_page virt phys flags s = Ok () s'" "space_ok s'" "roomy s' k" "pages_changed s s'"
    "\<And>v. dir_of v \<noteq> 1023 \<Longrightarrow> translate s' v =
       (if unat v div 4096 = unat virt div 4096 then Some (entry_frame phys) else translate s v)"
    "large_pages s' = large_pages s"
proof -
  from paging_get_page_ready[OF assms(1,3-7)] obtain s1 where
    s1: "paging_get_page virt True flags s = Ok (page_entry_addr virt) s1" "space_ok s1" "has_table s1 (dir_of virt)"
      "\<not> entry_present (page_entry s1 virt)" "roomy s1 k" "pages_changed s s1"
    and tr: "\<And>v. dir_of v \<noteq> 1023 \<Longrightarrow> translate s1 v = translate s v" and large: "large_pages s1 = large_pages s" by blast
  let ?x = "phys OR PAGE_PRESENT OR (flags AND PAGE_FLAGS)"
  note x = entry_fields[OF assms(2), of flags]
  note set = set_entry_space[OF s1(2,3) assms(4), of ?x]
  have "read32 (page_entry_addr virt) s1 = Ok (page_entry s1 virt) s1"
    using page_entry_access(1)[OF space_okD(1)[OF s1(2)]] s1(3) by (simp add: has_table_def)
  then have "paging_map_page virt phys flags s = Ok () (set_entry s1 virt ?x)"
    using s1(1,4) set_entry_write[OF s1(2,3)] by (simp add: paging_map_page_def paging_invalidate_page_def)
  moreover have "pages_changed s (set_entry s1 virt ?x)"
    using s1(6) unfolding set_entry_def poke_with_frame by blast
  moreover have "large_pages (set_entry s1 virt ?x) = large_pages s" using large by (simp add: large_pages_def set(1))
  ultimately show ?thesis
    using that set(3-5) s1(5) x(2,4) tr by simp
qed

text \<open>A run of pages, by induction on their number.\<close>

lemma page_address:
  assumes "unat p mod 4096 = 0" "unat p + n * 4096 \<le> 2 ^ 32" "k < n"
  shows "unat (p + of_nat k * PAGE_SIZE) = unat p + k * 4096" "unat (p + of_nat k * PAGE_SIZE) mod 4096 = 0"
proof -
  have k: "k * 4096 < 2 ^ 32" "unat p + k * 4096 < 2 ^ 32" using assms(2,3) by linarith+
  have "of_nat k * PAGE_SIZE = (of_nat (k * 4096) :: u32)" by (simp add: PAGE_SIZE_def)
  then have "unat (of_nat k * PAGE_SIZE :: u32) = k * 4096" using k(1) by (simp only: of_nat_unat_u32)
  then show u: "unat (p + of_nat k * PAGE_SIZE) = unat p + k * 4096" using k(2) by (rule unat_sum2[OF refl])
  show "unat (p + of_nat k * PAGE_SIZE) mod 4096 = 0" unfolding u using assms(1) by simp
qed

lemma div_range:
  assumes "0 < d"
  shows "(x :: nat) div d = q \<longleftrightarrow> q * d \<le> x \<and> x < q * d + d"
proof
  assume "x div d = q"
  then show "q * d \<le> x \<and> x < q * d + d"
    using div_mult_mod_eq[of x d] mod_less_divisor[OF assms, of x] by auto
next
  assume "q * d \<le> x \<and> x < q * d + d"
  then show "x div d = q" by (intro div_nat_eqI) (simp_all add: mult.commute)
qed

lemma dir_of_below: "unat v < 0xFFC00000 \<Longrightarrow> dir_of v \<noteq> 1023"
proof
  assume "unat v < 0xFFC00000" "dir_of v = 1023"
  then have "unat v div 2 ^ 22 = 1023" using unat_dir_of[of v] by simp
  then show False using \<open>unat v < 0xFFC00000\<close> by (simp add: div_range)
qed

lemma mapped_frame:
  assumes "unat p mod 4096 = 0" "unat q mod 4096 = 0" "unat v div 4096 = unat p div 4096 + k" "unat q + k * 4096 + 4096 \<le> 2 ^ 32"
    "unat (q' :: u32) = unat q + k * 4096"
  shows "entry_frame q' = entry_frame (q + (v - p))" "unat p \<le> unat v"
proof -
  obtain a b where ab: "unat p = 4096 * a" "unat q = 4096 * b" using assms(1,2) by (metis mod_0_imp_dvd dvdE)
  have v: "unat v = 4096 * (a + k) + unat v mod 4096" using assms(3) ab(1) by (metis mult_div_mod_eq nonzero_mult_div_cancel_left zero_neq_numeral)
  then show le: "unat p \<le> unat v" using ab(1) by simp
  then have "unat (v - p) = unat v - unat p" by (simp add: unat_sub word_le_nat_alt)
  then have "unat (q + (v - p)) = unat q + (unat v - unat p)"
    by (rule unat_sum2[OF refl]) (use assms(4) v ab in simp)
  then have "unat (q + (v - p)) div 4096 = b + k" using v ab by simp
  moreover have "unat q' div 4096 = b + k" using assms(5) ab(2) by simp
  ultimately show "entry_frame q' = entry_frame (q + (v - p))" by (simp add: word_unat_eq_iff unat_entry_frame)
qed

lemma paging_map_pages_runs:
  assumes "unat virt mod 4096 = 0" "unat phys mod 4096 = 0" "space_ok s"
    and "unat virt + unat num * 4096 \<le> 0xFFC00000" "unat phys + unat num * 4096 \<le> 2 ^ 32"
    and none: "\<And>v. unat virt \<le> unat v \<Longrightarrow> unat v < unat virt + unat num * 4096 \<Longrightarrow> translate s v = None"
    and "\<not> bit flags 7" "roomy s (unat num + k)"
  obtains s' where "paging_map_pages virt phys num flags s = Ok () s'" "space_ok s'" "roomy s' k" "pages_changed s s'"
    "\<And>v. dir_of v \<noteq> 1023 \<Longrightarrow> translate s' v =
       (if unat virt \<le> unat v \<and> unat v < unat virt + unat num * 4096 then Some (entry_frame (phys + (v - virt)))
        else translate s v)"
proof -
  let ?T = "\<lambda>j v. if unat virt \<le> unat v \<and> unat v < unat virt + j * 4096 then Some (entry_frame (phys + (v - virt)))
    else translate s v"
  let ?I = "\<lambda>j t. space_ok t \<and> roomy t (unat num - j + k) \<and> pages_changed s t
    \<and> (\<forall>v. dir_of v \<noteq> 1023 \<longrightarrow> translate t v = ?T j v)"
  let ?f = "\<lambda>i. paging_map_page (virt + of_nat i * PAGE_SIZE) (phys + of_nat i * PAGE_SIZE) flags"
  have base: "unat virt div 4096 * 4096 = unat virt" using div_mult_mod_eq[of "unat virt" 4096] assms(1) by simp
  have virt_le: "unat virt + unat num * 4096 \<le> 2 ^ 32" using assms(4) by simp
  have "wp (foreach [0..<unat num] ?f) (\<lambda>_. ?I (length [0..<unat num])) s"
  proof (rule wp_foreach)
    show "?I 0 s" using assms(3,8) by auto
  next
    fix j t assume "j < length [0..<unat num]" and I: "?I j t"
    then have j: "j < unat num" by simp
    let ?v = "virt + of_nat j * PAGE_SIZE" and ?p = "phys + of_nat j * PAGE_SIZE"
    note av = page_address[OF assms(1) virt_le j] and ap = page_address[OF assms(2,5) j]
    have dir: "dir_of ?v \<noteq> 1023" by (rule dir_of_below) (use av(1) assms(4) j in linarith)
    have "translate t ?v = translate s ?v" using I dir av(1) by simp
    also have "\<dots> = None" by (rule none) (use av(1) j in simp_all)
    finally have absent: "translate t ?v = None" .
    have room: "roomy t (Suc (unat num - Suc j + k))" using I j by (simp add: Suc_diff_Suc)
    have sp: "space_ok t" using I by blast
    obtain t' where
      t': "?f j t = Ok () t'" "space_ok t'" "roomy t' (unat num - Suc j + k)" "pages_changed t t'"
      and tr: "\<And>v. dir_of v \<noteq> 1023 \<Longrightarrow> translate t' v =
        (if unat v div 4096 = unat ?v div 4096 then Some (entry_frame ?p) else translate t v)"
      by (rule paging_map_page_runs[OF av(2) ap(2) sp dir absent assms(7) room]) (rule that; assumption)
    have "translate t' v = ?T (Suc j) v" if v: "dir_of v \<noteq> 1023" for v
    proof (cases "unat v div 4096 = unat ?v div 4096")
      case True
      then have d: "unat v div 4096 = unat virt div 4096 + j" using av(1) by simp
      have "unat phys + j * 4096 + 4096 \<le> 2 ^ 32" using assms(5) j by linarith
      note m = mapped_frame[OF assms(1,2) d this ap(1)]
      have "unat v < unat virt + Suc j * 4096" using d by (simp add: div_range distrib_right base)
      then show ?thesis using tr[OF v] True m by simp
    next
      case False
      then have "unat v div 4096 \<noteq> unat virt div 4096 + j" using av(1) by simp
      then have "(unat virt \<le> unat v \<and> unat v < unat virt + Suc j * 4096) =
          (unat virt \<le> unat v \<and> unat v < unat virt + j * 4096)"
        by (auto simp: div_range distrib_right base)
      then show ?thesis using tr[OF v] False I v by simp
    qed
    then show "wp (?f ([0..<unat num] ! j)) (\<lambda>_. ?I (Suc j)) t"
      using t' I j pages_changed_trans[of s t t'] by (simp add: wp_def)
  qed
  then obtain s' where s': "paging_map_pages virt phys num flags s = Ok () s'" "?I (unat num) s'"
    unfolding paging_map_pages_def by (auto dest!: wp_OkD)
  then show ?thesis by (intro that[of s']) simp_all
qed

text \<open>Unmapping clears the present bit of the entry.\<close>

lemma clear_present: "\<not> entry_present (e AND NOT PAGE_PRESENT)"
  by (simp add: entry_present_def bit_simps page_bits)

lemma paging_unmap_page_runs:
  assumes "unat virt mod 4096 = 0" "space_ok s" "dir_of virt \<noteq> 1023" "dir_of virt \<notin> large_pages s" "quiet (con s)"
  obtains s' where "paging_unmap_page virt s = Ok () s'" "space_ok s'" "directory s' = directory s"
    "\<And>v. translate s' v = (if unat v div 4096 = unat virt div 4096 then None else translate s v)"
    "quiet (con s')" "\<And>k. roomy s' k = roomy s k" "large_pages s' = large_pages s"
proof (cases "entry_present (dir_entry s (dir_of virt))")
  case True
  then have t: "has_table s (dir_of virt)" using assms(4) by (simp add: has_table_def large_pages_def)
  let ?x = "page_entry s virt AND NOT PAGE_PRESENT"
  note set = set_entry_space[OF assms(2) t assms(3), of ?x]
  have rec: "recursive s" using assms(2) by (rule space_okD)
  have "paging_unmap_page virt s = Ok () (set_entry s virt ?x)"
    using paging_get_page_present[OF assms(1) rec True] page_entry_access(1)[OF rec True] set_entry_write[OF assms(2) t]
    by (simp add: paging_unmap_page_def paging_invalidate_page_def)
  moreover have "con (set_entry s virt ?x) = con s" by (simp add: set_entry_def poke_def)
  moreover have "large_pages (set_entry s virt ?x) = large_pages s" by (simp add: large_pages_def set(1))
  ultimately show ?thesis using that set(2-5) assms(5) by (simp add: clear_present)
next
  case False
  let ?fmt = "''[VMM] Tried to unmap a page that doesn't exist with virt address %p\<newline>''"
  have "format_text ?fmt [Num virt] \<noteq> None" "format_modes resting ?fmt = Some resting" "list_all plain_arg [Num virt]"
    by (simp_all add: format_eval)
  from kprintf_returns[OF this assms(5)] obtain t where
    run: "kprintf ?fmt [Num virt] s = Ok () (s\<lparr>con := t\<rparr>)" and t: "quiet t" .
  then have "paging_unmap_page virt s = Ok () (s\<lparr>con := t\<rparr>)"
    using paging_get_page_absent[OF assms(1) space_okD(1)[OF assms(2)] False] by (simp add: paging_unmap_page_def)
  moreover have "space_ok (s\<lparr>con := t\<rparr>)"
    using assms(2) by (simp add: space_ok_def recursive_def has_table_def table_frame_def)
  moreover have "translate s v = None" if "unat v div 4096 = unat virt div 4096" for v
  proof -
    have "dir_of v = dir_of virt" using that same_page by blast
    then show ?thesis using False by (simp add: translate_eq)
  qed
  moreover have "large_pages (s\<lparr>con := t\<rparr>) = large_pages s" "roomy (s\<lparr>con := t\<rparr>) k = roomy s k" for k
    by (simp_all add: large_pages_def roomy_def searched_def block_used_def)
  ultimately show ?thesis using that t by simp
qed

section \<open>Looking addresses up\<close>

lemma bit_PAGE_FRAME: "bit PAGE_FRAME k \<longleftrightarrow> 12 \<le> k \<and> k < 32"
proof -
  have f: "PAGE_FRAME = NOT (mask 12)" by (simp add: PAGE_FRAME_def mask_eq_exp_minus_1)
  show ?thesis unfolding f by (auto simp: bit_simps)
qed

lemma page_of_address:
  "dir_of (v AND PAGE_FRAME) = dir_of v" "table_of (v AND PAGE_FRAME) = table_of v" "unat (v AND PAGE_FRAME) mod 4096 = 0"
proof -
  show "dir_of (v AND PAGE_FRAME) = dir_of v" "table_of (v AND PAGE_FRAME) = table_of v"
    by (rule bit_word_eqI; auto simp: dir_of_def table_of_def DIRECTORY_INDEX_def TABLE_INDEX_def bit_simps bit_PAGE_FRAME)+
  have "take_bit 12 (v AND PAGE_FRAME) = 0" by (rule bit_word_eqI) (auto simp: bit_simps bit_PAGE_FRAME)
  then have "unat (take_bit 12 (v AND PAGE_FRAME)) = 0" by simp
  then show "unat (v AND PAGE_FRAME) mod 4096 = 0" by (simp only: unsigned_take_bit_eq) (simp add: take_bit_eq_mod)
qed

lemma entry_address: "e AND PAGE_FRAME = push_bit 12 (ucast (entry_frame e))"
  by (rule bit_word_eqI) (auto simp: entry_frame_def bit_simps bit_PAGE_FRAME)

lemma page_entry_page: "page_entry s (v AND PAGE_FRAME) = page_entry s v"
  by (simp add: page_entry_def page_of_address)

lemma paging_virt_to_phys_value:
  assumes "recursive s"
  shows "paging_virt_to_phys v s =
    (if entry_present (dir_entry s (dir_of v)) then Ok ((page_entry s v AND PAGE_FRAME) + PAGE_OFFSET v) s else Ok 0 s)"
proof -
  note a = page_of_address[of v]
  show ?thesis
  proof (cases "entry_present (dir_entry s (dir_of v))")
    case True
    then have p: "entry_present (dir_entry s (dir_of (v AND PAGE_FRAME)))" by (simp add: a(1))
    show ?thesis using True paging_get_page_present[OF a(3) assms p] page_entry_access(1)[OF assms p]
      by (simp add: paging_virt_to_phys_def page_entry_page)
  next
    case False
    then have p: "\<not> entry_present (dir_entry s (dir_of (v AND PAGE_FRAME)))" by (simp add: a(1))
    show ?thesis using False paging_get_page_absent[OF a(3) assms p] by (simp add: paging_virt_to_phys_def)
  qed
qed

section \<open>Page faults\<close>

text \<open>A message followed by something that stops the kernel stops it.\<close>

definition stops :: "('s console_scheme, 'a) action \<Rightarrow> 's console_scheme \<Rightarrow> bool" where
  "stops m s \<longleftrightarrow> (\<forall>t. quiet t \<longrightarrow> (\<exists>u. m (s\<lparr>con := t\<rparr>) = Exit Abort (s\<lparr>con := u\<rparr>)))"

lemma stops_kabort: "stops (kabort :: ('s console_scheme, 'a) action) s"
  unfolding stops_def
proof (intro allI impI)
  fix t assume "quiet t"
  then have "quiet (con (s\<lparr>con := t\<rparr>))" by simp
  from kabort_exits[OF this] obtain u where
    "(kabort :: ('s console_scheme, 'a) action) (s\<lparr>con := t\<rparr>) = Exit Abort (s\<lparr>con := t\<rparr>\<lparr>con := u\<rparr>)" .
  then have "(kabort :: ('s console_scheme, 'a) action) (s\<lparr>con := t\<rparr>) = Exit Abort (s\<lparr>con := u\<rparr>)" by simp
  then show "\<exists>u. (kabort :: ('s console_scheme, 'a) action) (s\<lparr>con := t\<rparr>) = Exit Abort (s\<lparr>con := u\<rparr>)" by blast
qed

lemma stops_print:
  assumes "format_text fmt args \<noteq> None" "format_modes resting fmt = Some resting" "list_all plain_arg args" "stops m s"
  shows "stops (before (kprintf fmt args) m) s"
  unfolding stops_def
proof (intro allI impI)
  fix t assume "quiet t"
  then have "quiet (con (s\<lparr>con := t\<rparr>))" by simp
  from kprintf_returns[OF assms(1-3) this] obtain u where
    u: "kprintf fmt args (s\<lparr>con := t\<rparr>) = Ok () (s\<lparr>con := t\<rparr>\<lparr>con := u\<rparr>)" "quiet u" .
  obtain w where "m (s\<lparr>con := u\<rparr>) = Exit Abort (s\<lparr>con := w\<rparr>)" using assms(4) u(2) by (auto simp: stops_def)
  then have "before (kprintf fmt args) m (s\<lparr>con := t\<rparr>) = Exit Abort (s\<lparr>con := w\<rparr>)" using u(1) by simp
  then show "\<exists>w. before (kprintf fmt args) m (s\<lparr>con := t\<rparr>) = Exit Abort (s\<lparr>con := w\<rparr>)" by blast
qed

lemma stops_cong: "(\<And>t. m (s\<lparr>con := t\<rparr>) = k (s\<lparr>con := t\<rparr>)) \<Longrightarrow> stops k s \<Longrightarrow> stops m s"
  by (simp add: stops_def)

lemma stops_apply: "stops m s \<Longrightarrow> quiet (con s) \<Longrightarrow> \<exists>u. m s = Exit Abort (s\<lparr>con := u\<rparr>)"
  unfolding stops_def by (metis console.surjective console.update_convs(1))

lemma stops_fault_tail:
  fixes s :: "'s vmm_scheme"
  assumes "recursive s" "list_all plain a" "list_all plain b"
  shows "stops (andthen (paging_get_page (v AND PAGE_FRAME) False 0) (\<lambda>page.
         before (if page \<noteq> 0 then andthen (read32 page) (\<lambda>e.
                   kprintf ''The page was in %s mode.\<newline>'' [Str (Some (if entry_user e then ''user'' else ''kernel''))])
                 else ret ())
        (before (kprintf ''The reserved bits %s overwritten.\<newline>'' [Str (Some a)])
        (before (kprintf ''The fault %s during an instruction fetch.\<newline>'' [Str (Some b)])
                kabort)))) s" (is "stops (andthen ?get (\<lambda>page. before (?mode page) ?rest)) s")
proof -
  have rest: "stops ?rest s"
    using assms(2,3) by (intro stops_print stops_kabort) (simp_all add: format_eval)
  have a: "unat (v AND PAGE_FRAME) mod 4096 = 0" by (rule page_of_address)
  have same: "recursive (s\<lparr>con := t\<rparr>)" for t
    using assms(1) by (simp add: recursive_def has_table_def table_frame_def)
  show ?thesis
  proof (cases "entry_present (dir_entry s (dir_of (v AND PAGE_FRAME)))")
    case True
    let ?e = "page_entry s v"
    have "stops (before (kprintf ''The page was in %s mode.\<newline>'' [Str (Some (if entry_user ?e then ''user'' else ''kernel''))]) ?rest) s"
      by (intro stops_print rest) (simp_all add: format_eval plain_def)
    moreover have "andthen ?get (\<lambda>page. before (?mode page) ?rest) (s\<lparr>con := t\<rparr>) =
        before (kprintf ''The page was in %s mode.\<newline>'' [Str (Some (if entry_user ?e then ''user'' else ''kernel''))]) ?rest (s\<lparr>con := t\<rparr>)" for t
    proof -
      have "page_entry (s\<lparr>con := t\<rparr>) (v AND PAGE_FRAME) = ?e"
        by (simp add: page_entry_def table_frame_def page_of_address)
      then show ?thesis
        using True paging_get_page_present[OF a same] page_entry_access(1)[OF same, of t "v AND PAGE_FRAME"]
        by (simp add: before_def andthen_def)
    qed
    ultimately show ?thesis by (rule stops_cong[rotated])
  next
    case False
    then have "andthen ?get (\<lambda>page. before (?mode page) ?rest) (s\<lparr>con := t\<rparr>) = ?rest (s\<lparr>con := t\<rparr>)" for t
      using paging_get_page_absent[OF a same] by simp
    then show ?thesis using rest by (rule stops_cong)
  qed
qed

text \<open>The handler of page faults ends every fault.\<close>

lemma paging_fault_handler_stops:
  assumes "recursive s"
  shows "stops (paging_fault_handler regs) s"
proof (rule stops_cong)
  let ?err = "r_err_code regs" and ?v = "cr2 s"
  let ?c = "\<lambda>m a b. Str (Some (if ?err AND m \<noteq> 0 then a else b))"
  let ?tail = "andthen (paging_get_page (?v AND PAGE_FRAME) False 0) (\<lambda>page.
         before (if page \<noteq> 0 then andthen (read32 page) (\<lambda>e.
                   kprintf ''The page was in %s mode.\<newline>'' [Str (Some (if entry_user e then ''user'' else ''kernel''))])
                 else ret ())
        (before (kprintf ''The reserved bits %s overwritten.\<newline>'' [?c 0x08 ''were'' ''weren't''])
        (before (kprintf ''The fault %s during an instruction fetch.\<newline>'' [?c 0x10 ''occured'' ''didn't occur''])
                kabort)))"
  let ?all = "before (kprintf (CHR 0x1B # ''[37;44m'') [])
        (before (kprintf ''The page at 0x%X %s present '' [Num ?v, ?c 0x01 ''was'' ''wasn't''])
        (before (kprintf ''when a process tried to %s it.\<newline>'' [?c 0x02 ''write to'' ''read from''])
        (before (kprintf ''This process was in %s mode.\<newline>'' [?c 0x04 ''user'' ''kernel'']) ?tail)))"
  show "paging_fault_handler regs (s\<lparr>con := t\<rparr>) = ?all (s\<lparr>con := t\<rparr>)" for t
    by (simp add: paging_fault_handler_def Let_def)
  have "stops ?tail s"
    by (rule stops_fault_tail[OF assms]) (simp_all add: plain_def)
  then show "stops ?all s"
    by (intro stops_print) (simp_all add: format_eval plain_def)
qed

section \<open>Initialisation\<close>

text \<open>
  The state \<open>boot.S\<close> leaves: the directory lies in the 4 MiB of the kernel, which are mapped at 0 and
  at 0xC0000000 as large pages, and nothing else is mapped.
\<close>

definition booted :: "u32 \<Rightarrow> 's vmm_scheme \<Rightarrow> bool" where
  "booted kdir s \<longleftrightarrow> unat kdir mod 4096 = 0 \<and> 0xC0000000 \<le> unat kdir \<and> unat kdir + 4096 \<le> 0xC0400000
     \<and> cr3 s = V2P kdir \<and> (\<forall>i. dir_entry s i = (if i = 0 \<or> i = 768 then 0x83 else 0))"

lemma unat_V2P: "0xC0000000 \<le> unat v \<Longrightarrow> unat (V2P v) = unat v - 0xC0000000"
  by (simp add: V2P_def unat_sub word_le_nat_alt)

lemma translate_kernel:
  assumes "dir_entry s 768 = 0x83" "0xC0000000 \<le> unat v" "unat v < 0xC0400000"
  shows "translate s v = Some (entry_frame (V2P v))" "dir_of v = 768"
proof -
  have "unat v div 2 ^ 22 = 768" using assms(2,3) by (simp add: div_range)
  then have "unat (dir_of v) = unat (768 :: 10 word)" by (simp add: unat_dir_of)
  then show d: "dir_of v = 768" by (simp only: word_unat_eq_iff)
  have "unat v div 4096 = (unat v - 0xC0000000) div 4096 + 768 * 1024" using assms(2) by (simp add: div_add_self2[symmetric] flip: div_mult_self1)
  moreover have "(unat v - 0xC0000000) div 4096 < 1024" using assms(3) by (simp add: less_mult_imp_div_less)
  ultimately have "unat v div 4096 mod 1024 = (unat v - 0xC0000000) div 4096"
    by (simp only: mod_mult_self1 mod_less)
  then have "unat (TABLE_INDEX v) = unat (entry_frame (V2P v))"
    using assms(2) by (simp add: unat_TABLE_INDEX unat_entry_frame unat_V2P)
  moreover have "unat (TABLE_INDEX v) < 1024" by (simp add: unat_TABLE_INDEX)
  ultimately have "ucast (TABLE_INDEX v) = entry_frame (V2P v)"
    by (simp add: word_unat_eq_iff unsigned_ucast_eq take_bit_nat_eq_self)
  then show "translate s v = Some (entry_frame (V2P v))"
    using d assms(1) by (simp add: translate_eq entry_present_def entry_large_def bit_numeral_rec)
qed

text \<open>The two writes through the kernel's own mapping: the recursive entry, and entry 0 cleared.\<close>

definition kernel_space :: "u32 \<Rightarrow> 's vmm_scheme \<Rightarrow> 's vmm_scheme" where
  "kernel_space kdir s = poke (directory s) 0 0 (poke (directory s) 1023 (V2P kdir OR PAGE_PRESENT OR PAGE_RW) s)"

lemma kernel_directory_word:
  assumes "booted kdir s" "k < 1024" "dir_entry s' 768 = 0x83" "cr3 s' = cr3 s"
  shows "write32 (kdir + 4 * of_nat k) x s' = Ok () (poke (directory s) (of_nat k) x s')"
proof -
  have b: "unat kdir mod 4096 = 0" "0xC0000000 \<le> unat kdir" "unat kdir + 4096 \<le> 0xC0400000" "cr3 s = V2P kdir"
    using assms(1) by (simp_all add: booted_def)
  have "4 * of_nat k = (of_nat (4 * k) :: u32)" by simp
  moreover have "unat (of_nat (4 * k) :: u32) = 4 * k" using assms(2) by (intro of_nat_unat_u32) simp
  ultimately have "unat (4 * of_nat k :: u32) = 4 * k" by (simp only:)
  then have u: "unat (kdir + 4 * of_nat k) = unat kdir + 4 * k"
    by (intro unat_sum2[OF refl]) (use b assms(2) in simp_all)
  have range: "0xC0000000 \<le> unat (kdir + 4 * of_nat k)" "unat (kdir + 4 * of_nat k) < 0xC0400000"
    using b assms(2) u by simp_all
  note tr = translate_kernel[OF assms(3) range]
  obtain q where q: "unat kdir = 4096 * q" using b(1) by (metis mod_0_imp_dvd dvdE)
  have p: "unat (V2P kdir) = 4096 * (q - 786432)" using b(2) q by (simp add: unat_V2P)
  have "unat (V2P (kdir + 4 * of_nat k)) = 4096 * (q - 786432) + 4 * k"
    unfolding unat_V2P[OF range(1)] u q using b(2) q by simp
  then have "unat (V2P (kdir + 4 * of_nat k)) div 4096 = unat (V2P kdir) div 4096" using assms(2) p by simp
  then have "unat (entry_frame (V2P (kdir + 4 * of_nat k))) = unat (entry_frame (V2P kdir))" by (simp only: unat_entry_frame)
  then have "entry_frame (V2P (kdir + 4 * of_nat k)) = directory s"
    unfolding directory_def b(4) by (simp only: word_unat_eq_iff)
  moreover have "word_of (kdir + 4 * of_nat k) = of_nat k"
  proof -
    have "unat kdir + 4 * k = (q * 1024 + k) * 4" using q by simp
    then have "(unat kdir + 4 * k) div 4 = q * 1024 + k" by (simp only: nonzero_mult_div_cancel_right)
    then have "(unat kdir + 4 * k) div 4 mod 1024 = k" using assms(2) by simp
    then show ?thesis using u assms(2) by (simp add: word_unat_eq_iff unat_word_of unat_of_nat)
  qed
  ultimately show ?thesis using tr(1) by (simp add: write32_def)
qed

lemma kernel_space_ok:
  assumes "booted kdir s" "pmm_ok s" "block_used s (unat (directory s))"
  shows "space_ok (kernel_space kdir s)" "directory (kernel_space kdir s) = directory s"
    "dir_entry (kernel_space kdir s) i = (if i = 1023 then V2P kdir OR PAGE_PRESENT OR PAGE_RW else if i = 768 then 0x83 else 0)"
    "roomy (kernel_space kdir s) k = roomy s k" "block_used (kernel_space kdir s) = block_used s"
proof -
  let ?s = "kernel_space kdir s"
  have b: "unat kdir mod 4096 = 0" "0xC0000000 \<le> unat kdir" "cr3 s = V2P kdir"
    "\<And>i. dir_entry s i = (if i = 0 \<or> i = 768 then 0x83 else 0)" using assms(1) by (simp_all add: booted_def)
  show dir: "directory ?s = directory s" by (simp add: kernel_space_def poke_with_frame)
  show e: "dir_entry ?s i = (if i = 1023 then V2P kdir OR PAGE_PRESENT OR PAGE_RW else if i = 768 then 0x83 else 0)" for i
    using b(4)[of i] by (auto simp: kernel_space_def poke_with_frame dir_entry_def[of s] directory_def[symmetric])
  show "roomy ?s k = roomy s k" and used: "block_used ?s = block_used s"
    by (simp_all add: kernel_space_def poke_with_frame)
  have "unat (V2P kdir) mod 4096 = 0"
  proof -
    obtain q where q: "unat kdir = 4096 * q" using b(1) by (metis mod_0_imp_dvd dvdE)
    have "4096 * q - 0xC0000000 = 4096 * (q - 786432)" by simp
    then show ?thesis using b(2) q by (simp add: unat_V2P)
  qed
  note f = entry_fields[OF this, of 0]
  have t: "has_table ?s i \<longleftrightarrow> i = 1023" for i
    using f(3,5) by (auto simp: has_table_def e entry_present_def entry_large_def bit_numeral_rec)
  have "table_frame ?s 1023 = directory s" using f(1) b(3) by (simp add: table_frame_def e directory_def)
  moreover have "pmm_ok ?s" using assms(2) by (simp add: kernel_space_def poke_with_frame)
  ultimately show "space_ok ?s"
    using assms(3) by (simp add: space_ok_def recursive_def t dir used)
qed

lemma space_ok_frame:
  "space_ok (s\<lparr>current_page_directory := c\<rparr>) = space_ok s" "roomy (s\<lparr>current_page_directory := c\<rparr>) k = roomy s k"
  "translate (s\<lparr>current_page_directory := c\<rparr>) = translate s" "block_used (s\<lparr>current_page_directory := c\<rparr>) = block_used s"
  "space_ok (s\<lparr>isr_handlers := h\<rparr>) = space_ok s" "roomy (s\<lparr>isr_handlers := h\<rparr>) k = roomy s k"
  "translate (s\<lparr>isr_handlers := h\<rparr>) = translate s" "block_used (s\<lparr>isr_handlers := h\<rparr>) = block_used s"
  "space_ok (s\<lparr>con := t\<rparr>) = space_ok s" "directory (s\<lparr>isr_handlers := h\<rparr>) = directory s"
  "dir_entry (s\<lparr>isr_handlers := h\<rparr>) = dir_entry s"
  by (simp_all add: space_ok_def recursive_def space_defs pmm_ok_def block_used_def roomy_def searched_def fun_eq_iff
      translate_def)

lemma fold_marks: "\<exists>b u. fold (\<lambda>k. mmap_set (f k)) bs s = s\<lparr>bitmap := b, used_blocks := u\<rparr>"
proof (induction bs arbitrary: s)
  case Nil
  show ?case by (rule exI[of _ "bitmap s"], rule exI[of _ "used_blocks s"]) simp
next
  case (Cons b bs)
  from Cons[of "mmap_set (f b) s"] show ?case by (auto simp: mmap_set_def)
qed

lemma pmm_alloc_pages_space:
  assumes "space_ok s" "roomy s (unat num + k)" "0 < num"
  obtains p s' where "pmm_alloc_pages num s = Ok p s'" "space_ok s'" "roomy s' k" "pages_changed s s'" "translate s' = translate s"
    "p \<noteq> 0 \<Longrightarrow> (\<forall>n \<in> frames (unat num) p. \<not> block_used s n \<and> block_used s' n)" "unat p mod 4096 = 0"
    "unat p + unat num * 4096 \<le> 2 ^ 32"
proof -
  from alloc_pages_search[OF space_okD(2)[OF assms(1)] assms(3)] obtain p s' where ps: "pmm_alloc_pages num s = Ok p s'" by blast
  from space_okD(2)[OF assms(1)] assms(3) ps show ?thesis
  proof (cases rule: pmm_alloc_pages_cases)
    case 1
    have "unat num \<le> unat (max_blocks s)" using assms(2) by (simp add: roomy_def)
    also have "\<dots> < 2 ^ 20" using space_okD(2)[OF assms(1)] by (simp add: pmm_ok_def word_less_nat_alt)
    finally have "unat num * 4096 \<le> 2 ^ 32" by simp
    then show ?thesis using that[OF ps] 1 assms(1) roomy_mono[OF assms(2)] by simp
  next
    case (2 n)
    have s': "s' = each_block mmap_set (mmap_find_free_frame num s) num s"
      using ps 2(2) by (auto simp: pmm_alloc_pages_def Let_def split: if_splits)
    have chg: "\<exists>b u. s' = s\<lparr>bitmap := b, used_blocks := u\<rparr>"
      unfolding s' each_block_def by (rule fold_marks)
    then have "\<exists>b u. s' = s\<lparr>bitmap := b, used_blocks := u, ram := ram s\<rparr>" by fastforce
    then have chg': "pages_changed s s'" unfolding pages_changed_def 2(6) take_blocks_def by blast
    have tr: "translate s' = translate s" and sp: "directory s' = directory s" "dir_entry s' = dir_entry s"
      using chg by (auto simp: translate_def directory_def dir_entry_def fun_eq_iff)
    have "space_ok s'"
    proof -
      have "pmm_ok s'" using space_okD(2)[OF assms(1)] by (simp add: pmm_ok_def 2(6,7) take_blocks_def)
      then show ?thesis using assms(1)
        by (auto simp: space_ok_def recursive_def has_table_def table_frame_def sp 2(6) take_blocks_def)
    qed
    moreover have "roomy s' k"
    proof -
      let ?F = "\<lambda>s. {n. n < searched s \<and> \<not> block_used s n}"
      have "?F s \<subseteq> ?F s' \<union> {n..<n + unat num}"
        using pages_changed_fields(8)[OF chg'] by (auto simp: 2(6) take_blocks_def)
      then have "card (?F s) \<le> card (?F s' \<union> {n..<n + unat num})" by (intro card_mono) auto
      also have "\<dots> \<le> card (?F s') + unat num" using card_Un_le[of "?F s'" "{n..<n + unat num}"] by simp
      finally have "k \<le> card (?F s')" using assms(2) unfolding roomy_def by linarith
      moreover have "unat (used_blocks s') = unat (used_blocks s) + unat num"
        unfolding 2(8) using assms(2) unat_less_numeral_u32[of "max_blocks s"] unfolding roomy_def
        by (intro unat_sum2[OF refl refl]) (simp del: unat_less_numeral_u32)
      ultimately show ?thesis using assms(2) by (simp add: roomy_def 2(7))
    qed
    moreover have "\<forall>m \<in> frames (unat num) p. \<not> block_used s m \<and> block_used s' m"
      using 2(1,3) by (auto simp: frames_def first_run_def free_run_def 2(6) take_blocks_def)
    ultimately show ?thesis using that[OF ps _ _ chg' tr] 2(3,5) by simp
  qed
qed

lemma dir_of_iff: "dir_of v = i \<longleftrightarrow> unat v div 2 ^ 22 = unat i"
  by (simp only: word_unat_eq_iff unat_dir_of)

lemma dir_768: "dir_of v = 768 \<longleftrightarrow> 0xC0000000 \<le> unat v \<and> unat v < 0xC0400000"
  by (auto simp: dir_of_iff div_range)

lemma booted_unmapped:
  assumes "booted kdir s" "pmm_ok s" "block_used s (unat (directory s))" "dir_of v \<noteq> 1023" "dir_of v \<noteq> 768"
  shows "translate (kernel_space kdir s) v = None"
  using assms(4,5) by (simp add: translate_eq kernel_space_ok(3)[OF assms(1-3)] entry_present_def)

text \<open>What the kernel maps: low memory, itself, its heap and the screen.\<close>

definition kernel_map :: "u32 \<Rightarrow> u32 \<Rightarrow> frame option" where
  "kernel_map heap_phys v =
     (if unat v < 0x100000 then Some (entry_frame v)
      else if 0xC0000000 \<le> unat v \<and> unat v < 0xC0400000 then Some (entry_frame (V2P v))
      else if 0xCFFFF000 \<le> unat v \<and> unat v < 0xD0000000 then Some (entry_frame VGA_MEMORY)
      else if 0xD0000000 \<le> unat v \<and> unat v < 0xD0400000 then Some (entry_frame (heap_phys + (v - 0xD0000000)))
      else None)"

text \<open>The mappings of \<open>paging_init\<close>, from a space where nothing is mapped where they go.\<close>

lemma kernel_pages_map:
  assumes "space_ok s" "roomy s 2305"
    and none: "\<And>v. unat v < 0xC0000000 \<Longrightarrow> translate s v = None"
      "\<And>v. 0xC0400000 \<le> unat v \<Longrightarrow> unat v < 0xFFC00000 \<Longrightarrow> translate s v = None"
  obtains s2 p s4 s5 s6 where "paging_map_pages 0 0 256 PAGE_RW s = Ok () s2"
    "pmm_alloc_pages 1024 (s2\<lparr>current_page_directory := c\<rparr>) = Ok p s4"
    "paging_map_pages 0xD0000000 p 1024 PAGE_RW s4 = Ok () s5"
    "paging_map_page 0xCFFFF000 VGA_MEMORY PAGE_RW s5 = Ok () s6"
    "space_ok s6" "pages_changed (s\<lparr>current_page_directory := c\<rparr>) s6"
    "\<And>v. dir_of v \<noteq> 1023 \<Longrightarrow> translate s6 v =
      (if unat v div 4096 = 0xCFFFF then Some (entry_frame VGA_MEMORY)
       else if 0xD0000000 \<le> unat v \<and> unat v < 0xD0400000 then Some (entry_frame (p + (v - 0xD0000000)))
       else if unat v < 0x100000 then Some (entry_frame v) else translate s v)"
    "p \<noteq> 0 \<Longrightarrow> \<forall>n \<in> frames 1024 p. \<not> block_used s n \<and> block_used s6 n"
proof -
  have rw: "\<not> bit PAGE_RW 7" by (simp add: page_bits)
  have room: "roomy s (256 + (1024 + (1024 + 1)))" using assms(2) by simp
  obtain s2 where s2: "paging_map_pages 0 0 256 PAGE_RW s = Ok () s2" "space_ok s2" "roomy s2 (1024 + (1024 + 1))"
      "pages_changed s s2"
    and t2: "\<And>v. dir_of v \<noteq> 1023 \<Longrightarrow> translate s2 v = (if unat v < 0x100000 then Some (entry_frame v) else translate s v)"
    by (rule paging_map_pages_runs[of 0 0 s 256 PAGE_RW "1024 + (1024 + 1)"]) (use assms(1) room rw none(1) in simp_all)
  let ?s3 = "s2\<lparr>current_page_directory := c\<rparr>"
  have s3: "space_ok ?s3" "roomy ?s3 (unat (1024 :: u32) + (1024 + 1))" "translate ?s3 = translate s2"
    using s2 by (simp_all add: space_ok_frame)
  obtain p s4 where s4: "pmm_alloc_pages 1024 ?s3 = Ok p s4" "space_ok s4" "roomy s4 (1024 + 1)" "pages_changed ?s3 s4"
      "translate s4 = translate ?s3"
    and p: "p \<noteq> 0 \<Longrightarrow> (\<forall>n \<in> frames (unat (1024 :: u32)) p. \<not> block_used ?s3 n \<and> block_used s4 n)"
      "unat p mod 4096 = 0" "unat p + unat (1024 :: u32) * 4096 \<le> 2 ^ 32"
    by (rule pmm_alloc_pages_space[OF s3(1,2)]) simp_all
  have gap4: "translate s4 v = None" if "0xC0400000 \<le> unat v" "unat v < 0xFFC00000" for v
    using t2[OF dir_of_below[OF that(2)]] none(2)[OF that] that(1) s3(3) s4(5) by simp
  obtain s5 where s5: "paging_map_pages 0xD0000000 p 1024 PAGE_RW s4 = Ok () s5" "space_ok s5" "roomy s5 (Suc 0)" "pages_changed s4 s5"
    and t5: "\<And>v. dir_of v \<noteq> 1023 \<Longrightarrow> translate s5 v =
      (if 0xD0000000 \<le> unat v \<and> unat v < 0xD0400000 then Some (entry_frame (p + (v - 0xD0000000))) else translate s4 v)"
    by (rule paging_map_pages_runs[of "0xD0000000" p s4 1024 PAGE_RW "Suc 0"]) (use s4 p(2,3) rw gap4 in simp_all)
  have vga: "dir_of 0xCFFFF000 \<noteq> 1023" "unat (0xCFFFF000 :: u32) mod 4096 = 0" "unat VGA_MEMORY mod 4096 = 0"
    by (simp_all add: dir_of_iff VGA_MEMORY_def)
  have "translate s5 0xCFFFF000 = None" using t5[OF vga(1)] gap4[of "0xCFFFF000"] by simp
  note vga_runs = paging_map_page_runs[OF vga(2,3) s5(2) vga(1) this rw s5(3)]
  have page: "unat (0xCFFFF000 :: u32) div 4096 = 0xCFFFF" by simp
  obtain s6 where
    s6: "paging_map_page 0xCFFFF000 VGA_MEMORY PAGE_RW s5 = Ok () s6" "space_ok s6" "pages_changed s5 s6"
    and t6: "\<And>v. dir_of v \<noteq> 1023 \<Longrightarrow> translate s6 v =
      (if unat v div 4096 = 0xCFFFF then Some (entry_frame VGA_MEMORY) else translate s5 v)"
    by (rule vga_runs[unfolded page]) (rule that; assumption)
  have after: "pages_changed ?s3 s6" using pages_changed_trans[OF s4(4)] pages_changed_trans[OF s5(4) s6(3)] by blast
  have "pages_changed (s\<lparr>current_page_directory := c\<rparr>) ?s3" using s2(4) by (rule pages_changed_directory)
  then have all: "pages_changed (s\<lparr>current_page_directory := c\<rparr>) s6" using after by (rule pages_changed_trans)
  have used: "block_used s4 n \<Longrightarrow> block_used s6 n" "\<not> block_used ?s3 n \<Longrightarrow> \<not> block_used s n" for n
    using pages_changed_fields(10)[OF s5(4)] pages_changed_fields(10)[OF s6(3)] pages_changed_fields(10)[OF s2(4)]
    by (auto simp: space_ok_frame)
  show ?thesis
  proof (rule that[OF s2(1) s4(1) s5(1) s6(1,2) all])
    show "translate s6 v =
      (if unat v div 4096 = 0xCFFFF then Some (entry_frame VGA_MEMORY)
       else if 0xD0000000 \<le> unat v \<and> unat v < 0xD0400000 then Some (entry_frame (p + (v - 0xD0000000)))
       else if unat v < 0x100000 then Some (entry_frame v) else translate s v)" if "dir_of v \<noteq> 1023" for v
      unfolding t6[OF that] t5[OF that] s4(5) s3(3) t2[OF that] by (rule refl)
    show "\<forall>n \<in> frames 1024 p. \<not> block_used s n \<and> block_used s6 n" if "p \<noteq> 0"
    proof
      fix n assume "n \<in> frames 1024 p"
      then have "\<not> block_used ?s3 n \<and> block_used s4 n" using p(1)[OF that] by simp
      then show "\<not> block_used s n \<and> block_used s6 n" using used by blast
    qed
  qed
qed

lemma kernel_space_writes:
  assumes "booted kdir s"
  shows "write32 (kdir + 4 * (PAGE_ENTRIES - 1)) x s = Ok () (poke (directory s) 1023 x s)"
    "write32 kdir 0 (poke (directory s) 1023 x s) = Ok () (poke (directory s) 0 0 (poke (directory s) 1023 x s))"
proof -
  have e: "dir_entry s 768 = 0x83" using assms by (simp add: booted_def)
  show "write32 (kdir + 4 * (PAGE_ENTRIES - 1)) x s = Ok () (poke (directory s) 1023 x s)"
    using kernel_directory_word[OF assms, of 1023 s x] e by (simp add: PAGE_ENTRIES_def)
  have "dir_entry (poke (directory s) 1023 x s) 768 = 0x83"
    using e by (simp add: poke_with_frame dir_entry_def[of s])
  from kernel_directory_word[OF assms _ this, of 0]
  show "write32 kdir 0 (poke (directory s) 1023 x s) = Ok () (poke (directory s) 0 0 (poke (directory s) 1023 x s))"
    by (simp add: poke_def)
qed

lemma paging_init_runs:
  assumes "booted kdir s" "pmm_ok s" "block_used s (unat (directory s))" "roomy s 2305" "isr_handlers s ! 14 = None"
  obtains p s' where "paging_init kdir s = Ok () s'" "space_ok s'" "current_page_directory s' = kdir"
    "isr_handlers s' = (isr_handlers s)[14 := Some Paging_fault_handler]"
    "con s' = term_set_buffer KERNEL_VGA_BASE_VIRT (con s)"
    "\<And>v. dir_of v \<noteq> 1023 \<Longrightarrow> translate s' v = kernel_map p v"
    "p \<noteq> 0 \<Longrightarrow> \<forall>n \<in> frames 1024 p. \<not> block_used s n \<and> block_used s' n"
proof -
  let ?s0 = "s\<lparr>isr_handlers := (isr_handlers s)[14 := Some Paging_fault_handler]\<rparr>"
  have b0: "booted kdir ?s0" "pmm_ok ?s0" "block_used ?s0 (unat (directory ?s0))"
    using assms(1-3) by (simp_all add: booted_def space_ok_frame pmm_ok_def)
  let ?s1 = "kernel_space kdir ?s0"
  note ks = kernel_space_ok[OF b0]
  have room: "roomy ?s1 2305" using assms(4) ks(4) by (simp add: space_ok_frame)
  have none: "translate ?s1 v = None" if "dir_of v \<noteq> 1023" "dir_of v \<noteq> 768" for v
    by (rule booted_unmapped[OF b0 that])
  have low: "translate ?s1 v = None" if "unat v < 0xC0000000" for v
    by (rule none) (use that in \<open>auto simp: dir_of_iff div_range\<close>)
  have high: "translate ?s1 v = None" if "0xC0400000 \<le> unat v" "unat v < 0xFFC00000" for v
    by (rule none) (use that in \<open>auto simp: dir_of_iff div_range\<close>)
  obtain s2 p s4 s5 s6 where run: "paging_map_pages 0 0 256 PAGE_RW ?s1 = Ok () s2"
      "pmm_alloc_pages 1024 (s2\<lparr>current_page_directory := kdir\<rparr>) = Ok p s4"
      "paging_map_pages 0xD0000000 p 1024 PAGE_RW s4 = Ok () s5"
      "paging_map_page 0xCFFFF000 VGA_MEMORY PAGE_RW s5 = Ok () s6"
    and s6: "space_ok s6" "pages_changed (?s1\<lparr>current_page_directory := kdir\<rparr>) s6"
    and tr: "\<And>v. dir_of v \<noteq> 1023 \<Longrightarrow> translate s6 v =
      (if unat v div 4096 = 0xCFFFF then Some (entry_frame VGA_MEMORY)
       else if 0xD0000000 \<le> unat v \<and> unat v < 0xD0400000 then Some (entry_frame (p + (v - 0xD0000000)))
       else if unat v < 0x100000 then Some (entry_frame v) else translate ?s1 v)"
    and fresh: "p \<noteq> 0 \<Longrightarrow> \<forall>n \<in> frames 1024 p. \<not> block_used ?s1 n \<and> block_used s6 n"
    by (rule kernel_pages_map[OF ks(1) room, of kdir]) (erule low | erule (1) high | (rule that; assumption))+
  let ?s7 = "s6\<lparr>con := term_set_buffer KERNEL_VGA_BASE_VIRT (con s6)\<rparr>"
  have "translate s6 v = kernel_map p v" if "dir_of v \<noteq> 1023" for v
  proof (cases "0xC0000000 \<le> unat v \<and> unat v < 0xC0400000")
    case True
    then show ?thesis using tr[OF that] translate_kernel(1)[of ?s1 v] ks(3)[of 768]
      by (simp add: kernel_map_def div_range)
  next
    case False
    have "dir_of v \<noteq> 768" unfolding dir_768 using False by blast
    with that have "translate ?s1 v = None" by (rule none)
    then show ?thesis unfolding tr[OF that] kernel_map_def using False by (simp add: div_range)
  qed
  moreover have "paging_init kdir s = Ok () ?s7"
  proof -
    have c: "(KERNEL_HEAP_END_VIRT - 0xD0000000) div PAGE_SIZE = 1024" "KERNEL_HEAP_BASE_VIRT = 0xD0000000"
      "KERNEL_VGA_BASE_VIRT = 0xCFFFF000" by (simp_all add: heap_defs PAGE_SIZE_def KERNEL_VGA_BASE_VIRT_def)
    have "isr_register_handler 14 Paging_fault_handler s = Ok () ?s0"
      using isr_register_free[of 14 s] assms(5) by simp
    then show ?thesis
      using kernel_space_writes[OF b0(1)] run
      by (simp add: paging_init_def Let_def c paging_invalidate_page_def on_console_def zoom_def kernel_space_def[symmetric])
  qed
  ultimately show ?thesis
    using that[of ?s7 p] s6 fresh ks(5) pages_changed_fields(3,5,6)[OF s6(2)]
    by (simp add: space_ok_frame kernel_space_def poke_def)
qed

section \<open>The map that the tables stand for\<close>

text \<open>
  Abstractly an address space is a partial function from page numbers to frames. The last 4 MiB, in
  which the tables show themselves, are not part of it.
\<close>

type_synonym page_map = "nat \<Rightarrow> frame option"

definition page_map :: "'s vmm_scheme \<Rightarrow> page_map" where
  "page_map s n = (if n < 1023 * 1024 then translate s (of_nat (n * 4096)) else None)"

datatype page_request = Map u32 u32 u32 | Unmap u32

fun run_page_request :: "page_request \<Rightarrow> ('s vmm_scheme, unit) action" where
  "run_page_request (Map virt phys flags) = paging_map_page virt phys flags"
| "run_page_request (Unmap virt) = paging_unmap_page virt"

fun page_spec :: "page_request \<Rightarrow> page_map \<Rightarrow> page_map" where
  "page_spec (Map virt phys flags) m = m(unat virt div 4096 \<mapsto> entry_frame phys)"
| "page_spec (Unmap virt) m = m(unat virt div 4096 := None)"

text \<open>
  A page is mapped only where none is, and not as a large page; unmapping goes to any page outside the
  large pages \<open>L\<close>, mapped or not.
\<close>

fun page_legal :: "10 word set \<Rightarrow> page_map \<Rightarrow> page_request \<Rightarrow> bool" where
  "page_legal L m (Map virt phys flags) \<longleftrightarrow> unat virt mod 4096 = 0 \<and> unat phys mod 4096 = 0 \<and> unat virt < 0xFFC00000
     \<and> m (unat virt div 4096) = None \<and> \<not> bit flags 7"
| "page_legal L m (Unmap virt) \<longleftrightarrow> unat virt mod 4096 = 0 \<and> unat virt < 0xFFC00000 \<and> dir_of virt \<notin> L"

definition space_ready :: "10 word set \<Rightarrow> nat \<Rightarrow> 's vmm_scheme \<Rightarrow> bool" where
  "space_ready L k s \<longleftrightarrow> space_ok s \<and> quiet (con s) \<and> roomy s k \<and> large_pages s = L"

lemma translate_page:
  assumes "unat v div 4096 = unat w div 4096"
  shows "translate s v = translate s w"
proof -
  have e: "dir_of v = dir_of w" "table_of v = table_of w" using assms same_page by blast+
  have "TABLE_INDEX v = TABLE_INDEX w" by (simp only: word_unat_eq_iff unat_TABLE_INDEX assms)
  then show ?thesis by (simp only: translate_eq e)
qed

lemma page_map_translate:
  assumes "unat v < 0xFFC00000"
  shows "translate s v = page_map s (unat v div 4096)"
proof -
  let ?n = "unat v div 4096"
  have n: "?n < 1023 * 1024" using assms by (simp add: less_mult_imp_div_less)
  then have "unat (of_nat (?n * 4096) :: u32) = ?n * 4096" by (intro of_nat_unat_u32) simp
  then have "unat v div 4096 = unat (of_nat (?n * 4096) :: u32) div 4096" by simp
  then show ?thesis using n by (simp add: page_map_def) (rule translate_page, simp)
qed

lemma page_map_change:
  assumes "unat virt < 0xFFC00000"
    and "\<And>v. dir_of v \<noteq> 1023 \<Longrightarrow> translate s' v = (if unat v div 4096 = unat virt div 4096 then x else translate s v)"
  shows "page_map s' = (page_map s)(unat virt div 4096 := x)"
proof
  fix n
  have virt: "unat virt div 4096 < 1023 * 1024" using assms(1) by (simp add: less_mult_imp_div_less)
  show "page_map s' n = ((page_map s)(unat virt div 4096 := x)) n"
  proof (cases "n < 1023 * 1024")
    case True
    then have u: "unat (of_nat (n * 4096) :: u32) = n * 4096" by (intro of_nat_unat_u32) simp
    then have "dir_of (of_nat (n * 4096)) \<noteq> 1023" using True by (intro dir_of_below) simp
    from assms(2)[OF this] show ?thesis using True unfolding u by (simp add: page_map_def)
  next
    case False
    then have "n \<noteq> unat virt div 4096" using virt by linarith
    then show ?thesis using False by (simp add: page_map_def)
  qed
qed

interpretation pages: simulation run_page_request page_map page_spec "page_legal L" "space_ready L" for L
proof unfold_locales
  fix k and s :: "'a vmm_scheme" and r
  assume ready: "space_ready L (Suc k) s" and legal: "page_legal L (page_map s) r"
  then have s: "space_ok s" "quiet (con s)" "roomy s (Suc k)" "large_pages s = L" by (simp_all add: space_ready_def)
  show "wp (run_page_request r) (\<lambda>_ s'. space_ready L k s' \<and> page_map s' = page_spec r (page_map s)) s"
  proof (cases r)
    case (Map virt phys flags)
    then have a: "unat virt mod 4096 = 0" "unat phys mod 4096 = 0" "unat virt < 0xFFC00000" "\<not> bit flags 7"
      and "page_map s (unat virt div 4096) = None" using legal by simp_all
    then have none: "translate s virt = None" using page_map_translate[OF a(3), of s] by simp
    obtain s' where s': "paging_map_page virt phys flags s = Ok () s'" "space_ok s'" "roomy s' k" "pages_changed s s'"
      "large_pages s' = large_pages s"
      and tr: "\<And>v. dir_of v \<noteq> 1023 \<Longrightarrow> translate s' v =
        (if unat v div 4096 = unat virt div 4096 then Some (entry_frame phys) else translate s v)"
      by (rule paging_map_page_runs[OF a(1,2) s(1) dir_of_below[OF a(3)] none a(4) s(3)]) (rule that; assumption)
    show ?thesis
      using s' s(2,4) page_map_change[OF a(3) tr] pages_changed_fields(3)[OF s'(4)]
      by (simp add: Map wp_def space_ready_def)
  next
    case (Unmap virt)
    then have a: "unat virt mod 4096 = 0" "unat virt < 0xFFC00000" "dir_of virt \<notin> large_pages s"
      using legal s(4) by simp_all
    obtain s' where s': "paging_unmap_page virt s = Ok () s'" "space_ok s'" "quiet (con s')" "\<And>k. roomy s' k = roomy s k"
      "large_pages s' = large_pages s"
      and tr: "\<And>v. translate s' v = (if unat v div 4096 = unat virt div 4096 then None else translate s v)"
      by (rule paging_unmap_page_runs[OF a(1) s(1) dir_of_below[OF a(2)] a(3) s(2)]) (rule that; assumption)
    show ?thesis
      using s' s(4) page_map_change[OF a(2) tr] roomy_mono[OF s(3)]
      by (simp add: Unmap wp_def space_ready_def)
  qed
qed

section \<open>Properties\<close>

text \<open>An empty address space whose directory is frame 0, with 16 MiB of memory.\<close>

definition empty_space :: vmm where
  "empty_space = heap.extend blank_heap \<lparr>ram = (\<lambda>f i. if f = 0 \<and> i = 1023 then 0x3 else 0), cr3 = 0, cr2 = 0,
     current_page_directory = 0xC0000000\<rparr>"

lemma blank_heap_simps: "con blank_heap = blank_tty" "bitmap blank_heap = bitmap big_pmm"
  "used_blocks blank_heap = 1" "max_blocks blank_heap = 4096" "isr_handlers blank_heap = replicate 256 None"
  "quiet blank_tty"
  using shifted_keyboard_simps(1)[of 0]
  by (simp_all add: blank_heap_def shifted_keyboard_def quiet_irq_def blank_isr_def blank_cpu_def keyboard.defs timer.defs
      irq.defs isr.defs cpu.defs pmm.defs big_pmm_def)

lemma roomy_big:
  assumes "bitmap s = bitmap big_pmm" "used_blocks s = 1" "max_blocks s = 4096" "k \<le> 4095"
  shows "pmm_ok s" "roomy s k" "block_used s 0"
proof -
  have used: "block_used s n \<longleftrightarrow> n = 0" if "n < 4096" for n
    using that assms(1) by (auto simp: block_used_def big_pmm_def bit_1_iff div_eq_0_iff)
  then show "block_used s 0" by simp
  then show "pmm_ok s" using assms(3) by (simp add: pmm_ok_def)
  have "{n. n < searched s \<and> \<not> block_used s n} = {1..<4096}" using used by (auto simp: searched_def assms(3))
  then show "roomy s k" using assms(2-4) by (simp add: roomy_def)
qed

lemma empty_space_simps:
  "directory empty_space = 0" "dir_entry empty_space i = (if i = 1023 then 3 else 0)"
  "con empty_space = blank_tty" "bitmap empty_space = bitmap big_pmm" "used_blocks empty_space = 1" "max_blocks empty_space = 4096"
  "cr2 empty_space = 0"
  by (simp_all add: empty_space_def heap.defs directory_def dir_entry_def entry_frame_def blank_heap_simps)

lemma empty_space_ready: "k \<le> 4095 \<Longrightarrow> space_ready {} k empty_space"
proof -
  assume k: "k \<le> 4095"
  note r = roomy_big[OF empty_space_simps(4-6) k]
  have t: "has_table empty_space i \<longleftrightarrow> i = 1023" "large_pages empty_space = {}" for i
    by (auto simp: has_table_def large_pages_def empty_space_simps(2) entry_present_def entry_large_def bit_numeral_rec)
  have "table_frame empty_space 1023 = 0" by (simp add: table_frame_def empty_space_simps(2) entry_frame_def)
  then have "space_ok empty_space" using r by (simp add: space_ok_def recursive_def t(1) empty_space_simps(1))
  then show ?thesis using r t(2) by (simp add: space_ready_def empty_space_simps(3) blank_heap_simps(6))
qed

lemma empty_page_map: "page_map empty_space = (\<lambda>n. None)"
proof
  fix n
  have "translate empty_space (of_nat (n * 4096)) = None" if n: "n < 1023 * 1024"
  proof -
    have "unat (of_nat (n * 4096) :: u32) = n * 4096" using n by (intro of_nat_unat_u32) simp
    then have "dir_of (of_nat (n * 4096)) \<noteq> 1023" using n by (intro dir_of_below) simp
    then show ?thesis by (simp add: translate_eq empty_space_simps(2) entry_present_def)
  qed
  then show "page_map empty_space n = None" by (simp add: page_map_def)
qed

text \<open>C5: the page tables refine a partial function from page numbers to frames. Any legal sequence of
  \<open>paging_map_page\<close> and \<open>paging_unmap_page\<close> returns, while the memory manager has a block for each
  request; it changes the function as the same sequence of updates would, page tables that are made on
  the way included; and it keeps the address space in order: the recursive entry, no table shared, every
  table held for used.\<close>

theorem page_tables_refine_map:
  assumes "space_ok s" "quiet (con s)" "roomy s (length rs)" "legal_run (page_legal (large_pages s)) page_spec rs (page_map s)"
  shows "\<exists>s'. foreach rs run_page_request s = Ok () s' \<and> page_map s' = fold page_spec rs (page_map s)
    \<and> space_ok s' \<and> quiet (con s') \<and> large_pages s' = large_pages s"
proof -
  have "space_ready (large_pages s) (length rs + 0) s" using assms(1-3) by (simp add: space_ready_def)
  from wp_OkD[OF pages.run[OF this assms(4)]] show ?thesis unfolding space_ready_def by auto
qed

theorem page_tables_refine_map_witness:
  "\<exists>s'. foreach [Map 0x1000 0x5000 2, Map 0x400000 0x6000 2, Unmap 0x1000, Map 0x1000 0x7000 6] run_page_request empty_space = Ok () s'
     \<and> page_map s' 1 = Some 7 \<and> page_map s' 0x400 = Some 6 \<and> page_map s' 2 = None"
proof -
  let ?rs = "[Map 0x1000 0x5000 2, Map 0x400000 0x6000 2, Unmap 0x1000, Map 0x1000 0x7000 6]"
  have r: "space_ok empty_space" "quiet (con empty_space)" "roomy empty_space (length ?rs)" "large_pages empty_space = {}"
    using empty_space_ready[of "length ?rs"] by (simp_all add: space_ready_def)
  have "legal_run (page_legal (large_pages empty_space)) page_spec ?rs (page_map empty_space)"
    by (simp add: r(4) empty_page_map bit_numeral_rec)
  from page_tables_refine_map[OF r(1-3) this] show ?thesis
    by (auto simp: empty_page_map entry_frame_def)
qed

text \<open>\<open>paging_map_pages\<close> maps a range of pages to consecutive frames, in order, and leaves every address
  outside the range with the translation it had.\<close>

theorem map_pages_maps_range:
  assumes "space_ok s" "unat virt mod 4096 = 0" "unat phys mod 4096 = 0"
    and "unat virt + unat num * 4096 \<le> 0xFFC00000" "unat phys + unat num * 4096 \<le> 2 ^ 32"
    and "\<forall>v. unat virt \<le> unat v \<and> unat v < unat virt + unat num * 4096 \<longrightarrow> translate s v = None"
    and "\<not> bit flags 7" "roomy s (unat num)"
  shows "\<exists>s'. paging_map_pages virt phys num flags s = Ok () s' \<and> space_ok s' \<and>
    (\<forall>v. dir_of v \<noteq> 1023 \<longrightarrow> translate s' v =
       (if unat virt \<le> unat v \<and> unat v < unat virt + unat num * 4096 then Some (entry_frame (phys + (v - virt)))
        else translate s v))"
proof -
  have "roomy s (unat num + 0)" using assms(8) by simp
  from paging_map_pages_runs[OF assms(2,3,1,4,5) _ assms(7) this] assms(6)
  obtain s' where "paging_map_pages virt phys num flags s = Ok () s'" "space_ok s'"
    "\<And>v. dir_of v \<noteq> 1023 \<Longrightarrow> translate s' v =
       (if unat virt \<le> unat v \<and> unat v < unat virt + unat num * 4096 then Some (entry_frame (phys + (v - virt)))
        else translate s v)" by metis
  then show ?thesis by blast
qed

theorem map_pages_maps_range_witness:
  "\<exists>s'. paging_map_pages 0x3FF000 0x10000 2 2 empty_space = Ok () s' \<and> translate s' 0x400123 = Some 0x11
     \<and> translate s' 0x3FF008 = Some 0x10 \<and> translate s' 0x401000 = None"
proof -
  have r: "space_ok empty_space" "roomy empty_space (unat (2 :: u32))"
    using empty_space_ready[of 2] by (simp_all add: space_ready_def)
  have none: "\<forall>v. unat (0x3FF000 :: u32) \<le> unat v \<and> unat v < unat (0x3FF000 :: u32) + unat (2 :: u32) * 4096 \<longrightarrow>
      translate empty_space v = None"
    using page_map_translate[of _ empty_space] by (simp add: empty_page_map)
  have t: "translate empty_space 0x401000 = None" using page_map_translate[of "0x401000" empty_space] by (simp add: empty_page_map)
  have d: "dir_of 0x400123 \<noteq> 1023" "dir_of 0x3FF008 \<noteq> 1023" "dir_of 0x401000 \<noteq> 1023" by (simp_all add: dir_of_iff)
  from map_pages_maps_range[OF r(1) _ _ _ _ none _ r(2), of "0x10000" 2] obtain s' where
    s': "paging_map_pages 0x3FF000 0x10000 2 2 empty_space = Ok () s'"
    and tr: "\<And>v. dir_of v \<noteq> 1023 \<Longrightarrow> translate s' v = (if 0x3FF000 \<le> unat v \<and> unat v < 0x401000
      then Some (entry_frame (0x10000 + (v - 0x3FF000))) else translate empty_space v)"
    by (auto simp: bit_numeral_rec)
  show ?thesis using s' tr[OF d(1)] tr[OF d(2)] tr[OF d(3)] t by (simp add: entry_frame_def)
qed

text \<open>Every page fault ends in the kernel panic of \<open>abort\<close>, whatever the faulting address and the error
  code: the handler looks the page up through the recursive entry, prints the message, and maps nothing.
  In particular the handler itself does not fault.\<close>

theorem page_fault_panics:
  assumes "recursive s" "quiet (con s)"
  shows "\<exists>t. paging_fault_handler regs s = Exit Abort (s\<lparr>con := t\<rparr>)"
  using stops_apply[OF paging_fault_handler_stops[OF assms(1)] assms(2)] .

theorem page_fault_panics_witness:
  "\<exists>t. paging_fault_handler (interrupt_frame 14) empty_space = Exit Abort (empty_space\<lparr>con := t\<rparr>)"
proof -
  have "space_ok empty_space" "quiet (con empty_space)" using empty_space_ready[of 0] by (simp_all add: space_ready_def)
  then show ?thesis by (intro page_fault_panics space_okD(1))
qed

text \<open>C17: \<open>paging_init\<close>, run on the directory that \<open>boot.S\<close> leaves and with memory enough for the tables and the
  heap, returns with exactly four ranges mapped: the first megabyte onto itself, the 4 MiB of the kernel,
  the page of the screen below the heap, and the 4 MiB of the heap onto the run of frames it allocated,
  which were free and are used now. The handler of page faults is registered, and the terminal draws
  through the new page. When no run of 1024 blocks is free the result of the allocation is 0 and not
  checked: \<open>p = 0\<close> maps the heap onto the first 4 MiB of memory.\<close>

theorem paging_init_maps_kernel:
  assumes "booted kdir s" "pmm_ok s" "block_used s (unat (directory s))" "roomy s 2305" "isr_handlers s ! 14 = None"
  shows "\<exists>p s'. paging_init kdir s = Ok () s' \<and> space_ok s' \<and> current_page_directory s' = kdir
    \<and> isr_handlers s' = (isr_handlers s)[14 := Some Paging_fault_handler]
    \<and> con s' = term_set_buffer KERNEL_VGA_BASE_VIRT (con s)
    \<and> (\<forall>v. dir_of v \<noteq> 1023 \<longrightarrow> translate s' v = kernel_map p v)
    \<and> (p \<noteq> 0 \<longrightarrow> (\<forall>n \<in> frames 1024 p. \<not> block_used s n \<and> block_used s' n))"
  by (rule paging_init_runs[OF assms]) blast

definition booted_space :: vmm where
  "booted_space = empty_space\<lparr>ram := (\<lambda>f i. if f = 0 \<and> (i = 0 \<or> i = 768) then 0x83 else 0)\<rparr>"

theorem paging_init_maps_kernel_witness:
  "\<exists>p s'. paging_init 0xC0000000 booted_space = Ok () s' \<and> translate s' 0xB8000 = Some 0xB8
     \<and> translate s' 0xC0100000 = Some 0x100 \<and> translate s' 0xCFFFF000 = Some 0xB8 \<and> translate s' 0x100000 = None"
proof -
  have b: "cr3 booted_space = 0" "dir_entry booted_space i = (if i = 0 \<or> i = 768 then 0x83 else 0)"
    "directory booted_space = 0" for i
    by (simp_all add: booted_space_def empty_space_def heap.defs directory_def dir_entry_def entry_frame_def)
  have p: "bitmap booted_space = bitmap big_pmm" "used_blocks booted_space = 1" "max_blocks booted_space = 4096"
    "isr_handlers booted_space ! 14 = None"
    by (simp_all add: booted_space_def empty_space_simps) (simp add: empty_space_def heap.defs blank_heap_simps)
  note r = roomy_big[OF p(1-3), of 2305]
  have boot: "booted 0xC0000000 booted_space" by (simp add: booted_def b V2P_def)
  have u: "block_used booted_space (unat (directory booted_space))" "roomy booted_space 2305" using r by (simp_all add: b(3))
  from paging_init_maps_kernel[OF boot r(1)[simplified] u p(4)] obtain q s' where
    s': "paging_init 0xC0000000 booted_space = Ok () s'" "\<And>v. dir_of v \<noteq> 1023 \<Longrightarrow> translate s' v = kernel_map q v" by blast
  have d: "dir_of 0xB8000 \<noteq> 1023" "dir_of 0xC0100000 \<noteq> 1023" "dir_of 0xCFFFF000 \<noteq> 1023" "dir_of 0x100000 \<noteq> 1023"
    by (simp_all add: dir_of_iff)
  show ?thesis
    using s'(1) s'(2)[OF d(1)] s'(2)[OF d(2)] s'(2)[OF d(3)] s'(2)[OF d(4)]
    by (auto simp: kernel_map_def entry_frame_def V2P_def VGA_MEMORY_def)
qed

text \<open>\<open>paging_virt_to_phys\<close> gives the physical address of every mapped address outside the large pages.
  It does not look at the present bit of the page entry: of a page that was unmapped it gives the address
  it had; and only an absent table gives 0.\<close>

theorem virt_to_phys_of_mapped:
  assumes "recursive s"
  shows "paging_virt_to_phys v s = (if \<not> entry_present (dir_entry s (dir_of v)) then Ok 0 s
      else Ok (push_bit 12 (ucast (entry_frame (page_entry s v))) + PAGE_OFFSET v) s)
    \<and> (\<forall>f. has_table s (dir_of v) \<and> translate s v = Some f \<longrightarrow> paging_virt_to_phys v s = Ok (push_bit 12 (ucast f) + PAGE_OFFSET v) s)"
proof -
  have "entry_frame (page_entry s v) = f" if "has_table s (dir_of v)" "translate s v = Some f" for f
    using that by (auto simp: translate_eq has_table_def page_entry_def table_frame_def Let_def split: if_splits)
  then show ?thesis using paging_virt_to_phys_value[OF assms, of v]
    by (auto simp: entry_address has_table_def)
qed

theorem virt_to_phys_of_mapped_witness:
  "paging_virt_to_phys 0x1234 empty_space = Ok 0 empty_space"
proof -
  have "recursive empty_space" using empty_space_ready[of 0] by (simp add: space_ready_def space_ok_def)
  moreover have "dir_of 0x1234 \<noteq> 1023" by (simp add: dir_of_iff)
  ultimately show ?thesis using virt_to_phys_of_mapped[of empty_space "0x1234"]
    by (simp add: empty_space_simps entry_present_def)
qed

end
