(* ===== verification/Stubs.thy ===== *)
theory Stubs
  imports Irq
begin

unbundle bit_operations_syntax

text \<open>
  \<open>kernel/src/cpu/asm/isr.S\<close> and \<open>irq.S\<close>: the stubs between the gates and the C functions, on the registers
  of the processor and the stack. The C function is an argument, \<open>call\<close>, of which the calling convention is
  assumed: it returns with the stack pointer it was called with. Shown: the structure that it is given is what
  \<open>registers_t\<close> says, and what the interrupted code gets back.
\<close>

section \<open>The processor and the instructions of the stubs\<close>

datatype seg = DS | ES | FS | GS

text \<open>The general and segment registers, the interrupt flag, and memory as words at their addresses.\<close>

record stub_cpu =
  c_eax :: u32
  c_ecx :: u32
  c_edx :: u32
  c_ebx :: u32
  c_esp :: u32
  c_ebp :: u32
  c_esi :: u32
  c_edi :: u32
  c_seg :: "seg \<Rightarrow> u16"
  c_if :: bool
  c_mem :: "u32 \<Rightarrow> u32"

datatype asm =
    Cli | Push_imm u32 | Pushal | Push_seg seg | Mov_ax u16 | Mov_ax_seg seg | Push_esp | Call | Add_esp u32 | Pop_seg seg | Popal

definition push :: "u32 \<Rightarrow> stub_cpu \<Rightarrow> stub_cpu" where
  "push x c = c\<lparr>c_esp := c_esp c - 4, c_mem := (c_mem c)(c_esp c - 4 := x)\<rparr>"

definition stack :: "stub_cpu \<Rightarrow> u32 \<Rightarrow> u32" where
  "stack c off = c_mem c (c_esp c + off)"

primrec asm_step :: "(stub_cpu \<Rightarrow> stub_cpu) \<Rightarrow> asm \<Rightarrow> stub_cpu \<Rightarrow> stub_cpu" where
  "asm_step call Cli c = c\<lparr>c_if := False\<rparr>"
| "asm_step call (Push_imm x) c = push x c"
| "asm_step call Pushal c =
     push (c_edi c) (push (c_esi c) (push (c_ebp c) (push (c_esp c)
    (push (c_ebx c) (push (c_edx c) (push (c_ecx c) (push (c_eax c) c)))))))"
| "asm_step call (Push_seg r) c = push (ucast (c_seg c r)) c"
| "asm_step call (Mov_ax x) c = c\<lparr>c_eax := (c_eax c AND 0xFFFF0000) OR ucast x\<rparr>"
| "asm_step call (Mov_ax_seg r) c = c\<lparr>c_seg := (c_seg c)(r := ucast (c_eax c))\<rparr>"
| "asm_step call Push_esp c = push (c_esp c) c"
| "asm_step call Call c = call c"
| "asm_step call (Add_esp n) c = c\<lparr>c_esp := c_esp c + n\<rparr>"
| "asm_step call (Pop_seg r) c = c\<lparr>c_seg := (c_seg c)(r := ucast (stack c 0)), c_esp := c_esp c + 4\<rparr>"
| "asm_step call Popal c = c\<lparr>c_edi := stack c 0, c_esi := stack c 4, c_ebp := stack c 8, c_ebx := stack c 16,
     c_edx := stack c 20, c_ecx := stack c 24, c_eax := stack c 28, c_esp := c_esp c + 32\<rparr>"

definition asm_run :: "(stub_cpu \<Rightarrow> stub_cpu) \<Rightarrow> asm list \<Rightarrow> stub_cpu \<Rightarrow> stub_cpu" where
  "asm_run call code = fold (asm_step call) code"

section \<open>The stubs\<close>

definition has_error_code :: "nat \<Rightarrow> bool" where
  "has_error_code n \<longleftrightarrow> n \<in> {8, 10, 11, 12, 13, 14, 17, 30}"

definition isr_stub :: "nat \<Rightarrow> asm list" where
  "isr_stub n = (if has_error_code n then [Push_imm (of_nat n)] else [Push_imm 0, Push_imm (of_nat n)])"

definition irq_stub :: "nat \<Rightarrow> asm list" where
  "irq_stub n = [Cli, Push_imm 0, Push_imm (of_nat (32 + n))]"

definition enter_handler :: "asm list" where
  "enter_handler = [Pushal, Push_seg DS, Push_seg ES, Push_seg FS, Push_seg GS,
     Mov_ax (ucast GDT_SELECTOR_KERNEL_DATA), Mov_ax_seg DS, Mov_ax_seg ES, Mov_ax_seg FS, Mov_ax_seg GS, Push_esp]"

definition isr_common_handler :: "asm list" where
  "isr_common_handler = enter_handler @ [Call, Add_esp 4, Pop_seg DS, Pop_seg ES, Pop_seg FS, Pop_seg GS, Popal, Add_esp 8]"

definition irq_common_handler :: "asm list" where
  "irq_common_handler = enter_handler @ [Call, Add_esp 4, Pop_seg GS, Pop_seg FS, Pop_seg ES, Pop_seg DS, Popal, Add_esp 8]"

text \<open>\<open>registers_t\<close> as C reads it through a pointer.\<close>

definition registers_at :: "(u32 \<Rightarrow> u32) \<Rightarrow> u32 \<Rightarrow> registers" where
  "registers_at m p = \<lparr>r_gs = m p, r_fs = m (p + 4), r_es = m (p + 8), r_ds = m (p + 12),
     r_edi = m (p + 16), r_esi = m (p + 20), r_ebp = m (p + 24), r_kernel_esp = m (p + 28), r_ebx = m (p + 32), r_edx = m (p + 36),
     r_ecx = m (p + 40), r_eax = m (p + 44), r_int_no = m (p + 48), r_err_code = m (p + 52),
     r_eip = m (p + 56), r_cs = m (p + 60), r_eflags = m (p + 64), r_esp = m (p + 68), r_ss = m (p + 72)\<rparr>"

section \<open>What the handler is given and what the interrupted code gets back\<close>

lemma offsets: "(x :: u32) - a - b = x - (a + b)" "(x :: u32) + a - b = x - (b - a)" "(x :: u32) - a + b = x - (a - b)"
  by (simp_all add: algebra_simps)

lemma other_offset: "(x :: u32) - a = x - b \<longleftrightarrow> a = b" "(x :: u32) = x - b \<longleftrightarrow> b = 0"
  by auto

definition entered :: "u32 \<Rightarrow> u32 \<Rightarrow> stub_cpu \<Rightarrow> stub_cpu" where
  "entered num err c = asm_run id enter_handler (push num (push err c))"

lemma entered_frame:
  "c_esp (entered num err c) = c_esp c - 60"
  "c_mem (entered num err c) (c_esp c - 60) = c_esp c - 56"
  "registers_at (c_mem (entered num err c)) (c_esp c - 56) = \<lparr>r_gs = ucast (c_seg c GS), r_fs = ucast (c_seg c FS),
     r_es = ucast (c_seg c ES), r_ds = ucast (c_seg c DS), r_edi = c_edi c, r_esi = c_esi c, r_ebp = c_ebp c, r_kernel_esp = c_esp c - 8,
     r_ebx = c_ebx c, r_edx = c_edx c, r_ecx = c_ecx c, r_eax = c_eax c, r_int_no = num, r_err_code = err,
     r_eip = c_mem c (c_esp c), r_cs = c_mem c (c_esp c + 4), r_eflags = c_mem c (c_esp c + 8),
     r_esp = c_mem c (c_esp c + 12), r_ss = c_mem c (c_esp c + 16)\<rparr>"
  by (simp_all add: entered_def asm_run_def enter_handler_def push_def offsets other_offset registers_at_def)

text \<open>
  The C function keeps its stack pointer and the structure it is given a pointer to; the pointer itself is its own.
  It may do what it likes to the general registers, which the stubs take back from the stack.
\<close>

definition keeps_frame :: "(stub_cpu \<Rightarrow> stub_cpu) \<Rightarrow> stub_cpu \<Rightarrow> bool" where
  "keeps_frame call c \<longleftrightarrow> c_esp (call c) = c_esp c
     \<and> (\<forall>k \<in> {1..19}. c_mem (call c) (c_esp c + 4 * of_nat k) = c_mem c (c_esp c + 4 * of_nat k))"

lemma kept_words:
  assumes "keeps_frame call (entered num err c)"
  defines "r \<equiv> call (entered num err c)"
  shows "c_esp r = c_esp c - 60"
    "c_mem r (c_esp c - 56) = ucast (c_seg c GS)" "c_mem r (c_esp c - 52) = ucast (c_seg c FS)"
    "c_mem r (c_esp c - 48) = ucast (c_seg c ES)" "c_mem r (c_esp c - 44) = ucast (c_seg c DS)"
    "c_mem r (c_esp c - 40) = c_edi c" "c_mem r (c_esp c - 36) = c_esi c" "c_mem r (c_esp c - 32) = c_ebp c"
    "c_mem r (c_esp c - 24) = c_ebx c" "c_mem r (c_esp c - 20) = c_edx c" "c_mem r (c_esp c - 16) = c_ecx c"
    "c_mem r (c_esp c - 12) = c_eax c"
    "k < 5 \<Longrightarrow> c_mem r (c_esp c + 4 * of_nat k) = c_mem c (c_esp c + 4 * of_nat k)"
proof -
  let ?e = "entered num err c"
  have esp: "c_esp ?e = c_esp c - 60" by (rule entered_frame(1))
  then show "c_esp r = c_esp c - 60" using assms(1) by (simp add: keeps_frame_def r_def)
  have w: "c_mem r (c_esp c - 60 + 4 * of_nat k) = c_mem ?e (c_esp c - 60 + 4 * of_nat k)" if "k \<in> {1..19}" for k
    using assms(1) that unfolding keeps_frame_def esp r_def by blast
  note f = entered_frame(3)[of num err c, unfolded registers_at_def offsets]
  show "c_mem r (c_esp c - 56) = ucast (c_seg c GS)" using w[of 1] f by (simp add: offsets)
  show "c_mem r (c_esp c - 52) = ucast (c_seg c FS)" using w[of 2] f by (simp add: offsets)
  show "c_mem r (c_esp c - 48) = ucast (c_seg c ES)" using w[of 3] f by (simp add: offsets)
  show "c_mem r (c_esp c - 44) = ucast (c_seg c DS)" using w[of 4] f by (simp add: offsets)
  show "c_mem r (c_esp c - 40) = c_edi c" using w[of 5] f by (simp add: offsets)
  show "c_mem r (c_esp c - 36) = c_esi c" using w[of 6] f by (simp add: offsets)
  show "c_mem r (c_esp c - 32) = c_ebp c" using w[of 7] f by (simp add: offsets)
  show "c_mem r (c_esp c - 24) = c_ebx c" using w[of 9] f by (simp add: offsets)
  show "c_mem r (c_esp c - 20) = c_edx c" using w[of 10] f by (simp add: offsets)
  show "c_mem r (c_esp c - 16) = c_ecx c" using w[of 11] f by (simp add: offsets)
  show "c_mem r (c_esp c - 12) = c_eax c" using w[of 12] f by (simp add: offsets)
  show "c_mem r (c_esp c + 4 * of_nat k) = c_mem c (c_esp c + 4 * of_nat k)" if "k < 5"
  proof -
    have "k \<in> {0, 1, 2, 3, 4}" using that by auto
    then show ?thesis using w[of 15] w[of 16] w[of 17] w[of 18] w[of 19] f by (auto simp: offsets)
  qed
qed

text \<open>The registers that an interrupted program computes with, and the five words that the processor pushed.\<close>

definition general :: "stub_cpu \<Rightarrow> u32 list" where
  "general c = [c_eax c, c_ecx c, c_edx c, c_ebx c, c_esp c, c_ebp c, c_esi c, c_edi c]"

definition pushed :: "stub_cpu \<Rightarrow> u32 list" where
  "pushed c = map (\<lambda>k. c_mem c (c_esp c + 4 * of_nat k)) [0..<5]"

lemma pushed_same: "c_esp r = c_esp c \<Longrightarrow> (\<And>k. k < 5 \<Longrightarrow> c_mem r (c_esp c + 4 * of_nat k) = c_mem c (c_esp c + 4 * of_nat k)) \<Longrightarrow>
    pushed r = pushed c"
  by (simp add: pushed_def)

lemma isr_enters:
  "asm_run id (isr_stub n @ enter_handler) (if has_error_code n then push err c else c)
     = entered (of_nat n) (if has_error_code n then err else 0) c"
  by (simp add: entered_def asm_run_def isr_stub_def)

lemma seg_swap: "ucast (ucast (x :: u16) :: u32) = x"
  by (rule bit_word_eqI) (simp add: bit_simps)

lemma common_handlers_return:
  assumes "keeps_frame call (entered num err c)"
  defines "e \<equiv> push num (push err c)"
  shows "general (asm_run call irq_common_handler e) = general c" "c_seg (asm_run call irq_common_handler e) = c_seg c"
    "pushed (asm_run call irq_common_handler e) = pushed c"
    "general (asm_run call isr_common_handler e) = general c"
    "c_seg (asm_run call isr_common_handler e) = (\<lambda>r. c_seg c (case r of DS \<Rightarrow> GS | ES \<Rightarrow> FS | FS \<Rightarrow> ES | GS \<Rightarrow> DS))"
    "pushed (asm_run call isr_common_handler e) = pushed c"
proof -
  note w = kept_words[OF assms(1)]
  have en: "asm_run id enter_handler e = entered num err c" "asm_run call enter_handler e = entered num err c"
    by (simp_all add: entered_def e_def asm_run_def enter_handler_def)
  have irq: "asm_run call irq_common_handler e
      = asm_run call [Add_esp 4, Pop_seg GS, Pop_seg FS, Pop_seg ES, Pop_seg DS, Popal, Add_esp 8] (call (entered num err c))"
    using en(2) by (simp add: irq_common_handler_def asm_run_def)
  have isr: "asm_run call isr_common_handler e
      = asm_run call [Add_esp 4, Pop_seg DS, Pop_seg ES, Pop_seg FS, Pop_seg GS, Popal, Add_esp 8] (call (entered num err c))"
    using en(2) by (simp add: isr_common_handler_def asm_run_def)
  have m: "c_mem (asm_run call irq_common_handler e) = c_mem (call (entered num err c))"
    "c_mem (asm_run call isr_common_handler e) = c_mem (call (entered num err c))"
    unfolding irq isr by (simp_all add: asm_run_def)
  show g: "general (asm_run call irq_common_handler e) = general c" "general (asm_run call isr_common_handler e) = general c"
    unfolding irq isr using w(1,6-12) by (simp_all add: asm_run_def stack_def general_def offsets)
  show "c_seg (asm_run call irq_common_handler e) = c_seg c"
  proof
    fix r show "c_seg (asm_run call irq_common_handler e) r = c_seg c r"
      unfolding irq using w(1-5) by (cases r) (simp_all add: asm_run_def stack_def offsets seg_swap)
  qed
  show "c_seg (asm_run call isr_common_handler e) = (\<lambda>r. c_seg c (case r of DS \<Rightarrow> GS | ES \<Rightarrow> FS | FS \<Rightarrow> ES | GS \<Rightarrow> DS))"
  proof
    fix r show "c_seg (asm_run call isr_common_handler e) r = c_seg c (case r of DS \<Rightarrow> GS | ES \<Rightarrow> FS | FS \<Rightarrow> ES | GS \<Rightarrow> DS)"
      unfolding isr using w(1-5) by (cases r) (simp_all add: asm_run_def stack_def offsets seg_swap)
  qed
  have esp: "c_esp (asm_run call irq_common_handler e) = c_esp c" "c_esp (asm_run call isr_common_handler e) = c_esp c"
    using g by (simp_all add: general_def)
  show "pushed (asm_run call irq_common_handler e) = pushed c" "pushed (asm_run call isr_common_handler e) = pushed c"
    by (rule pushed_same[OF esp(1)], simp add: m w(13)) (rule pushed_same[OF esp(2)], simp add: m w(13))
qed

section \<open>Properties\<close>

text \<open>C22: what the stubs hand over and give back. The handler of an exception gets a pointer to a \<open>registers_t\<close> with the
  registers of the interrupted code, the number of the gate and the error code, 0 where the processor
  pushes none. When it returns, the stub of a hardware interrupt gives the interrupted code all its registers back,
  and \<open>iret\<close> the five words of the processor. The stub of exceptions and system calls does so with the general
  registers only: it pops the segment registers in the order in which it pushed them, and the code resumes
  with ds and gs, and es and fs, exchanged.\<close>

theorem interrupt_stubs:
  assumes "keeps_frame call (entered (of_nat n) (if has_error_code n then err else 0) c)"
    and "keeps_frame call (entered (of_nat (32 + k)) 0 (c\<lparr>c_if := False\<rparr>))"
  defines "c0 \<equiv> (if has_error_code n then push err c else c)"
  shows "registers_at (c_mem (asm_run id (isr_stub n @ enter_handler) c0)) (stack (asm_run id (isr_stub n @ enter_handler) c0) 0) =
      \<lparr>r_gs = ucast (c_seg c GS), r_fs = ucast (c_seg c FS), r_es = ucast (c_seg c ES), r_ds = ucast (c_seg c DS), r_edi = c_edi c,
       r_esi = c_esi c, r_ebp = c_ebp c, r_kernel_esp = c_esp c - 8, r_ebx = c_ebx c, r_edx = c_edx c, r_ecx = c_ecx c, r_eax = c_eax c,
       r_int_no = of_nat n, r_err_code = (if has_error_code n then err else 0), r_eip = stack c 0, r_cs = stack c 4,
       r_eflags = stack c 8, r_esp = stack c 12, r_ss = stack c 16\<rparr>
    \<and> general (asm_run call (irq_stub k @ irq_common_handler) c) = general c
    \<and> c_seg (asm_run call (irq_stub k @ irq_common_handler) c) = c_seg c
    \<and> pushed (asm_run call (irq_stub k @ irq_common_handler) c) = pushed c
    \<and> general (asm_run call (isr_stub n @ isr_common_handler) c0) = general c
    \<and> c_seg (asm_run call (isr_stub n @ isr_common_handler) c0) = (\<lambda>r. c_seg c (case r of DS \<Rightarrow> GS | ES \<Rightarrow> FS | FS \<Rightarrow> ES | GS \<Rightarrow> DS))
    \<and> pushed (asm_run call (isr_stub n @ isr_common_handler) c0) = pushed c"
proof -
  let ?e = "if has_error_code n then err else 0"
  have isr: "asm_run call (isr_stub n @ isr_common_handler) c0 = asm_run call isr_common_handler (push (of_nat n) (push ?e c))"
    by (simp add: c0_def asm_run_def isr_stub_def)
  have irq: "asm_run call (irq_stub k @ irq_common_handler) c
      = asm_run call irq_common_handler (push (of_nat (32 + k)) (push 0 (c\<lparr>c_if := False\<rparr>)))"
    by (simp add: asm_run_def irq_stub_def)
  have f: "general (c\<lparr>c_if := False\<rparr>) = general c" "pushed (c\<lparr>c_if := False\<rparr>) = pushed c" by (simp_all add: general_def pushed_def)
  show ?thesis
    unfolding isr irq unfolding c0_def isr_enters stack_def entered_frame(1)
    using entered_frame(2,3)[of "of_nat n" ?e c] common_handlers_return(1-3)[OF assms(2)] common_handlers_return(4-6)[OF assms(1)]
    by (simp add: f)
qed

text \<open>A process with its data segments loaded, and a handler that overwrites the general registers C may.\<close>

definition stub_caller :: stub_cpu where
  "stub_caller = \<lparr>c_eax = 3, c_ecx = 2022, c_edx = 0, c_ebx = 0x48, c_esp = 0xD0002000, c_ebp = 0, c_esi = 0, c_edi = 0,
     c_seg = (\<lambda>r. case r of DS \<Rightarrow> 0x23 | _ \<Rightarrow> 0x10), c_if = True, c_mem = (\<lambda>_. 0)\<rparr>"

theorem interrupt_stubs_witness:
  "c_seg (asm_run (\<lambda>c. c\<lparr>c_eax := 1, c_ecx := 1, c_edx := 1\<rparr>) (isr_stub 48 @ isr_common_handler) stub_caller) GS = 0x23
   \<and> c_seg (asm_run (\<lambda>c. c\<lparr>c_eax := 1, c_ecx := 1, c_edx := 1\<rparr>) (isr_stub 48 @ isr_common_handler) stub_caller) DS = 0x10
   \<and> c_seg (asm_run (\<lambda>c. c\<lparr>c_eax := 1, c_ecx := 1, c_edx := 1\<rparr>) (irq_stub 0 @ irq_common_handler) stub_caller) DS = 0x23"
proof -
  have k: "keeps_frame (\<lambda>c. c\<lparr>c_eax := 1, c_ecx := 1, c_edx := 1\<rparr>) x" for x by (simp add: keeps_frame_def)
  have n: "\<not> has_error_code 48" by (simp add: has_error_code_def)
  from interrupt_stubs[OF k k, of 48 0 stub_caller 0] show ?thesis by (simp add: n stub_caller_def)
qed

end
