(* ===== verification/Segments.thy ===== *)
theory Segments
  imports Stubs Devices
begin

unbundle bit_operations_syntax

text \<open>
  \<open>kernel/src/cpu/asm/gdt.S\<close>, the two functions that load the descriptor tables that \<open>gdt.c\<close> fills, and what the processor
  makes of the loaded tables in user mode: which data segments a process has after the \<open>iret\<close> that enters it, and
  which ports it may use.
\<close>

section \<open>\<open>gdt_load\<close> and \<open>tss_load\<close>\<close>

record seg_cpu = stub_cpu +
  c_eip :: u32
  c_cs :: u16
  c_ss :: u16
  c_gdtr :: table_pointer
  c_tr :: u16

datatype load_asm = Mov_arg_eax | Lgdt_eax | Mov_imm_ax u16 | Mov_ax_to seg | Mov_ax_ss | Ljmp u16 | Ltr_ax | Ret

text \<open>\<open>lgdt\<close> takes six bytes: two of the size and four of the address.\<close>

definition pointer_at :: "(u32 \<Rightarrow> u32) \<Rightarrow> u32 \<Rightarrow> table_pointer" where
  "pointer_at m p = (ucast (m p), drop_bit 16 (m p) OR push_bit 16 (m (p + 4)))"

primrec load_step :: "load_asm \<Rightarrow> seg_cpu \<Rightarrow> seg_cpu" where
  "load_step Mov_arg_eax c = c\<lparr>c_eax := c_mem c (c_esp c + 4)\<rparr>"
| "load_step Lgdt_eax c = c\<lparr>c_gdtr := pointer_at (c_mem c) (c_eax c)\<rparr>"
| "load_step (Mov_imm_ax x) c = c\<lparr>c_eax := (c_eax c AND 0xFFFF0000) OR ucast x\<rparr>"
| "load_step (Mov_ax_to r) c = c\<lparr>c_seg := (c_seg c)(r := ucast (c_eax c))\<rparr>"
| "load_step Mov_ax_ss c = c\<lparr>c_ss := ucast (c_eax c)\<rparr>"
| "load_step (Ljmp sel) c = c\<lparr>c_cs := sel\<rparr>"
| "load_step Ltr_ax c = c\<lparr>c_tr := ucast (c_eax c)\<rparr>"
| "load_step Ret c = c\<lparr>c_eip := c_mem c (c_esp c), c_esp := c_esp c + 4\<rparr>"

definition gdt_load :: "seg_cpu \<Rightarrow> seg_cpu" where
  "gdt_load = fold load_step
    [Mov_arg_eax, Lgdt_eax, Mov_imm_ax (ucast GDT_SELECTOR_KERNEL_DATA), Mov_ax_to DS, Mov_ax_to ES, Mov_ax_to FS, Mov_ax_to GS,
     Mov_ax_ss, Ljmp (ucast GDT_SELECTOR_KERNEL_CODE), Ret]"

definition tss_load :: "seg_cpu \<Rightarrow> seg_cpu" where
  "tss_load = fold load_step [Mov_arg_eax, Ltr_ax, Ret]"

lemma low_half: "ucast ((x AND 0xFFFF0000) OR ucast (y :: u16) :: u32) = y"
proof (rule bit_word_eqI)
  fix n assume n: "n < LENGTH(16)"
  have "\<not> bit (0xFFFF0000 :: u32) n"
  proof -
    have "(0xFFFF0000 :: u32) = push_bit 16 0xFFFF" by simp
    then show ?thesis using n by (simp only: bit_push_bit_iff) simp
  qed
  then show "bit (ucast ((x AND 0xFFFF0000) OR ucast y :: u32) :: u16) n = bit y n" using n by (simp add: bit_simps)
qed

lemma gdt_load_result:
  "gdt_load c = c\<lparr>c_eax := (c_mem c (c_esp c + 4) AND 0xFFFF0000) OR 0x10, c_gdtr := pointer_at (c_mem c) (c_mem c (c_esp c + 4)),
     c_seg := (\<lambda>_. 0x10), c_ss := 0x10, c_cs := 8, c_eip := c_mem c (c_esp c), c_esp := c_esp c + 4\<rparr>"
proof -
  have "(c_seg c)(DS := x, ES := x, FS := x, GS := x) = (\<lambda>_. x)" for x
  proof
    fix r show "((c_seg c)(DS := x, ES := x, FS := x, GS := x)) r = x" by (cases r) simp_all
  qed
  then show ?thesis
    by (simp add: gdt_load_def selector_defs low_half[where y = "0x10", simplified])
qed

lemma tss_load_result:
  "tss_load c = c\<lparr>c_eax := c_mem c (c_esp c + 4), c_tr := ucast (c_mem c (c_esp c + 4)), c_eip := c_mem c (c_esp c), c_esp := c_esp c + 4\<rparr>"
  by (simp add: tss_load_def)

section \<open>What the processor makes of them\<close>

text \<open>The descriptor that a selector names, and its privilege.\<close>

definition descriptor :: "gdt_entry list \<Rightarrow> u16 \<Rightarrow> gdt_entry" where
  "descriptor gdt sel = gdt ! (unat sel div 8)"

definition privilege :: "gdt_entry \<Rightarrow> u8" where
  "privilege e = drop_bit 5 (g_access e) AND 3"

definition conforming_code :: "gdt_entry \<Rightarrow> bool" where
  "conforming_code e \<longleftrightarrow> bit (g_access e) 3 \<and> bit (g_access e) 2"

text \<open>
  \<open>iret\<close> to a less privileged level clears each data segment register whose descriptor is more privileged than that
  level, so that user mode cannot go on with a segment of the kernel.
\<close>

definition outer_return :: "gdt_entry list \<Rightarrow> u8 \<Rightarrow> (seg \<Rightarrow> u16) \<Rightarrow> seg \<Rightarrow> u16" where
  "outer_return gdt cpl sg r =
     (let e = descriptor gdt (sg r) in if privilege e < cpl \<and> \<not> conforming_code e then 0 else sg r)"

text \<open>
  A port is open to a task whose privilege does not reach it anyway, when the bit of the port in the bitmap of the task
  state segment is clear. The processor takes two bytes of the bitmap, and both must be inside the limit. \<open>m\<close> is the
  memory that the segment is part of.
\<close>

definition port_open :: "gdt_entry \<Rightarrow> u16 \<Rightarrow> (u32 \<Rightarrow> u8) \<Rightarrow> u16 \<Rightarrow> bool" where
  "port_open e iomap m port \<longleftrightarrow>
     unat iomap + unat port div 8 + 1 \<le> unat (segment_limit e)
     \<and> \<not> bit (m (segment_base e + ucast iomap + ucast port div 8)) (unat port mod 8)"

section \<open>Properties\<close>

lemma gdt_init_ready:
  assumes "length (gdt_entries s) = 6"
  obtains s' where "gdt_init gdt_addr tss_addr s = Ok () s'" "gdt_ptr s' = (47, gdt_addr)" "gdtr s' = (47, gdt_addr)"
    "t_iomap_base (tss s') = 108" "g_access (gdt_entries s' ! 1) = 0x9A" "g_access (gdt_entries s' ! 2) = 0x92"
    "gdt_entries s' ! 5 = make_gdt_entry tss_addr (tss_addr + 108) GDT_TSS_ACCESS 0" "task_register s' = 0x2B"
proof -
  obtain a b c d e f where "gdt_entries s = [a, b, c, d, e, f]"
    using assms by (auto simp: numeral_eq_Suc length_Suc_conv)
  then have "\<exists>s'. gdt_init gdt_addr tss_addr s = Ok () s' \<and> gdt_ptr s' = (47, gdt_addr) \<and> gdtr s' = (47, gdt_addr)
      \<and> t_iomap_base (tss s') = 108 \<and> g_access (gdt_entries s' ! 1) = 0x9A \<and> g_access (gdt_entries s' ! 2) = 0x92
      \<and> gdt_entries s' ! 5 = make_gdt_entry tss_addr (tss_addr + 108) GDT_TSS_ACCESS 0 \<and> task_register s' = 0x2B"
    by (simp add: gdt_init_def gdt_write_tss_def gdt_set_entry_def Let_def TSS_SIZE_def selector_defs
        SEG_SELECTOR_REQUESTED_PRIV_def gdt_access_defs) (simp add: make_gdt_entry_def)
  then show ?thesis using that by blast
qed

text \<open>C24: what \<open>gdt.S\<close> loads, and what is left of it in user mode. \<open>gdt_init\<close> ends with \<open>gdt_load\<close> and \<open>tss_load\<close>. Called
  with a pointer to \<open>gdt_ptr\<close> and with the selector of the task state segment, they load exactly the registers that the model
  of \<open>gdt_init\<close> sets, leave the kernel with the flat data segment in every data segment register and the flat
  code segment in cs, and return to their caller. The \<open>iret\<close> of \<open>proc_switch_process\<close> loads cs and ss only; since the
  kernel's data segment is more privileged than a process, the processor clears all four data segment
  registers, and a process runs without any, so that its first access through one of them is a protection fault.\<close>

theorem tables_loaded:
  fixes c :: seg_cpu and s :: "'s cpu_scheme"
  assumes "length (gdt_entries s) = 6"
    and "pointer_at (c_mem c) (c_mem c (c_esp c + 4)) = (47, gdt_addr)"
    and "c_mem d (c_esp d + 4) = GDT_SELECTOR_TSS OR SEG_SELECTOR_REQUESTED_PRIV 3"
  shows "\<exists>s'. gdt_init gdt_addr tss_addr s = Ok () s' \<and> gdtr s' = gdt_ptr s'
    \<and> c_gdtr (gdt_load c) = gdtr s' \<and> c_tr (tss_load d) = task_register s'
    \<and> c_seg (gdt_load c) = (\<lambda>_. ucast GDT_SELECTOR_KERNEL_DATA) \<and> c_ss (gdt_load c) = ucast GDT_SELECTOR_KERNEL_DATA
    \<and> c_cs (gdt_load c) = ucast GDT_SELECTOR_KERNEL_CODE \<and> c_mem (gdt_load c) = c_mem c
    \<and> c_esp (gdt_load c) = c_esp c + 4 \<and> c_eip (gdt_load c) = c_mem c (c_esp c)
    \<and> outer_return (gdt_entries s') 3 (c_seg (gdt_load c)) = (\<lambda>_. 0)"
proof -
  obtain s' where s': "gdt_init gdt_addr tss_addr s = Ok () s'" "gdt_ptr s' = (47, gdt_addr)" "gdtr s' = (47, gdt_addr)"
    "g_access (gdt_entries s' ! 2) = 0x92" "task_register s' = 0x2B" by (rule gdt_init_ready[OF assms(1)])
  have "c_tr (tss_load d) = 0x2B"
    using assms(3) by (simp add: tss_load_result selector_defs SEG_SELECTOR_REQUESTED_PRIV_def)
  moreover have "outer_return (gdt_entries s') 3 (\<lambda>_. 0x10) = (\<lambda>_. 0)"
    using s'(4) by (simp add: outer_return_def descriptor_def privilege_def conforming_code_def fun_eq_iff)
  ultimately show ?thesis using s' assms(2) by (intro exI[of _ s']) (simp add: gdt_load_result selector_defs)
qed

text \<open>C23: user mode reaches the ports. The limit in the descriptor of the task state segment is an address instead of a
  size, so that the segment goes on behind the structure \<open>tss\<close>, and the processor takes the memory there for the
  bitmap of ports: each port whose bit there is zero, as in variables that are zero, is open to every process, up to the
  port that the limit happens to reach. With the limit that belongs there, the size less one, no port would be open.\<close>

theorem user_mode_reaches_ports:
  assumes "length (gdt_entries s) = 6"
  shows "\<exists>s'. gdt_init gdt_addr tss_addr s = Ok () s'
    \<and> (\<forall>port m. port_open (gdt_entries s' ! 5) (t_iomap_base (tss s')) m port \<longleftrightarrow>
         108 + unat port div 8 + 1 \<le> unat ((tss_addr + 108) AND 0xFFFFF) \<and> \<not> bit (m (tss_addr + 108 + ucast port div 8)) (unat port mod 8))
    \<and> (\<forall>port m. \<not> port_open (make_gdt_entry tss_addr (TSS_SIZE - 1) GDT_TSS_ACCESS 0) (t_iomap_base (tss s')) m port)"
proof -
  obtain s' where s': "gdt_init gdt_addr tss_addr s = Ok () s'" "t_iomap_base (tss s') = 108"
    "gdt_entries s' ! 5 = make_gdt_entry tss_addr (tss_addr + 108) GDT_TSS_ACCESS 0" by (rule gdt_init_ready[OF assms])
  have "segment_base (make_gdt_entry tss_addr l a f) = tss_addr" for l a f by (rule segment_base_entry)
  moreover have "(107 :: u32) AND 0xFFFFF = 107" by simp
  ultimately show ?thesis
    by (intro exI[of _ s']) (simp add: s' port_open_def segment_limit_entry TSS_SIZE_def)
qed

definition loading :: seg_cpu where
  "loading = stub_cpu.extend (stub_caller\<lparr>c_mem := (\<lambda>a. if a = 0xD0002004 then 0xC0117000 else if a = 0xC0117000 then 0x8000002F
       else if a = 0xC0117004 then 0xC011 else 0)\<rparr>)
     \<lparr>c_eip = 0, c_cs = 0x10, c_ss = 0x18, c_gdtr = (0, 0), c_tr = 0\<rparr>"

theorem tables_loaded_witness:
  "c_gdtr (gdt_load loading) = (47, 0xC0118000) \<and> (\<exists>s'. gdt_init 0xC0118000 0xC0118100 blank_cpu = Ok () s'
    \<and> outer_return (gdt_entries s') 3 (c_seg (gdt_load loading)) = (\<lambda>_. 0))"
proof -
  have l: "length (gdt_entries blank_cpu) = 6" by (simp add: blank_cpu_def pmm.defs)
  have p: "pointer_at (c_mem loading) (c_mem loading (c_esp loading + 4)) = (47, 0xC0118000)"
    by (simp add: loading_def pointer_at_def stub_caller_def stub_cpu.defs)
  have t: "c_mem (loading\<lparr>c_mem := \<lambda>_. 0x2B\<rparr>) (c_esp (loading\<lparr>c_mem := \<lambda>_. 0x2B\<rparr>) + 4) = GDT_SELECTOR_TSS OR SEG_SELECTOR_REQUESTED_PRIV 3"
    by (simp add: selector_defs SEG_SELECTOR_REQUESTED_PRIV_def)
  from tables_loaded[OF l p t, of "0xC0118100"] p show ?thesis by (auto simp: gdt_load_result)
qed

text \<open>With the addresses of the sample image, the ports of the keyboard and of the interrupt controller are open to user mode.\<close>

theorem user_mode_reaches_ports_witness:
  "\<exists>s'. gdt_init 0xC0118000 0xC0118100 blank_cpu = Ok () s'
    \<and> port_open (gdt_entries s' ! 5) (t_iomap_base (tss s')) (\<lambda>_. 0) KBD_DATA
    \<and> port_open (gdt_entries s' ! 5) (t_iomap_base (tss s')) (\<lambda>_. 0) PIC1_DATA"
proof -
  have l: "length (gdt_entries blank_cpu) = 6" by (simp add: blank_cpu_def pmm.defs)
  from user_mode_reaches_ports[OF l, of "0xC0118000" "0xC0118100"] show ?thesis
    by (auto simp: KBD_DATA_def PIC1_DATA_def)
qed

end
