(* ===== verification/Proc.thy ===== *)
theory Proc
  imports Paging
begin

unbundle bit_operations_syntax

text \<open>
  \<open>kernel/src/sys/proc.c\<close> with \<open>proc.h\<close>: processes, the ring they form and the switch between them.

  The process structures lie on the kernel's heap and are reached through pointers only: \<open>processes\<close>
  maps the address of each to its contents, and an access through a pointer that leads to none is
  \<open>NullPointer\<close>. The list is circular through the pointers \<open>p_next\<close> and the walks over it take fuel.
  The switch ends in an \<open>iret\<close> and does not return: it is an \<open>Exit\<close> with the frame that \<open>iret\<close> pops.
\<close>

section \<open>State\<close>

definition KERNEL_BASE_VIRT :: u32 where "KERNEL_BASE_VIRT = 0xC0000000"
definition PROC_KERNEL_STACK_PAGES :: u32 where "PROC_KERNEL_STACK_PAGES = 10"
definition KERNEL_PAGE_DIR_INDEX :: nat where "KERNEL_PAGE_DIR_INDEX = unat (drop_bit 22 KERNEL_BASE_VIRT)"

record process =
  p_next :: u32
  p_pid :: u32
  p_stack_len :: u32
  p_code_len :: u32
  p_directory :: u32
  p_kernel_stack :: u32
  p_registers :: registers

definition sizeof_process :: u32 where "sizeof_process = 6 * 4 + 19 * 4"

record proc = vmm +
  processes :: "u32 \<Rightarrow> process option"
  current_process :: u32
  next_pid :: u32

section \<open>Operations\<close>

definition load_process :: "u32 \<Rightarrow> ('s proc_scheme, process) action" where
  "load_process p = andthen (asks (\<lambda>s. processes s p)) (orelse_stuck NullPointer)"

definition store_process :: "u32 \<Rightarrow> process \<Rightarrow> ('s proc_scheme, unit) action" where
  "store_process p x = change (\<lambda>s. s\<lparr>processes := (processes s)(p \<mapsto> x)\<rparr>)"

definition set_next :: "u32 \<Rightarrow> u32 \<Rightarrow> ('s proc_scheme, unit) action" where
  "set_next p q = andthen (load_process p) (\<lambda>x. store_process p (x\<lparr>p_next := q\<rparr>))"

definition set_current :: "u32 \<Rightarrow> ('s proc_scheme, unit) action" where
  "set_current p = change (\<lambda>s. s\<lparr>current_process := p\<rparr>)"

definition proc_current_process :: "('s proc_scheme, u32) action" where
  "proc_current_process = asks current_process"

definition proc_switch_process :: "registers option \<Rightarrow> ('s proc_scheme, unit) action" where
  "proc_switch_process regs =
     before (case regs of
               Some r \<Rightarrow> andthen proc_current_process (\<lambda>c. andthen (load_process c) (\<lambda>x. store_process c (x\<lparr>p_registers := r\<rparr>)))
             | None \<Rightarrow> ret ())
    (andthen proc_current_process (\<lambda>c. andthen (load_process c) (\<lambda>x.
     before (set_current (p_next x))
    (before (if p_next x = 0
             then before (kprintf ''[PROC] No next process in queue\<newline>'' []) kabort
             else ret ())
    (before (kprintf (CHR 0x1B # ''[s'' @ CHR 0x1B # ''[24;78H'') [])
    (before (kprintf (CHR 0x1B # ''[K'') [])
    (andthen (load_process (p_next x)) (\<lambda>y.
     before (kprintf ''%d'' [Num (p_pid y)])
    (before (kprintf (CHR 0x1B # ''[u'') [])
    (before (gdt_set_kernel_stack (p_kernel_stack y))
    (before (paging_switch_directory (p_directory y))
            (leave (Iret (r_eip (p_registers y)) 0x1B (r_eflags (p_registers y) OR 512) (r_esp (p_registers y)) 0x23)))))))))))))"

definition proc_init :: "('s proc_scheme, unit) action" where
  "proc_init = before (timer_register_callback Proc_timer_callback) (proc_switch_process None)"

definition proc_timer_callback :: "registers \<Rightarrow> ('s proc_scheme, unit) action" where
  "proc_timer_callback regs =
     andthen proc_current_process (\<lambda>c.
     if c = 0 then ret ()
     else andthen (load_process c) (\<lambda>x.
       if p_next x = c then ret ()
       else if p_next x \<noteq> 0 then proc_switch_process (Some regs)
       else ret ()))"

text \<open>The walk that prints the ring, from the process behind the current one.\<close>

primrec print_chain :: "nat \<Rightarrow> u32 \<Rightarrow> u32 \<Rightarrow> ('s proc_scheme, unit) action" where
  "print_chain 0 c p = leave OutOfFuel"
| "print_chain (Suc fuel) c p =
     (if p \<noteq> c then
        andthen (load_process p) (\<lambda>x.
        before (kprintf ''%d -> '' [Num (p_pid x)]) (print_chain fuel c (p_next x)))
      else ret ())"

definition proc_print_processes :: "nat \<Rightarrow> ('s proc_scheme, unit) action" where
  "proc_print_processes fuel =
     andthen proc_current_process (\<lambda>c. andthen (load_process c) (\<lambda>x.
     before (kprintf ''Process chain: %d -> '' [Num (p_pid x)])
    (before (print_chain fuel c (p_next x))
            (kprintf ''(loop)\<newline>'' []))))"

text \<open>The walk to the process in front of \<open>c\<close>.\<close>

primrec find_previous :: "nat \<Rightarrow> u32 \<Rightarrow> u32 \<Rightarrow> ('s proc_scheme, u32) action" where
  "find_previous 0 c p = leave OutOfFuel"
| "find_previous (Suc fuel) c p =
     andthen (load_process p) (\<lambda>x. if p_next x \<noteq> c then find_previous fuel c (p_next x) else ret p)"

definition proc_exit_current_process :: "nat \<Rightarrow> ('s proc_scheme, unit) action" where
  "proc_exit_current_process fuel =
     andthen (read32 0xFFFFF000) (\<lambda>e0.
     andthen (read32 (0xFFFFF000 + 4 * 767)) (\<lambda>e767.
     andthen (read32 (0xFFFFF000 + 4 * 1023)) (\<lambda>e1023.
     let code_page = e0 AND PAGE_FRAME; stack_page = e767 AND PAGE_FRAME; pd_page = e1023 AND PAGE_FRAME
     in andthen proc_current_process (\<lambda>c. andthen (load_process c) (\<lambda>x.
        before (pmm_free_pages code_page (p_code_len x))
       (before (pmm_free_pages stack_page (p_stack_len x))
       (before (pmm_free_page pd_page)
       (let next_current = p_next x
        in before (if next_current = c
                   then before (kprintf ''[PROC] Killed last process alive\<newline>'' []) kabort
                   else ret ())
          (andthen (find_previous fuel c next_current) (\<lambda>p.
           before (set_next p next_current)
          (before (set_current p)
          (before (proc_print_processes fuel)
                  (proc_switch_process None)))))))))))))"

section \<open>Creating a process\<close>

text \<open>A copy of the page directory in \<open>pd_phys\<close>, made through a page behind the heap, without what lies below the kernel.\<close>

definition proc_make_directory :: "u32 \<Rightarrow> ('s proc_scheme, unit) action" where
  "proc_make_directory pd_phys =
     before (paging_map_page KERNEL_HEAP_END_VIRT pd_phys PAGE_RW)
    (before (virt_memcpy KERNEL_HEAP_END_VIRT 0xFFFFF000 (unat PAGE_SIZE))
    (before (write32 (KERNEL_HEAP_END_VIRT + 4 * 1023) (pd_phys OR PAGE_PRESENT OR PAGE_RW))
    (before (foreach [0..<KERNEL_PAGE_DIR_INDEX] (\<lambda>i. write32 (KERNEL_HEAP_END_VIRT + 4 * of_nat i) 0))
            (paging_unmap_page KERNEL_HEAP_END_VIRT))))"

text \<open>Code at address 0, read-only after it is copied, and the stack below the kernel.\<close>

definition proc_load_code :: "u32 \<Rightarrow> u32 \<Rightarrow> u32 \<Rightarrow> ('s proc_scheme, unit) action" where
  "proc_load_code code len num_code_pages =
     andthen (pmm_alloc_pages num_code_pages) (\<lambda>code_phys.
     before (paging_map_pages 0x00000000 code_phys num_code_pages (PAGE_USER OR PAGE_RW))
    (before (virt_memcpy 0x00000000 code (unat len))
            (foreach [0..<unat num_code_pages] (\<lambda>i.
               andthen (paging_get_page (0x00000000 + of_nat i * PAGE_SIZE) False 0) (\<lambda>p.
               andthen (read32 p) (\<lambda>e. write32 p (e AND NOT PAGE_RW)))))))"

definition proc_map_stack :: "u32 \<Rightarrow> ('s proc_scheme, unit) action" where
  "proc_map_stack num_stack_pages =
     andthen (pmm_alloc_pages num_stack_pages) (\<lambda>stack_phys.
     paging_map_pages (KERNEL_BASE_VIRT - PAGE_SIZE * num_stack_pages) stack_phys num_stack_pages (PAGE_USER OR PAGE_RW))"

definition initial_registers :: registers where
  "initial_registers = \<lparr>r_gs = 0, r_fs = 0, r_es = 0,
     r_ds = GDT_SELECTOR_USER_DATA OR SEG_SELECTOR_REQUESTED_PRIV 3,
     r_edi = 0, r_esi = 0, r_ebp = 0, r_kernel_esp = 0, r_ebx = 0, r_edx = 0, r_ecx = 0, r_eax = 0,
     r_int_no = 0, r_err_code = 0, r_eip = 0,
     r_cs = GDT_SELECTOR_USER_CODE OR SEG_SELECTOR_REQUESTED_PRIV 3,
     r_eflags = 0, r_esp = KERNEL_BASE_VIRT - 4, r_ss = 0\<rparr>"

text \<open>The new process is linked in behind the current one, or is the ring.\<close>

definition proc_insert :: "u32 \<Rightarrow> ('s proc_scheme, unit) action" where
  "proc_insert process =
     andthen proc_current_process (\<lambda>c.
     if c \<noteq> 0 then
       andthen (load_process c) (\<lambda>x.
       if p_next x \<noteq> 0 then before (set_next c process) (set_next process (p_next x)) else ret ())
     else before (set_current process) (set_next process process))"

definition proc_run_code :: "u32 \<Rightarrow> u32 \<Rightarrow> ('s proc_scheme, unit) action" where
  "proc_run_code code len =
     (let num_code_pages = len div PAGE_SIZE + 1; num_stack_pages = PROC_KERNEL_STACK_PAGES
      in andthen (kmalloc sizeof_process) (\<lambda>process.
         andthen (kmalloc PAGE_SIZE) (\<lambda>stack. let kernel_stack = stack + PAGE_SIZE - 1 in
         andthen pmm_alloc_page (\<lambda>pd_phys.
         before (proc_make_directory pd_phys)
        (andthen (andthen (paging_get_page 0xFFFFF000 False 0) read32) (\<lambda>e.
         let previous_pd = e AND PAGE_FRAME
         in before (paging_switch_directory pd_phys)
           (before (proc_load_code code len num_code_pages)
           (before (proc_map_stack num_stack_pages)
           (before (paging_switch_directory previous_pd)
           (andthen (asks next_pid) (\<lambda>pid.
            before (change (\<lambda>s. s\<lparr>next_pid := pid + 1\<rparr>))
           (before (if process = 0 then stuck NullPointer
                    else store_process process \<lparr>p_next = 0, p_pid = pid, p_stack_len = num_stack_pages,
                           p_code_len = num_code_pages, p_directory = pd_phys, p_kernel_stack = kernel_stack,
                           p_registers = initial_registers\<rparr>)
                   (proc_insert process)))))))))))))"

section \<open>Rings\<close>

text \<open>\<open>chain m ps q\<close>: each process of \<open>ps\<close> points to the next, and the last one to \<open>q\<close>.\<close>

fun chain :: "(u32 \<Rightarrow> process option) \<Rightarrow> u32 list \<Rightarrow> u32 \<Rightarrow> bool" where
  "chain m [] q \<longleftrightarrow> True"
| "chain m (p # ps) q \<longleftrightarrow> (\<exists>x. m p = Some x \<and> p_next x = hd (ps @ [q])) \<and> chain m ps q"

definition ring :: "(u32 \<Rightarrow> process option) \<Rightarrow> u32 list \<Rightarrow> bool" where
  "ring m ps \<longleftrightarrow> ps \<noteq> [] \<and> distinct ps \<and> 0 \<notin> set ps \<and> chain m ps (hd ps)"

text \<open>The ring from the current process on.\<close>

definition scheduled :: "u32 list \<Rightarrow> 's proc_scheme \<Rightarrow> bool" where
  "scheduled ps s \<longleftrightarrow> ring (processes s) ps \<and> current_process s = hd ps"

lemma chain_append: "chain m (ps @ qs) q \<longleftrightarrow> chain m ps (hd (qs @ [q])) \<and> chain m qs q"
proof (induction ps)
  case (Cons p ps)
  have "hd ((ps @ qs) @ [q]) = hd (ps @ [hd (qs @ [q])])" by (cases ps) simp_all
  then show ?case using Cons by simp
qed simp

lemma chain_other: "p \<notin> set ps \<Longrightarrow> chain (m(p \<mapsto> x)) ps q \<longleftrightarrow> chain m ps q"
  by (induction ps) auto

lemma chain_same_next: "m p = Some x \<Longrightarrow> p_next x' = p_next x \<Longrightarrow> chain (m(p \<mapsto> x')) ps q \<longleftrightarrow> chain m ps q"
  by (induction ps) auto

lemma chain_set_last:
  assumes "chain m (ps @ [p]) q" "p \<notin> set ps" "p_next x = q'"
  shows "chain (m(p \<mapsto> x)) (ps @ [p]) q'"
  using assms by (simp add: chain_append chain_other)

lemma ring_Cons: "ring m (c # ps) \<longleftrightarrow> distinct (c # ps) \<and> 0 \<notin> set (c # ps) \<and> chain m (c # ps) c"
  by (auto simp: ring_def)

lemma ring_rotate: "ring m (c # ps) \<Longrightarrow> ring m (ps @ [c])"
proof -
  assume r: "ring m (c # ps)"
  then have c: "chain m [c] (hd (ps @ [c]))" "chain m ps c" by (simp_all add: ring_Cons)
  then have "chain m (ps @ [c]) (hd (ps @ [c]))" unfolding chain_append by simp
  then show "ring m (ps @ [c])" using r by (auto simp: ring_def)
qed

lemma ring_head:
  assumes "ring m (c # ps)"
  obtains x where "m c = Some x" "p_next x = hd (ps @ [c])" "hd (ps @ [c]) \<noteq> 0" "hd (ps @ [c]) \<in> set (c # ps)"
proof -
  obtain x where x: "m c = Some x" "p_next x = hd (ps @ [c])" using assms by (auto simp: ring_Cons)
  have "hd (ps @ [c]) \<in> set (c # ps)" by (cases ps) simp_all
  moreover from this have "hd (ps @ [c]) \<noteq> 0" using assms by (metis ring_Cons)
  ultimately show ?thesis using that[OF x] by blast
qed

lemma ring_member: "ring m ps \<Longrightarrow> p \<in> set ps \<Longrightarrow> \<exists>x. m p = Some x"
proof -
  have "chain m qs q \<Longrightarrow> p \<in> set qs \<Longrightarrow> \<exists>x. m p = Some x" for qs q by (induction qs) auto
  then show "ring m ps \<Longrightarrow> p \<in> set ps \<Longrightarrow> \<exists>x. m p = Some x" by (auto simp: ring_def)
qed

text \<open>Saving registers and other fields leaves the ring as it is.\<close>

lemma ring_same_next: "m p = Some x \<Longrightarrow> p_next x' = p_next x \<Longrightarrow> ring (m(p \<mapsto> x')) ps \<longleftrightarrow> ring m ps"
  by (simp add: ring_def chain_same_next)

text \<open>A new process behind the current one, and the current one removed.\<close>

lemma ring_insert:
  assumes "ring m (c # ps)" "m c = Some x" "m n = Some y" "n \<notin> set (c # ps)" "n \<noteq> 0"
  shows "ring (m(c \<mapsto> x\<lparr>p_next := n\<rparr>, n \<mapsto> y\<lparr>p_next := p_next x\<rparr>)) (c # n # ps)"
proof -
  have "p_next x = hd (ps @ [c])" using assms(1,2) by (auto simp: ring_Cons)
  then show ?thesis using assms by (auto simp: ring_Cons chain_other)
qed

lemma ring_remove:
  assumes "ring m (c # ps)" "ps \<noteq> []" "m (last ps) = Some x"
  shows "ring (m(last ps \<mapsto> x\<lparr>p_next := hd ps\<rparr>)) ps"
proof -
  have p: "butlast ps @ [last ps] = ps" using assms(2) by simp
  have d: "distinct ps" "0 \<notin> set ps" "chain m ps c" using assms(1) by (auto simp: ring_Cons)
  have "distinct (butlast ps @ [last ps])" unfolding p by (rule d(1))
  then have "last ps \<notin> set (butlast ps)" by simp
  moreover have "chain m (butlast ps @ [last ps]) c" unfolding p by (rule d(3))
  ultimately have "chain (m(last ps \<mapsto> x\<lparr>p_next := hd ps\<rparr>)) (butlast ps @ [last ps]) (hd ps)"
    by (intro chain_set_last[of m _ _ c]) simp_all
  then show ?thesis unfolding p using d assms(2) by (simp add: ring_def)
qed

section \<open>Switching\<close>

definition save_registers :: "registers option \<Rightarrow> u32 \<Rightarrow> (u32 \<Rightarrow> process option) \<Rightarrow> u32 \<Rightarrow> process option" where
  "save_registers regs c m = (case regs of None \<Rightarrow> m | Some r \<Rightarrow> m(c := map_option (\<lambda>x. x\<lparr>p_registers := r\<rparr>) (m c)))"

lemma ring_save: "ring (save_registers regs c m) ps = ring m ps"
proof (cases regs)
  case (Some r)
  show ?thesis
  proof (cases "m c")
    case None
    then have "m(c := None) = m" by auto
    then show ?thesis using Some None by (simp add: save_registers_def)
  next
    case (Some x)
    then show ?thesis using \<open>regs = Some r\<close> ring_same_next[of m c x "x\<lparr>p_registers := r\<rparr>" ps] by (simp add: save_registers_def)
  qed
qed (simp add: save_registers_def)

lemma kprintf_con:
  assumes "format_text fmt args \<noteq> None" "format_modes resting fmt = Some resting" "list_all plain_arg args" "quiet t"
  obtains u where "kprintf fmt args (s\<lparr>con := t\<rparr>) = Ok () (s\<lparr>con := u\<rparr>)" "quiet u"
proof -
  have "quiet (con (s\<lparr>con := t\<rparr>))" using assms(4) by simp
  from kprintf_returns[OF assms(1-3) this] that show ?thesis by auto
qed

text \<open>The number of the process in the corner of the screen.\<close>

lemma show_pid:
  fixes s :: "'s proc_scheme"
  assumes "quiet (con s)" "processes s p = Some y"
  obtains t where "quiet t" "\<forall>k :: process \<Rightarrow> ('s proc_scheme, unit) action. before (kprintf (CHR 0x1B # ''[s'' @ CHR 0x1B # ''[24;78H'') [])
    (before (kprintf (CHR 0x1B # ''[K'') [])
    (andthen (load_process p) (\<lambda>y. before (kprintf ''%d'' [Num (p_pid y)])
    (before (kprintf (CHR 0x1B # ''[u'') []) (k y))))) s = k y (s\<lparr>con := t\<rparr>)"
proof -
  let ?f1 = "CHR 0x1B # ''[s'' @ CHR 0x1B # ''[24;78H''" and ?f2 = "CHR 0x1B # ''[K''" and ?f3 = "''%d''"
    and ?f4 = "CHR 0x1B # ''[u''" and ?a = "[Num (p_pid y)]"
  have f: "format_text ?f1 [] \<noteq> None" "format_modes resting ?f1 = Some resting"
    "format_text ?f2 [] \<noteq> None" "format_modes resting ?f2 = Some resting"
    "format_text ?f3 ?a \<noteq> None" "format_modes resting ?f3 = Some resting"
    "format_text ?f4 [] \<noteq> None" "format_modes resting ?f4 = Some resting" "list_all plain_arg []" "list_all plain_arg ?a"
    by (simp_all add: format_eval)
  obtain t1 where t1: "kprintf ?f1 [] s = Ok () (s\<lparr>con := t1\<rparr>)" "quiet t1"
    using kprintf_returns[OF f(1,2,9) assms(1)] .
  obtain t2 where t2: "kprintf ?f2 [] (s\<lparr>con := t1\<rparr>) = Ok () (s\<lparr>con := t2\<rparr>)" "quiet t2"
    using kprintf_con[OF f(3,4,9) t1(2)] .
  obtain t3 where t3: "kprintf ?f3 ?a (s\<lparr>con := t2\<rparr>) = Ok () (s\<lparr>con := t3\<rparr>)" "quiet t3"
    using kprintf_con[OF f(5,6,10) t2(2)] .
  obtain t4 where t4: "kprintf ?f4 [] (s\<lparr>con := t3\<rparr>) = Ok () (s\<lparr>con := t4\<rparr>)" "quiet t4"
    using kprintf_con[OF f(7,8,9) t3(2)] .
  show ?thesis
    by (rule that[OF t4(2)]) (use t1(1) t2(1) t3(1) t4(1) assms(2) in \<open>simp add: load_process_def\<close>)
qed

text \<open>The frame with which a process is entered, and the state in which it runs.\<close>

definition user_frame :: "process \<Rightarrow> exit" where
  "user_frame y = Iret (r_eip (p_registers y)) 0x1B (r_eflags (p_registers y) OR 512) (r_esp (p_registers y)) 0x23"

definition enter :: "u32 \<Rightarrow> process \<Rightarrow> 's proc_scheme \<Rightarrow> 's proc_scheme" where
  "enter q y s = s\<lparr>current_process := q, tss := (tss s)\<lparr>t_esp0 := p_kernel_stack y\<rparr>, cr3 := p_directory y,
     current_page_directory := P2V (p_directory y)\<rparr>"

lemma save_runs:
  assumes "ring (processes s) (c # ps)" "current_process s = c"
  shows "(case regs of
               Some r \<Rightarrow> andthen proc_current_process (\<lambda>c. andthen (load_process c) (\<lambda>x. store_process c (x\<lparr>p_registers := r\<rparr>)))
             | None \<Rightarrow> ret ()) s = Ok () (s\<lparr>processes := save_registers regs c (processes s)\<rparr>)"
proof (cases regs)
  case (Some r)
  obtain x0 where "processes s c = Some x0" using ring_head[OF assms(1)] by blast
  then show ?thesis using Some assms(2)
    by (simp add: proc_current_process_def load_process_def store_process_def save_registers_def)
qed (simp add: save_registers_def)

lemma proc_switch_runs:
  fixes s :: "'s proc_scheme"
  assumes "scheduled (c # ps) s" "quiet (con s)"
  obtains t y where "quiet t" "save_registers regs c (processes s) (hd (ps @ [c])) = Some y"
    "proc_switch_process regs s = Exit (user_frame y)
       (enter (hd (ps @ [c])) y (s\<lparr>con := t, processes := save_registers regs c (processes s)\<rparr>))"
    "scheduled (ps @ [c]) (enter (hd (ps @ [c])) y (s\<lparr>con := t, processes := save_registers regs c (processes s)\<rparr>))"
proof -
  let ?q = "hd (ps @ [c])" and ?m = "save_registers regs c (processes s)"
  have r: "ring (processes s) (c # ps)" "current_process s = c" using assms(1) by (simp_all add: scheduled_def)
  then have rm: "ring ?m (c # ps)" by (simp add: ring_save)
  from ring_head[OF rm] obtain x where x: "?m c = Some x" "p_next x = ?q" "?q \<noteq> 0" "?q \<in> set (c # ps)" .
  from ring_member[OF rm x(4)] obtain y where y: "?m ?q = Some y" by blast
  let ?s1 = "s\<lparr>processes := ?m\<rparr>" and ?s2 = "s\<lparr>processes := ?m, current_process := ?q\<rparr>"
  note save = save_runs[OF r, of regs]
  have q: "quiet (con ?s2)" "processes ?s2 ?q = Some y" using assms(2) y by simp_all
  from show_pid[OF q] obtain t where t: "quiet t"
    and pid: "\<forall>k :: process \<Rightarrow> ('s proc_scheme, unit) action. before (kprintf (CHR 0x1B # ''[s'' @ CHR 0x1B # ''[24;78H'') [])
      (before (kprintf (CHR 0x1B # ''[K'') [])
      (andthen (load_process ?q) (\<lambda>y. before (kprintf ''%d'' [Num (p_pid y)])
      (before (kprintf (CHR 0x1B # ''[u'') []) (k y))))) ?s2 = k y (?s2\<lparr>con := t\<rparr>)" .
  let ?s' = "enter ?q y (s\<lparr>con := t, processes := ?m\<rparr>)"
  have "proc_switch_process regs s = Exit (user_frame y) ?s'"
    using save x r(2) pid by (simp add: proc_switch_process_def proc_current_process_def load_process_def set_current_def gdt_set_kernel_stack_def
        paging_switch_directory_def user_frame_def enter_def)
  moreover have "scheduled (ps @ [c]) ?s'" using ring_rotate[OF rm] by (simp add: scheduled_def enter_def)
  ultimately show ?thesis using that[OF t y] by blast
qed

section \<open>Walking the ring\<close>

lemma print_chain_runs:
  "chain (processes s) ps c \<Longrightarrow> c \<notin> set ps \<Longrightarrow> length ps < fuel \<Longrightarrow> quiet t \<Longrightarrow>
   \<exists>u. print_chain fuel c (hd (ps @ [c])) (s\<lparr>con := t\<rparr>) = Ok () (s\<lparr>con := u\<rparr>) \<and> quiet u"
proof (induction ps arbitrary: fuel t)
  case Nil
  then show ?case by (cases fuel) auto
next
  case (Cons p ps)
  obtain x where x: "processes s p = Some x" "p_next x = hd (ps @ [c])" using Cons.prems(1) by auto
  obtain f where f: "fuel = Suc f" "length ps < f" using Cons.prems(3) by (cases fuel) auto
  let ?fmt = "''%d -> ''" and ?args = "[Num (p_pid x)]"
  have fmt: "format_text ?fmt ?args \<noteq> None" "format_modes resting ?fmt = Some resting" "list_all plain_arg ?args"
    by (simp_all add: format_eval)
  obtain u where u: "kprintf ?fmt ?args (s\<lparr>con := t\<rparr>) = Ok () (s\<lparr>con := u\<rparr>)" "quiet u"
    using kprintf_con[OF fmt Cons.prems(4)] .
  have rest: "chain (processes s) ps c" "c \<notin> set ps" using Cons.prems by auto
  from Cons.IH[OF this f(2) u(2)] show ?case
    using x u(1) f(1) Cons.prems(2) by (auto simp: load_process_def)
qed

lemma proc_print_runs:
  assumes "scheduled (c # ps) s" "quiet (con s)" "length ps < fuel"
  obtains t where "proc_print_processes fuel s = Ok () (s\<lparr>con := t\<rparr>)" "quiet t"
proof -
  have r: "ring (processes s) (c # ps)" "current_process s = c" using assms(1) by (simp_all add: scheduled_def)
  from ring_head[OF r(1)] obtain x where x: "processes s c = Some x" "p_next x = hd (ps @ [c])" by blast
  have ch: "chain (processes s) ps c" "c \<notin> set ps" using r(1) by (simp_all add: ring_Cons)
  let ?fmt = "''Process chain: %d -> ''" and ?args = "[Num (p_pid x)]" and ?last = "''(loop)\<newline>''"
  have f: "format_text ?fmt ?args \<noteq> None" "format_modes resting ?fmt = Some resting" "list_all plain_arg ?args"
    "format_text ?last [] \<noteq> None" "format_modes resting ?last = Some resting" "list_all plain_arg []"
    by (simp_all add: format_eval)
  obtain t1 where t1: "kprintf ?fmt ?args s = Ok () (s\<lparr>con := t1\<rparr>)" "quiet t1"
    using kprintf_returns[OF f(1-3) assms(2)] .
  from print_chain_runs[OF ch assms(3) t1(2)] obtain t2 where
    t2: "print_chain fuel c (hd (ps @ [c])) (s\<lparr>con := t1\<rparr>) = Ok () (s\<lparr>con := t2\<rparr>)" "quiet t2" by blast
  obtain t3 where t3: "kprintf ?last [] (s\<lparr>con := t2\<rparr>) = Ok () (s\<lparr>con := t3\<rparr>)" "quiet t3"
    using kprintf_con[OF f(4-6) t2(2)] .
  show ?thesis
    by (rule that[OF _ t3(2)])
      (use x r(2) t1(1) t2(1) t3(1) in \<open>simp add: proc_print_processes_def proc_current_process_def load_process_def\<close>)
qed

lemma find_previous_last:
  "chain (processes s) ps c \<Longrightarrow> ps \<noteq> [] \<Longrightarrow> c \<notin> set ps \<Longrightarrow> length ps \<le> fuel \<Longrightarrow> find_previous fuel c (hd ps) s = Ok (last ps) s"
proof (induction ps arbitrary: fuel)
  case (Cons p ps)
  obtain x where x: "processes s p = Some x" "p_next x = hd (ps @ [c])" using Cons.prems(1) by auto
  obtain f where f: "fuel = Suc f" "length ps \<le> f" using Cons.prems(4) by (cases fuel) auto
  show ?case
  proof (cases "ps = []")
    case True
    then show ?thesis using x f by (simp add: load_process_def)
  next
    case False
    then have n: "p_next x = hd ps" "hd ps \<noteq> c" using x Cons.prems(3) by (auto simp: hd_append)
    have "find_previous f c (hd ps) s = Ok (last ps) s"
      by (rule Cons.IH) (use Cons.prems f False in auto)
    then show ?thesis using x n f False by (simp add: load_process_def)
  qed
qed simp

lemma ring_rotate_back: "ring m (ps @ [c]) \<Longrightarrow> ring m (c # ps)"
  by (auto simp: ring_def chain_append)

section \<open>Exit\<close>

lemma fold_unmarks: "\<exists>b u. each_block mmap_unset base num s = s\<lparr>bitmap := b, used_blocks := u\<rparr>"
proof -
  have "\<exists>b u. fold (\<lambda>k. mmap_unset (f k)) bs s = s\<lparr>bitmap := b, used_blocks := u\<rparr>" for f :: "nat \<Rightarrow> u32" and bs
  proof (induction bs arbitrary: s)
    case Nil
    show ?case by (rule exI[of _ "bitmap s"], rule exI[of _ "used_blocks s"]) simp
  next
    case (Cons b bs)
    from Cons[of "mmap_unset (f b) s"] show ?case by (auto simp: mmap_unset_def)
  qed
  then show ?thesis unfolding each_block_def .
qed

text \<open>What exit frees: runs that start at the frames of two page tables, and the directory.\<close>

definition exit_frees :: "'s proc_scheme \<Rightarrow> process \<Rightarrow> (nat \<Rightarrow> bool) \<Rightarrow> nat \<Rightarrow> bool" where
  "exit_frees s x used =
     drop_blocks (unat (table_frame s 1023)) 1
    (drop_blocks (unat (table_frame s 767)) (unat (p_stack_len x))
    (drop_blocks (unat (table_frame s 0)) (unat (p_code_len x)) used))"

lemma unat_frame_block: "unat ((e AND PAGE_FRAME) div PMM_BLOCK_SIZE) = unat (entry_frame e)"
proof -
  have "entry_frame (e AND PAGE_FRAME) = entry_frame e"
    by (rule bit_word_eqI) (auto simp: entry_frame_def bit_simps bit_PAGE_FRAME)
  then show ?thesis using unat_entry_frame[of "e AND PAGE_FRAME"] by (simp add: unat_div PMM_BLOCK_SIZE_def)
qed

definition exit_freed :: "process \<Rightarrow> 's proc_scheme \<Rightarrow> 's proc_scheme" where
  "exit_freed x s = mmap_unset ((dir_entry s 1023 AND PAGE_FRAME) div PMM_BLOCK_SIZE)
     (each_block mmap_unset ((dir_entry s 767 AND PAGE_FRAME) div PMM_BLOCK_SIZE) (p_stack_len x)
     (each_block mmap_unset ((dir_entry s 0 AND PAGE_FRAME) div PMM_BLOCK_SIZE) (p_code_len x) s))"

lemma unmarks_frame:
  "\<exists>b u. mmap_unset b3 (each_block mmap_unset b2 n2 (each_block mmap_unset b1 n1 s)) = s\<lparr>bitmap := b, used_blocks := u\<rparr>"
proof -
  obtain m1 u1 where 1: "each_block mmap_unset b1 n1 s = s\<lparr>bitmap := m1, used_blocks := u1\<rparr>"
    using fold_unmarks by blast
  obtain m2 u2 where 2: "each_block mmap_unset b2 n2 (s\<lparr>bitmap := m1, used_blocks := u1\<rparr>)
      = s\<lparr>bitmap := m1, used_blocks := u1\<rparr>\<lparr>bitmap := m2, used_blocks := u2\<rparr>"
    using fold_unmarks by blast
  show ?thesis unfolding 1 2 by (auto simp: mmap_unset_def)
qed

lemma exit_freed_frame: "\<exists>b u. exit_freed x s = s\<lparr>bitmap := b, used_blocks := u\<rparr>"
  unfolding exit_freed_def by (rule unmarks_frame)

lemma exit_freed_used:
  assumes "unat (p_code_len x) < 2 ^ 31" "unat (p_stack_len x) < 2 ^ 31"
  shows "block_used (exit_freed x s) = exit_frees s x (block_used s)"
proof -
  have frame: "unat ((dir_entry s i AND PAGE_FRAME) div PMM_BLOCK_SIZE) + unat k \<le> 2 ^ 32" if "unat k < 2 ^ 31" for i and k :: u32
  proof -
    have "unat (entry_frame (dir_entry s i)) < 2 ^ LENGTH(20)" by (rule unsigned_less)
    then show ?thesis unfolding unat_frame_block using that by simp
  qed
  have one: "block_used (mmap_unset b t) = drop_blocks (unat b) 1 (block_used t)" for b and t :: "'a proc_scheme"
    by (auto simp: fun_eq_iff block_used_unset drop_blocks_def)
  show ?thesis
    unfolding exit_freed_def exit_frees_def one drop_blocks_mark[OF frame[OF assms(1)]] drop_blocks_mark[OF frame[OF assms(2)]]
      unat_frame_block table_frame_def by (rule refl)
qed

lemma directory_words:
  assumes "recursive s"
  shows "read32 0xFFFFF000 s = Ok (dir_entry s 0) s" "read32 (0xFFFFF000 + 4 * 767) s = Ok (dir_entry s 767) s"
    "read32 (0xFFFFF000 + 4 * 1023) s = Ok (dir_entry s 1023) s"
  using dir_entry_access(1)[OF assms, of 0] dir_entry_access(1)[OF assms, of "0xBFC00000"]
    dir_entry_access(1)[OF assms, of "0xFFC00000"]
  by (simp_all add: dir_entry_addr_def DIRECTORY_INDEX_def dir_of_def)

lemma proc_exit_runs:
  assumes "scheduled (c # ps) s" "ps \<noteq> []" "quiet (con s)" "recursive s" "length ps < fuel" "processes s c = Some x"
  obtains y s' z where "proc_exit_current_process fuel s = Exit (user_frame y) s'" "scheduled ps s'" "quiet (con s')"
    "processes s (last ps) = Some z" "processes s' = (processes s)(last ps \<mapsto> z\<lparr>p_next := hd ps\<rparr>)" "processes s' (hd ps) = Some y"
    "cr3 s' = p_directory y" "t_esp0 (tss s') = p_kernel_stack y" "block_used s' = block_used (exit_freed x s)"
    "max_blocks s' = max_blocks s"
proof -
  have r: "ring (processes s) (c # ps)" "current_process s = c" using assms(1) by (simp_all add: scheduled_def)
  then have ch: "chain (processes s) ps c" "c \<notin> set ps" "p_next x = hd ps"
    using assms(2,6) by (auto simp: ring_Cons)
  have "hd ps \<noteq> c" using ch(2) assms(2) by (metis hd_in_set)
  have "last ps \<in> set (c # ps)" using assms(2) by simp
  from ring_member[OF r(1) this] obtain z where z: "processes s (last ps) = Some z" by blast
  obtain b u where fr: "exit_freed x s = s\<lparr>bitmap := b, used_blocks := u\<rparr>" using exit_freed_frame by blast
  let ?s1 = "s\<lparr>bitmap := b, used_blocks := u\<rparr>"
  let ?m = "(processes s)(last ps \<mapsto> z\<lparr>p_next := hd ps\<rparr>)"
  let ?s2 = "s\<lparr>bitmap := b, used_blocks := u, processes := ?m, current_process := last ps\<rparr>"
  have e: "read32 0xFFFFF000 s = Ok (dir_entry s 0) s" "read32 (0xFFFFF000 + 4 * 767) s = Ok (dir_entry s 767) s"
    "read32 (0xFFFFF000 + 4 * 1023) s = Ok (dir_entry s 1023) s"
    by (rule directory_words[OF assms(4)])+
  have prev: "find_previous fuel c (hd ps) ?s1 = Ok (last ps) ?s1"
    by (rule find_previous_last) (use ch assms(2,5) in simp_all)
  have "ring ?m ps" by (rule ring_remove[OF r(1) assms(2) z])
  then have "ring ?m (butlast ps @ [last ps])" using assms(2) by simp
  then have "ring ?m (last ps # butlast ps)" by (rule ring_rotate_back)
  then have sch: "scheduled (last ps # butlast ps) ?s2" by (simp add: scheduled_def)
  obtain t where t: "proc_print_processes fuel ?s2 = Ok () (?s2\<lparr>con := t\<rparr>)" "quiet t"
    by (rule proc_print_runs[OF sch, of fuel]) (use assms(3,5) in auto)
  have sch': "scheduled (last ps # butlast ps) (?s2\<lparr>con := t\<rparr>)" using sch by (simp add: scheduled_def)
  have target: "hd (butlast ps @ [last ps]) = hd ps" "butlast ps @ [last ps] = ps" using assms(2) by simp_all
  have q: "quiet (con (?s2\<lparr>con := t\<rparr>))" using t(2) by simp
  let ?m' = "save_registers None (last ps) (processes (?s2\<lparr>con := t\<rparr>))"
  let ?s3 = "\<lambda>t' y. enter (hd ps) y (?s2\<lparr>con := t\<rparr>\<lparr>con := t', processes := ?m'\<rparr>)"
  obtain t' y where y: "quiet t'" "?m' (hd ps) = Some y"
    and sw: "proc_switch_process None (?s2\<lparr>con := t\<rparr>) = Exit (user_frame y) (?s3 t' y)" "scheduled ps (?s3 t' y)"
    by (rule proc_switch_runs[OF sch' q, of None, unfolded target]) (rule that; assumption)
  have "proc_exit_current_process fuel s = Exit (user_frame y) (?s3 t' y)"
    using e assms(6) r(2) ch(3) \<open>hd ps \<noteq> c\<close> prev z t(1) sw(1) fr[unfolded exit_freed_def]
    by (simp add: proc_exit_current_process_def Let_def proc_current_process_def load_process_def store_process_def
        set_next_def set_current_def pmm_free_pages_def pmm_free_page_def)
  then show ?thesis
    by (rule that[OF _ sw(2) _ z]) (use y fr in \<open>simp_all add: enter_def block_used_def fun_eq_iff save_registers_def\<close>)
qed

lemma proc_exit_last:
  assumes "scheduled [c] s" "quiet (con s)" "recursive s"
  shows "\<exists>s'. proc_exit_current_process fuel s = Exit Abort s'"
proof -
  obtain x where x: "processes s c = Some x" "p_next x = c" "current_process s = c"
    using assms(1) by (auto simp: scheduled_def ring_Cons)
  obtain b u where fr: "exit_freed x s = s\<lparr>bitmap := b, used_blocks := u\<rparr>" using exit_freed_frame by blast
  let ?s1 = "s\<lparr>bitmap := b, used_blocks := u\<rparr>"
  have e: "read32 0xFFFFF000 s = Ok (dir_entry s 0) s" "read32 (0xFFFFF000 + 4 * 767) s = Ok (dir_entry s 767) s"
    "read32 (0xFFFFF000 + 4 * 1023) s = Ok (dir_entry s 1023) s"
    by (rule directory_words[OF assms(3)])+
  have "stops (before (kprintf ''[PROC] Killed last process alive\<newline>'' []) (kabort :: ('a proc_scheme, unit) action)) ?s1"
    by (intro stops_print stops_kabort) (simp_all add: format_eval)
  moreover have "quiet (con ?s1)" using assms(2) by simp
  ultimately obtain t where
    "before (kprintf ''[PROC] Killed last process alive\<newline>'' []) (kabort :: ('a proc_scheme, unit) action) ?s1 = Exit Abort (?s1\<lparr>con := t\<rparr>)"
    using stops_apply by blast
  then have "proc_exit_current_process fuel s = Exit Abort (?s1\<lparr>con := t\<rparr>)"
    using e x fr[unfolded exit_freed_def]
    by (simp add: proc_exit_current_process_def Let_def proc_current_process_def load_process_def pmm_free_pages_def pmm_free_page_def)
  then show ?thesis by blast
qed

section \<open>Preemption\<close>

lemma proc_timer_callback_cases:
  assumes "scheduled (c # ps) s"
  shows "proc_timer_callback regs s = (if ps = [] then Ok () s else proc_switch_process (Some regs) s)"
proof -
  have r: "ring (processes s) (c # ps)" "current_process s = c" using assms by (simp_all add: scheduled_def)
  from ring_head[OF r(1)] obtain x where x: "processes s c = Some x" "p_next x = hd (ps @ [c])" "hd (ps @ [c]) \<noteq> 0" by blast
  have "c \<noteq> 0" "c \<notin> set ps" using r(1) by (simp_all add: ring_Cons)
  moreover from this have "hd (ps @ [c]) = c \<longleftrightarrow> ps = []" by (cases ps) auto
  ultimately show ?thesis using x r(2)
    by (cases "ps = []") (simp_all add: proc_timer_callback_def proc_current_process_def load_process_def)
qed

text \<open>The state after timer interrupts that found the processes in the given registers.\<close>

primrec ticks :: "registers list \<Rightarrow> 's proc_scheme \<Rightarrow> 's proc_scheme option" where
  "ticks [] s = Some s"
| "ticks (r # rs) s = (case proc_timer_callback r s of
     Ok u t \<Rightarrow> ticks rs t
   | Exit (Iret eip cs eflags esp ss) t \<Rightarrow> ticks rs t
   | _ \<Rightarrow> None)"

lemma ticks_Cons:
  "proc_timer_callback r s = Ok () t \<Longrightarrow> ticks (r # rs) s = ticks rs t"
  "proc_timer_callback r s = Exit (user_frame y) t \<Longrightarrow> ticks (r # rs) s = ticks rs t"
  by (simp_all add: user_frame_def)

lemma tick_rotates:
  assumes "scheduled (c # ps) s" "quiet (con s)" "ps \<noteq> []"
  obtains y s' where "proc_timer_callback r s = Exit (user_frame y) s'" "scheduled (ps @ [c]) s'" "quiet (con s')"
    "processes s' = save_registers (Some r) c (processes s)" "processes s (hd ps) = Some y"
    "cr3 s' = p_directory y" "t_esp0 (tss s') = p_kernel_stack y" "current_process s' = hd ps"
proof -
  have h: "hd (ps @ [c]) = hd ps" using assms(3) by simp
  have "c \<notin> set ps" using assms(1) by (simp add: scheduled_def ring_Cons)
  then have n: "hd ps \<noteq> c" using assms(3) by (metis hd_in_set)
  obtain t y where y: "quiet t" "save_registers (Some r) c (processes s) (hd ps) = Some y"
    and sw: "proc_switch_process (Some r) s = Exit (user_frame y) (enter (hd ps) y (s\<lparr>con := t, processes := save_registers (Some r) c (processes s)\<rparr>))"
      "scheduled (ps @ [c]) (enter (hd ps) y (s\<lparr>con := t, processes := save_registers (Some r) c (processes s)\<rparr>))"
    by (rule proc_switch_runs[OF assms(1,2), of "Some r", unfolded h]) (rule that; assumption)
  show ?thesis
    by (rule that[OF _ sw(2)])
      (use y sw(1) n assms(3) proc_timer_callback_cases[OF assms(1)] in \<open>simp_all add: enter_def save_registers_def\<close>)
qed

text \<open>After \<open>k\<close> ticks the ring has turned by \<open>k\<close>, and a process that was not current keeps its registers.\<close>

lemma ticks_rotate:
  "scheduled ps s \<Longrightarrow> quiet (con s) \<Longrightarrow>
   \<exists>s'. ticks rs s = Some s' \<and> scheduled (rotate (length rs) ps) s' \<and> quiet (con s')"
proof (induction rs arbitrary: s ps)
  case (Cons r rs)
  obtain c qs where ps: "ps = c # qs" using Cons.prems(1) by (cases ps) (auto simp: scheduled_def ring_def)
  have rot: "rotate (length (r # rs)) ps = rotate (length rs) (qs @ [c])" by (simp add: ps rotate1_rotate_swap)
  show ?case
  proof (cases "qs = []")
    case True
    have "proc_timer_callback r s = Ok () s" using proc_timer_callback_cases[of c qs s] Cons.prems(1) True ps by simp
    from ticks_Cons(1)[OF this] show ?thesis using Cons.IH[OF Cons.prems] rot ps True by simp
  next
    case False
    obtain y s' where "proc_timer_callback r s = Exit (user_frame y) s'" "scheduled (qs @ [c]) s'" "quiet (con s')"
      using tick_rotates[OF Cons.prems(1)[unfolded ps] Cons.prems(2) False] by blast
    then show ?thesis using Cons.IH[of "qs @ [c]" s'] ticks_Cons(2) rot by metis
  qed
qed simp

lemma ticks_keep:
  "scheduled (qs @ c # zs) s \<Longrightarrow> quiet (con s) \<Longrightarrow> length rs = length qs \<Longrightarrow> p \<in> set (c # zs) \<Longrightarrow>
   \<exists>s'. ticks rs s = Some s' \<and> scheduled (c # zs @ qs) s' \<and> quiet (con s') \<and> processes s' p = processes s p"
proof (induction qs arbitrary: s rs zs)
  case (Cons q qs)
  obtain r rs' where rs: "rs = r # rs'" "length rs' = length qs" using Cons.prems(3) by (cases rs) auto
  have sch: "scheduled (q # (qs @ c # zs)) s" using Cons.prems(1) by simp
  have "q \<noteq> p" using sch Cons.prems(4) by (auto simp: scheduled_def ring_Cons)
  from tick_rotates[OF sch Cons.prems(2)] obtain y s1 where
    s1: "proc_timer_callback r s = Exit (user_frame y) s1" "scheduled ((qs @ c # zs) @ [q]) s1" "quiet (con s1)"
      "processes s1 = save_registers (Some r) q (processes s)" by blast
  have "scheduled (qs @ c # (zs @ [q])) s1" "p \<in> set (c # (zs @ [q]))" using s1(2) Cons.prems(4) by auto
  from Cons.IH[OF this(1) s1(3) rs(2) this(2)] obtain s' where
    "ticks rs' s1 = Some s'" "scheduled (c # zs @ q # qs) s'" "quiet (con s')" "processes s' p = processes s1 p" by auto
  then show ?case using ticks_Cons(2)[OF s1(1)] rs(1) s1(4) \<open>q \<noteq> p\<close> by (auto simp: save_registers_def)
qed simp

section \<open>Linking in\<close>

lemma proc_insert_links:
  assumes "processes s n = Some y" "n \<noteq> 0"
  shows "current_process s = 0 \<Longrightarrow> \<exists>s'. proc_insert n s = Ok () s' \<and> scheduled [n] s' \<and>
      s' = s\<lparr>current_process := n, processes := (processes s)(n \<mapsto> y\<lparr>p_next := n\<rparr>)\<rparr>"
    "scheduled (c # ps) s \<Longrightarrow> n \<notin> set (c # ps) \<Longrightarrow> processes s c = Some x \<Longrightarrow>
      \<exists>s'. proc_insert n s = Ok () s' \<and> scheduled (c # n # ps) s' \<and>
      s' = s\<lparr>processes := (processes s)(c \<mapsto> x\<lparr>p_next := n\<rparr>, n \<mapsto> y\<lparr>p_next := p_next x\<rparr>)\<rparr>"
proof -
  assume "current_process s = 0"
  then show "\<exists>s'. proc_insert n s = Ok () s' \<and> scheduled [n] s' \<and>
      s' = s\<lparr>current_process := n, processes := (processes s)(n \<mapsto> y\<lparr>p_next := n\<rparr>)\<rparr>"
    using assms by (simp add: proc_insert_def proc_current_process_def load_process_def store_process_def set_current_def
        set_next_def scheduled_def ring_Cons)
next
  assume sch: "scheduled (c # ps) s" and n: "n \<notin> set (c # ps)" and x: "processes s c = Some x"
  then have r: "ring (processes s) (c # ps)" "current_process s = c" by (simp_all add: scheduled_def)
  have "c \<noteq> 0" "p_next x \<noteq> 0" using ring_head[OF r(1)] r(1) x by (auto simp: ring_Cons)
  then show "\<exists>s'. proc_insert n s = Ok () s' \<and> scheduled (c # n # ps) s' \<and>
      s' = s\<lparr>processes := (processes s)(c \<mapsto> x\<lparr>p_next := n\<rparr>, n \<mapsto> y\<lparr>p_next := p_next x\<rparr>)\<rparr>"
    using assms r x n ring_insert[OF r(1) x assms(1) n assms(2)]
    by (simp add: proc_insert_def proc_current_process_def load_process_def store_process_def set_next_def scheduled_def)
qed

section \<open>Properties\<close>

text \<open>Two processes in the ring, the first of them current.\<close>

definition sample_process :: "u32 \<Rightarrow> u32 \<Rightarrow> process" where
  "sample_process q pid = \<lparr>p_next = q, p_pid = pid, p_stack_len = 10, p_code_len = 1, p_directory = 0x1000 * pid,
     p_kernel_stack = 0xD0001000 + 0x1000 * pid, p_registers = initial_registers\<rparr>"

definition two_processes :: proc where
  "two_processes = vmm.extend empty_space \<lparr>processes = [0xD0000000 \<mapsto> sample_process 0xD0001064 1,
     0xD0001064 \<mapsto> sample_process 0xD0000000 2], current_process = 0xD0000000, next_pid = 3\<rparr>"

lemma two_processes_simps:
  "scheduled [0xD0000000, 0xD0001064] two_processes" "quiet (con two_processes)" "recursive two_processes"
  "processes two_processes = [0xD0000000 \<mapsto> sample_process 0xD0001064 1, 0xD0001064 \<mapsto> sample_process 0xD0000000 2]"
  "processes two_processes 0xD0000000 = Some (sample_process 0xD0001064 1)"
  "processes two_processes 0xD0001064 = Some (sample_process 0xD0000000 2)" "next_pid two_processes = 3"
proof -
  have "space_ok empty_space" "quiet (con empty_space)" using empty_space_ready[of 0] by (simp_all add: space_ready_def)
  then show "quiet (con two_processes)" "recursive two_processes"
    by (simp_all add: two_processes_def vmm.defs space_ok_def recursive_def space_defs)
  show "scheduled [0xD0000000, 0xD0001064] two_processes"
    by (simp add: scheduled_def ring_Cons two_processes_def vmm.defs sample_process_def)
qed (simp_all add: two_processes_def vmm.defs)

text \<open>C20: a switch saves the interrupted registers in the current process, makes its successor current,
  turns the ring by one, and enters the successor: through the stack that its interrupts will use, in its
  page directory, and by an \<open>iret\<close> to user mode with interrupts on. Of the registers that were saved only
  eip, esp and eflags are restored; the others hold what the kernel left in them.\<close>

theorem switch_enters_next_process:
  assumes "scheduled (c # ps) s" "quiet (con s)"
  shows "\<exists>y s'. proc_switch_process (Some r) s =
      Exit (Iret (r_eip (p_registers y)) 0x1B (r_eflags (p_registers y) OR 512) (r_esp (p_registers y)) 0x23) s'
    \<and> scheduled (ps @ [c]) s' \<and> processes s' (hd (ps @ [c])) = Some y
    \<and> (\<forall>x. processes s c = Some x \<longrightarrow> processes s' = (processes s)(c \<mapsto> x\<lparr>p_registers := r\<rparr>))
    \<and> t_esp0 (tss s') = p_kernel_stack y \<and> cr3 s' = p_directory y \<and> ram s' = ram s \<and> quiet (con s')"
proof -
  let ?m = "save_registers (Some r) c (processes s)"
  obtain t y where "quiet t" "?m (hd (ps @ [c])) = Some y"
    "proc_switch_process (Some r) s = Exit (user_frame y) (enter (hd (ps @ [c])) y (s\<lparr>con := t, processes := ?m\<rparr>))"
    "scheduled (ps @ [c]) (enter (hd (ps @ [c])) y (s\<lparr>con := t, processes := ?m\<rparr>))"
    by (rule proc_switch_runs[OF assms, of "Some r"])
  then show ?thesis
    by (intro exI[of _ y] exI[of _ "enter (hd (ps @ [c])) y (s\<lparr>con := t, processes := ?m\<rparr>)"])
      (auto simp: user_frame_def enter_def save_registers_def)
qed

theorem switch_enters_next_process_witness:
  "\<exists>s'. proc_switch_process (Some (interrupt_frame 32)) two_processes = Exit (Iret 0 0x1B 512 0xBFFFFFFC 0x23) s'
     \<and> scheduled [0xD0001064, 0xD0000000] s' \<and> cr3 s' = 0x2000"
proof -
  obtain y s' where "proc_switch_process (Some (interrupt_frame 32)) two_processes =
      Exit (Iret (r_eip (p_registers y)) 0x1B (r_eflags (p_registers y) OR 512) (r_esp (p_registers y)) 0x23) s'"
    "scheduled ([0xD0001064] @ [0xD0000000]) s'" "processes s' (hd ([0xD0001064] @ [0xD0000000])) = Some y"
    "\<forall>x. processes two_processes 0xD0000000 = Some x \<longrightarrow>
       processes s' = (processes two_processes)(0xD0000000 \<mapsto> x\<lparr>p_registers := interrupt_frame 32\<rparr>)" "cr3 s' = p_directory y"
    using switch_enters_next_process[OF two_processes_simps(1,2), of "interrupt_frame 32"] by blast
  then show ?thesis
    by (auto simp: two_processes_simps(5,6) sample_process_def initial_registers_def KERNEL_BASE_VIRT_def)
qed

text \<open>C11: the scheduler is fair. However the clock interrupts find the processes, every tick makes the next
  process of the ring current: after \<open>k\<close> ticks the process \<open>k\<close> places on, so that among any \<open>length ps\<close>
  consecutive ticks every process of the ring is entered, and the ring stays what it was, turned.\<close>

theorem round_robin:
  assumes "scheduled ps s" "quiet (con s)"
  shows "(\<exists>s'. ticks rs s = Some s' \<and> current_process s' = ps ! (length rs mod length ps)
      \<and> scheduled (rotate (length rs) ps) s' \<and> quiet (con s'))
    \<and> (\<forall>p \<in> set ps. \<exists>k < length ps. \<forall>rs'. length rs' = length rs + k \<longrightarrow>
         (\<exists>s'. ticks rs' s = Some s' \<and> current_process s' = p))"
proof -
  have ps: "ps \<noteq> []" using assms(1) by (auto simp: scheduled_def ring_def)
  have runs: "\<exists>s'. ticks rs s = Some s' \<and> current_process s' = ps ! (length rs mod length ps)
    \<and> scheduled (rotate (length rs) ps) s' \<and> quiet (con s')" for rs
  proof -
    from ticks_rotate[OF assms] obtain s' where
      s': "ticks rs s = Some s'" "scheduled (rotate (length rs) ps) s'" "quiet (con s')" by blast
    then have "current_process s' = ps ! (length rs mod length ps)" by (simp add: scheduled_def hd_rotate_conv_nth[OF ps])
    with s' show ?thesis by blast
  qed
  have "\<exists>k < length ps. \<forall>rs'. length rs' = length rs + k \<longrightarrow> (\<exists>s'. ticks rs' s = Some s' \<and> current_process s' = p)"
    if "p \<in> set ps" for p
  proof -
    have "p \<in> set (rotate (length rs) ps)" using that by simp
    then obtain k where k: "k < length ps" "rotate (length rs) ps ! k = p"
      unfolding in_set_conv_nth by (metis length_rotate)
    then have "ps ! ((length rs + k) mod length ps) = p" by (simp add: nth_rotate add.commute)
    then show ?thesis using runs k(1) by metis
  qed
  then show ?thesis using runs[of rs] by blast
qed

theorem round_robin_witness:
  "\<exists>s'. ticks [interrupt_frame 32, interrupt_frame 32, interrupt_frame 32] two_processes = Some s'
     \<and> current_process s' = 0xD0001064"
proof -
  have "length [interrupt_frame 32, interrupt_frame 32, interrupt_frame 32] mod length [0xD0000000, 0xD0001064 :: u32] = 1"
    by (simp add: mod_Suc)
  then show ?thesis
    using round_robin[OF two_processes_simps(1,2), of "[interrupt_frame 32, interrupt_frame 32, interrupt_frame 32]"]
    by (auto simp del: ticks.simps list.size)
qed

text \<open>C21: a process that is interrupted resumes where it was. With \<open>r\<close> the registers in which the clock found
  it, once every other process has had its turn the next tick returns to its eip and esp, with its eflags
  and interrupts on, in its own page directory.\<close>

theorem preempted_process_resumes:
  assumes "scheduled (c # ps) s" "quiet (con s)" "processes s c = Some x" "length rs + 1 = length ps"
  shows "\<exists>s1 s2. ticks (r # rs) s = Some s1
    \<and> proc_timer_callback r' s1 = Exit (Iret (r_eip r) 0x1B (r_eflags r OR 512) (r_esp r) 0x23) s2
    \<and> current_process s2 = c \<and> cr3 s2 = p_directory x"
proof -
  have ps: "ps \<noteq> []" using assms(4) by auto
  obtain qs q where qs: "ps = qs @ [q]" using ps by (metis rev_exhaust)
  from tick_rotates[OF assms(1,2) ps, of r] obtain y s0 where
    s0: "proc_timer_callback r s = Exit (user_frame y) s0" "scheduled (ps @ [c]) s0" "quiet (con s0)"
      "processes s0 = save_registers (Some r) c (processes s)" by blast
  have "scheduled (qs @ q # [c]) s0" "length rs = length qs" using s0(2) qs assms(4) by simp_all
  from ticks_keep[OF this(1) s0(3) this(2), of c] obtain s1 where
    s1: "ticks rs s0 = Some s1" "scheduled (q # [c] @ qs) s1" "quiet (con s1)" and keep: "processes s1 c = processes s0 c" by auto
  obtain y' s2 where s2: "proc_timer_callback r' s1 = Exit (user_frame y') s2" "processes s1 (hd ([c] @ qs)) = Some y'"
    "cr3 s2 = p_directory y'" "current_process s2 = hd ([c] @ qs)"
    using tick_rotates[OF s1(2,3), of r'] by blast
  then have "y' = x\<lparr>p_registers := r\<rparr>" using keep s0(4) assms(3) by (simp add: save_registers_def)
  then show ?thesis using s2 s1(1) ticks_Cons(2)[OF s0(1)] by (simp add: user_frame_def)
qed

theorem preempted_process_resumes_witness:
  "\<exists>s1 s2. ticks [(interrupt_frame 32)\<lparr>r_eip := 0x123, r_esp := 0xBFFFFF00, r_eflags := 0\<rparr>] two_processes = Some s1
     \<and> proc_timer_callback (interrupt_frame 32) s1 = Exit (Iret 0x123 0x1B 512 0xBFFFFF00 0x23) s2
     \<and> current_process s2 = 0xD0000000 \<and> cr3 s2 = 0x1000"
  using preempted_process_resumes[OF two_processes_simps(1,2,5), of "[]" "(interrupt_frame 32)\<lparr>r_eip := 0x123, r_esp := 0xBFFFFF00, r_eflags := 0\<rparr>"
      "interrupt_frame 32"]
  by (simp add: sample_process_def)

text \<open>C18: exit unlinks the current process and enters the process behind it: the rest of the ring is a ring
  again, in the same order, the walk to the predecessor ends within as many steps as the ring is long, and
  the last process of the ring ends the kernel in \<open>abort\<close>. What is freed is not the memory of the
  process: entries 0 and 767 of the page directory are page tables, and the runs of blocks that are freed
  start at the frames of these two tables; whatever lies behind them is freed, the pages of code and stack are not.\<close>

theorem exit_removes_process:
  assumes "scheduled (c # ps) s" "quiet (con s)" "recursive s" "length ps < fuel" "processes s c = Some x"
    "unat (p_code_len x) < 2 ^ 31" "unat (p_stack_len x) < 2 ^ 31"
  shows "(ps = [] \<longrightarrow> (\<exists>s'. proc_exit_current_process fuel s = Exit Abort s'))
    \<and> (ps \<noteq> [] \<longrightarrow> (\<exists>y s'. proc_exit_current_process fuel s =
          Exit (Iret (r_eip (p_registers y)) 0x1B (r_eflags (p_registers y) OR 512) (r_esp (p_registers y)) 0x23) s'
        \<and> scheduled ps s' \<and> quiet (con s') \<and> processes s' (hd ps) = Some y \<and> cr3 s' = p_directory y
        \<and> processes s' = (processes s)(last ps := map_option (\<lambda>z. z\<lparr>p_next := hd ps\<rparr>) (processes s (last ps)))
        \<and> (\<forall>n. block_used s' n \<longleftrightarrow> block_used s n \<and> n \<noteq> unat (table_frame s 1023)
             \<and> \<not> (unat (table_frame s 0) \<le> n \<and> n < unat (table_frame s 0) + unat (p_code_len x))
             \<and> \<not> (unat (table_frame s 767) \<le> n \<and> n < unat (table_frame s 767) + unat (p_stack_len x)))))"
proof (cases "ps = []")
  case True
  then show ?thesis using proc_exit_last assms(1-3) by blast
next
  case False
  obtain y s' z where s': "proc_exit_current_process fuel s = Exit (user_frame y) s'" "scheduled ps s'" "quiet (con s')"
    "processes s' (hd ps) = Some y" "cr3 s' = p_directory y" "block_used s' = block_used (exit_freed x s)"
    and z: "processes s (last ps) = Some z" "processes s' = (processes s)(last ps \<mapsto> z\<lparr>p_next := hd ps\<rparr>)"
    by (rule proc_exit_runs[OF assms(1) False assms(2-5)])
  have "block_used s' n \<longleftrightarrow> block_used s n \<and> n \<noteq> unat (table_frame s 1023)
             \<and> \<not> (unat (table_frame s 0) \<le> n \<and> n < unat (table_frame s 0) + unat (p_code_len x))
             \<and> \<not> (unat (table_frame s 767) \<le> n \<and> n < unat (table_frame s 767) + unat (p_stack_len x))" for n
    unfolding s'(6) exit_freed_used[OF assms(6,7)] exit_frees_def drop_blocks_def by auto
  moreover have "processes s' = (processes s)(last ps := map_option (\<lambda>z. z\<lparr>p_next := hd ps\<rparr>) (processes s (last ps)))"
    using z by simp
  ultimately show ?thesis using False s'(1-5) unfolding user_frame_def by blast
qed

theorem exit_removes_process_witness:
  "\<exists>s'. proc_exit_current_process 2 two_processes = Exit (Iret 0 0x1B 512 0xBFFFFFFC 0x23) s'
     \<and> scheduled [0xD0001064] s' \<and> cr3 s' = 0x2000"
proof -
  have len: "length [0xD0001064 :: u32] < 2" "unat (p_code_len (sample_process 0xD0001064 1)) < 2 ^ 31"
    "unat (p_stack_len (sample_process 0xD0001064 1)) < 2 ^ 31" by (simp_all add: sample_process_def)
  from exit_removes_process[OF two_processes_simps(1-3) len(1) two_processes_simps(5) len(2,3)] obtain y s' where
    s': "proc_exit_current_process 2 two_processes =
          Exit (Iret (r_eip (p_registers y)) 0x1B (r_eflags (p_registers y) OR 512) (r_esp (p_registers y)) 0x23) s'"
    "scheduled [0xD0001064] s'" "processes s' 0xD0001064 = Some y" "cr3 s' = p_directory y"
    "processes s' = (processes two_processes)(0xD0001064 := map_option (\<lambda>z. z\<lparr>p_next := 0xD0001064\<rparr>) (processes two_processes 0xD0001064))"
    by auto
  then have "y = (sample_process 0xD0000000 2)\<lparr>p_next := 0xD0001064\<rparr>" by (simp add: two_processes_simps(6))
  then show ?thesis using s'(1,2,4) by (auto simp: sample_process_def initial_registers_def KERNEL_BASE_VIRT_def)
qed

text \<open>A new process is linked in behind the current one, or is the ring when there is none.\<close>

theorem insert_after_current:
  assumes "processes s n = Some y" "n \<noteq> 0"
  shows "(current_process s = 0 \<longrightarrow> (\<exists>s'. proc_insert n s = Ok () s' \<and> scheduled [n] s'))
    \<and> (\<forall>c ps. scheduled (c # ps) s \<and> n \<notin> set (c # ps) \<longrightarrow> (\<exists>s'. proc_insert n s = Ok () s' \<and> scheduled (c # n # ps) s'
         \<and> current_process s' = c \<and> (\<forall>p. map_option p_registers (processes s' p) = map_option p_registers (processes s p))))"
proof (intro conjI impI allI)
  show "\<exists>s'. proc_insert n s = Ok () s' \<and> scheduled [n] s'" if "current_process s = 0"
    using proc_insert_links(1)[OF assms that] by blast
  fix c ps assume a: "scheduled (c # ps) s \<and> n \<notin> set (c # ps)"
  then obtain x where x: "processes s c = Some x" by (auto simp: scheduled_def ring_Cons)
  from proc_insert_links(2)[OF assms conjunct1[OF a] conjunct2[OF a] x]
  show "\<exists>s'. proc_insert n s = Ok () s' \<and> scheduled (c # n # ps) s'
      \<and> current_process s' = c \<and> (\<forall>p. map_option p_registers (processes s' p) = map_option p_registers (processes s p))"
    using a x assms(1) by (fastforce simp: scheduled_def)
qed

theorem insert_after_current_witness:
  "\<exists>s'. proc_insert 0xD00020C8 (two_processes\<lparr>processes := (processes two_processes)(0xD00020C8 \<mapsto> sample_process 0 3)\<rparr>) = Ok () s'
     \<and> scheduled [0xD0000000, 0xD00020C8, 0xD0001064] s'"
proof -
  let ?s = "two_processes\<lparr>processes := (processes two_processes)(0xD00020C8 \<mapsto> sample_process 0 3)\<rparr>"
  have n: "processes ?s 0xD00020C8 = Some (sample_process 0 3)" "(0xD00020C8 :: u32) \<noteq> 0" by simp_all
  have "ring (processes two_processes) [0xD0000000, 0xD0001064]" "current_process two_processes = 0xD0000000"
    using two_processes_simps(1) by (simp_all add: scheduled_def)
  then have "scheduled [0xD0000000, 0xD0001064] ?s \<and> 0xD00020C8 \<notin> set [0xD0000000, 0xD0001064 :: u32]"
    by (simp add: scheduled_def ring_def chain_other)
  then show ?thesis using insert_after_current[OF n] by blast
qed

end
