(* ===== verification/Syscall.thy ===== *)
theory Syscall
  imports Proc
begin

unbundle bit_operations_syntax

text \<open>
  \<open>kernel/src/sys/syscall.c\<close>: the table of system calls and their dispatch on eax. The handlers
  are named by the functions they are. \<open>fuel\<close> is that of the walks over the ring of processes.
\<close>

section \<open>State and operations\<close>

definition SYSCALL_COUNT :: nat where "SYSCALL_COUNT = 256"

datatype sys_handler = Syscall_yield | Syscall_exit | Syscall_wait | Syscall_putchar

record sys = proc +
  syscall_handlers :: "sys_handler option list"

definition syscall_init :: "('s sys_scheme, unit) action" where
  "syscall_init =
     before (isr_register_handler 48 Syscall_handler)
            (change (\<lambda>s. s\<lparr>syscall_handlers := (syscall_handlers s)[0 := Some Syscall_yield, 1 := Some Syscall_exit,
               2 := Some Syscall_wait, 3 := Some Syscall_putchar]\<rparr>))"

definition syscall_yield :: "registers \<Rightarrow> ('s sys_scheme, unit) action" where
  "syscall_yield regs = proc_switch_process (Some regs)"

definition syscall_exit :: "nat \<Rightarrow> registers \<Rightarrow> ('s sys_scheme, unit) action" where
  "syscall_exit fuel regs = proc_exit_current_process fuel"

definition syscall_wait :: "registers \<Rightarrow> ('s sys_scheme, unit) action" where
  "syscall_wait regs = ret ()"

definition syscall_putchar :: "registers \<Rightarrow> ('s sys_scheme, unit) action" where
  "syscall_putchar regs =
     on_console (andthen (putchar (schar (to_char (uint (r_ebx regs))))) (\<lambda>_. ret ()))"

primrec run_sys_handler :: "nat \<Rightarrow> sys_handler \<Rightarrow> registers \<Rightarrow> ('s sys_scheme, unit) action" where
  "run_sys_handler fuel Syscall_yield = syscall_yield"
| "run_sys_handler fuel Syscall_exit = syscall_exit fuel"
| "run_sys_handler fuel Syscall_wait = syscall_wait"
| "run_sys_handler fuel Syscall_putchar = syscall_putchar"

text \<open>The index eax comes from user mode and is not compared with the length of the table.\<close>

definition syscall_handler :: "nat \<Rightarrow> registers \<Rightarrow> ('s sys_scheme, unit) action" where
  "syscall_handler fuel regs =
     (if unat (r_eax regs) < SYSCALL_COUNT then
        andthen (asks (\<lambda>s. syscall_handlers s ! unat (r_eax regs))) (\<lambda>h. case h of
          Some handler \<Rightarrow> run_sys_handler fuel handler regs
        | None \<Rightarrow> kprintf ''Unknown syscall %d\<newline>'' [Num (r_eax regs)])
      else stuck OutOfBounds)"

section \<open>The table after initialisation\<close>

definition sys_table :: "sys_handler option list" where
  "sys_table = [Some Syscall_yield, Some Syscall_exit, Some Syscall_wait, Some Syscall_putchar] @ replicate 252 None"

lemma syscall_init_table:
  assumes "syscall_handlers s = replicate 256 None" "isr_handlers s ! 48 = None"
  shows "syscall_init s = Ok () (s\<lparr>isr_handlers := (isr_handlers s)[48 := Some Syscall_handler], syscall_handlers := sys_table\<rparr>)"
proof -
  have "replicate 256 (None :: sys_handler option) = replicate 4 None @ replicate 252 None"
    by (simp only: replicate_add[symmetric]) simp
  then have "(replicate 256 None)[0 := Some Syscall_yield, 1 := Some Syscall_exit, 2 := Some Syscall_wait, 3 := Some Syscall_putchar]
      = sys_table"
    by (simp add: sys_table_def numeral_eq_Suc)
  then show ?thesis
    using assms isr_register_free[of 48 s] by (simp add: syscall_init_def)
qed

lemma sys_table_nth:
  assumes "n < 256"
  shows "sys_table ! n = (if n = 0 then Some Syscall_yield else if n = 1 then Some Syscall_exit
     else if n = 2 then Some Syscall_wait else if n = 3 then Some Syscall_putchar else None)"
proof (cases "n < 4")
  case True
  then have "n \<in> {0, 1, 2, 3}" by auto
  then show ?thesis by (auto simp: sys_table_def)
next
  case False
  then show ?thesis using assms by (simp add: sys_table_def nth_append)
qed

section \<open>Characters from user mode\<close>

lemma syscall_putchar_runs:
  "syscall_putchar regs s = (case term_putchar (to_char (uint (r_ebx regs))) (con s) of
     Ok u t \<Rightarrow> Ok () (s\<lparr>con := t\<rparr>) | Exit e t \<Rightarrow> Exit e (s\<lparr>con := t\<rparr>) | Undefined f \<Rightarrow> Undefined f)"
  by (simp add: syscall_putchar_def on_console_def zoom_def putchar_def before_def andthen_def split: outcome.splits)

text \<open>Digits behind ESC [ collect in the buffer of the interpreter, up to 32 of them.\<close>

lemma term_putchar_digit:
  assumes "wf_ctx (ctx t)" "ansi_state (ctx t) = PARAMS" "isdigit (schar c)" "unat (current_index (ctx t)) < 32"
  obtains t' where "term_putchar c t = Ok () t'" "wf_ctx (ctx t')" "ansi_state (ctx t') = PARAMS"
    "unat (current_index (ctx t')) = Suc (unat (current_index (ctx t)))"
proof -
  let ?t = "scroll_step (wrap_step (control_step c t))"
  have c: "ctx ?t = ctx t" by (rule ctx_steps)
  have d: "c \<noteq> CHR '';''" using assms(3) by (auto simp: isdigit_def schar_def)
  have l: "length (ansi_buf (ctx t)) = 32" using assms(1) by (simp add: wf_ctx_def)
  let ?c' = "(ctx t)\<lparr>ansi_buf := (ansi_buf (ctx t))[unat (current_index (ctx t)) := c], current_index := current_index (ctx t) + 1\<rparr>"
  let ?t' = "?t\<lparr>ctx := ?c'\<rparr>"
  have r: "ansi_interpret_char c ?t = Ok True ?t'"
    using c assms d l by (simp add: ansi_interpret_char_def ANSI_BUFFER_SIZE_def store_digit_def Let_def)
  have "unat (current_index (ctx t) + 1) = Suc (unat (current_index (ctx t)))"
    using assms(4) by (simp add: unat_word_ariths)
  moreover have "wf_ctx (ctx ?t')" using ansi_interpret_char_wf[OF _ r] assms(1) c by simp
  moreover have "term_putchar c t = Ok () ?t'" using r by (simp add: term_putchar_def)
  ultimately show ?thesis using that assms(2) by simp
qed

section \<open>Properties\<close>

definition sys_frame :: "u32 \<Rightarrow> u32 \<Rightarrow> registers" where
  "sys_frame eax ebx = (interrupt_frame 48)\<lparr>r_eax := eax, r_ebx := ebx\<rparr>"

definition two_tasks :: sys where
  "two_tasks = proc.extend two_processes \<lparr>syscall_handlers = sys_table\<rparr>"

lemma two_tasks_simps:
  "scheduled [0xD0000000, 0xD0001064] two_tasks" "quiet (con two_tasks)" "recursive two_tasks" "syscall_handlers two_tasks = sys_table"
  using two_processes_simps(1-3) by (simp_all add: two_tasks_def proc.defs scheduled_def recursive_def space_defs)

text \<open>C26: what each system call does once \<open>syscall_init\<close> has filled the table: 0 is a switch that saves the
  caller, 1 ends the caller, 2 returns at once, 3 prints the low byte of ebx, and any other number below
  256 prints a message and returns. From 256 on the handler reads behind the table, with an index that
  user mode chooses.\<close>

theorem syscall_dispatch:
  assumes "syscall_handlers s = sys_table" "quiet (con s)"
  shows "syscall_handler fuel regs s =
      (if r_eax regs = 0 then proc_switch_process (Some regs) s
       else if r_eax regs = 1 then proc_exit_current_process fuel s
       else if r_eax regs = 2 then Ok () s
       else if r_eax regs = 3 then syscall_putchar regs s
       else if unat (r_eax regs) < 256 then kprintf ''Unknown syscall %d\<newline>'' [Num (r_eax regs)] s
       else Undefined OutOfBounds)
    \<and> (3 < r_eax regs \<and> unat (r_eax regs) < 256 \<longrightarrow> (\<exists>t. syscall_handler fuel regs s = Ok () (s\<lparr>con := t\<rparr>) \<and> quiet t))"
proof -
  have n': "unat (r_eax regs) = 0 \<longleftrightarrow> r_eax regs = 0" "unat (r_eax regs) = Suc 0 \<longleftrightarrow> r_eax regs = 1"
    "unat (r_eax regs) = 2 \<longleftrightarrow> r_eax regs = 2" "unat (r_eax regs) = 3 \<longleftrightarrow> r_eax regs = 3"
    by (simp_all only: word_unat_eq_iff) simp_all
  have run: "syscall_handler fuel regs s =
      (if r_eax regs = 0 then proc_switch_process (Some regs) s
       else if r_eax regs = 1 then proc_exit_current_process fuel s
       else if r_eax regs = 2 then Ok () s
       else if r_eax regs = 3 then syscall_putchar regs s
       else if unat (r_eax regs) < 256 then kprintf ''Unknown syscall %d\<newline>'' [Num (r_eax regs)] s
       else Undefined OutOfBounds)"
  proof (cases "unat (r_eax regs) < 256")
    case True
    then show ?thesis using assms(1) sys_table_nth[OF True]
      by (simp add: syscall_handler_def SYSCALL_COUNT_def n' syscall_yield_def syscall_exit_def syscall_wait_def)
  next
    case False
    then have "r_eax regs \<noteq> 0" "r_eax regs \<noteq> 1" "r_eax regs \<noteq> 2" "r_eax regs \<noteq> 3" by auto
    then show ?thesis using False by (simp add: syscall_handler_def SYSCALL_COUNT_def)
  qed
  let ?fmt = "''Unknown syscall %d\<newline>''" and ?args = "[Num (r_eax regs)]"
  have "format_text ?fmt ?args \<noteq> None" "format_modes resting ?fmt = Some resting" "list_all plain_arg ?args"
    by (simp_all add: format_eval)
  from kprintf_returns[OF this assms(2)] obtain t where "kprintf ?fmt ?args s = Ok () (s\<lparr>con := t\<rparr>)" "quiet t" .
  then show ?thesis unfolding run by auto
qed

theorem syscall_dispatch_witness:
  "syscall_handler 2 (sys_frame 2 10) two_tasks = Ok () two_tasks \<and> syscall_handler 2 (sys_frame 256 0) two_tasks = Undefined OutOfBounds"
  using syscall_dispatch[OF two_tasks_simps(4,2), of 2 "sys_frame 2 10"] syscall_dispatch[OF two_tasks_simps(4,2), of 2 "sys_frame 256 0"]
  by (simp add: sys_frame_def)

lemma typed_byte:
  assumes "syscall_handlers s = sys_table"
  shows "syscall_handler fuel (sys_frame 3 b) s = (case term_putchar (to_char (uint b)) (con s) of
     Ok u t \<Rightarrow> Ok () (s\<lparr>con := t\<rparr>) | Exit e t \<Rightarrow> Exit e (s\<lparr>con := t\<rparr>) | Undefined f \<Rightarrow> Undefined f)"
proof -
  have "sys_table ! 3 = Some Syscall_putchar" by (simp add: sys_table_nth)
  then show ?thesis using assms
    by (simp add: syscall_handler_def SYSCALL_COUNT_def sys_frame_def syscall_putchar_runs)
qed

lemma typed_digits:
  "syscall_handlers s = sys_table \<Longrightarrow> wf_ctx (ctx (con s)) \<Longrightarrow> ansi_state (ctx (con s)) = PARAMS \<Longrightarrow>
   unat (current_index (ctx (con s))) + length ds \<le> 32 \<Longrightarrow> list_all (\<lambda>d. isdigit (schar (to_char (uint d)))) ds \<Longrightarrow>
   \<exists>t. foreach ds (\<lambda>b. syscall_handler fuel (sys_frame 3 b)) s = Ok () (s\<lparr>con := t\<rparr>) \<and> wf_ctx (ctx t)
     \<and> ansi_state (ctx t) = PARAMS \<and> unat (current_index (ctx t)) = unat (current_index (ctx (con s))) + length ds"
proof (induction ds arbitrary: s)
  case Nil
  then show ?case by (intro exI[of _ "con s"]) simp
next
  case (Cons d ds)
  obtain t1 where t1: "term_putchar (to_char (uint d)) (con s) = Ok () t1" "wf_ctx (ctx t1)" "ansi_state (ctx t1) = PARAMS"
    "unat (current_index (ctx t1)) = Suc (unat (current_index (ctx (con s))))"
    by (rule term_putchar_digit[of "con s" "to_char (uint d)"]) (use Cons.prems in simp_all)
  have one: "syscall_handler fuel (sys_frame 3 d) s = Ok () (s\<lparr>con := t1\<rparr>)"
    by (simp add: typed_byte[OF Cons.prems(1)] t1(1))
  have "\<exists>t. foreach ds (\<lambda>b. syscall_handler fuel (sys_frame 3 b)) (s\<lparr>con := t1\<rparr>) = Ok () (s\<lparr>con := t1\<rparr>\<lparr>con := t\<rparr>) \<and> wf_ctx (ctx t)
      \<and> ansi_state (ctx t) = PARAMS \<and> unat (current_index (ctx t)) = unat (current_index (ctx (con (s\<lparr>con := t1\<rparr>)))) + length ds"
    by (rule Cons.IH) (use Cons.prems t1 in simp_all)
  then show ?case using one t1(4) by auto
qed

text \<open>C25: user mode can make the kernel write behind the buffer of the escape interpreter. The characters
  ESC, [, any 32 digits and a letter, each printed with the system call, leave defined behaviour at the
  letter, after every earlier call has returned.\<close>

theorem putchar_overruns_interpreter:
  assumes "syscall_handlers s = sys_table" "quiet (con s)"
    and "length ds = 32" "list_all (\<lambda>d. isdigit (schar (to_char (uint d)))) ds" "isalpha (schar (to_char (uint c)))"
  shows "\<exists>t f. foreach ([0x1B, 0x5B] @ ds) (\<lambda>b. syscall_handler fuel (sys_frame 3 b)) s = Ok () (s\<lparr>con := t\<rparr>)
    \<and> syscall_handler fuel (sys_frame 3 c) (s\<lparr>con := t\<rparr>) = Undefined f"
proof -
  have ch: "to_char 0x1B = CHR 0x1B" "to_char 0x5B = CHR ''[''"
    by (simp_all add: to_char_def char_of_def bit_numeral_rec)
  obtain t1 where t1: "term_putchar (CHR 0x1B) (con s) = Ok () t1" "in_mode (BRACKET, 0, 0) t1"
    using wp_OkD[OF term_putchar_mode[OF assms(2)]] by (force simp: next_mode_def)
  obtain t2 where t2: "term_putchar (CHR ''['') t1 = Ok () t2" "in_mode (PARAMS, 0, 0) t2"
    using wp_OkD[OF term_putchar_mode[OF t1(2)]] by (force simp: next_mode_def)
  let ?s2 = "s\<lparr>con := t2\<rparr>"
  have two: "foreach [0x1B, 0x5B] (\<lambda>b. syscall_handler fuel (sys_frame 3 b)) s = Ok () ?s2"
    using typed_byte[of s fuel "0x1B"] typed_byte[of "s\<lparr>con := t1\<rparr>" fuel "0x5B"] assms(1) t1(1) t2(1) by (simp add: ch)
  have "\<exists>t. foreach ds (\<lambda>b. syscall_handler fuel (sys_frame 3 b)) ?s2 = Ok () (?s2\<lparr>con := t\<rparr>) \<and> wf_ctx (ctx t)
      \<and> ansi_state (ctx t) = PARAMS \<and> unat (current_index (ctx t)) = unat (current_index (ctx (con ?s2))) + length ds"
    by (rule typed_digits) (use assms t2(2) in \<open>simp_all add: in_mode_def\<close>)
  then obtain t where t: "foreach ds (\<lambda>b. syscall_handler fuel (sys_frame 3 b)) ?s2 = Ok () (s\<lparr>con := t\<rparr>)" "wf_ctx (ctx t)"
    "ansi_state (ctx t) = PARAMS" "unat (current_index (ctx t)) = 32"
    using t2(2) assms(3) by (auto simp: in_mode_def)
  have "foreach ([0x1B, 0x5B] @ ds) (\<lambda>b. syscall_handler fuel (sys_frame 3 b)) s = Ok () (s\<lparr>con := t\<rparr>)"
    unfolding foreach_append using two t(1) by simp
  moreover have "\<exists>f. term_putchar (to_char (uint c)) t = Undefined f"
  proof -
    let ?t = "scroll_step (wrap_step (control_step (to_char (uint c)) t))"
    have "\<exists>f. ansi_interpret_char (to_char (uint c)) ?t = Undefined f"
      using t assms(5) by (subst ansi_undefined) (simp_all add: ctx_steps)
    then show ?thesis by (auto simp: term_putchar_def)
  qed
  ultimately show ?thesis using assms(1) by (auto simp: typed_byte)
qed

theorem putchar_overruns_interpreter_witness:
  "\<exists>t f. foreach ([0x1B, 0x5B] @ replicate 32 0x31) (\<lambda>b. syscall_handler 2 (sys_frame 3 b)) two_tasks = Ok () (two_tasks\<lparr>con := t\<rparr>)
    \<and> syscall_handler 2 (sys_frame 3 0x6D) (two_tasks\<lparr>con := t\<rparr>) = Undefined f"
  by (rule putchar_overruns_interpreter[OF two_tasks_simps(4,2)])
    (simp_all add: to_char_def isdigit_def isalpha_def schar_def list_all_length)

end
