(* ===== verification/Kernel.thy ===== *)
theory Kernel
  imports Syscall
begin

unbundle bit_operations_syntax

text \<open>
  \<open>kernel/src/kernel.c\<close>, the order in which the kernel starts its parts, and the kernel as a whole:
  what an interrupt in user mode does, through the stubs, the dispatchers and the handlers of all
  components.
\<close>

section \<open>Interrupts\<close>

text \<open>
  What the registered functions are. The callback of the timer is called through the same pointer
  type, so the calls nest: \<open>depth\<close> bounds how deep, and two are enough for the handlers the kernel
  registers.
\<close>

primrec call_handler :: "nat \<Rightarrow> nat \<Rightarrow> handler \<Rightarrow> registers \<Rightarrow> ('s sys_scheme, unit) action" where
  "call_handler fuel 0 h regs = leave OutOfFuel"
| "call_handler fuel (Suc depth) h regs = (case h of
     Paging_fault_handler \<Rightarrow> paging_fault_handler regs
   | Syscall_handler \<Rightarrow> syscall_handler fuel regs
   | Timer_callback \<Rightarrow> timer_callback (call_handler fuel depth) regs
   | Keyboard_handler \<Rightarrow> keyboard_handler regs
   | Proc_timer_callback \<Rightarrow> proc_timer_callback regs)"

lemma call_handler_2:
  "call_handler fuel 2 Syscall_handler regs = syscall_handler fuel regs"
  "call_handler fuel 2 Timer_callback regs = timer_callback (call_handler fuel 1) regs"
  by (simp_all add: numeral_2_eq_2)

text \<open>The stubs: the gates of the hardware interrupts lead to one dispatcher, all others to the other.\<close>

definition interrupt :: "nat \<Rightarrow> registers \<Rightarrow> ('s sys_scheme, unit) action" where
  "interrupt fuel regs =
     (if 32 \<le> r_int_no regs \<and> r_int_no regs < 48 then irq_handler (call_handler fuel 2) regs
      else isr_handler (call_handler fuel 2) regs)"

section \<open>The start\<close>

text \<open>What the linker places: the kernel's bounds, tables, stubs and the three test processes.\<close>

record image =
  kernel_begin_phys :: u32
  kernel_end_phys :: u32
  kernel_size :: u32
  gdt_address :: u32
  tss_address :: u32
  idt_address :: u32
  isr_stubs :: "nat \<Rightarrow> u32"
  irq_stubs :: "nat \<Rightarrow> u32"
  kernel_directory_address :: u32
  process_1 :: u32
  process_2 :: u32
  process_3 :: u32

text \<open>\<open>timer_get_time\<close> computes with \<open>double\<close> and is an argument; \<open>hlt\<close> waits for the next interrupt.\<close>

primrec main_loop :: "nat \<Rightarrow> ('s sys_scheme, u32) action \<Rightarrow> u32 \<Rightarrow> ('s sys_scheme, unit) action" where
  "main_loop 0 get_time time = leave OutOfFuel"
| "main_loop (Suc fuel) get_time time =
     andthen get_time (\<lambda>ntime.
     if ntime > time then
       before (kprintf (CHR 0x1B # ''[s'' @ CHR 0x1B # ''[24;0H'') [])
      (before (kprintf (CHR 0x1B # ''[K'') [])
      (before (kprintf ''%ds'' [Num ntime])
      (before (kprintf (CHR 0x1B # ''[u'') [])
              (main_loop fuel get_time ntime))))
     else main_loop fuel get_time time)"

definition kernel_main :: "image \<Rightarrow> (u32 \<Rightarrow> multiboot_mmap_entry) \<Rightarrow> ('s sys_scheme, u32) action \<Rightarrow> nat
    \<Rightarrow> multiboot_info \<Rightarrow> u32 \<Rightarrow> ('s sys_scheme, unit) action" where
  "kernel_main img entry_at get_time fuel mbi magic =
     before (on_console (change term_init))
    (before (kprintf (''Welcome to '' @ CHR 0x1B # ''[33mNimble OS'' @ CHR 0x1B # ''[37m v1.0 !\<newline>\<newline>'') [])
    (before (kprintf ''Kernel loaded at 0x%X, ending at 0x%X (%dKB)\<newline>''
               [Num (kernel_begin_phys img), Num (kernel_end_phys img), Num (kernel_size img div 1024)])
    (before (kassert ''src/kernel.c'' 98 ''kernel_main'' ''magic == 0x2BADB002'' (magic = MULTIBOOT_BOOTLOADER_MAGIC))
    (before (kassert ''src/kernel.c'' 99 ''kernel_main'' ''mbi->flags & 0x00000040''
               (mb_flags mbi AND MULTIBOOT_INFO_MEM_MAP \<noteq> 0))
    (before (gdt_init (gdt_address img) (tss_address img))
    (before (idt_init (idt_address img))
    (before (isr_init (isr_stubs img))
    (before (irq_init (irq_stubs img))
    (before timer_init
    (before keyboard_init
    (before (pmm_init (kernel_end_phys img) entry_at fuel mbi)
    (before (paging_init (kernel_directory_address img))
    (before syscall_init
    (before (proc_run_code (process_1 img) 128)
    (before (proc_run_code (process_2 img) 128)
    (before (proc_run_code (process_3 img) 128)
    (before (proc_print_processes fuel)
    (before proc_init
    (before (kprintf ''bruh\<newline>'' [])
            (main_loop fuel get_time 0))))))))))))))))))))"

section \<open>What interrupts preserve\<close>

text \<open>
  The part of the state that says which process runs: the ring, the current process, its page
  directory in \<open>cr3\<close> and the stack of its interrupts in the TSS.
\<close>

definition core :: "'s proc_scheme \<Rightarrow> (u32 \<Rightarrow> process option) \<times> u32 \<times> u32 \<times> tss_entry" where
  "core s = (processes s, current_process s, cr3 s, tss s)"

definition run_core :: "u32 set \<Rightarrow> (u32 \<Rightarrow> process option) \<times> u32 \<times> u32 \<times> tss_entry \<Rightarrow> bool" where
  "run_core P = (\<lambda>(m, c, dir, t). (\<exists>ps. ring m ps \<and> c = hd ps \<and> set ps \<subseteq> P)
     \<and> (\<exists>x. m c = Some x \<and> dir = p_directory x \<and> t_esp0 t = p_kernel_stack x))"

definition running :: "u32 set \<Rightarrow> 's proc_scheme \<Rightarrow> bool" where
  "running P s \<longleftrightarrow> run_core P (core s)"

lemma keeps_case_option: "keeps I m \<Longrightarrow> (\<And>x. keeps I (k x)) \<Longrightarrow> keeps I (case h of None \<Rightarrow> m | Some x \<Rightarrow> k x)"
  by (cases h) simp_all

lemma keeps_Let: "(\<And>x. keeps I (k x)) \<Longrightarrow> keeps I (let x = v in k x)"
  by simp

text \<open>
  Something seen of the state that the devices, the console and the page fault handler leave alone. Every
  fact about it survives the dispatchers when it survives the handlers that they call.
\<close>

locale observation =
  fixes look :: "'s proc_scheme \<Rightarrow> 'v"
  assumes look_con: "look (s\<lparr>con := t\<rparr>) = look s"
    and look_ports: "look (s\<lparr>io_events := e\<rparr>) = look s"
    and look_flag: "look (s\<lparr>interrupt_flag := b\<rparr>) = look s"
    and look_keys: "look (s\<lparr>keys_state := k\<rparr>) = look s"
    and look_tick: "look (s\<lparr>current_tick := n\<rparr>) = look s"
begin

lemma on_console: "keeps (\<lambda>s. Q (look s)) (on_console m)"
  unfolding on_console_def by (rule keeps_zoom[of "\<lambda>_. True"]) (simp_all add: keeps_def look_con split: outcome.splits)

lemma prints: "keeps (\<lambda>s. Q (look s)) (kprintf fmt args)" "keeps (\<lambda>s. Q (look s)) kabort" "keeps (\<lambda>s. Q (look s)) (kassert f l g e b)"
  unfolding kprintf_def kabort_def kassert_def by (rule on_console)+

lemma ports: "keeps (\<lambda>s. Q (look s)) (outportb p d)" "keeps (\<lambda>s. Q (look s)) (inportb p)" "keeps (\<lambda>s. Q (look s)) STI"
  by (simp_all add: keeps_def outportb_def inportb_def port_write_def port_read_def STI_def andthen_def look_ports look_flag)

lemma reads: "keeps (\<lambda>s. Q (look s)) (read32 v)"
  by (simp add: keeps_def read32_def split: option.splits)

lemmas observed = keeps_intros keeps_Let keeps_case_option on_console prints ports reads

lemma page_fault: "keeps (\<lambda>s. Q (look s)) (paging_fault_handler regs)"
  unfolding paging_fault_handler_def paging_get_page_def by (simp only: simp_thms if_False) (intro observed)

lemma keyboard: "keeps (\<lambda>s. Q (look s)) (keyboard_handler regs)"
  unfolding keyboard_handler_def by (intro observed) (simp add: look_keys)

lemma timer: "(\<And>h. keeps (\<lambda>s. Q (look s)) (call h regs)) \<Longrightarrow> keeps (\<lambda>s. Q (look s)) (timer_callback call regs)"
  unfolding timer_callback_def by (intro observed) (simp_all add: look_tick)

lemma irq: "(\<And>h. keeps (\<lambda>s. Q (look s)) (call h regs)) \<Longrightarrow> keeps (\<lambda>s. Q (look s)) (irq_handler call regs)"
  unfolding irq_handler_def irq_spurious_def irq_get_isr_def irq_send_eoi_def by (intro observed)

lemma isr: "(\<And>h. keeps (\<lambda>s. Q (look s)) (call h regs)) \<Longrightarrow> keeps (\<lambda>s. Q (look s)) (isr_handler call regs)"
  unfolding isr_handler_def print_registers_def by (intro observed)

end

interpretation core: observation core
  by unfold_locales (simp_all add: core_def)

text \<open>The handlers that switch processes.\<close>

lemma kprintf_outcome: "(\<exists>t. kprintf fmt args s = Ok () (s\<lparr>con := t\<rparr>)) \<or> (\<exists>f. kprintf fmt args s = Undefined f)"
  by (rule kprintf_cases[of fmt args s]) auto

lemma show_pid_cases:
  fixes s :: "'s proc_scheme"
  assumes "processes s p = Some y"
  shows "(\<exists>t. before (kprintf f1 []) (before (kprintf f2 []) (andthen (load_process p) (\<lambda>y. before (kprintf ''%d'' [Num (p_pid y)])
      (before (kprintf f4 []) (k y))))) s = k y (s\<lparr>con := t\<rparr>))
    \<or> (\<exists>f. before (kprintf f1 []) (before (kprintf f2 []) (andthen (load_process p) (\<lambda>y. before (kprintf ''%d'' [Num (p_pid y)])
      (before (kprintf f4 []) (k y))))) s = Undefined f)"
proof (cases rule: kprintf_cases[of f1 "[]" s])
  case (1 t)
  note a = 1
  show ?thesis
  proof (cases rule: kprintf_cases[of f2 "[]" "s\<lparr>con := t\<rparr>"])
    case (1 t2)
    note b = 1
    show ?thesis
    proof (cases rule: kprintf_cases[of "''%d''" "[Num (p_pid y)]" "s\<lparr>con := t2\<rparr>"])
      case (1 t3)
      then show ?thesis
        by (cases rule: kprintf_cases[of f4 "[]" "s\<lparr>con := t3\<rparr>"]) (use a b 1 assms in \<open>auto simp: load_process_def\<close>)
    qed (use a b assms in \<open>auto simp: load_process_def\<close>)
  qed (use a in auto)
qed auto

lemma run_core_enter:
  assumes "ring m qs" "q = hd qs" "set qs \<subseteq> P" "m q = Some y"
  shows "run_core P (m, q, p_directory y, t\<lparr>t_esp0 := p_kernel_stack y\<rparr>)"
  using assms by (auto simp: run_core_def)

lemma switch_outcome:
  fixes s :: "'s proc_scheme"
  assumes "scheduled (c # ps) s" "set (c # ps) \<subseteq> P"
  shows "(\<exists>f. proc_switch_process regs s = Undefined f)
    \<or> (\<exists>y s'. proc_switch_process regs s = Exit (user_frame y) s' \<and> running P s')"
proof -
  let ?q = "hd (ps @ [c])" and ?m = "save_registers regs c (processes s)"
  have r: "ring (processes s) (c # ps)" "current_process s = c" using assms(1) by (simp_all add: scheduled_def)
  then have rm: "ring ?m (c # ps)" by (simp add: ring_save)
  from ring_head[OF rm] obtain x where x: "?m c = Some x" "p_next x = ?q" "?q \<noteq> 0" "?q \<in> set (c # ps)" .
  from ring_member[OF rm x(4)] obtain y where y: "?m ?q = Some y" by blast
  let ?s1 = "s\<lparr>processes := ?m\<rparr>" and ?s2 = "s\<lparr>processes := ?m, current_process := ?q\<rparr>"
  have save: "(case regs of
               Some r \<Rightarrow> andthen proc_current_process (\<lambda>c. andthen (load_process c) (\<lambda>x. store_process c (x\<lparr>p_registers := r\<rparr>)))
             | None \<Rightarrow> ret ()) s = Ok () ?s1" by (rule save_runs[OF r])
  have "processes ?s2 ?q = Some y" using y by simp
  note pid = show_pid_cases[OF this]
  have "run_core P (?m, ?q, p_directory y, (tss s)\<lparr>t_esp0 := p_kernel_stack y\<rparr>)"
    by (rule run_core_enter[OF ring_rotate[OF rm] refl _ y]) (use assms(2) in auto)
  let ?s3 = "\<lambda>t. ?s2\<lparr>con := t\<rparr>\<lparr>tss := (tss s)\<lparr>t_esp0 := p_kernel_stack y\<rparr>, cr3 := p_directory y,
     current_page_directory := P2V (p_directory y)\<rparr>"
  have run: "running P (?s3 t)" for t
    using \<open>run_core P (?m, ?q, p_directory y, (tss s)\<lparr>t_esp0 := p_kernel_stack y\<rparr>)\<close> by (simp add: running_def core_def)
  let ?k = "\<lambda>y. before (gdt_set_kernel_stack (p_kernel_stack y)) (before (paging_switch_directory (p_directory y))
        (leave (Iret (r_eip (p_registers y)) 0x1B (r_eflags (p_registers y) OR 512) (r_esp (p_registers y)) 0x23) :: ('s proc_scheme, unit) action))"
  let ?body = "before (kprintf (CHR 0x1B # ''[s'' @ CHR 0x1B # ''[24;78H'') []) (before (kprintf (CHR 0x1B # ''[K'') [])
      (andthen (load_process ?q) (\<lambda>y. before (kprintf ''%d'' [Num (p_pid y)]) (before (kprintf (CHR 0x1B # ''[u'') []) (?k y)))))"
  have body: "proc_switch_process regs s = ?body ?s2"
    using save x r(2) by (simp add: proc_switch_process_def proc_current_process_def load_process_def set_current_def)
  have "?k y (?s2\<lparr>con := t\<rparr>) = Exit (user_frame y) (?s3 t)" for t
    by (simp add: gdt_set_kernel_stack_def paging_switch_directory_def user_frame_def)
  then have "(\<exists>t. proc_switch_process regs s = Exit (user_frame y) (?s3 t)) \<or> (\<exists>f. proc_switch_process regs s = Undefined f)"
    unfolding body using pid[of "CHR 0x1B # ''[s'' @ CHR 0x1B # ''[24;78H''" "CHR 0x1B # ''[K''" "CHR 0x1B # ''[u''" ?k] by metis
  then show ?thesis using run by blast
qed

lemma print_chain_outcome:
  "chain (processes s) ps c \<Longrightarrow> c \<notin> set ps \<Longrightarrow> length ps < fuel \<Longrightarrow>
   (\<exists>u. print_chain fuel c (hd (ps @ [c])) (s\<lparr>con := t\<rparr>) = Ok () (s\<lparr>con := u\<rparr>))
   \<or> (\<exists>f. print_chain fuel c (hd (ps @ [c])) (s\<lparr>con := t\<rparr>) = Undefined f)"
proof (induction ps arbitrary: fuel t)
  case Nil
  then show ?case by (cases fuel) auto
next
  case (Cons p ps)
  obtain x where x: "processes s p = Some x" "p_next x = hd (ps @ [c])" using Cons.prems(1) by auto
  obtain f where f: "fuel = Suc f" "length ps < f" using Cons.prems(3) by (cases fuel) auto
  have rest: "chain (processes s) ps c" "c \<notin> set ps" "p \<noteq> c" using Cons.prems by auto
  show ?case
  proof (cases rule: kprintf_cases[of "''%d -> ''" "[Num (p_pid x)]" "s\<lparr>con := t\<rparr>"])
    case (1 u)
    then show ?thesis using Cons.IH[OF rest(1,2) f(2), of u] x f(1) rest(3) by (simp add: load_process_def)
  next
    case (2 e)
    then show ?thesis using x f(1) rest(3) by (simp add: load_process_def)
  qed
qed

lemma print_outcome:
  assumes "scheduled (c # ps) s" "length ps < fuel"
  shows "(\<exists>t. proc_print_processes fuel s = Ok () (s\<lparr>con := t\<rparr>)) \<or> (\<exists>f. proc_print_processes fuel s = Undefined f)"
proof -
  have r: "ring (processes s) (c # ps)" "current_process s = c" using assms(1) by (simp_all add: scheduled_def)
  from ring_head[OF r(1)] obtain x where x: "processes s c = Some x" "p_next x = hd (ps @ [c])" by blast
  have ch: "chain (processes s) ps c" "c \<notin> set ps" using r(1) by (simp_all add: ring_Cons)
  have body: "proc_print_processes fuel s = before (kprintf ''Process chain: %d -> '' [Num (p_pid x)])
      (before (print_chain fuel c (hd (ps @ [c]))) (kprintf ''(loop)\<newline>'' [])) s"
    using x r(2) by (simp add: proc_print_processes_def proc_current_process_def load_process_def)
  show ?thesis
  proof (cases rule: kprintf_cases[of "''Process chain: %d -> ''" "[Num (p_pid x)]" s])
    case (1 t1)
    note a = 1
    from print_chain_outcome[OF ch assms(2), of t1] show ?thesis
    proof (elim disjE exE)
      fix u assume u: "print_chain fuel c (hd (ps @ [c])) (s\<lparr>con := t1\<rparr>) = Ok () (s\<lparr>con := u\<rparr>)"
      show ?thesis
        by (cases rule: kprintf_cases[of "''(loop)\<newline>''" "[]" "s\<lparr>con := u\<rparr>"]) (use a u body in auto)
    qed (use a body in auto)
  qed (use body in auto)
qed

lemma unlink_outcome:
  fixes s :: "'s proc_scheme"
  assumes "scheduled (c # ps) s" "set (c # ps) \<subseteq> P" "running P s" "length ps < fuel" "processes s c = Some x"
  shows "case before (if p_next x = c then before (kprintf ''[PROC] Killed last process alive\<newline>'' []) kabort else ret ())
          (andthen (find_previous fuel c (p_next x)) (\<lambda>p. before (set_next p (p_next x)) (before (set_current p)
          (before (proc_print_processes fuel) (proc_switch_process None))))) s of
     Ok u t \<Rightarrow> False | Exit e t \<Rightarrow> running P t | Undefined f \<Rightarrow> True" (is "case ?M s of Ok u t \<Rightarrow> False | Exit e t \<Rightarrow> running P t | Undefined f \<Rightarrow> True")
proof -
  have r: "ring (processes s) (c # ps)" "current_process s = c" using assms(1) by (simp_all add: scheduled_def)
  have x: "p_next x = hd (ps @ [c])" and ch: "chain (processes s) ps c" "c \<notin> set ps"
    using r(1) assms(5) by (auto simp: ring_Cons)
  show ?thesis
  proof (cases "ps = []")
    case True
    let ?m = "before (kprintf ''[PROC] Killed last process alive\<newline>'' []) (kabort :: ('s proc_scheme, unit) action)"
    have k: "keeps (running P) ?m" unfolding running_def by (intro core.observed)
    have "?m s \<noteq> Ok a t" for a t by (auto simp: before_def andthen_def kabort_leaves split: outcome.splits)
    then show ?thesis using True x keeps_ExitD[OF k _ assms(3)] by (cases "?m s") auto
  next
    case False
    then have n: "p_next x = hd ps" "hd ps \<noteq> c" using x ch(2) by (auto simp: hd_append)
    have "last ps \<in> set (c # ps)" using False by simp
    from ring_member[OF r(1) this] obtain z where z: "processes s (last ps) = Some z" by blast
    let ?m = "(processes s)(last ps \<mapsto> z\<lparr>p_next := hd ps\<rparr>)"
    let ?s2 = "s\<lparr>processes := ?m, current_process := last ps\<rparr>"
    have "ring ?m ps" by (rule ring_remove[OF r(1) False z])
    then have "ring ?m (butlast ps @ [last ps])" using False by simp
    then have "ring ?m (last ps # butlast ps)" by (rule ring_rotate_back)
    then have sch: "scheduled (last ps # butlast ps) (?s2\<lparr>con := t\<rparr>)" "scheduled (last ps # butlast ps) ?s2" for t
      by (simp_all add: scheduled_def)
    have P: "set (last ps # butlast ps) \<subseteq> P" using assms(2) False by (auto dest: in_set_butlastD)
    have "find_previous fuel c (hd ps) s = Ok (last ps) s"
      by (rule find_previous_last) (use ch False assms(4) in simp_all)
    then have body: "?M s = before (proc_print_processes fuel) (proc_switch_process None) ?s2"
      using n z by (simp add: set_next_def load_process_def store_process_def set_current_def)
    have "length (butlast ps) < fuel" using assms(4) by simp
    from print_outcome[OF sch(2) this] show ?thesis
    proof (elim disjE exE)
      fix t assume t: "proc_print_processes fuel ?s2 = Ok () (?s2\<lparr>con := t\<rparr>)"
      show ?thesis using switch_outcome[OF sch(1)[of t] P, of None] body t by auto
    qed (simp add: body)
  qed
qed

lemma exit_outcome:
  fixes s :: "'s proc_scheme"
  assumes "scheduled (c # ps) s" "set (c # ps) \<subseteq> P" "running P s" "length ps < fuel"
  shows "case proc_exit_current_process fuel s of Ok u t \<Rightarrow> False | Exit e t \<Rightarrow> running P t | Undefined f \<Rightarrow> True"
proof -
  have r: "ring (processes s) (c # ps)" "current_process s = c" using assms(1) by (simp_all add: scheduled_def)
  from ring_head[OF r(1)] obtain x where x: "processes s c = Some x" "p_next x = hd (ps @ [c])" by blast
  have ch: "chain (processes s) ps c" "c \<notin> set ps" using r(1) by (simp_all add: ring_Cons)
  have read: "(\<exists>e. read32 v s = Ok e s) \<or> (\<exists>f. read32 v s = Undefined f)" for v
    by (simp add: read32_def split: option.splits)
  show ?thesis
  proof (cases "\<exists>e0 e767 e1023. read32 0xFFFFF000 s = Ok e0 s \<and> read32 (0xFFFFF000 + 4 * 767) s = Ok e767 s
      \<and> read32 (0xFFFFF000 + 4 * 1023) s = Ok e1023 s")
    case False
    then show ?thesis using read[of "0xFFFFF000"] read[of "0xFFFFF000 + 4 * 767"] read[of "0xFFFFF000 + 4 * 1023"]
      by (auto simp: proc_exit_current_process_def)
  next
    case True
    then obtain e0 e767 e1023 where e: "read32 0xFFFFF000 s = Ok e0 s" "read32 (0xFFFFF000 + 4 * 767) s = Ok e767 s"
      "read32 (0xFFFFF000 + 4 * 1023) s = Ok e1023 s" by blast
    obtain b u where fr: "mmap_unset ((e1023 AND PAGE_FRAME) div PMM_BLOCK_SIZE)
        (each_block mmap_unset ((e767 AND PAGE_FRAME) div PMM_BLOCK_SIZE) (p_stack_len x)
        (each_block mmap_unset ((e0 AND PAGE_FRAME) div PMM_BLOCK_SIZE) (p_code_len x) s)) = s\<lparr>bitmap := b, used_blocks := u\<rparr>"
      using unmarks_frame by blast
    let ?s1 = "s\<lparr>bitmap := b, used_blocks := u\<rparr>"
    have body: "proc_exit_current_process fuel s =
        before (if p_next x = c then before (kprintf ''[PROC] Killed last process alive\<newline>'' []) kabort else ret ())
          (andthen (find_previous fuel c (p_next x)) (\<lambda>p. before (set_next p (p_next x)) (before (set_current p)
          (before (proc_print_processes fuel) (proc_switch_process None))))) ?s1"
      using e x(1) r(2) fr by (simp add: proc_exit_current_process_def Let_def proc_current_process_def load_process_def
          pmm_free_pages_def pmm_free_page_def)
    have "scheduled (c # ps) ?s1" "running P ?s1" "processes ?s1 c = Some x"
      using assms(1,3) x(1) by (simp_all add: scheduled_def running_def core_def)
    from unlink_outcome[OF this(1) assms(2) this(2) assms(4) this(3)] show ?thesis unfolding body .
  qed
qed

text \<open>Every interrupt preserves what says which process runs.\<close>

lemma runningD:
  assumes "running P s" "finite P" "card P \<le> fuel"
  obtains c ps where "scheduled (c # ps) s" "set (c # ps) \<subseteq> P" "length ps < fuel"
proof -
  obtain qs where qs: "ring (processes s) qs" "current_process s = hd qs" "set qs \<subseteq> P"
    using assms(1) by (auto simp: running_def core_def run_core_def)
  then obtain c ps where c: "qs = c # ps" by (cases qs) (auto simp: ring_def)
  have "length qs = card (set qs)" using qs(1) by (simp add: ring_def distinct_card)
  also have "\<dots> \<le> card P" using qs(3) assms(2) by (rule card_mono[rotated])
  finally show ?thesis using that[of c ps] qs c assms(3) by (simp add: scheduled_def)
qed

lemma keeps_switch:
  assumes "finite P"
  shows "keeps (running P) (proc_switch_process regs)"
  unfolding keeps_def
proof (intro allI impI)
  fix s :: "'s proc_scheme" assume "running P s"
  from runningD[OF this assms order_refl] obtain c ps where "scheduled (c # ps) s" "set (c # ps) \<subseteq> P" .
  from switch_outcome[OF this, of regs] show "case proc_switch_process regs s of Ok a t \<Rightarrow> running P t | Exit e t \<Rightarrow> running P t | Undefined f \<Rightarrow> True"
    by auto
qed

lemma keeps_exit:
  assumes "finite P" "card P \<le> fuel"
  shows "keeps (running P) (proc_exit_current_process fuel)"
  unfolding keeps_def
proof (intro allI impI)
  fix s :: "'s proc_scheme" assume r: "running P s"
  from runningD[OF r assms] obtain c ps where "scheduled (c # ps) s" "set (c # ps) \<subseteq> P" "length ps < fuel" .
  from exit_outcome[OF this(1,2) r this(3)]
  show "case proc_exit_current_process fuel s of Ok a t \<Rightarrow> running P t | Exit e t \<Rightarrow> running P t | Undefined f \<Rightarrow> True"
    by (auto split: outcome.splits)
qed

lemma keeps_timer_callback:
  assumes "finite P"
  shows "keeps (running P) (proc_timer_callback regs)"
  unfolding proc_timer_callback_def proc_current_process_def load_process_def
  by (intro keeps_intros keeps_switch[OF assms])

lemma keeps_syscall:
  fixes P :: "u32 set"
  assumes "finite P" "card P \<le> fuel"
  shows "keeps (running P) (syscall_handler fuel regs)"
proof -
  have "keeps (running P) (syscall_putchar regs)" unfolding running_def syscall_putchar_def by (rule core.on_console)
  then have "keeps (running P) (run_sys_handler fuel h regs)" for h
    using keeps_switch[OF assms(1)] keeps_exit[OF assms]
    by (cases h) (auto simp: syscall_yield_def syscall_exit_def syscall_wait_def intro: keeps_intros)
  then show ?thesis unfolding syscall_handler_def running_def by (intro core.observed)
qed

lemma keeps_call_handler:
  assumes "finite P" "card P \<le> fuel"
  shows "keeps (running P :: 's sys_scheme \<Rightarrow> bool) (call_handler fuel depth h regs)"
proof (induction depth arbitrary: h regs)
  case (Suc depth)
  have "keeps (running P :: 's sys_scheme \<Rightarrow> bool) (timer_callback (call_handler fuel depth) regs)"
    using core.timer[OF Suc[unfolded running_def]] unfolding running_def .
  moreover have "keeps (running P :: 's sys_scheme \<Rightarrow> bool) (paging_fault_handler regs)"
    "keeps (running P :: 's sys_scheme \<Rightarrow> bool) (keyboard_handler regs)"
    unfolding running_def by (rule core.page_fault core.keyboard)+
  ultimately show ?case
    using keeps_syscall[OF assms] keeps_timer_callback[OF assms(1)] by (cases h) auto
qed (simp add: keeps_leave)

lemma keeps_interrupt:
  assumes "finite P" "card P \<le> fuel"
  shows "keeps (running P) (interrupt fuel regs)"
  using core.irq[OF keeps_call_handler[OF assms, unfolded running_def]] core.isr[OF keeps_call_handler[OF assms, unfolded running_def]]
  unfolding interrupt_def running_def by (rule keeps_if)

section \<open>The running kernel\<close>

text \<open>
  A step of the machine while a process runs: the process writes to a page of its own below the
  kernel, or accesses a port, or an interrupt comes, and its handler either returns to the process or enters another. A page
  fault has set \<open>cr2\<close> before.
\<close>

inductive kernel_step :: "nat \<Rightarrow> 's sys_scheme \<Rightarrow> 's sys_scheme \<Rightarrow> bool" for fuel where
  user_write: "unat v < 0xC0000000 \<Longrightarrow> translate s v = Some f \<Longrightarrow> kernel_step fuel s (poke f (word_of v) x s)"
| user_port: "port_write e s = Ok () s' \<Longrightarrow> kernel_step fuel s s'"
| returns: "interrupt fuel regs (s\<lparr>cr2 := a\<rparr>) = Ok () s' \<Longrightarrow> kernel_step fuel s s'"
| enters: "interrupt fuel regs (s\<lparr>cr2 := a\<rparr>) = Exit (Iret eip cs eflags esp ss) s' \<Longrightarrow> kernel_step fuel s s'"

inductive_cases kernel_stepE: "kernel_step fuel s s'"

text \<open>C10: whatever happens while processes run, the bookkeeping of the kernel stays right. From a state whose
  ring is intact, after any sequence of interrupts, system calls, exceptions, and writes and port accesses of user mode, with
  any registers, the process pointers form a ring through the current process, no process has joined it,
  \<open>cr3\<close> holds the page directory of the current process and the TSS the top of its own kernel stack, so
  that no process ever runs in the address space or on the stack of another.\<close>

theorem ring_survives:
  assumes "(kernel_step fuel)\<^sup>*\<^sup>* s s'" "scheduled ps s" "finite P" "set ps \<subseteq> P" "card P \<le> fuel"
    and "processes s (hd ps) = Some x" "cr3 s = p_directory x" "t_esp0 (tss s) = p_kernel_stack x"
  shows "\<exists>ps' x'. scheduled ps' s' \<and> set ps' \<subseteq> P \<and> processes s' (current_process s') = Some x'
    \<and> cr3 s' = p_directory x' \<and> t_esp0 (tss s') = p_kernel_stack x'"
proof -
  have "running P s" using assms(2,4,6-8) by (auto simp: running_def core_def run_core_def scheduled_def)
  with assms(1) have "running P s'"
  proof (induction rule: rtranclp_induct)
    case (step t u)
    have t: "running P t" "running P (t\<lparr>cr2 := a\<rparr>)" for a using step by (auto simp: running_def core_def)
    from step.hyps(2) show ?case
    proof (cases rule: kernel_step.cases)
      case (user_write v f x)
      then show ?thesis using t(1) by (simp add: running_def core_def poke_def)
    next
      case (user_port e)
      then have "u = t\<lparr>io_events := io_events t @ [e]\<rparr>" by (simp add: port_write_def)
      then show ?thesis using t(1) by (simp add: running_def core_def)
    next
      case (returns regs a)
      then show ?thesis using keeps_OkD[OF keeps_interrupt[OF assms(3,5)] _ t(2)] by blast
    next
      case (enters regs a eip cs eflags esp ss)
      then show ?thesis using keeps_ExitD[OF keeps_interrupt[OF assms(3,5)] _ t(2)] by blast
    qed
  qed
  then show ?thesis by (auto simp: running_def core_def run_core_def scheduled_def)
qed

text \<open>The first of \<open>two_tasks\<close> runs, and system calls are dispatched.\<close>

definition running_tasks :: sys where
  "running_tasks = two_tasks\<lparr>isr_handlers := (replicate 256 None)[48 := Some Syscall_handler], cr3 := 0x1000,
     tss := zero_tss\<lparr>t_esp0 := 0xD0002000\<rparr>\<rparr>"

theorem ring_survives_witness:
  "\<exists>s' ps x. kernel_step 2 running_tasks s' \<and> scheduled ps s' \<and> processes s' (current_process s') = Some x \<and> cr3 s' = p_directory x"
proof -
  have "scheduled [0xD0000000, 0xD0001064] running_tasks"
    using two_tasks_simps(1) by (simp add: running_tasks_def scheduled_def)
  moreover have p: "processes running_tasks 0xD0000000 = Some (sample_process 0xD0001064 1)"
    using two_processes_simps(5) by (simp add: running_tasks_def two_tasks_def proc.defs)
  moreover have "cr3 running_tasks = p_directory (sample_process 0xD0001064 1)"
    "t_esp0 (tss running_tasks) = p_kernel_stack (sample_process 0xD0001064 1)"
    by (simp_all add: running_tasks_def sample_process_def)
  moreover have step: "kernel_step 2 running_tasks running_tasks"
  proof (rule returns[where a = "cr2 running_tasks"])
    have "isr_handlers running_tasks ! 48 = Some Syscall_handler" "syscall_handlers running_tasks ! 2 = Some Syscall_wait"
      by (simp_all add: running_tasks_def two_tasks_simps(4) sys_table_nth)
    then show "interrupt 2 (sys_frame 2 10) (running_tasks\<lparr>cr2 := cr2 running_tasks\<rparr>) = Ok () running_tasks"
      by (simp add: interrupt_def sys_frame_def interrupt_frame_def isr_handler_def ISR_COUNT_def call_handler_2
          syscall_handler_def SYSCALL_COUNT_def syscall_wait_def)
  qed
  ultimately obtain ps x where "scheduled ps running_tasks" "processes running_tasks (current_process running_tasks) = Some x"
    "cr3 running_tasks = p_directory x"
    using ring_survives[of 2 running_tasks running_tasks "[0xD0000000, 0xD0001064]" "{0xD0000000, 0xD0001064}"] by auto
  with step show ?thesis by blast
qed

section \<open>The start of the kernel\<close>

definition never_returns :: "('s, 'a) action \<Rightarrow> bool" where
  "never_returns m \<longleftrightarrow> (\<forall>s a t. m s \<noteq> Ok a t)"

lemma never_leave: "never_returns (leave e)"
  by (simp add: never_returns_def)

lemma never_andthen: "(\<And>a. never_returns (k a)) \<Longrightarrow> never_returns (andthen m k)"
  by (auto simp: never_returns_def andthen_def split: outcome.splits)

lemma never_before: "never_returns k \<Longrightarrow> never_returns (before m k)" "never_returns m \<Longrightarrow> never_returns (before m k)"
  by (auto simp: never_returns_def before_def andthen_def split: outcome.splits)

lemma never_proc_init: "never_returns proc_init"
  unfolding proc_init_def proc_switch_process_def
  by (intro never_before(1) never_andthen never_leave)

text \<open>\<open>kernel_main\<close> does not get past \<open>proc_init\<close>: it ends in a panic, in undefined behaviour or in the
  \<open>iret\<close> that enters the first process, and neither the message behind the call nor the loop that
  shows the time is ever reached, whatever stands there.\<close>

theorem kernel_main_ends_in_proc_init:
  "kernel_main img entry_at get_time fuel mbi magic s \<noteq> Ok () s'
    \<and> kernel_main img entry_at get_time fuel mbi magic s = kernel_main img entry_at get_time' fuel mbi magic s"
proof
  have "never_returns (kernel_main img entry_at get_time fuel mbi magic)"
    unfolding kernel_main_def by (intro never_before(1)[of "before proc_init _"] never_before(1) never_before(2)[OF never_proc_init])
  then show "kernel_main img entry_at get_time fuel mbi magic s \<noteq> Ok () s'" by (simp add: never_returns_def)
  have cut: "before proc_init k = before proc_init k'" for k k' :: "('a sys_scheme, unit) action"
  proof
    fix t show "before proc_init k t = before proc_init k' t"
      using never_proc_init by (cases "proc_init t") (auto simp: never_returns_def)
  qed
  show "kernel_main img entry_at get_time fuel mbi magic s = kernel_main img entry_at get_time' fuel mbi magic s"
    unfolding kernel_main_def by (subst cut[where k' = "before (kprintf ''bruh\<newline>'' []) (main_loop fuel get_time' 0)"]) (rule refl)
qed

lemma stops_before: "stops m s \<Longrightarrow> stops (before m k) s"
  unfolding stops_def by (metis before_Exit)

lemma stops_kassert:
  assumes "list_all plain file" "list_all plain function" "list_all plain expr"
  shows "stops (kassert file line function expr False) s"
  unfolding stops_def
proof (intro allI impI)
  fix t assume "quiet t"
  then have "quiet (con (s\<lparr>con := t\<rparr>))" by simp
  from kassert_fails[OF this assms] obtain u where
    "kassert file line function expr False (s\<lparr>con := t\<rparr>) = Exit Abort (s\<lparr>con := t\<rparr>\<lparr>con := u\<rparr>)" .
  then show "\<exists>u. kassert file line function expr False (s\<lparr>con := t\<rparr>) = Exit Abort (s\<lparr>con := u\<rparr>)" by auto
qed

text \<open>A kernel that was not started by a Multiboot loader, or gets no memory map, panics before it has
  touched anything but the screen.\<close>

theorem boot_checks_loader:
  assumes "quiet (con s)" "magic \<noteq> MULTIBOOT_BOOTLOADER_MAGIC \<or> mb_flags mbi AND MULTIBOOT_INFO_MEM_MAP = 0"
  shows "\<exists>t. kernel_main img entry_at get_time fuel mbi magic s = Exit Abort (s\<lparr>con := t\<rparr>)"
proof -
  let ?s = "s\<lparr>con := term_init (con s)\<rparr>"
  let ?a1 = "kassert ''src/kernel.c'' 98 ''kernel_main'' ''magic == 0x2BADB002''"
  let ?a2 = "kassert ''src/kernel.c'' 99 ''kernel_main'' ''mbi->flags & 0x00000040''"
  have fails: "stops (?a1 False) ?s" "stops (?a2 False) ?s"
    by (intro stops_kassert; simp add: plain_def)+
  have checks: "stops (before (?a1 (magic = MULTIBOOT_BOOTLOADER_MAGIC))
      (before (?a2 (mb_flags mbi AND MULTIBOOT_INFO_MEM_MAP \<noteq> 0)) k)) ?s" for k
  proof (cases "magic = MULTIBOOT_BOOTLOADER_MAGIC")
    case True
    then have "stops (before (?a2 (mb_flags mbi AND MULTIBOOT_INFO_MEM_MAP \<noteq> 0)) k) ?s"
      using assms(2) fails(2) by (auto intro: stops_before)
    then show ?thesis by (rule stops_cong[rotated]) (simp add: True)
  next
    case False
    then show ?thesis using fails(1) by (auto intro: stops_before)
  qed
  have "quiet (con ?s)" using assms(1) by (simp add: in_mode_def)
  moreover have "\<exists>rest. kernel_main img entry_at get_time fuel mbi magic s = rest ?s \<and> stops rest ?s"
    unfolding kernel_main_def on_console_def
    by (rule exI, rule conjI, rule before_Ok, simp add: zoom_def, intro stops_print checks) (simp_all add: format_eval)
  ultimately obtain t where "kernel_main img entry_at get_time fuel mbi magic s = Exit Abort (?s\<lparr>con := t\<rparr>)"
    using stops_apply by metis
  then show ?thesis by auto
qed

definition sample_image :: image where
  "sample_image = \<lparr>kernel_begin_phys = 0x100000, kernel_end_phys = 0x120000, kernel_size = 0x20000, gdt_address = 0xC0118000,
     tss_address = 0xC0118100, idt_address = 0xC0118200, isr_stubs = (\<lambda>n. 0xC0101000 + 16 * of_nat n),
     irq_stubs = (\<lambda>n. 0xC0102000 + 16 * of_nat n), kernel_directory_address = 0xC0110000,
     process_1 = 0xC0103000, process_2 = 0xC0103080, process_3 = 0xC0103100\<rparr>"

theorem boot_checks_loader_witness:
  "\<exists>t. kernel_main sample_image one_entry (ret 0) 5 blank_info MULTIBOOT_BOOTLOADER_MAGIC two_tasks = Exit Abort (two_tasks\<lparr>con := t\<rparr>)"
  by (rule boot_checks_loader[OF two_tasks_simps(2)]) (simp add: blank_info_def)

end
