(* ===== verification/Space.thy ===== *)
theory Space
  imports Proc
begin

unbundle bit_operations_syntax

text \<open>
  Two address spaces at once. A process is built by switching between page directories, so this theory
  says of an operation on the current address space what it leaves alone in physical memory, and with
  that in every other address space; and what copying through mapped pages does.
\<close>

section \<open>Blocks in a row\<close>

text \<open>
  \<open>pool s k\<close>: there is a run of \<open>k\<close> free blocks, and the count of used blocks admits \<open>k\<close> more. Single
  blocks and runs are both taken from the lowest place, so an allocation of \<open>n\<close> blocks
  shortens the pool by no more than \<open>n\<close>.
\<close>

definition pool :: "'s pmm_scheme \<Rightarrow> nat \<Rightarrow> bool" where
  "pool s k \<longleftrightarrow> (\<exists>a. a + k \<le> searched s \<and> free_run (block_used s) a k) \<and> unat (used_blocks s) + k \<le> unat (max_blocks s)"

lemma pool_roomy: "pool s k \<Longrightarrow> roomy s k"
proof -
  assume p: "pool s k"
  then obtain a where a: "a + k \<le> searched s" "free_run (block_used s) a k" by (auto simp: pool_def)
  then have "{a..<a + k} \<subseteq> {n. n < searched s \<and> \<not> block_used s n}" by (auto simp: free_run_def)
  from card_mono[OF _ this] p show "roomy s k" by (simp add: roomy_def pool_def)
qed

lemma pool_mono: "pool s k \<Longrightarrow> j \<le> k \<Longrightarrow> pool s j"
  unfolding pool_def by (meson add_left_mono free_run_mono le_trans)

lemma pool_frame [simp]: "pool (with_frame s f g) k = pool s k" "pool (poke f i x s) k = pool s k"
  by (simp_all add: pool_def poke_with_frame)

lemma take_blocks_pool:
  assumes "a + (k + j) \<le> hi" "free_run used a (k + j)" "n \<le> a"
  shows "\<exists>b. b + j \<le> hi \<and> free_run (take_blocks n k used) b j"
  using assms by (intro exI[of _ "a + k"]) (auto simp: free_run_def take_blocks_def)

lemma pool_alloc:
  assumes "pmm_ok s" "pool s (Suc k)" "pmm_alloc_page s = Ok p s'"
  shows "pool s' k"
proof -
  obtain a where a: "a + Suc k \<le> searched s" "free_run (block_used s) a (Suc k)" using assms(2) by (auto simp: pool_def)
  have full: "max_blocks s \<noteq> used_blocks s" using assms(2) by (auto simp: pool_def)
  have "a < searched s" "\<not> block_used s a" using a by (auto simp: free_run_def)
  then obtain n where n: "first_free (block_used s) 0 (searched s) = Some n" "n \<le> a"
    by (metis first_free_None first_free_Some linorder_not_le not_Some_eq zero_le)
  note ok = first_free_ok[OF assms(1) n(1)]
  have s': "s' = mmap_set (of_nat n) s" using assms(3) pmm_alloc_page_first[OF assms(1) full] n(1) by simp
  have used: "block_used s' = take_blocks n 1 (block_used s)"
    using ok(4) by (auto simp: s' fun_eq_iff block_used_set take_blocks_def)
  have "unat (used_blocks s + 1) = unat (used_blocks s) + 1"
    using assms(2) unat_less_numeral_u32[of "max_blocks s"] unfolding pool_def
    by (intro unat_sum2) (simp_all del: unat_less_numeral_u32)
  moreover have "used_blocks s' = used_blocks s + 1" "max_blocks s' = max_blocks s" "searched s' = searched s"
    by (simp_all add: s') (simp add: mmap_set_def)
  ultimately show ?thesis
    using take_blocks_pool[of a 1 k, OF _ _ n(2)] a assms(2) by (simp add: pool_def used)
qed

lemma pool_alloc_pages:
  assumes "pmm_ok s" "0 < num" "pool s (unat num + k)" "pmm_alloc_pages num s = Ok p s'"
  shows "p \<noteq> 0" "pool s' k"
proof -
  obtain a where a: "a + (unat num + k) \<le> searched s" "free_run (block_used s) a (unat num + k)"
    using assms(3) by (auto simp: pool_def)
  have runs: "\<exists>n \<le> a. first_run (block_used s) (unat num) (searched s) n"
  proof -
    let ?n = "LEAST n. free_run (block_used s) n (unat num)"
    have f: "free_run (block_used s) a (unat num)" by (rule free_run_mono[OF a(2)]) simp
    then have "?n \<le> a" by (rule Least_le)
    moreover have "free_run (block_used s) ?n (unat num)" using f by (rule LeastI)
    ultimately show ?thesis using a(1) not_less_Least
      by (intro exI[of _ ?n]) (fastforce simp: first_run_def)
  qed
  have unique: "n = m" if "first_run (block_used s) (unat num) (searched s) n" "first_run (block_used s) (unat num) (searched s) m" for n m
    using that unfolding first_run_def by (metis linorder_neqE_nat)
  have "unat (used_blocks s) + unat num \<le> unat (max_blocks s)" using assms(3) unfolding pool_def by linarith
  then have count: "\<not> max_blocks s - used_blocks s < num"
    by (simp add: word_less_nat_alt unat_sub word_le_nat_alt)
  from alloc_pages_search[OF assms(1,2)] assms(4) runs count
  have r: "first_run (block_used s) (unat num) (searched s) (unat p div 4096)" "p \<noteq> 0"
    "block_used s' = take_blocks (unat p div 4096) (unat num) (block_used s)" "used_blocks s' = used_blocks s + num"
    by (auto split: if_splits)
  then show "p \<noteq> 0" by simp
  have below: "unat p div 4096 \<le> a" using runs unique r(1) by blast
  have frame: "max_blocks s' = max_blocks s" "searched s' = searched s"
    using assms(1,2,4) by (cases rule: pmm_alloc_pages_cases; simp add: searched_def)+
  have "unat (used_blocks s + num) = unat (used_blocks s) + unat num"
    using assms(3) unat_less_numeral_u32[of "max_blocks s"] unfolding pool_def
    by (intro unat_sum2) (simp_all del: unat_less_numeral_u32)
  then show "pool s' k"
    using take_blocks_pool[OF a below] assms(3) by (simp add: pool_def r(3,4) frame)
qed

text \<open>
  \<open>frontier s b\<close>: the blocks in use are those below \<open>b\<close>. As both searches take the lowest place, blocks are then
  handed out in order, which fixes where everything that is allocated lies.
\<close>

definition frontier :: "'s pmm_scheme \<Rightarrow> nat \<Rightarrow> bool" where
  "frontier s b \<longleftrightarrow> (\<forall>n < searched s. block_used s n \<longleftrightarrow> n < b)"

lemma frontier_cong: "block_used t = block_used s \<Longrightarrow> searched t = searched s \<Longrightarrow> frontier t b = frontier s b"
  by (simp add: frontier_def)

lemma frontier_frame [simp]: "frontier (with_frame s f g) b = frontier s b" "frontier (poke f i x s) b = frontier s b"
  by (simp_all add: frontier_def poke_with_frame searched_def)

lemma frontier_pool:
  assumes "frontier s b" "pool s k" "0 < k"
  shows "b + k \<le> searched s" "\<And>n. b \<le> n \<Longrightarrow> n < b + k \<Longrightarrow> \<not> block_used s n"
proof -
  obtain a where a: "a + k \<le> searched s" "free_run (block_used s) a k" using assms(2) by (auto simp: pool_def)
  then have "a < searched s" "\<not> block_used s a" using assms(3) by (auto simp: free_run_def)
  then have "b \<le> a" using assms(1) by (simp add: frontier_def not_less)
  then show k: "b + k \<le> searched s" using a(1) by simp
  show "\<not> block_used s n" if "b \<le> n" "n < b + k" for n using assms(1) k that by (simp add: frontier_def)
qed

lemma frontier_alloc:
  assumes "pmm_ok s" "pool s (Suc k)" "frontier s b" "pmm_alloc_page s = Ok p s'"
  shows "p = of_nat b * PMM_BLOCK_SIZE" "s' = mmap_set (of_nat b) s" "frontier s' (b + 1)"
proof -
  note b = frontier_pool[OF assms(3,2)]
  have full: "max_blocks s \<noteq> used_blocks s" using assms(2) by (auto simp: pool_def)
  have "first_free (block_used s) 0 (searched s) = Some b" using b assms(3) by (simp add: first_free_Some frontier_def)
  note f = pmm_alloc_page_first[OF assms(1) full, unfolded this] first_free_ok(4)[OF assms(1) this]
  show r: "p = of_nat b * PMM_BLOCK_SIZE" "s' = mmap_set (of_nat b) s" using f(1) assms(4) by simp_all
  show "frontier s' (b + 1)" using assms(3) f(2) by (auto simp: frontier_def r block_used_set less_Suc_eq)
qed

lemma frontier_alloc_pages:
  assumes "pmm_ok s" "0 < num" "pool s (unat num + k)" "frontier s b" "pmm_alloc_pages num s = Ok p s'"
  shows "unat p = b * 4096" "frontier s' (b + unat num)"
proof -
  have n: "0 < unat num" using assms(2) by (simp add: word_less_nat_alt)
  have room: "pool s (unat num)" using pool_mono[OF assms(3)] by simp
  note b = frontier_pool[OF assms(4) room n]
  have first: "first_run (block_used s) (unat num) (searched s) b"
    using b n assms(4) by (auto simp: first_run_def free_run_def frontier_def)
  have unique: "x = b" if "first_run (block_used s) (unat num) (searched s) x" for x
    using that first unfolding first_run_def by (metis linorder_neqE_nat)
  have "\<not> max_blocks s - used_blocks s < num"
  proof -
    have "unat (used_blocks s) + unat num \<le> unat (max_blocks s)" using room by (simp add: pool_def)
    then show ?thesis by (simp add: word_less_nat_alt unat_sub word_le_nat_alt)
  qed
  then have "\<not> (max_blocks s - used_blocks s < num \<or> (\<forall>n. \<not> first_run (block_used s) (unat num) (searched s) n))" using first by blast
  note f = alloc_pages_search[OF assms(1,2), unfolded if_not_P[OF this]]
  have r: "unat p div 4096 = b" "unat p mod 4096 = 0" "block_used s' = take_blocks (unat p div 4096) (unat num) (block_used s)"
    using f assms(5) unique by auto
  then show "unat p = b * 4096" by (metis add.right_neutral div_mult_mod_eq)
  have "searched s' = searched s" using assms(1,2,5) by (cases rule: pmm_alloc_pages_cases; simp add: searched_def)
  then show "frontier s' (b + unat num)" using assms(4) by (auto simp: frontier_def r(1,3) take_blocks_def)
qed

section \<open>Entries\<close>

text \<open>The entry of a page, 0 where there is no table.\<close>

definition pte :: "'s vmm_scheme \<Rightarrow> u32 \<Rightarrow> u32" where
  "pte s v = (if has_table s (dir_of v) then page_entry s v else 0)"

lemma translate_pte:
  "dir_of v \<notin> large_pages s \<Longrightarrow> translate s v = (if entry_present (pte s v) then Some (entry_frame (pte s v)) else None)"
  by (auto simp: translate_eq pte_def has_table_def page_entry_def table_frame_def large_pages_def Let_def entry_present_def)

lemma pte_cong:
  assumes "dir_entry s' (dir_of v) = dir_entry s (dir_of v)"
    and "has_table s (dir_of v) \<Longrightarrow> ram s' (table_frame s (dir_of v)) (table_of v) = ram s (table_frame s (dir_of v)) (table_of v)"
  shows "pte s' v = pte s v"
  using assms by (simp add: pte_def has_table_def page_entry_def table_frame_def)

lemma set_entry_pte:
  assumes "space_ok s" "has_table s (dir_of virt)" "dir_of virt \<noteq> 1023"
  shows "pte (set_entry s virt x) v = (if unat v div 4096 = unat virt div 4096 then x else pte s v)"
proof (cases "unat v div 4096 = unat virt div 4096")
  case True
  then have v: "dir_of v = dir_of virt" "table_of v = table_of virt" using same_page by blast+
  note d = set_entry_space(1)[OF assms, of x]
  have "ram (set_entry s virt x) (table_frame s (dir_of virt)) (table_of virt) = x"
    by (simp add: set_entry_def poke_with_frame)
  moreover have "has_table (set_entry s virt x) (dir_of virt)" "table_frame (set_entry s virt x) (dir_of virt) = table_frame s (dir_of virt)"
    using assms(2) unfolding has_table_def table_frame_def d by simp_all
  ultimately have "pte (set_entry s virt x) v = x" by (simp only: pte_def page_entry_def v if_True)
  then show ?thesis unfolding if_P[OF True] .
next
  case False
  have "ram (set_entry s virt x) (table_frame s (dir_of v)) (table_of v) = ram s (table_frame s (dir_of v)) (table_of v)"
    if t: "has_table s (dir_of v)"
  proof (cases "table_frame s (dir_of v) = table_frame s (dir_of virt)")
    case True
    then have "dir_of v = dir_of virt" using space_okD(3)[OF assms(1) t assms(2)] by simp
    then have "table_of v \<noteq> table_of virt" using False same_page by blast
    then show ?thesis by (simp add: set_entry_def poke_with_frame)
  qed (simp add: set_entry_def poke_with_frame)
  then have "pte (set_entry s virt x) v = pte s v" by (intro pte_cong set_entry_space(1)[OF assms])
  then show ?thesis unfolding if_not_P[OF False] .
qed

lemma new_table_pte:
  assumes "space_ok s" "\<not> entry_present (dir_entry s (dir_of virt))" "\<not> bit flags 7"
    and n: "n < 2 ^ 20" "\<not> block_used s n" "unat (of_nat n * PMM_BLOCK_SIZE) = n * 4096"
    and v: "dir_of v \<noteq> 1023"
  shows "pte (new_table s virt flags n) v = pte s v"
proof (cases "dir_of v = dir_of virt")
  case True
  note t = new_table_fields[OF assms(1-3) n]
  have "\<not> has_table s (dir_of v)" using True assms(2) by (simp add: has_table_def)
  moreover have "page_entry (new_table s virt flags n) v = 0" using True unfolding page_entry_def t(5) by (simp add: t(8))
  ultimately show ?thesis by (simp add: pte_def)
next
  case False
  note t = new_table_fields[OF assms(1-3) n]
  show ?thesis
  proof (rule pte_cong)
    show "dir_entry (new_table s virt flags n) (dir_of v) = dir_entry s (dir_of v)" by (subst t(4)) (simp add: False)
    show "ram (new_table s virt flags n) (table_frame s (dir_of v)) (table_of v) = ram s (table_frame s (dir_of v)) (table_of v)"
      if "has_table s (dir_of v)"
      using t(6)[OF that] t(9) space_okD(5)[OF assms(1) that v] by simp
  qed
qed

section \<open>What mapping leaves alone\<close>

text \<open>
  \<open>grown I u s s'\<close>: the current address space has changed in the tables of the directory entries \<open>I\<close>
  alone, tables in new blocks included. A used block that is neither the directory nor one of these
  tables holds what it held. \<open>u\<close> says whether the new tables are open to user mode.
\<close>

definition grown :: "10 word set \<Rightarrow> bool \<Rightarrow> 's vmm_scheme \<Rightarrow> 's vmm_scheme \<Rightarrow> bool" where
  "grown I u s s' \<longleftrightarrow> pages_changed s s'
     \<and> (\<forall>f. block_used s (unat f) \<and> f \<noteq> directory s \<and> (\<forall>i \<in> I. has_table s i \<longrightarrow> table_frame s i \<noteq> f) \<longrightarrow> ram s' f = ram s f)
     \<and> (\<forall>i. i \<notin> I \<or> entry_present (dir_entry s i) \<longrightarrow> dir_entry s' i = dir_entry s i)
     \<and> (\<forall>i. has_table s' i \<and> \<not> has_table s i \<longrightarrow> \<not> block_used s (unat (table_frame s' i))
          \<and> entry_user (dir_entry s' i) = u \<and> bit (dir_entry s' i) 1)"

lemma grownD:
  assumes "grown I u s s'"
  shows "pages_changed s s'" "directory s' = directory s" "block_used s n \<Longrightarrow> block_used s' n"
    "block_used s (unat f) \<Longrightarrow> f \<noteq> directory s \<Longrightarrow> (\<And>i. i \<in> I \<Longrightarrow> has_table s i \<Longrightarrow> table_frame s i \<noteq> f) \<Longrightarrow> ram s' f = ram s f"
    "i \<notin> I \<Longrightarrow> dir_entry s' i = dir_entry s i" "entry_present (dir_entry s i) \<Longrightarrow> dir_entry s' i = dir_entry s i"
    "has_table s' i \<Longrightarrow> \<not> has_table s i \<Longrightarrow> \<not> block_used s (unat (table_frame s' i))"
    "has_table s' i \<Longrightarrow> \<not> has_table s i \<Longrightarrow> entry_user (dir_entry s' i) = u \<and> bit (dir_entry s' i) 1"
    "has_table s i \<Longrightarrow> has_table s' i \<and> table_frame s' i = table_frame s i"
  using assms pages_changed_fields(7,10)[of s s'] unfolding grown_def by (auto simp: has_table_def table_frame_def)

lemma grown_refl [simp]: "grown I u s s"
  by (simp add: grown_def)

lemma grown_mono: "grown I u s s' \<Longrightarrow> I \<subseteq> J \<Longrightarrow> grown J u s s'"
  unfolding grown_def by blast

lemma grown_trans:
  assumes "grown I u s t" "grown I u t w"
  shows "grown I u s w"
  unfolding grown_def
proof (intro conjI allI impI)
  note st = grownD[OF assms(1)] and tw = grownD[OF assms(2)]
  show "pages_changed s w" by (rule pages_changed_trans[OF st(1) tw(1)])
  fix f i
  show "ram w f = ram s f" if f: "block_used s (unat f) \<and> f \<noteq> directory s \<and> (\<forall>i \<in> I. has_table s i \<longrightarrow> table_frame s i \<noteq> f)"
  proof -
    have "table_frame t i \<noteq> f" if "i \<in> I" "has_table t i" for i
    proof (cases "has_table s i")
      case True
      then show ?thesis using f that(1) st(9) by auto
    next
      case False
      then show ?thesis using f st(7)[OF that(2)] by auto
    qed
    then have "ram w f = ram t f" using f st(2,3) by (intro tw(4)) auto
    also have "\<dots> = ram s f" using f by (intro st(4)) auto
    finally show ?thesis .
  qed
  show "dir_entry w i = dir_entry s i" if "i \<notin> I \<or> entry_present (dir_entry s i)"
    using that st(5,6)[of i] tw(5,6)[of i] by auto
  assume i: "has_table w i \<and> \<not> has_table s i"
  show "\<not> block_used s (unat (table_frame w i))" "entry_user (dir_entry w i) = u" "bit (dir_entry w i) 1"
  proof -
    have "\<not> block_used s (unat (table_frame w i)) \<and> entry_user (dir_entry w i) = u \<and> bit (dir_entry w i) 1"
    proof (cases "has_table t i")
      case True
      then have "dir_entry w i = dir_entry t i" "table_frame w i = table_frame t i" using tw(6,9) by (auto simp: has_table_def)
      then show ?thesis using st(7,8)[OF True] i by auto
    next
      case False
      then show ?thesis using tw(7,8)[of i] i st(3) by auto
    qed
    then show "\<not> block_used s (unat (table_frame w i))" "entry_user (dir_entry w i) = u" "bit (dir_entry w i) 1" by auto
  qed
qed

lemma set_entry_grown:
  assumes "space_ok s" "has_table s (dir_of virt)" "dir_of virt \<noteq> 1023"
  shows "grown {dir_of virt} u s (set_entry s virt x)"
proof -
  have "pages_changed s (set_entry s virt x)" unfolding set_entry_def poke_with_frame by (intro pages_changed_with_frame) simp
  moreover note set_entry_space(1)[OF assms, of x]
  ultimately show ?thesis using assms(2) by (auto simp: grown_def has_table_def set_entry_def poke_with_frame)
qed

lemma new_table_grown:
  assumes "space_ok s" "\<not> entry_present (dir_entry s (dir_of virt))" "\<not> bit flags 7"
    and n: "n < 2 ^ 20" "\<not> block_used s n" "unat (of_nat n * PMM_BLOCK_SIZE) = n * 4096"
  shows "grown {dir_of virt} (bit flags 2) s (new_table s virt flags n)"
  unfolding grown_def
proof (intro conjI allI impI)
  note t = new_table_fields[OF assms(1-3) n]
  show "pages_changed s (new_table s virt flags n)" unfolding new_table_def poke_with_frame by blast
  fix f i
  show "ram (new_table s virt flags n) f = ram s f"
    if "block_used s (unat f) \<and> f \<noteq> directory s \<and> (\<forall>i \<in> {dir_of virt}. has_table s i \<longrightarrow> table_frame s i \<noteq> f)"
  proof -
    have "f \<noteq> of_nat n" using that t(2) n(2) by auto
    then show ?thesis using that t(9) by blast
  qed
  show "dir_entry (new_table s virt flags n) i = dir_entry s i" if "i \<notin> {dir_of virt} \<or> entry_present (dir_entry s i)"
    using that assms(2) by (subst t(4)) auto
  assume i: "has_table (new_table s virt flags n) i \<and> \<not> has_table s i"
  then have i': "i = dir_of virt" by (auto simp: t(3))
  show "\<not> block_used s (unat (table_frame (new_table s virt flags n) i))" using i' t(2) n(2) by (simp add: t(5))
  have a: "unat (of_nat n * PMM_BLOCK_SIZE) mod 4096 = 0" using n(3) by simp
  have "dir_entry (new_table s virt flags n) i = of_nat n * PMM_BLOCK_SIZE OR PAGE_PRESENT OR PAGE_RW OR (flags AND PAGE_FLAGS)"
    using i' t(7) by (simp add: new_table_def poke_with_frame)
  then show "entry_user (dir_entry (new_table s virt flags n) i) = bit flags 2" "bit (dir_entry (new_table s virt flags n) i) 1"
    using aligned_bits[OF a, of 2] by (simp_all add: entry_user_def bit_simps page_bits)
qed

text \<open>Where a new table lies: at the frontier, which it moves by one.\<close>

definition takes_table :: "10 word \<Rightarrow> 's vmm_scheme \<Rightarrow> 's vmm_scheme \<Rightarrow> bool" where
  "takes_table i s t \<longleftrightarrow> (\<forall>b. frontier s b \<longrightarrow>
     (if entry_present (dir_entry s i) then frontier t b else frontier t (b + 1) \<and> unat (table_frame t i) = b))"

lemma takes_table_trans:
  assumes "takes_table i s t" "takes_table i t u" "has_table t i" "grown I f s t" "grown J f' t u"
  shows "takes_table i s u"
proof -
  have t: "entry_present (dir_entry t i)" using assms(3) by (simp add: has_table_def)
  have "table_frame u i = table_frame t i" using grownD(9)[OF assms(5,3)] by simp
  then show ?thesis using assms(1,2) t by (auto simp: takes_table_def)
qed

lemma new_table_takes:
  assumes "space_ok s" "\<not> entry_present (dir_entry s (dir_of virt))" "\<not> bit flags 7" "pool s (Suc k)"
    and alloc: "pmm_alloc_page s = Ok (of_nat n * PMM_BLOCK_SIZE) (mmap_set (of_nat n) s)"
    and n: "n < 2 ^ 20" "\<not> block_used s n" "unat (of_nat n * PMM_BLOCK_SIZE) = n * 4096"
  shows "takes_table (dir_of virt) s (new_table s virt flags n)"
  unfolding takes_table_def if_not_P[OF assms(2)]
proof (intro allI impI conjI)
  fix b assume b: "frontier s b"
  note f = frontier_alloc[OF space_okD(2)[OF assms(1)] assms(4) b alloc]
  have "b < 2 ^ 20" using frontier_pool(1)[OF b assms(4)] limit_ok[OF space_okD(2)[OF assms(1)]] by simp
  moreover have "unat (of_nat n * PMM_BLOCK_SIZE) = unat (of_nat b * PMM_BLOCK_SIZE)" using f(1) by simp
  ultimately have "b = n" using n(3) block_address(1)[of b] by simp
  then show "frontier (new_table s virt flags n) (b + 1)" using f(2,3) by (simp add: new_table_def)
  show "unat (table_frame (new_table s virt flags n) (dir_of virt)) = b"
    using new_table_fields(2,5)[OF assms(1-3) n] \<open>b = n\<close> by simp
qed

section \<open>Mapping, with what it leaves alone\<close>

lemma paging_map_page_state:
  assumes "unat virt mod 4096 = 0" "space_ok s" "dir_of virt \<noteq> 1023" "translate s virt = None" "\<not> bit flags 7"
    and "pool s (Suc k)"
  obtains t where "space_ok t" "has_table t (dir_of virt)" "grown {dir_of virt} (bit flags 2) s t" "pool t k"
    "\<forall>v. dir_of v \<noteq> 1023 \<longrightarrow> pte t v = pte s v" "takes_table (dir_of virt) s t"
    "paging_map_page virt phys flags s = Ok () (set_entry t virt (phys OR PAGE_PRESENT OR (flags AND PAGE_FLAGS)))"
proof -
  have run: "paging_map_page virt phys flags s = Ok () (set_entry t virt (phys OR PAGE_PRESENT OR (flags AND PAGE_FLAGS)))"
    if "paging_get_page virt True flags s = Ok (page_entry_addr virt) t" "space_ok t" "has_table t (dir_of virt)"
      "\<not> entry_present (page_entry t virt)" for t
    using that page_entry_access(1)[OF space_okD(1)[OF that(2)]] set_entry_write[OF that(2,3)]
    by (simp add: paging_map_page_def paging_invalidate_page_def has_table_def)
  have absent: "\<not> entry_present (page_entry s virt)" if "has_table s (dir_of virt)"
    using that assms(4) by (auto simp: translate_eq has_table_def page_entry_def table_frame_def Let_def split: if_splits)
  show ?thesis
  proof (cases "entry_present (dir_entry s (dir_of virt))")
    case True
    then have t: "has_table s (dir_of virt)"
      using assms(4) by (auto simp: translate_eq has_table_def Let_def split: if_splits)
    note get = paging_get_page_present[OF assms(1) space_okD(1)[OF assms(2)] True]
    show ?thesis
      using that[OF assms(2) t grown_refl _ _ _ run[OF get assms(2) t absent[OF t]]] pool_mono[OF assms(6)] True
      by (simp add: takes_table_def)
  next
    case False
    from paging_get_page_creates[OF assms(1,2) False assms(5) pool_roomy[OF assms(6)]] obtain n where
      get: "paging_get_page virt True flags s = Ok (page_entry_addr virt) (new_table s virt flags n)"
      and n: "n < 2 ^ 20" "\<not> block_used s n" "unat (of_nat n * PMM_BLOCK_SIZE) = n * 4096"
        "block_used (mmap_set (of_nat n) s) = (\<lambda>m. m = n \<or> block_used s m)" "pmm_ok (mmap_set (of_nat n) s)"
      and alloc: "pmm_alloc_page s = Ok (of_nat n * PMM_BLOCK_SIZE) (mmap_set (of_nat n) s)" .
    note sp = new_table_space[OF assms(2) False assms(5) n]
    have t: "has_table (new_table s virt flags n) (dir_of virt)" using new_table_fields(3)[OF assms(2) False assms(5) n(1-3)] by simp
    have p: "pool (new_table s virt flags n) k"
      using pool_alloc[OF space_okD(2)[OF assms(2)] assms(6) alloc] by (simp add: new_table_def)
    have e: "\<forall>v. dir_of v \<noteq> 1023 \<longrightarrow> pte (new_table s virt flags n) v = pte s v"
      using new_table_pte[OF assms(2) False assms(5) n(1-3)] by blast
    have "\<not> entry_present (page_entry (new_table s virt flags n) virt)" by (simp add: sp(3) entry_present_def)
    from that[OF sp(1) t new_table_grown[OF assms(2) False assms(5) n(1-3)] p e
        new_table_takes[OF assms(2) False assms(5,6) alloc n(1-3)] run[OF get sp(1) t this]] show ?thesis .
  qed
qed

lemma map_page_grows:
  assumes "unat virt mod 4096 = 0" "space_ok s" "dir_of virt \<noteq> 1023" "translate s virt = None" "\<not> bit flags 7"
    and "pool s (Suc k)"
  obtains s' where "paging_map_page virt phys flags s = Ok () s'" "space_ok s'" "pool s' k"
    "grown {dir_of virt} (bit flags 2) s s'" "has_table s' (dir_of virt)"
    "\<forall>v. dir_of v \<noteq> 1023 \<longrightarrow> pte s' v =
       (if unat v div 4096 = unat virt div 4096 then phys OR PAGE_PRESENT OR (flags AND PAGE_FLAGS) else pte s v)"
    "takes_table (dir_of virt) s s'"
proof -
  let ?x = "phys OR PAGE_PRESENT OR (flags AND PAGE_FLAGS)"
  from paging_map_page_state[OF assms] obtain t where t: "space_ok t" "has_table t (dir_of virt)"
    "grown {dir_of virt} (bit flags 2) s t" "pool t k" "\<forall>v. dir_of v \<noteq> 1023 \<longrightarrow> pte t v = pte s v"
    "takes_table (dir_of virt) s t" "paging_map_page virt phys flags s = Ok () (set_entry t virt ?x)" .
  have g: "grown {dir_of virt} (bit flags 2) s (set_entry t virt ?x)"
    by (rule grown_trans[OF t(3) set_entry_grown[OF t(1,2) assms(3)]])
  have h: "has_table (set_entry t virt ?x) (dir_of virt)"
    using t(2) set_entry_space(1)[OF t(1,2) assms(3)] by (simp add: has_table_def)
  have p: "pool (set_entry t virt ?x) k" using t(4) by (simp add: set_entry_def)
  have take: "takes_table (dir_of virt) s (set_entry t virt ?x)"
  proof -
    have "table_frame (set_entry t virt ?x) (dir_of virt) = table_frame t (dir_of virt)"
      by (simp add: table_frame_def set_entry_space(1)[OF t(1,2) assms(3)])
    moreover have "frontier (set_entry t virt ?x) b = frontier t b" for b by (simp add: set_entry_def)
    ultimately show ?thesis using t(6) unfolding takes_table_def by auto
  qed
  show ?thesis
    by (rule that[OF t(7) set_entry_space(3)[OF t(1,2) assms(3)] p g h _ take])
      (use t(5) set_entry_pte[OF t(1,2) assms(3)] in simp)
qed

text \<open>Pages \<open>j\<close> of a range, for the page numbers of a run.\<close>

definition page_of :: "u32 \<Rightarrow> nat" where "page_of v = unat v div 4096"

definition dirs_of :: "nat \<Rightarrow> nat \<Rightarrow> 10 word set" where
  "dirs_of p n = {i. \<exists>k < n. unat i = (p + k) div 1024}"

lemma page_of_range: "page_of v = q \<longleftrightarrow> q * 4096 \<le> unat v \<and> unat v < q * 4096 + 4096"
  unfolding page_of_def by (rule div_range) simp

lemma page_of_aligned: "unat v mod 4096 = 0 \<Longrightarrow> unat v = page_of v * 4096"
  unfolding page_of_def by (metis add.right_neutral div_mult_mod_eq)

lemma dirs_of_Suc: "dirs_of p n \<subseteq> dirs_of p (Suc n)"
  by (auto simp: dirs_of_def less_Suc_eq)

lemma dir_of_page: "unat (dir_of v) = page_of v div 1024"
  by (simp add: unat_dir_of page_of_def div_mult2_eq[symmetric])

lemma map_pages_grows:
  assumes "unat virt mod 4096 = 0" "unat phys mod 4096 = 0" "space_ok s"
    and "unat virt + unat num * 4096 \<le> 0xFFC00000" "unat phys + unat num * 4096 \<le> 2 ^ 32"
    and none: "\<And>v. page_of virt \<le> page_of v \<Longrightarrow> page_of v < page_of virt + unat num \<Longrightarrow> dir_of v \<notin> large_pages s \<and> pte s v = 0"
    and "\<not> bit flags 7" "pool s (unat num + k)"
  obtains s' where "paging_map_pages virt phys num flags s = Ok () s'" "space_ok s'" "pool s' k"
    "grown (dirs_of (page_of virt) (unat num)) (bit flags 2) s s'"
    "\<forall>j < unat num. \<forall>v. page_of v = page_of virt + j \<longrightarrow>
       has_table s' (dir_of v) \<and> pte s' v = (phys + of_nat j * PAGE_SIZE) OR PAGE_PRESENT OR (flags AND PAGE_FLAGS)"
    "\<forall>v. dir_of v \<noteq> 1023 \<and> (page_of v < page_of virt \<or> page_of virt + unat num \<le> page_of v) \<longrightarrow> pte s' v = pte s v"
    "\<forall>i. (\<forall>k < unat num. (page_of virt + k) div 1024 = unat i) \<longrightarrow> 0 < unat num \<longrightarrow> takes_table i s s'"
proof -
  let ?E = "\<lambda>j. (phys + of_nat j * PAGE_SIZE) OR PAGE_PRESENT OR (flags AND PAGE_FLAGS)"
  let ?I = "\<lambda>n t. space_ok t \<and> pool t (unat num - n + k) \<and> grown (dirs_of (page_of virt) n) (bit flags 2) s t
    \<and> (\<forall>j < n. \<forall>v. page_of v = page_of virt + j \<longrightarrow> has_table t (dir_of v) \<and> pte t v = ?E j)
    \<and> (\<forall>v. dir_of v \<noteq> 1023 \<and> (page_of v < page_of virt \<or> page_of virt + n \<le> page_of v) \<longrightarrow> pte t v = pte s v)
    \<and> (if n = 0 then t = s else \<forall>i. (\<forall>k < n. (page_of virt + k) div 1024 = unat i) \<longrightarrow> takes_table i s t)"
  let ?f = "\<lambda>i. paging_map_page (virt + of_nat i * PAGE_SIZE) (phys + of_nat i * PAGE_SIZE) flags"
  have virt_le: "unat virt + unat num * 4096 \<le> 2 ^ 32" using assms(4) by simp
  have "wp (foreach [0..<unat num] ?f) (\<lambda>_. ?I (length [0..<unat num])) s"
  proof (rule wp_foreach)
    show "?I 0 s" using assms(3,8) by simp
  next
    fix n t assume "n < length [0..<unat num]" and I: "?I n t"
    then have n: "n < unat num" by simp
    let ?v = "virt + of_nat n * PAGE_SIZE" and ?p = "phys + of_nat n * PAGE_SIZE"
    note av = page_address[OF assms(1) virt_le n]
    have pv: "page_of ?v = page_of virt + n" using av(1) by (simp add: page_of_def)
    have dir: "dir_of ?v \<noteq> 1023" by (rule dir_of_below) (use av(1) assms(4) n in linarith)
    have e0: "dir_of ?v \<notin> large_pages s \<and> pte s ?v = 0" by (rule none) (use pv n in simp_all)
    have "pte t ?v = 0" using I dir pv e0 by simp
    moreover have "dir_of ?v \<notin> large_pages t"
    proof
      assume l: "dir_of ?v \<in> large_pages t"
      have g: "grown (dirs_of (page_of virt) n) (bit flags 2) s t" using I by blast
      show False
      proof (cases "entry_present (dir_entry s (dir_of ?v))")
        case True
        then show False using l e0 grownD(6)[OF g True] by (auto simp: large_pages_def)
      next
        case False
        show False
        proof (cases "dir_of ?v \<in> dirs_of (page_of virt) n")
          case True
          then obtain j where j: "j < n" "page_of ?v div 1024 = (page_of virt + j) div 1024"
            by (auto simp: dirs_of_def dir_of_page)
          note aj = page_address[OF assms(1) virt_le, of j]
          have pj: "page_of (virt + of_nat j * PAGE_SIZE) = page_of virt + j" using aj(1) j n by (simp add: page_of_def)
          have "dir_of (virt + of_nat j * PAGE_SIZE) = dir_of ?v"
            using j(2) by (simp only: word_unat_eq_iff dir_of_page pj)
          moreover have "has_table t (dir_of (virt + of_nat j * PAGE_SIZE))" using I j(1) pj by blast
          ultimately show False using l by (simp add: large_pages_def has_table_def)
        next
          case out: False
          then show False using l False grownD(5)[OF g out] by (auto simp: large_pages_def)
        qed
      qed
    qed
    ultimately have absent: "translate t ?v = None" by (simp add: translate_pte entry_present_def)
    have room: "pool t (Suc (unat num - Suc n + k))" using I n by (simp add: Suc_diff_Suc)
    have sp: "space_ok t" using I by blast
    obtain t' where t': "?f n t = Ok () t'" "space_ok t'" "pool t' (unat num - Suc n + k)"
      "grown {dir_of ?v} (bit flags 2) t t'" "has_table t' (dir_of ?v)"
      and e: "\<forall>v. dir_of v \<noteq> 1023 \<longrightarrow> pte t' v = (if unat v div 4096 = unat ?v div 4096 then ?E n else pte t v)"
      and take: "takes_table (dir_of ?v) t t'"
      by (rule map_page_grows[OF av(2) sp dir absent assms(7) room]) (rule that; assumption)
    have e': "pte t' v = (if page_of v = page_of virt + n then ?E n else pte t v)" if "dir_of v \<noteq> 1023" for v
      using e that pv by (simp add: page_of_def)
    have "dir_of ?v \<in> dirs_of (page_of virt) (Suc n)" by (auto simp: dirs_of_def dir_of_page pv)
    then have "grown (dirs_of (page_of virt) (Suc n)) (bit flags 2) t t'" using grown_mono[OF t'(4)] by simp
    moreover have "grown (dirs_of (page_of virt) (Suc n)) (bit flags 2) s t" using grown_mono[OF _ dirs_of_Suc] I by blast
    ultimately have g: "grown (dirs_of (page_of virt) (Suc n)) (bit flags 2) s t'" by (rule grown_trans[rotated])
    have new: "has_table t' (dir_of v) \<and> pte t' v = ?E j" if j: "j < Suc n" "page_of v = page_of virt + j" for j v
    proof -
      have d: "dir_of v \<noteq> 1023"
      proof -
        have "unat virt + j * 4096 + 4096 \<le> 0xFFC00000" using assms(4) j(1) n by linarith
        moreover have "unat virt = page_of virt * 4096" by (rule page_of_aligned[OF assms(1)])
        moreover have "unat v < (page_of virt + j) * 4096 + 4096" using j(2) unfolding page_of_range by blast
        ultimately show ?thesis by (intro dir_of_below) simp
      qed
      show ?thesis
      proof (cases "j = n")
        case True
        then have "dir_of v = dir_of ?v" using j(2) pv by (simp only: word_unat_eq_iff dir_of_page)
        then show ?thesis using t'(5) e'[OF d] j(2) True by simp
      next
        case False
        then have "j < n" using j(1) by simp
        then have "has_table t (dir_of v)" "pte t v = ?E j" using I j(2) by blast+
        then show ?thesis using grownD(9)[OF t'(4)] e'[OF d] j(2) False by simp
      qed
    qed
    have old: "pte t' v = pte s v" if "dir_of v \<noteq> 1023" "page_of v < page_of virt \<or> page_of virt + Suc n \<le> page_of v" for v
      using e'[OF that(1)] that(2) I that(1) by auto
    have takes: "takes_table i s t'" if i: "\<forall>k < Suc n. (page_of virt + k) div 1024 = unat i" for i
    proof -
      have d: "dir_of ?v = i" using i by (simp add: word_unat_eq_iff dir_of_page pv)
      show ?thesis
      proof (cases "n = 0")
        case True
        then have "t = s" using I by simp
        then show ?thesis using take d by simp
      next
        case False
        then have a: "takes_table i s t" "has_table t (dir_of virt)" using I i by simp_all
        have "dir_of virt = i" using i[rule_format, of 0] by (simp add: word_unat_eq_iff dir_of_page)
        then have h: "has_table t i" using a(2) by simp
        have g: "grown (dirs_of (page_of virt) n) (bit flags 2) s t" using I by blast
        have "takes_table i t t'" using take d by simp
        then show ?thesis by (rule takes_table_trans[OF a(1) _ h g t'(4)])
      qed
    qed
    have "?I (Suc n) t'" using t'(2,3) g new old takes by simp
    then show "wp (?f ([0..<unat num] ! n)) (\<lambda>_. ?I (Suc n)) t"
      using t'(1) n by (simp add: wp_def)
  qed
  then obtain s' where s': "paging_map_pages virt phys num flags s = Ok () s'" "?I (unat num) s'"
    unfolding paging_map_pages_def by (auto dest!: wp_OkD)
  then show ?thesis by (intro that[of s']) simp_all
qed

section \<open>Copying bytes\<close>

definition byte :: "memory \<Rightarrow> frame \<Rightarrow> u32 \<Rightarrow> u8" where
  "byte m f v = get_byte (lane_of v) (m f (word_of v))"

lemma get_put_byte:
  assumes "l < 4" "k < 4"
  shows "get_byte (8 * l) (put_byte (8 * k) b w) = (if l = k then b else get_byte (8 * l) w)"
proof (rule bit_word_eqI)
  fix n assume "n < LENGTH(8)"
  then have n: "n < 8" by simp
  have "8 * l + n < 32" using assms(1) n by simp
  moreover have "8 * k \<le> 8 * l + n \<and> 8 * l + n - 8 * k < 8 \<longleftrightarrow> l = k" using n by auto
  ultimately show "bit (get_byte (8 * l) (put_byte (8 * k) b w)) n = bit (if l = k then b else get_byte (8 * l) w) n"
    using n bit_imp_le_length[of b "8 * l + n - 8 * k"] by (auto simp: get_byte_def put_byte_def bit_simps mask_bits)
qed

lemma byte_put:
  "byte (m(f := (m f)(word_of v := put_byte (lane_of v) b (m f (word_of v))))) g w =
     (if g = f \<and> word_of w = word_of v \<and> lane_of w = lane_of v then b else byte m g w)"
  using get_put_byte[of "unat w mod 4" "unat v mod 4" b] by (auto simp: byte_def lane_of_def)

text \<open>The walk does not look at frames that are neither the directory nor a table.\<close>

definition off_tables :: "'s vmm_scheme \<Rightarrow> frame set \<Rightarrow> bool" where
  "off_tables s U \<longleftrightarrow> directory s \<notin> U \<and> (\<forall>i. has_table s i \<longrightarrow> table_frame s i \<notin> U)"

lemma off_tables_same:
  assumes "off_tables s U" "\<forall>f. f \<notin> U \<longrightarrow> m f = ram s f"
  shows "translate (s\<lparr>ram := m\<rparr>) v = translate s v" "dir_entry (s\<lparr>ram := m\<rparr>) i = dir_entry s i"
    "directory (s\<lparr>ram := m\<rparr>) = directory s" "pte (s\<lparr>ram := m\<rparr>) v = pte s v"
proof -
  show d: "directory (s\<lparr>ram := m\<rparr>) = directory s" by (simp add: directory_def)
  show e: "dir_entry (s\<lparr>ram := m\<rparr>) i = dir_entry s i" for i
    using assms by (simp add: dir_entry_def d off_tables_def)
  have r: "m (table_frame s i) = ram s (table_frame s i)" if "has_table s i" for i
    using assms that by (simp add: off_tables_def)
  show "translate (s\<lparr>ram := m\<rparr>) v = translate s v" by (rule translate_cong) (simp_all add: e r)
  show "pte (s\<lparr>ram := m\<rparr>) v = pte s v" by (rule pte_cong) (simp_all add: e r)
qed

lemma virt_memcpy_copies:
  assumes U: "off_tables s U"
    and dst: "\<And>i. i < n \<Longrightarrow> translate s (dst + of_nat i) = Some (D i) \<and> D i \<in> U"
    and src: "\<And>i. i < n \<Longrightarrow> translate s (src + of_nat i) = Some (S i) \<and> S i \<notin> U"
    and inj: "\<And>i j. i < j \<Longrightarrow> j < n \<Longrightarrow> D i = D j \<Longrightarrow> word_of (dst + of_nat i) = word_of (dst + of_nat j) \<Longrightarrow>
      lane_of (dst + of_nat i) \<noteq> lane_of (dst + of_nat j)"
    and apart: "\<not> ranges_meet dst src n"
  obtains m where "virt_memcpy dst src n s = Ok () (s\<lparr>ram := m\<rparr>)" "\<forall>f. f \<notin> U \<longrightarrow> m f = ram s f"
    "\<forall>i < n. byte m (D i) (dst + of_nat i) = byte (ram s) (S i) (src + of_nat i)"
proof -
  let ?I = "\<lambda>k t. \<exists>m. t = s\<lparr>ram := m\<rparr> \<and> (\<forall>f. f \<notin> U \<longrightarrow> m f = ram s f)
    \<and> (\<forall>i < k. byte m (D i) (dst + of_nat i) = byte (ram s) (S i) (src + of_nat i))"
  let ?f = "\<lambda>i. andthen (read8 (src + of_nat i)) (\<lambda>b. write8 (dst + of_nat i) b)"
  have "wp (foreach [0..<n] ?f) (\<lambda>_. ?I (length [0..<n])) s"
  proof (rule wp_foreach)
    show "?I 0 s" by (intro exI[of _ "ram s"]) simp
  next
    fix k t assume "k < length [0..<n]" and "?I k t"
    then obtain m where k: "k < n" and m: "t = s\<lparr>ram := m\<rparr>" "\<forall>f. f \<notin> U \<longrightarrow> m f = ram s f"
      "\<forall>i < k. byte m (D i) (dst + of_nat i) = byte (ram s) (S i) (src + of_nat i)" by auto
    let ?d = "dst + of_nat k" and ?s = "src + of_nat k"
    note same = off_tables_same(1)[OF U m(2)]
    define b where "b = byte (ram s) (S k) ?s"
    define m' where "m' = m(D k := (m (D k))(word_of ?d := put_byte (lane_of ?d) b (m (D k) (word_of ?d))))"
    have "read8 ?s t = Ok (byte m (S k) ?s) t"
      using src[OF k] by (simp add: m(1) read8_def read32_def same byte_def)
    also have "byte m (S k) ?s = b" using src[OF k] m(2) by (simp add: b_def byte_def)
    finally have r: "read8 ?s t = Ok b t" .
    have w: "write8 ?d b t = Ok () (s\<lparr>ram := m'\<rparr>)"
      using dst[OF k] by (simp add: m(1) write8_def read32_def write32_def same poke_def m'_def)
    have "\<forall>f. f \<notin> U \<longrightarrow> m' f = ram s f" using m(2) dst[OF k] by (auto simp: m'_def)
    moreover have "byte m' (D i) (dst + of_nat i) = byte (ram s) (S i) (src + of_nat i)" if "i < Suc k" for i
    proof (cases "i = k")
      case True
      then show ?thesis by (simp add: m'_def byte_put b_def)
    next
      case False
      then have "i < k" using that by simp
      then show ?thesis using m(3) inj[OF _ k] by (auto simp: m'_def byte_put)
    qed
    ultimately show "wp (?f ([0..<n] ! k)) (\<lambda>_. ?I (Suc k)) t"
      using k r w by (auto simp: wp_def)
  qed
  then show ?thesis using that unfolding virt_memcpy_def if_not_P[OF apart] by (auto dest!: wp_OkD)
qed

text \<open>Consecutive addresses within a run of pages.\<close>

lemma consecutive_distinct:
  assumes "i < j" "word_of (v + of_nat i) = word_of (v + of_nat j)" "lane_of (v + of_nat i) = lane_of (v + of_nat j)"
    and "unat v + j < 2 ^ 32"
  shows "page_of (v + of_nat i) < page_of (v + of_nat j)"
proof -
  have u: "unat (v + of_nat i) = unat v + i" "unat (v + of_nat j) = unat v + j"
    using assms(1,4) by (intro unat_sum2[OF refl]; simp add: unat_of_nat)+
  have "unat (word_of (v + of_nat i)) = unat (word_of (v + of_nat j))" using assms(2) by simp
  then have a: "(unat v + i) div 4 mod 1024 = (unat v + j) div 4 mod 1024" by (simp add: unat_word_of u)
  have b: "(unat v + i) mod 4 = (unat v + j) mod 4" using assms(3) by (simp add: lane_of_def u)
  have c: "x mod 4096 = (x div 4 mod 1024) * 4 + x mod 4" for x :: nat by (simp add: mod_mult2_eq[of x 4 1024, simplified])
  have "(unat v + i) mod 4096 = (unat v + j) mod 4096" unfolding c a b ..
  moreover have "unat v + i < unat v + j" using assms(1) by simp
  ultimately have "(unat v + i) div 4096 < (unat v + j) div 4096"
    by (metis div_le_mono div_mod_decomp le_neq_implies_less less_imp_le_nat nat_neq_iff)
  then show ?thesis by (simp add: page_of_def u)
qed

end
