(* ===== verification/Spawn.thy ===== *)
theory Spawn
  imports Space
begin

unbundle bit_operations_syntax

text \<open>
  What \<open>proc_run_code\<close> builds: the directory of a new process, its code and its stack, next to the
  address space it is called in.
\<close>

section \<open>Other contents for one frame\<close>

lemma with_frame_ram: "with_frame s f g = s\<lparr>ram := (ram s)(f := g)\<rparr>"
  by (simp add: with_frame_def)

lemma pmm_ram [simp]: "block_used (s\<lparr>ram := m\<rparr>) = block_used s" "pmm_ok (s\<lparr>ram := m\<rparr>) = pmm_ok s" "pool (s\<lparr>ram := m\<rparr>) k = pool s k"
proof -
  show u: "block_used (s\<lparr>ram := m\<rparr>) = block_used s" by (simp add: block_used_def fun_eq_iff)
  show "pmm_ok (s\<lparr>ram := m\<rparr>) = pmm_ok s" "pool (s\<lparr>ram := m\<rparr>) k = pool s k"
    by (simp_all add: pmm_ok_def pool_def searched_def u)
qed

lemma space_ok_off:
  assumes "off_tables s U" "\<forall>f. f \<notin> U \<longrightarrow> m f = ram s f"
  shows "space_ok (s\<lparr>ram := m\<rparr>) = space_ok s" "has_table (s\<lparr>ram := m\<rparr>) i = has_table s i"
    "table_frame (s\<lparr>ram := m\<rparr>) i = table_frame s i"
proof -
  note d = off_tables_same(2,3)[OF assms]
  show h: "has_table (s\<lparr>ram := m\<rparr>) i = has_table s i" "table_frame (s\<lparr>ram := m\<rparr>) i = table_frame s i" for i
    by (simp_all add: has_table_def table_frame_def d)
  show "space_ok (s\<lparr>ram := m\<rparr>) = space_ok s" by (simp add: space_ok_def recursive_def h d)
qed

lemma off_frame:
  assumes "off_tables s {f}"
  shows "translate (with_frame s f g) v = translate s v" "dir_entry (with_frame s f g) i = dir_entry s i"
    "pte (with_frame s f g) v = pte s v" "space_ok (with_frame s f g) = space_ok s" "has_table (with_frame s f g) i = has_table s i"
    "table_frame (with_frame s f g) i = table_frame s i"
proof -
  have same: "\<forall>h. h \<notin> {f} \<longrightarrow> ((ram s)(f := g)) h = ram s h" by simp
  show "translate (with_frame s f g) v = translate s v" "dir_entry (with_frame s f g) i = dir_entry s i"
    "pte (with_frame s f g) v = pte s v" "space_ok (with_frame s f g) = space_ok s" "has_table (with_frame s f g) i = has_table s i"
    "table_frame (with_frame s f g) i = table_frame s i"
    unfolding with_frame_ram by (rule off_tables_same[OF assms same] space_ok_off[OF assms same])+
qed

lemma maps_pageI:
  assumes "unat w mod 4096 = 0" "\<And>v. page_of v = page_of w \<Longrightarrow> translate s v = Some f"
  shows "maps_page s w f"
  unfolding maps_page_def
proof (intro allI impI conjI)
  fix k assume k: "k < (4096 :: nat)"
  obtain q where q: "unat w = 4096 * q" using assms(1) by (metis mod_0_imp_dvd dvdE)
  have "unat w + k < 2 ^ 32" using unat_less_numeral_u32[of w] q k by simp
  then have u: "unat (w + of_nat k) = 4096 * q + k" using q k by (subst unat_sum2[OF refl, of _ k]) (simp_all add: unat_of_nat)
  have "(4096 * q + k) div 4096 = 4096 * q div 4096" using k by simp
  then have "page_of (w + of_nat k) = page_of w" unfolding page_of_def u q .
  then show "translate s (w + of_nat k) = Some f" by (rule assms(2))
  have "4096 * q + k = k + q * 1024 * 4" by simp
  then have "(4096 * q + k) div 4 = q * 1024 + k div 4" "(4096 * q + k) mod 4 = k mod 4"
    by (simp_all only: mod_mult_self1 div_mult_self1)
  moreover have "k div 4 < 1024" using k by simp
  ultimately show "word_of (w + of_nat k) = of_nat (k div 4)" "lane_of (w + of_nat k) = 8 * (k mod 4)"
    by (simp_all add: word_unat_eq_iff unat_word_of u unat_of_nat lane_of_def)
qed

lemma write32_maps:
  assumes "maps_page s w f" "i < 1024"
  shows "write32 (w + 4 * of_nat i) x s = Ok () (with_frame s f ((ram s f)(of_nat i := x)))"
proof -
  have "4 * i < 4096" using assms(2) by simp
  with assms(1) have "translate s (w + of_nat (4 * i)) = Some f" "word_of (w + of_nat (4 * i)) = of_nat (4 * i div 4)"
    unfolding maps_page_def by blast+
  then show ?thesis by (simp add: write32_def poke_with_frame)
qed

section \<open>The directory of the new process\<close>

text \<open>What the frame of the new directory holds.\<close>

definition process_directory :: "'s vmm_scheme \<Rightarrow> u32 \<Rightarrow> 10 word \<Rightarrow> u32" where
  "process_directory s pd i =
     (if i = 1023 then pd OR PAGE_PRESENT OR PAGE_RW else if unat i < 768 then 0 else dir_entry s i)"

lemma clear_entries:
  assumes "stable_page s w f" "n \<le> 1024"
  shows "foreach [0..<n] (\<lambda>i. write32 (w + 4 * of_nat i) 0) s = Ok () (with_frame s f (\<lambda>i. if unat i < n then 0 else ram s f i))"
proof -
  let ?g = "\<lambda>k i. if unat i < k then 0 else ram s f i"
  have "wp (foreach [0..<n] (\<lambda>i. write32 (w + 4 * of_nat i) 0)) (\<lambda>_ t. t = with_frame s f (?g (length [0..<n]))) s"
  proof (rule wp_foreach)
    show "s = with_frame s f (?g 0)" by simp
  next
    fix k t assume k: "k < length [0..<n]" and t: "t = with_frame s f (?g k)"
    then have k': "k < 1024" using assms(2) by simp
    have m: "maps_page t w f" using assms(1) by (simp add: stable_page_def t)
    have "(?g k)(of_nat k := 0) = ?g (Suc k)"
    proof
      fix i :: "10 word"
      show "((?g k)(of_nat k := 0)) i = ?g (Suc k) i"
      proof (cases "unat i = k")
        case True
        then have "of_nat k = i" by auto
        then show ?thesis using True by simp
      next
        case False
        then have "of_nat k \<noteq> i" using k' by (auto simp: unat_of_nat)
        then show ?thesis using False by (auto simp: less_Suc_eq)
      qed
    qed
    then show "wp (write32 (w + 4 * of_nat ([0..<n] ! k)) 0) (\<lambda>_ t. t = with_frame s f (?g (Suc k))) t"
      using write32_maps[OF m k', of 0] k by (simp add: wp_def t)
  qed
  then show ?thesis by (auto dest!: wp_OkD)
qed

text \<open>The page behind the heap, through which the new directory is written.\<close>

lemma temporary_page:
  "unat KERNEL_HEAP_END_VIRT mod 4096 = 0" "dir_of KERNEL_HEAP_END_VIRT = 833" "page_of KERNEL_HEAP_END_VIRT = 0xD0400"
  by (simp_all add: heap_defs dir_of_iff page_of_def)

lemma recursive_page:
  assumes "recursive s"
  shows "maps_page s 0xFFFFF000 (directory s)"
proof (rule maps_pageI)
  fix v :: u32 assume "page_of v = page_of 0xFFFFF000"
  then have "page_of v = 0xFFFFF" by (simp add: page_of_def)
  then have "unat (dir_of v) = unat (1023 :: 10 word)" "unat (table_of v) = unat (1023 :: 10 word)"
    by (simp_all add: dir_of_page) (simp add: unat_table_of page_of_def)
  then have "dir_of v = 1023" "table_of v = 1023" by (simp_all only: word_unat_eq_iff)
  then show "translate s v = Some (directory s)"
    using translate_window[OF assms, of v] assms by (simp add: recursive_def has_table_def)
qed simp

text \<open>The directory is copied and edited through the page, and the page is closed again.\<close>

lemma proc_make_directory_state:
  assumes "space_ok t" "has_table t 833" "off_tables t {F}" "pte t KERNEL_HEAP_END_VIRT = x" "entry_present x" "entry_frame x = F"
    and "paging_map_page KERNEL_HEAP_END_VIRT pd PAGE_RW s = Ok () t"
  shows "proc_make_directory pd s =
    Ok () (set_entry (with_frame t F (process_directory t pd)) KERNEL_HEAP_END_VIRT (x AND NOT PAGE_PRESENT))"
proof -
  let ?w = "KERNEL_HEAP_END_VIRT" and ?d = "ram t (directory t)"
  let ?h = "?d(1023 := pd OR PAGE_PRESENT OR PAGE_RW)"
  note tp = temporary_page
  have rec: "recursive t" by (rule space_okD(1)[OF assms(1)])
  have nd: "directory t \<noteq> F" using assms(3) by (auto simp: off_tables_def)
  have page: "translate t v = Some F" if "page_of v = page_of ?w" for v
  proof -
    have "dir_of v = dir_of ?w \<and> table_of v = table_of ?w" using that same_page by (simp add: page_of_def)
    then have "pte t v = x" "dir_of v \<notin> large_pages t"
      using assms(2,4) tp(2) by (simp_all add: pte_def page_entry_def large_pages_def has_table_def)
    then show ?thesis using assms(5,6) by (simp add: translate_pte)
  qed
  have maps: "maps_page (with_frame t F g) ?w F" for g
    by (rule maps_pageI[OF tp(1)]) (simp add: off_frame(1)[OF assms(3)] page)
  then have stable: "stable_page t ?w F" "stable_page (with_frame t F g) ?w F" for g by (simp_all add: stable_page_def)
  have rec': "recursive (with_frame t F g)" for g
    using rec by (simp add: recursive_def off_frame(5,6)[OF assms(3)])
  have "maps_page (with_frame t F g) 0xFFFFF000 (directory t)" for g using recursive_page[OF rec'[of g]] by simp
  then have copy: "virt_memcpy ?w 0xFFFFF000 (unat PAGE_SIZE) t = Ok () (with_frame t F ?d)"
    using virt_memcpy_page[OF stable(1) _ nd, of "0xFFFFF000"] by (simp add: PAGE_SIZE_def ranges_meet_def heap_defs)
  have last: "write32 (?w + 4 * 1023) y (with_frame t F ?d) = Ok () (with_frame t F (?d(1023 := y)))" for y
    using write32_maps[OF maps[of ?d], of 1023 y] by simp
  have k: "KERNEL_PAGE_DIR_INDEX = 768" by (simp add: KERNEL_PAGE_DIR_INDEX_def KERNEL_BASE_VIRT_def unat_drop_bit_eq drop_bit_eq_div)
  have clear: "foreach [0..<KERNEL_PAGE_DIR_INDEX] (\<lambda>i. write32 (?w + 4 * of_nat i) 0) (with_frame t F ?h) =
      Ok () (with_frame t F (process_directory t pd))"
  proof -
    have e: "(\<lambda>i. if unat i < 768 then 0 else ram (with_frame t F ?h) F i) = process_directory t pd"
      by (auto simp: fun_eq_iff process_directory_def dir_entry_def)
    have "(768 :: nat) \<le> 1024" by simp
    from clear_entries[OF stable(2)[of ?h] this, unfolded e] show ?thesis by (simp add: k)
  qed
  let ?u = "with_frame t F (process_directory t pd)"
  have sp: "space_ok ?u" "has_table ?u (dir_of ?w)" using assms(1,2) tp(2) by (simp_all add: off_frame[OF assms(3)])
  have present: "entry_present (dir_entry ?u (dir_of ?w))" using sp(2) by (simp add: has_table_def)
  have "pte ?u ?w = x" using assms(4) by (simp add: off_frame(3)[OF assms(3)])
  then have "page_entry ?u ?w = x" using sp(2) by (simp add: pte_def)
  then have unmap: "paging_unmap_page ?w ?u = Ok () (set_entry ?u ?w (x AND NOT PAGE_PRESENT))"
    using paging_get_page_present[OF tp(1) rec' present] page_entry_access(1)[OF rec' present] set_entry_write[OF sp]
    by (simp add: paging_unmap_page_def paging_invalidate_page_def)
  show ?thesis
    using assms(7) copy last clear unmap by (simp add: proc_make_directory_def)
qed

lemma translate_of_page: "page_of v = page_of w \<Longrightarrow> translate s v = translate s w"
proof -
  assume "page_of v = page_of w"
  then have e: "unat v div 4096 = unat w div 4096" by (simp add: page_of_def)
  then have d: "dir_of v = dir_of w" "table_of v = table_of w" using same_page by blast+
  have "TABLE_INDEX v = TABLE_INDEX w" by (simp only: word_unat_eq_iff unat_TABLE_INDEX e)
  then show ?thesis by (simp only: translate_eq d)
qed

lemma translate_same_pte:
  assumes "dir_of v \<in> large_pages s \<Longrightarrow> dir_entry s' (dir_of v) = dir_entry s (dir_of v)"
    and "dir_of v \<notin> large_pages s \<Longrightarrow> dir_of v \<notin> large_pages s'"
    and "entry_present (pte s v) \<or> entry_present (pte s' v) \<Longrightarrow> pte s' v = pte s v"
  shows "translate s' v = translate s v"
proof (cases "dir_of v \<in> large_pages s")
  case True
  then show ?thesis using assms(1) by (simp add: translate_eq large_pages_def)
next
  case False
  then show ?thesis using assms(2,3) by (auto simp: translate_pte)
qed

lemma grown_large:
  assumes "grown I u s t"
  shows "large_pages t \<subseteq> large_pages s \<union> {i \<in> I. \<not> entry_present (dir_entry s i)}" "large_pages s \<subseteq> large_pages t"
proof
  fix i assume l: "i \<in> large_pages t"
  show "i \<in> large_pages s \<union> {i \<in> I. \<not> entry_present (dir_entry s i)}"
    using l grownD(5)[OF assms, of i] grownD(6)[OF assms, of i] by (cases "i \<in> I") (auto simp: large_pages_def)
next
  show "large_pages s \<subseteq> large_pages t" using grownD(6)[OF assms] by (auto simp: large_pages_def)
qed

lemma grown_off:
  assumes "grown I u s t" "off_tables s U" "\<forall>f \<in> U. block_used s (unat f)"
  shows "off_tables t U"
  unfolding off_tables_def
proof (intro conjI allI impI)
  show "directory t \<notin> U" using assms(2) grownD(2)[OF assms(1)] by (simp add: off_tables_def)
  fix i assume t: "has_table t i"
  show "table_frame t i \<notin> U"
  proof (cases "has_table s i")
    case True
    then show ?thesis using grownD(9)[OF assms(1) True] assms(2) by (auto simp: off_tables_def)
  next
    case False
    then show ?thesis using grownD(7)[OF assms(1) t False] assms(3) by blast
  qed
qed

lemma grown_with_frame:
  assumes "grown I u s t" "off_tables s {f}" "off_tables t {f}"
  shows "grown I u (with_frame s f g) (with_frame t f g)"
  unfolding grown_def
proof (intro conjI allI impI)
  note st = grownD[OF assms(1)]
  have "pages_changed s t" by (rule st(1))
  then obtain m b c where t: "t = s\<lparr>bitmap := b, used_blocks := c, ram := m\<rparr>" by (auto simp: pages_changed_def)
  show "pages_changed (with_frame s f g) (with_frame t f g)"
    by (rule pages_changedI[where b = b and u = c and m = "m(f := g)"]) (use st(3) in \<open>simp_all add: t with_frame_def block_used_def\<close>)
  fix h i
  show "ram (with_frame t f g) h = ram (with_frame s f g) h"
    if "block_used (with_frame s f g) (unat h) \<and> h \<noteq> directory (with_frame s f g) \<and>
      (\<forall>i \<in> I. has_table (with_frame s f g) i \<longrightarrow> table_frame (with_frame s f g) i \<noteq> h)"
    using that st(4)[of h] by (auto simp: off_frame[OF assms(2)])
  show "dir_entry (with_frame t f g) i = dir_entry (with_frame s f g) i"
    if "i \<notin> I \<or> entry_present (dir_entry (with_frame s f g) i)"
    using that st(5,6)[of i] assms(2,3) by (auto simp: off_tables_def)
  assume "has_table (with_frame t f g) i \<and> \<not> has_table (with_frame s f g) i"
  then have i: "has_table t i" "\<not> has_table s i" by (auto simp: off_frame(5)[OF assms(2)] off_frame(5)[OF assms(3)])
  show "\<not> block_used (with_frame s f g) (unat (table_frame (with_frame t f g) i))"
    "entry_user (dir_entry (with_frame t f g) i) = u" "bit (dir_entry (with_frame t f g) i) 1"
    using st(7,8)[OF i] assms(3) by (auto simp: off_frame(6)[OF assms(3)] off_tables_def)
qed

lemma proc_make_directory_builds:
  assumes "space_ok s" "pool s (Suc k)" "translate s KERNEL_HEAP_END_VIRT = None" "off_tables s {F}"
    and "block_used s (unat F)" "unat pd = unat F * 4096"
  obtains s' where "proc_make_directory pd s = Ok () s'" "space_ok s'" "pool s' k" "off_tables s' {F}"
    "ram s' F = process_directory s' pd" "grown {833} False (with_frame s F (ram s' F)) s'"
    "\<forall>v. dir_of v \<noteq> 1023 \<longrightarrow> translate s' v = translate s v" "has_table s' 833" "takes_table 833 s s'"
proof -
  let ?w = KERNEL_HEAP_END_VIRT
  let ?x = "pd OR PAGE_PRESENT OR (PAGE_RW AND PAGE_FLAGS)"
  note tp = temporary_page
  have rw: "\<not> bit PAGE_RW 7" "\<not> bit PAGE_RW 2" by (simp_all add: page_bits)
  have d: "dir_of ?w \<noteq> 1023" by (simp add: tp(2))
  from map_page_grows[OF tp(1) assms(1) d assms(3) rw(1) assms(2), of pd] obtain t where
    t: "paging_map_page ?w pd PAGE_RW s = Ok () t" "space_ok t" "pool t k" "grown {dir_of ?w} (bit PAGE_RW 2) s t"
      "has_table t (dir_of ?w)"
    and e: "\<forall>v. dir_of v \<noteq> 1023 \<longrightarrow> pte t v = (if unat v div 4096 = unat ?w div 4096 then ?x else pte s v)"
    and take: "takes_table (dir_of ?w) s t" .
  have g: "grown {833} False s t" using t(4) rw(2) by (simp add: tp(2))
  have ht: "has_table t 833" using t(5) by (simp add: tp(2))
  have off: "off_tables t {F}" by (rule grown_off[OF g assms(4)]) (simp add: assms(5))
  have pd: "unat pd mod 4096 = 0" using assms(6) by simp
  have "entry_frame pd = F" using assms(6) by (simp add: word_unat_eq_iff unat_entry_frame)
  then have x: "entry_present ?x" "entry_frame ?x = F" using entry_fields(2,4)[OF pd, of PAGE_RW] by simp_all
  have pte: "pte t ?w = ?x" using e d by simp
  let ?P = "process_directory t pd"
  let ?u = "with_frame t F ?P" and ?y = "?x AND NOT PAGE_PRESENT"
  let ?s' = "set_entry ?u ?w ?y"
  have run: "proc_make_directory pd s = Ok () ?s'"
    by (rule proc_make_directory_state[OF t(2) ht off pte x t(1)])
  have u: "space_ok ?u" "has_table ?u (dir_of ?w)" using t(2,5) by (simp_all add: off_frame[OF off])
  note set = set_entry_space[OF u d, of ?y]
  have nd: "F \<noteq> directory t" using off by (auto simp: off_tables_def)
  then have dirs: "dir_entry ?s' i = dir_entry t i" for i by (simp add: set(1))
  have off': "off_tables ?s' {F}"
    using off by (simp add: off_tables_def set(2) has_table_def table_frame_def dirs)
  have "table_frame ?u (dir_of ?w) \<noteq> F" using off ht by (auto simp: off_tables_def off_frame(6)[OF off] tp(2))
  then have ram: "ram ?s' F = ?P" unfolding set_entry_def poke_with_frame by auto
  have "process_directory ?s' pd = ?P" by (simp add: process_directory_def fun_eq_iff dirs)
  with ram have P: "ram ?s' F = process_directory ?s' pd" by simp
  note ram
  moreover have "grown {833} False (with_frame s F ?P) ?s'"
    using grown_trans[OF grown_with_frame[OF g assms(4) off, of ?P]] set_entry_grown[OF u d, of False ?y] by (simp add: tp(2))
  ultimately have grown: "grown {833} False (with_frame s F (ram ?s' F)) ?s'" by simp
  have "translate ?s' v = translate s v" if v: "dir_of v \<noteq> 1023" for v
  proof (cases "page_of v = page_of ?w")
    case True
    have "translate ?s' ?w = None" by (simp add: set(5) clear_present)
    then show ?thesis using translate_of_page[OF True] assms(3) by metis
  next
    case False
    then have p: "unat v div 4096 \<noteq> unat ?w div 4096" by (simp add: page_of_def)
    have "pte ?s' v = pte s v"
      using set_entry_pte[OF u d, of ?y v] p e v by (simp add: off_frame(3)[OF off])
    moreover have "dir_of v \<in> large_pages s \<Longrightarrow> dir_entry ?s' (dir_of v) = dir_entry s (dir_of v)"
      using grownD(6)[OF g] by (simp add: dirs large_pages_def)
    moreover have "dir_of v \<notin> large_pages ?s'" if "dir_of v \<notin> large_pages s"
      using that grown_large(1)[OF g] ht by (auto simp: large_pages_def dirs has_table_def)
    ultimately show ?thesis by (intro translate_same_pte) auto
  qed
  moreover have "pool ?s' k" using t(3) by (simp add: set_entry_def)
  moreover have "has_table ?s' 833" using ht by (simp add: has_table_def dirs)
  moreover have "takes_table 833 s ?s'"
  proof -
    have "table_frame ?s' 833 = table_frame t 833" by (simp add: table_frame_def dirs)
    moreover have "frontier ?s' b = frontier t b" for b by (simp add: set_entry_def)
    ultimately show ?thesis using take unfolding takes_table_def tp(2) by auto
  qed
  ultimately show ?thesis using that[OF run set(3) _ off' P grown] by blast
qed

section \<open>The other address space\<close>

lemma switched_space:
  assumes "space_ok t" "off_tables t {F}" "block_used t (unat F)" "ram t F = process_directory t pd" "unat pd = unat F * 4096"
    and u_def: "u = t\<lparr>cr3 := pd, current_page_directory := P2V pd\<rparr>"
  shows "directory u = F" "dir_entry u i = process_directory t pd i"
    "has_table u i \<longleftrightarrow> i = 1023 \<or> 768 \<le> unat i \<and> has_table t i"
    "table_frame u i = (if i = 1023 then F else if unat i < 768 then 0 else table_frame t i)"
    "space_ok u" "pool u k = pool t k" "block_used u = block_used t"
    "unat (dir_of v) < 768 \<Longrightarrow> dir_of v \<notin> large_pages u \<and> pte u v = 0"
    "768 \<le> unat (dir_of v) \<Longrightarrow> dir_of v \<noteq> 1023 \<Longrightarrow> translate u v = translate t v"
proof -
  have pd: "unat pd mod 4096 = 0" using assms(5) by simp
  have F: "entry_frame pd = F" using assms(5) by (simp add: word_unat_eq_iff unat_entry_frame)
  note e = entry_fields(1,3,5)[OF pd, of 0]
  have last: "has_table t 1023" using space_okD(1)[OF assms(1)] by (simp add: recursive_def)
  show dir: "directory u = F" by (simp add: u_def directory_def F)
  show entry: "dir_entry u i = process_directory t pd i" for i
    using assms(4) unfolding dir_entry_def dir by (simp add: u_def)
  show has: "has_table u i \<longleftrightarrow> i = 1023 \<or> 768 \<le> unat i \<and> has_table t i" for i
    using e(2,3) by (auto simp: has_table_def entry process_directory_def entry_present_def)
  show frame: "table_frame u i = (if i = 1023 then F else if unat i < 768 then 0 else table_frame t i)" for i
    using e(1) F by (simp add: table_frame_def entry process_directory_def entry_frame_def)
  show used: "block_used u = block_used t" by (simp add: u_def block_used_def fun_eq_iff)
  show "pool u k = pool t k" unfolding pool_def used by (simp add: u_def searched_def)
  have fresh: "has_table t i \<Longrightarrow> table_frame t i \<noteq> F" for i using assms(2) by (auto simp: off_tables_def)
  have "recursive u" by (simp add: recursive_def has frame dir)
  moreover have "pmm_ok u" using space_okD(2)[OF assms(1)] by (simp add: pmm_ok_def used) (simp add: u_def)
  moreover have "i = j" if "has_table u i" "has_table u j" "table_frame u i = table_frame u j" for i j
    using that fresh[of i] fresh[of j] space_okD(3)[OF assms(1), of i j] unfolding has frame
    by (cases "i = 1023"; cases "j = 1023") auto
  moreover have "block_used u (unat (table_frame u i))" if "has_table u i" for i
    using that space_okD(4)[OF assms(1), of i] assms(3) unfolding has frame used by auto
  ultimately show "space_ok u" unfolding space_ok_def by blast
  show "dir_of v \<notin> large_pages u \<and> pte u v = 0" if "unat (dir_of v) < 768"
    using that by (auto simp: large_pages_def entry process_directory_def pte_def has entry_present_def)
  assume v: "768 \<le> unat (dir_of v)" "dir_of v \<noteq> 1023"
  show "translate u v = translate t v"
    using v by (intro translate_cong) (simp_all add: entry process_directory_def, simp add: u_def)
qed

section \<open>Code and stack\<close>

lemma pmm_alloc_pages_frame: "pmm_alloc_pages num s = Ok p s' \<Longrightarrow> \<exists>b u. s' = s\<lparr>bitmap := b, used_blocks := u\<rparr>"
proof -
  assume run: "pmm_alloc_pages num s = Ok p s'"
  have "s' = s \<or> s' = each_block mmap_set (mmap_find_free_frame num s) num s"
    using run by (auto simp: pmm_alloc_pages_def Let_def split: if_splits)
  then show ?thesis
  proof
    assume "s' = s"
    then show ?thesis by (intro exI[of _ "bitmap s"] exI[of _ "used_blocks s"]) simp
  next
    assume "s' = each_block mmap_set (mmap_find_free_frame num s) num s"
    then show ?thesis unfolding each_block_def by (simp add: fold_marks)
  qed
qed

lemma pmm_alloc_pages_grown:
  assumes "space_ok s" "pool s (unat num + k)" "0 < num"
  obtains p s' where "pmm_alloc_pages num s = Ok p s'" "space_ok s'" "pool s' k" "grown I u s s'"
    "p \<noteq> 0" "unat p mod 4096 = 0" "unat p + unat num * 4096 \<le> 2 ^ 32"
    "\<forall>n \<in> frames (unat num) p. \<not> block_used s n \<and> block_used s' n"
    "\<forall>v. pte s' v = pte s v" "large_pages s' = large_pages s" "dir_entry s' = dir_entry s"
    "\<forall>b. frontier s b \<longrightarrow> unat p = b * 4096 \<and> frontier s' (b + unat num)"
proof -
  obtain p s' where
    s': "pmm_alloc_pages num s = Ok p s'" "space_ok s'" "pages_changed s s'" "unat p mod 4096 = 0" "unat p + unat num * 4096 \<le> 2 ^ 32"
    and fresh: "p \<noteq> 0 \<Longrightarrow> (\<forall>n \<in> frames (unat num) p. \<not> block_used s n \<and> block_used s' n)"
    by (rule pmm_alloc_pages_space[OF assms(1) pool_roomy[OF assms(2)] assms(3)]) (rule that; assumption)
  note pool = pool_alloc_pages[OF space_okD(2)[OF assms(1)] assms(3,2) s'(1)]
  obtain b c where "s' = s\<lparr>bitmap := b, used_blocks := c\<rparr>" using pmm_alloc_pages_frame[OF s'(1)] by blast
  then have same: "ram s' = ram s" "directory s' = directory s" "dir_entry s' = dir_entry s"
    by (simp_all add: directory_def dir_entry_def fun_eq_iff)
  then have tables: "has_table s' = has_table s" "table_frame s' = table_frame s" by (simp_all add: has_table_def table_frame_def fun_eq_iff)
  have g: "grown I u s s'" using s'(3) by (simp add: grown_def same tables)
  have e: "\<forall>v. pte s' v = pte s v" "large_pages s' = large_pages s"
    by (simp_all add: pte_def tables page_entry_def same large_pages_def)
  show ?thesis by (rule that[OF s'(1,2) pool(2) g pool(1) s'(4,5) fresh[OF pool(1)] e same(3)])
      (use frontier_alloc_pages[OF space_okD(2)[OF assms(1)] assms(3,2) _ s'(1)] in blast)
qed

text \<open>The loop that makes the code read-only.\<close>

lemma protect_pages:
  assumes "space_ok s" "num * 4096 \<le> 0xFFC00000" "\<And>v. page_of v < num \<Longrightarrow> has_table s (dir_of v)"
  obtains s' where "foreach [0..<num] (\<lambda>i. andthen (paging_get_page (0x00000000 + of_nat i * PAGE_SIZE) False 0) (\<lambda>p.
      andthen (read32 p) (\<lambda>e. write32 p (e AND NOT PAGE_RW)))) s = Ok () s'"
    "space_ok s'" "\<forall>k. pool s' k = pool s k" "grown (dirs_of 0 num) u s s'"
    "\<forall>v. dir_of v \<noteq> 1023 \<longrightarrow> pte s' v = (if page_of v < num then pte s v AND NOT PAGE_RW else pte s v)"
    "\<forall>b. frontier s' b = frontier s b"
proof -
  let ?f = "\<lambda>i. andthen (paging_get_page (0x00000000 + of_nat i * PAGE_SIZE) False 0) (\<lambda>p. andthen (read32 p) (\<lambda>e. write32 p (e AND NOT PAGE_RW)))"
  let ?I = "\<lambda>n t. space_ok t \<and> (\<forall>k. pool t k = pool s k) \<and> grown (dirs_of 0 n) u s t
    \<and> (\<forall>v. dir_of v \<noteq> 1023 \<longrightarrow> pte t v = (if page_of v < n then pte s v AND NOT PAGE_RW else pte s v))
    \<and> (\<forall>b. frontier t b = frontier s b)"
  have "wp (foreach [0..<num] ?f) (\<lambda>_. ?I (length [0..<num])) s"
  proof (rule wp_foreach)
    show "?I 0 s" using assms(1) by simp
  next
    fix n t assume "n < length [0..<num]" and I: "?I n t"
    then have n: "n < num" by simp
    let ?v = "0x00000000 + of_nat n * PAGE_SIZE :: u32"
    have "unat (0x00000000 :: u32) mod 4096 = 0" "unat (0x00000000 :: u32) + num * 4096 \<le> 2 ^ 32" using assms(2) by simp_all
    note a = page_address[OF this n]
    have pv: "page_of ?v = n" unfolding page_of_def a(1) by simp
    have dir: "dir_of ?v \<noteq> 1023" by (rule dir_of_below) (use a(1) assms(2) n in simp)
    have sp: "space_ok t" using I by blast
    have ht: "has_table t (dir_of ?v)" using I assms(3)[of ?v] grownD(9) pv n by metis
    then have present: "entry_present (dir_entry t (dir_of ?v))" by (simp add: has_table_def)
    have "page_entry t ?v = pte t ?v" using ht by (simp add: pte_def)
    also have "\<dots> = pte s ?v" using I dir pv by simp
    finally have pe: "page_entry t ?v = pte s ?v" .
    let ?t' = "set_entry t ?v (pte s ?v AND NOT PAGE_RW)"
    have run: "?f n t = Ok () ?t'"
      using paging_get_page_present[OF a(2) space_okD(1)[OF sp] present] page_entry_access(1)[OF space_okD(1)[OF sp] present]
        set_entry_write[OF sp ht] pe by (simp del: add_0)
    have "dir_of ?v \<in> dirs_of 0 (Suc n)" by (auto simp: dirs_of_def dir_of_page pv simp del: add_0)
    then have "grown (dirs_of 0 (Suc n)) u t ?t'" using grown_mono[OF set_entry_grown[OF sp ht dir]] by simp
    moreover have "grown (dirs_of 0 (Suc n)) u s t" using grown_mono[OF _ dirs_of_Suc] I by blast
    ultimately have g: "grown (dirs_of 0 (Suc n)) u s ?t'" by (rule grown_trans[rotated])
    have "pte ?t' v = (if page_of v < Suc n then pte s v AND NOT PAGE_RW else pte s v)" if v: "dir_of v \<noteq> 1023" for v
    proof (cases "page_of v = n")
      case True
      then have p: "unat v div 4096 = unat ?v div 4096" using pv by (simp only: page_of_def)
      then have "dir_of v = dir_of ?v" "table_of v = table_of ?v" using same_page by blast+
      then have "pte s v = pte s ?v" by (simp only: pte_def page_entry_def)
      moreover have "pte ?t' v = pte s ?v AND NOT PAGE_RW" unfolding set_entry_pte[OF sp ht dir] if_P[OF p] ..
      ultimately show ?thesis using True by simp
    next
      case False
      then have "page_of v \<noteq> page_of ?v" unfolding pv .
      then have p: "unat v div 4096 \<noteq> unat ?v div 4096" unfolding page_of_def .
      have "pte ?t' v = pte t v" unfolding set_entry_pte[OF sp ht dir] if_not_P[OF p] ..
      moreover have "pte t v = (if page_of v < n then pte s v AND NOT PAGE_RW else pte s v)" using I v by blast
      ultimately show ?thesis using False by (simp add: less_Suc_eq)
    qed
    moreover have "pool ?t' k = pool s k" "frontier ?t' b = frontier s b" for k b using I by (simp_all add: set_entry_def)
    ultimately show "wp (?f ([0..<num] ! n)) (\<lambda>_. ?I (Suc n)) t"
      using run n g set_entry_space(3)[OF sp ht dir] by (simp add: wp_def del: add_0)
  qed
  then obtain s' where s': "foreach [0..<num] ?f s = Ok () s'" "?I (length [0..<num]) s'" by (auto dest!: wp_OkD simp del: add_0)
  show ?thesis by (rule that[of s']) (use s' in \<open>simp_all del: add_0\<close>)
qed

text \<open>Writes to frames that were free do not count as a change of the space before.\<close>

lemma grown_fresh:
  assumes "grown I u s t" "off_tables t U" "\<forall>f. f \<notin> U \<longrightarrow> m f = ram t f" "\<forall>f \<in> U. \<not> block_used s (unat f)"
  shows "grown I u s (t\<lparr>ram := m\<rparr>)"
  unfolding grown_def
proof (intro conjI allI impI)
  note st = grownD[OF assms(1)] and same = off_tables_same(2)[OF assms(2,3)] space_ok_off(2,3)[OF assms(2,3)]
  obtain m' b c where t: "t = s\<lparr>bitmap := b, used_blocks := c, ram := m'\<rparr>" using st(1) by (auto simp: pages_changed_def)
  show "pages_changed s (t\<lparr>ram := m\<rparr>)"
    by (rule pages_changedI[where b = b and u = c and m = m]) (use st(3) in \<open>simp_all add: t block_used_def\<close>)
  fix f i
  show "ram (t\<lparr>ram := m\<rparr>) f = ram s f" if "block_used s (unat f) \<and> f \<noteq> directory s \<and> (\<forall>i \<in> I. has_table s i \<longrightarrow> table_frame s i \<noteq> f)"
    using that st(4)[of f] assms(3,4) by auto
  show "dir_entry (t\<lparr>ram := m\<rparr>) i = dir_entry s i" if "i \<notin> I \<or> entry_present (dir_entry s i)"
    using that st(5,6)[of i] by (auto simp: same)
  assume "has_table (t\<lparr>ram := m\<rparr>) i \<and> \<not> has_table s i"
  then have i: "has_table t i" "\<not> has_table s i" by (auto simp: same)
  show "\<not> block_used s (unat (table_frame (t\<lparr>ram := m\<rparr>) i))" "entry_user (dir_entry (t\<lparr>ram := m\<rparr>) i) = u"
    "bit (dir_entry (t\<lparr>ram := m\<rparr>) i) 1"
    using st(7,8)[OF i] by (simp_all add: same)
qed

text \<open>The frames of a run of blocks, and their bytes.\<close>

definition run_frames :: "nat \<Rightarrow> u32 \<Rightarrow> frame set" where
  "run_frames n p = {f. unat f \<in> frames n p}"

lemma run_frame:
  assumes "unat p mod 4096 = 0" "unat p + n * 4096 \<le> 2 ^ 32" "j < n"
  shows "unat (entry_frame (p + of_nat j * PAGE_SIZE)) = unat p div 4096 + j" "entry_frame (p + of_nat j * PAGE_SIZE) \<in> run_frames n p"
proof -
  show "unat (entry_frame (p + of_nat j * PAGE_SIZE)) = unat p div 4096 + j"
    using page_address(1)[OF assms] by (simp add: unat_entry_frame)
  then show "entry_frame (p + of_nat j * PAGE_SIZE) \<in> run_frames n p"
    using assms(3) by (simp add: run_frames_def frames_def)
qed

lemma used_frames:
  assumes "unat p mod 4096 = 0" "unat p + n * 4096 \<le> 2 ^ 32" "\<forall>m \<in> frames n p. Q m"
  shows "\<forall>f \<in> run_frames n p. Q (unat f)"
  using assms(3) by (simp add: run_frames_def)

lemma off_tables_fresh:
  assumes "space_ok s" "\<forall>f \<in> U. \<not> block_used s (unat f)"
  shows "off_tables s U"
proof -
  have r: "has_table s 1023" "table_frame s 1023 = directory s" using space_okD(1)[OF assms(1)] by (simp_all add: recursive_def)
  then show ?thesis using assms(2) space_okD(4)[OF assms(1)] unfolding off_tables_def by metis
qed

definition code_frame :: "u32 \<Rightarrow> nat \<Rightarrow> frame" where
  "code_frame p i = entry_frame (p + of_nat (i div 4096) * PAGE_SIZE)"

lemma copy_code:
  assumes U: "off_tables t (run_frames num p)" and p: "unat p mod 4096 = 0" "unat p + num * 4096 \<le> 2 ^ 32"
    and len: "len \<le> num * 4096" "num * 4096 < 2 ^ 32"
    and dst: "\<And>v. page_of v < num \<Longrightarrow> translate t v = Some (entry_frame (p + of_nat (page_of v) * PAGE_SIZE))"
    and src: "\<And>i. i < len \<Longrightarrow> translate t (code + of_nat i) = Some (S i) \<and> S i \<notin> run_frames num p"
    and apart: "\<not> ranges_meet 0 code len"
  obtains m where "virt_memcpy 0x00000000 code len t = Ok () (t\<lparr>ram := m\<rparr>)" "\<forall>f. f \<notin> run_frames num p \<longrightarrow> m f = ram t f"
    "\<forall>i < len. byte m (code_frame p i) (of_nat i) = byte (ram t) (S i) (code + of_nat i)"
proof -
  have addr: "unat (0 + of_nat i :: u32) = i" "page_of (0 + of_nat i) = i div 4096" "i div 4096 < num" if "i < len" for i
  proof -
    have "i < 2 ^ 32" using that len by linarith
    then show "unat (0 + of_nat i :: u32) = i" by (simp add: unat_of_nat)
    then show "page_of (0 + of_nat i) = i div 4096" by (simp add: page_of_def)
    show "i div 4096 < num" using that len(1) by (simp add: div_less_iff_less_mult)
  qed
  have dst': "translate t (0 + of_nat i) = Some (code_frame p i) \<and> code_frame p i \<in> run_frames num p" if "i < len" for i
    using dst[of "0 + of_nat i"] addr(2,3)[OF that] run_frame(2)[OF p addr(3)[OF that]]
    by (simp only: code_frame_def)
  have inj: "lane_of (0 + of_nat i) \<noteq> lane_of (0 + of_nat j)"
    if "i < j" "j < len" "code_frame p i = code_frame p j" "word_of (0 + of_nat i) = word_of (0 + of_nat j)" for i j
  proof
    assume "lane_of (0 + of_nat i) = lane_of (0 + of_nat j)"
    have "i < len" using that(1,2) by simp
    have "unat (0 :: u32) + j < 2 ^ 32" using that(2) len by simp
    from consecutive_distinct[OF that(1,4) \<open>lane_of (0 + of_nat i) = lane_of (0 + of_nat j)\<close> this]
    have "i div 4096 < j div 4096" by (simp only: addr(2)[OF that(2)] addr(2)[OF \<open>i < len\<close>])
    moreover have "unat p div 4096 + i div 4096 = unat p div 4096 + j div 4096"
      using run_frame(1)[OF p addr(3)[OF that(2)]] run_frame(1)[OF p addr(3)[OF \<open>i < len\<close>]] that(3)
      by (simp only: code_frame_def)
    ultimately show False by simp
  qed
  obtain m where m: "virt_memcpy 0 code len t = Ok () (t\<lparr>ram := m\<rparr>)" "\<forall>f. f \<notin> run_frames num p \<longrightarrow> m f = ram t f"
    "\<forall>i < len. byte m (code_frame p i) (0 + of_nat i) = byte (ram t) (S i) (code + of_nat i)"
    by (rule virt_memcpy_copies[of t "run_frames num p" len 0 "code_frame p" code S]) (rule U dst' src inj apart that; assumption)+
  show ?thesis by (rule that[OF m(1,2)]) (use m(3) in simp)
qed

text \<open>The entry of page \<open>j\<close> of the code, when it is writable and when it no longer is.\<close>

definition code_entry :: "u32 \<Rightarrow> nat \<Rightarrow> u32" where
  "code_entry p j = (p + of_nat j * PAGE_SIZE) OR PAGE_PRESENT OR ((PAGE_USER OR PAGE_RW) AND PAGE_FLAGS)"

lemma code_entry_fields:
  assumes "unat p mod 4096 = 0" "unat p + n * 4096 \<le> 2 ^ 32" "j < n"
  shows "entry_present (code_entry p j)" "entry_frame (code_entry p j) = entry_frame (p + of_nat j * PAGE_SIZE)"
    "entry_user (code_entry p j)" "bit (code_entry p j) 1"
    "entry_present (code_entry p j AND NOT PAGE_RW)"
    "entry_frame (code_entry p j AND NOT PAGE_RW) = entry_frame (p + of_nat j * PAGE_SIZE)"
    "entry_user (code_entry p j AND NOT PAGE_RW)" "\<not> bit (code_entry p j AND NOT PAGE_RW) 1"
proof -
  note e = entry_fields(2,4)[OF page_address(2)[OF assms], of "PAGE_USER OR PAGE_RW"]
  show "entry_present (code_entry p j)" "entry_frame (code_entry p j) = entry_frame (p + of_nat j * PAGE_SIZE)"
    unfolding code_entry_def by (rule e)+
  have user: "bit PAGE_USER k \<longleftrightarrow> k = 2" for k
    by (simp only: PAGE_USER_def bit_push_bit_iff bit_1_iff) auto
  then show "entry_user (code_entry p j)" "bit (code_entry p j) 1" "entry_user (code_entry p j AND NOT PAGE_RW)"
    "\<not> bit (code_entry p j AND NOT PAGE_RW) 1"
    by (simp_all add: code_entry_def entry_user_def bit_simps page_bits)
  show "entry_present (code_entry p j AND NOT PAGE_RW)"
    using \<open>entry_present (code_entry p j)\<close> by (simp add: entry_present_def bit_simps page_bits)
  have "entry_frame (code_entry p j AND NOT PAGE_RW) = entry_frame (code_entry p j)"
    by (rule bit_word_eqI) (auto simp: entry_frame_def bit_simps page_bits)
  then show "entry_frame (code_entry p j AND NOT PAGE_RW) = entry_frame (p + of_nat j * PAGE_SIZE)"
    using \<open>entry_frame (code_entry p j) = entry_frame (p + of_nat j * PAGE_SIZE)\<close> by simp
qed

lemma dir_of_low: "unat (dir_of v) < 768 \<longleftrightarrow> unat v < 0xC0000000"
  by (simp add: unat_dir_of) linarith

lemma proc_load_code_builds:
  assumes "space_ok s" "pool s (2 * unat num + k)" "unat num = unat len div 4096 + 1" "unat num * 4096 < 0xC0000000"
    and empty: "\<And>v. unat v < 0xC0000000 \<Longrightarrow> dir_of v \<notin> large_pages s \<and> pte s v = 0"
    and src: "\<And>i. i < unat len \<Longrightarrow> translate s (code + of_nat i) = Some (S i) \<and> block_used s (unat (S i))
      \<and> off_tables s {S i} \<and> 0xC0000000 \<le> unat (code + of_nat i) \<and> dir_of (code + of_nat i) \<noteq> 1023"
  obtains p s' where "proc_load_code code len num s = Ok () s'" "space_ok s'" "pool s' k" "grown (dirs_of 0 (unat num)) True s s'"
    "unat p mod 4096 = 0" "unat p + unat num * 4096 \<le> 2 ^ 32"
    "\<forall>n \<in> frames (unat num) p. \<not> block_used s n \<and> block_used s' n" "off_tables s' (run_frames (unat num) p)"
    "\<forall>v. page_of v < unat num \<longrightarrow> has_table s' (dir_of v) \<and> pte s' v = code_entry p (page_of v) AND NOT PAGE_RW"
    "\<forall>v. dir_of v \<noteq> 1023 \<and> unat num \<le> page_of v \<longrightarrow> pte s' v = pte s v"
    "\<forall>i < unat len. byte (ram s') (code_frame p i) (of_nat i) = byte (ram s) (S i) (code + of_nat i)"
    "\<forall>b. frontier s b \<and> unat num \<le> 1024 \<and> dir_entry s 0 = 0 \<longrightarrow>
       unat p = b * 4096 \<and> unat (table_frame s' 0) = b + unat num \<and> frontier s' (b + unat num + 1)"
proof -
  let ?n = "unat num" and ?I = "dirs_of 0 (unat num)" and ?flags = "PAGE_USER OR PAGE_RW"
  have pos: "0 < num" using assms(3) by (simp add: word_less_nat_alt)
  have flags: "\<not> bit ?flags 7" "bit ?flags 2" by (simp_all add: bit_simps page_bits PAGE_USER_def)
  have room: "pool s (?n + (?n + k))" using assms(2) by (simp add: mult_2 add.assoc)
  have low: "unat v < 0xC0000000" if "page_of v < ?n" for v
  proof -
    have "unat v < page_of v * 4096 + 4096" using page_of_range by blast
    also have "\<dots> \<le> ?n * 4096" using that by simp
    finally show ?thesis using assms(4) by simp
  qed
  obtain p s1 where s1: "pmm_alloc_pages num s = Ok p s1" "space_ok s1" "pool s1 (?n + k)" "grown ?I True s s1"
    and p: "p \<noteq> 0" "unat p mod 4096 = 0" "unat p + ?n * 4096 \<le> 2 ^ 32"
    and fresh: "\<forall>n \<in> frames ?n p. \<not> block_used s n \<and> block_used s1 n"
    and e1: "\<forall>v. pte s1 v = pte s v" "large_pages s1 = large_pages s" "dir_entry s1 = dir_entry s"
    and place: "\<forall>b. frontier s b \<longrightarrow> unat p = b * 4096 \<and> frontier s1 (b + ?n)"
    by (rule pmm_alloc_pages_grown[OF assms(1) room pos, of ?I True]) (rule that; assumption)
  have page0: "page_of 0 = 0" by (simp add: page_of_def)
  have none: "dir_of v \<notin> large_pages s1 \<and> pte s1 v = 0" if "page_of 0 \<le> page_of v" "page_of v < page_of 0 + ?n" for v
    using empty[OF low] that e1 by (simp add: page0)
  have bound: "unat (0 :: u32) mod 4096 = 0" "unat (0 :: u32) + ?n * 4096 \<le> 0xFFC00000" using assms(4) by simp_all
  obtain s2 where s2: "paging_map_pages 0 p num ?flags s1 = Ok () s2" "space_ok s2" "pool s2 k"
    "grown (dirs_of (page_of 0) ?n) (bit ?flags 2) s1 s2"
    and new: "\<forall>j < ?n. \<forall>v. page_of v = page_of 0 + j \<longrightarrow>
       has_table s2 (dir_of v) \<and> pte s2 v = (p + of_nat j * PAGE_SIZE) OR PAGE_PRESENT OR (?flags AND PAGE_FLAGS)"
    and old: "\<forall>v. dir_of v \<noteq> 1023 \<and> (page_of v < page_of 0 \<or> page_of 0 + ?n \<le> page_of v) \<longrightarrow> pte s2 v = pte s1 v"
    and take: "\<forall>i. (\<forall>k < ?n. (page_of 0 + k) div 1024 = unat i) \<longrightarrow> 0 < ?n \<longrightarrow> takes_table i s1 s2"
    by (rule map_pages_grows[OF bound(1) p(2) s1(2) bound(2) p(3) _ flags(1) s1(3)], rule none, assumption, assumption)
      (rule that; assumption)
  have g12: "grown ?I True s1 s2" using s2(4) flags(2) by (simp add: page0)
  have g2: "grown ?I True s s2" by (rule grown_trans[OF s1(4) g12])
  have new2: "has_table s2 (dir_of v)" "pte s2 v = code_entry p (page_of v)" if "page_of v < ?n" for v
    using new that by (auto simp: page0 code_entry_def)
  have unused: "\<forall>f \<in> run_frames ?n p. \<not> block_used s (unat f)" using fresh by (simp add: run_frames_def)
  have used1: "\<forall>f \<in> run_frames ?n p. block_used s1 (unat f)" using fresh by (simp add: run_frames_def)
  have off1: "off_tables s1 (run_frames ?n p)"
    using off_tables_fresh[OF assms(1) unused] grownD(2)[OF s1(4)]
    by (simp add: off_tables_def has_table_def table_frame_def e1(3))
  have off2: "off_tables s2 (run_frames ?n p)" by (rule grown_off[OF g12 off1 used1])
  have dst: "translate s2 v = Some (entry_frame (p + of_nat (page_of v) * PAGE_SIZE))" if "page_of v < ?n" for v
  proof -
    have "dir_of v \<notin> large_pages s2" using new2(1)[OF that] by (simp add: large_pages_def has_table_def)
    then show ?thesis using code_entry_fields(1,2)[OF p(2,3) that] new2(2)[OF that] by (simp add: translate_pte)
  qed
  have low_dirs: "unat i < 768" if "i \<in> ?I" for i
  proof -
    have "\<exists>j < ?n. unat i = (0 + j) div 1024" using that unfolding dirs_of_def by (rule CollectD)
    then obtain j where j: "j < ?n" "unat i = j div 1024" unfolding add_0 by blast
    have "j < 768 * 1024" using j(1) assms(4) by simp
    then show ?thesis unfolding j(2) by (simp add: div_less_iff_less_mult)
  qed
  have src2: "translate s2 (code + of_nat i) = Some (S i) \<and> S i \<notin> run_frames ?n p" if i: "i < unat len" for i
  proof -
    let ?v = "code + of_nat i"
    have v: "0xC0000000 \<le> unat ?v" "dir_of ?v \<noteq> 1023" "block_used s (unat (S i))" using src[OF i] by blast+
    have out: "dir_of ?v \<notin> ?I" using low_dirs v(1) dir_of_low[of ?v] by (meson linorder_not_less)
    have "?n \<le> page_of ?v" using assms(4) v(1) unfolding page_of_def by linarith
    then have "pte s2 ?v = pte s ?v" using old v(2) e1(1) by (simp add: page0)
    moreover have "dir_of ?v \<notin> large_pages s2" if "dir_of ?v \<notin> large_pages s" using that grown_large(1)[OF g2] out by auto
    ultimately have "translate s2 ?v = translate s ?v" by (intro translate_same_pte grownD(5)[OF g2 out]) simp_all
    moreover have "S i \<notin> run_frames ?n p" using v(3) unused by blast
    ultimately show ?thesis using src[OF i] by simp
  qed
  have fits: "unat len \<le> ?n * 4096" "?n * 4096 < 2 ^ 32" using assms(3,4) by simp_all
  have apart: "\<not> ranges_meet 0 code (unat len)"
  proof (rule ranges_apart)
    fix i j assume "i < unat len" "j < unat len"
    have "unat (0 + of_nat i :: u32) \<le> i" by (simp add: unat_of_nat)
    moreover have "i < 0xC0000000" using \<open>i < unat len\<close> fits(1) assms(4) by linarith
    ultimately show "0 + of_nat i \<noteq> code + of_nat j" using src[OF \<open>j < unat len\<close>] by auto
  qed
  obtain m where m: "virt_memcpy 0x00000000 code (unat len) s2 = Ok () (s2\<lparr>ram := m\<rparr>)" "\<forall>f. f \<notin> run_frames ?n p \<longrightarrow> m f = ram s2 f"
    "\<forall>i < unat len. byte m (code_frame p i) (of_nat i) = byte (ram s2) (S i) (code + of_nat i)"
    by (rule copy_code[OF off2 p(2,3) fits, of code S], rule dst, assumption, rule src2, assumption, rule apart)
      (rule that; assumption)
  let ?s3 = "s2\<lparr>ram := m\<rparr>"
  note same3 = off_tables_same[OF off2 m(2)] space_ok_off[OF off2 m(2)]
  have off3: "off_tables ?s3 (run_frames ?n p)" using off2 by (simp add: off_tables_def same3)
  have g3: "grown ?I True s ?s3" by (rule grown_fresh[OF g2 off2 m(2) unused])
  have sp3: "space_ok ?s3" using s2(2) same3 by simp
  have ht3: "has_table ?s3 (dir_of v)" if "page_of v < ?n" for v using new2(1)[OF that] same3 by simp
  have bound3: "?n * 4096 \<le> 0xFFC00000" using assms(4) by simp
  obtain s4 where s4: "foreach [0..<?n] (\<lambda>i. andthen (paging_get_page (0x00000000 + of_nat i * PAGE_SIZE) False 0) (\<lambda>p.
      andthen (read32 p) (\<lambda>e. write32 p (e AND NOT PAGE_RW)))) ?s3 = Ok () s4"
    "space_ok s4" "\<forall>k. pool s4 k = pool ?s3 k" "grown ?I True ?s3 s4"
    and e4: "\<forall>v. dir_of v \<noteq> 1023 \<longrightarrow> pte s4 v = (if page_of v < ?n then pte ?s3 v AND NOT PAGE_RW else pte ?s3 v)"
    and f4: "\<forall>b. frontier s4 b = frontier ?s3 b"
    by (rule protect_pages[OF sp3 bound3 ht3, where u = True], assumption) (rule that; assumption)
  have g4: "grown ?I True s s4" by (rule grown_trans[OF g3 s4(4)])
  have used3: "\<forall>f \<in> run_frames ?n p. block_used ?s3 (unat f)"
    using used1 grownD(3)[OF g12] by auto
  have off4: "off_tables s4 (run_frames ?n p)" by (rule grown_off[OF s4(4) off3 used3])
  have ram4: "ram s4 f = m f" if "f \<in> run_frames ?n p" for f
    using grownD(4)[OF s4(4), of f] used3 off3 that by (auto simp: off_tables_def)
  have run: "proc_load_code code len num s = Ok () s4"
    using s1(1) s2(1) m(1) s4(1) by (simp add: proc_load_code_def del: add_0)
  have bytes: "byte (ram s4) (code_frame p i) (of_nat i) = byte (ram s) (S i) (code + of_nat i)" if i: "i < unat len" for i
  proof -
    have "i div 4096 < ?n" using i fits(1) by (simp add: div_less_iff_less_mult)
    from run_frame(2)[OF p(2,3) this] have "byte (ram s4) (code_frame p i) (of_nat i) = byte m (code_frame p i) (of_nat i)"
      by (simp add: byte_def ram4 code_frame_def)
    moreover have "ram s2 (S i) = ram s (S i)"
      by (rule grownD(4)[OF g2]) (use src[OF i] in \<open>auto simp: off_tables_def\<close>)
    ultimately show ?thesis using m(3) i by (simp add: byte_def)
  qed
  have pool4: "pool s4 k" using s2(3) s4(3) by simp
  have fresh4: "\<forall>n \<in> frames ?n p. \<not> block_used s n \<and> block_used s4 n" using fresh grownD(3)[OF s4(4)] grownD(3)[OF g12] by auto
  have code4: "\<forall>v. page_of v < ?n \<longrightarrow> has_table s4 (dir_of v) \<and> pte s4 v = code_entry p (page_of v) AND NOT PAGE_RW"
  proof (intro allI impI)
    fix v assume v: "page_of v < ?n"
    have "dir_of v \<noteq> 1023" using low[OF v] by (intro dir_of_below) simp
    then show "has_table s4 (dir_of v) \<and> pte s4 v = code_entry p (page_of v) AND NOT PAGE_RW"
      using e4 v new2(2)[OF v] grownD(9)[OF s4(4) ht3[OF v]] same3(4) by simp
  qed
  have old4: "\<forall>v. dir_of v \<noteq> 1023 \<and> ?n \<le> page_of v \<longrightarrow> pte s4 v = pte s v"
    using e4 old e1(1) same3(4) by (simp add: page0)
  have "unat p = b * 4096 \<and> unat (table_frame s4 0) = b + ?n \<and> frontier s4 (b + ?n + 1)" if b: "frontier s b" "?n \<le> 1024" "dir_entry s 0 = 0" for b
  proof -
    have n: "0 < ?n" using assms(3) by simp
    have d0: "dir_of 0 = 0" by (simp add: dir_of_iff)
    have "\<forall>k < ?n. (page_of 0 + k) div 1024 = unat (0 :: 10 word)" using b(2) by (simp add: page0)
    then have t: "takes_table 0 s1 s2" using take n by blast
    have h3: "has_table ?s3 0" using ht3[of 0] n page0 d0 by simp
    have "\<not> entry_present (dir_entry s1 0)" using b(3) by (simp add: e1(3) entry_present_def)
    then have "frontier s2 (b + ?n + 1)" "unat (table_frame s2 0) = b + ?n"
      using t place b(1) by (simp_all add: takes_table_def)
    moreover have "table_frame s4 0 = table_frame s2 0" using grownD(9)[OF s4(4) h3] space_ok_off(3)[OF off2 m(2)] by simp
    ultimately show ?thesis using place b(1) f4 by (simp add: frontier_def searched_def)
  qed
  then show ?thesis by (intro that[OF run s4(2) pool4 g4 p(2,3) fresh4 off4 code4 old4]) (use bytes in blast)+
qed

lemma proc_map_stack_builds:
  assumes "space_ok s" "pool s (20 + k)"
    and empty: "\<And>v. 0xBFFF6 \<le> page_of v \<Longrightarrow> page_of v < 0xC0000 \<Longrightarrow> dir_of v \<notin> large_pages s \<and> pte s v = 0"
  obtains q s' where "proc_map_stack PROC_KERNEL_STACK_PAGES s = Ok () s'" "space_ok s'" "pool s' k"
    "grown (dirs_of 0xBFFF6 10) True s s'" "unat q mod 4096 = 0" "unat q + 10 * 4096 \<le> 2 ^ 32"
    "\<forall>n \<in> frames 10 q. \<not> block_used s n \<and> block_used s' n"
    "\<forall>v. 0xBFFF6 \<le> page_of v \<and> page_of v < 0xC0000 \<longrightarrow> has_table s' (dir_of v) \<and> pte s' v = code_entry q (page_of v - 0xBFFF6)"
    "\<forall>v. dir_of v \<noteq> 1023 \<and> (page_of v < 0xBFFF6 \<or> 0xC0000 \<le> page_of v) \<longrightarrow> pte s' v = pte s v"
    "off_tables s' (run_frames 10 q)"
    "\<forall>b. frontier s b \<and> dir_entry s 767 = 0 \<longrightarrow> unat q = b * 4096 \<and> unat (table_frame s' 767) = b + 10 \<and> frontier s' (b + 11)"
proof -
  let ?flags = "PAGE_USER OR PAGE_RW" and ?v = "0xBFFF6000 :: u32" and ?I = "dirs_of 0xBFFF6 10"
  have ten: "PROC_KERNEL_STACK_PAGES = 10" "unat (10 :: u32) = 10" by (simp_all add: PROC_KERNEL_STACK_PAGES_def)
  have pages: "KERNEL_BASE_VIRT - PAGE_SIZE * 10 = ?v" "page_of ?v = 0xBFFF6"
    by (simp_all add: KERNEL_BASE_VIRT_def PAGE_SIZE_def page_of_def)
  have flags: "\<not> bit ?flags 7" "bit ?flags 2" by (simp_all add: bit_simps page_bits PAGE_USER_def)
  have room: "pool s (unat (10 :: u32) + (10 + k))" using assms(2) by simp
  have pos: "(0 :: u32) < 10" by simp
  obtain q s1 where s1: "pmm_alloc_pages 10 s = Ok q s1" "space_ok s1" "pool s1 (10 + k)" "grown ?I True s s1"
    and q: "q \<noteq> 0" "unat q mod 4096 = 0" "unat q + unat (10 :: u32) * 4096 \<le> 2 ^ 32"
    and fresh: "\<forall>n \<in> frames (unat (10 :: u32)) q. \<not> block_used s n \<and> block_used s1 n"
    and e1: "\<forall>v. pte s1 v = pte s v" "large_pages s1 = large_pages s" "dir_entry s1 = dir_entry s"
    and place: "\<forall>b. frontier s b \<longrightarrow> unat q = b * 4096 \<and> frontier s1 (b + unat (10 :: u32))"
    by (rule pmm_alloc_pages_grown[OF assms(1) room pos, of ?I True]) (rule that; assumption)
  have room1: "pool s1 (unat (10 :: u32) + k)" using s1(3) by simp
  have none: "dir_of v \<notin> large_pages s1 \<and> pte s1 v = 0" if "page_of ?v \<le> page_of v" "page_of v < page_of ?v + unat (10 :: u32)" for v
    using empty[of v] that e1 by (simp add: pages(2))
  have bound: "unat ?v mod 4096 = 0" "unat ?v + unat (10 :: u32) * 4096 \<le> 0xFFC00000" by simp_all
  obtain s2 where s2: "paging_map_pages ?v q 10 ?flags s1 = Ok () s2" "space_ok s2" "pool s2 k"
    "grown (dirs_of (page_of ?v) (unat (10 :: u32))) (bit ?flags 2) s1 s2"
    and new: "\<forall>j < unat (10 :: u32). \<forall>v. page_of v = page_of ?v + j \<longrightarrow>
       has_table s2 (dir_of v) \<and> pte s2 v = (q + of_nat j * PAGE_SIZE) OR PAGE_PRESENT OR (?flags AND PAGE_FLAGS)"
    and old: "\<forall>v. dir_of v \<noteq> 1023 \<and> (page_of v < page_of ?v \<or> page_of ?v + unat (10 :: u32) \<le> page_of v) \<longrightarrow> pte s2 v = pte s1 v"
    and take: "\<forall>i. (\<forall>k < unat (10 :: u32). (page_of ?v + k) div 1024 = unat i) \<longrightarrow> 0 < unat (10 :: u32) \<longrightarrow> takes_table i s1 s2"
    by (rule map_pages_grows[OF bound(1) q(2) s1(2) bound(2) q(3) _ flags(1) room1], rule none, assumption, assumption)
      (rule that; assumption)
  have g12: "grown ?I True s1 s2" using s2(4) flags(2) unfolding pages(2) ten(2) by simp
  have run: "proc_map_stack PROC_KERNEL_STACK_PAGES s = Ok () s2"
    using s1(1) s2(1) by (simp add: proc_map_stack_def ten(1) pages(1))
  have new': "has_table s2 (dir_of v) \<and> pte s2 v = code_entry q (page_of v - 0xBFFF6)" if "0xBFFF6 \<le> page_of v" "page_of v < 0xC0000" for v
    using new[unfolded pages(2) ten(2), rule_format, of "page_of v - 0xBFFF6" v] that by (simp add: code_entry_def)
  have off: "off_tables s2 (run_frames 10 q)"
  proof (rule grown_off[OF g12])
    have "off_tables s (run_frames 10 q)"
      by (rule off_tables_fresh[OF assms(1)]) (use fresh ten(2) in \<open>simp add: run_frames_def\<close>)
    then show "off_tables s1 (run_frames 10 q)"
      using grownD(2)[OF s1(4)] e1(3) by (simp add: off_tables_def has_table_def table_frame_def)
    show "\<forall>f \<in> run_frames 10 q. block_used s1 (unat f)" using fresh ten(2) by (simp add: run_frames_def)
  qed
  have "takes_table 767 s1 s2"
  proof -
    have "(786422 + k) div 1024 = 767" if "k < 10" for k :: nat using that by simp
    then show ?thesis using take[rule_format, of 767] unfolding pages(2) ten(2) by simp
  qed
  then have placed: "unat (table_frame s2 767) = b + 10 \<and> frontier s2 (b + 11)" if "frontier s b" "dir_entry s 767 = 0" for b
  proof -
    have "frontier s1 (b + 10)" using that(1) place unfolding ten(2) by blast
    moreover have "\<not> entry_present (dir_entry s1 767)" using that(2) by (simp add: e1(3) entry_present_def)
    moreover note \<open>takes_table 767 s1 s2\<close>[unfolded takes_table_def, rule_format, of "b + 10"]
    ultimately show ?thesis by (simp add: add.commute)
  qed
  show ?thesis
  proof (rule that[OF run s2(2,3) grown_trans[OF s1(4) g12] q(2)])
    show "\<forall>b. frontier s b \<and> dir_entry s 767 = 0 \<longrightarrow> unat q = b * 4096 \<and> unat (table_frame s2 767) = b + 10 \<and> frontier s2 (b + 11)"
      using placed place by blast
    show "unat q + 10 * 4096 \<le> 2 ^ 32" using q(3) unfolding ten(2) .
    show "\<forall>n \<in> frames 10 q. \<not> block_used s n \<and> block_used s2 n" using fresh grownD(3)[OF g12] unfolding ten(2) by blast
    show "\<forall>v. dir_of v \<noteq> 1023 \<and> (page_of v < 0xBFFF6 \<or> 0xC0000 \<le> page_of v) \<longrightarrow> pte s2 v = pte s v"
      using old e1(1) unfolding pages(2) ten(2) by simp
  qed (use new' off in blast)+
qed

section \<open>Back in the address space of the caller\<close>

lemma returned_space:
  assumes "space_ok t" "off_tables t {F}" "space_ok w" "grown J True u w"
    and u: "directory u = F" "block_used u = block_used t" "ram u = ram t" "\<forall>i \<in> J. \<not> has_table u i"
    and z: "z = w\<lparr>cr3 := r, current_page_directory := c\<rparr>" "entry_frame r = directory t"
  shows "directory z = directory t" "dir_entry z = dir_entry t" "translate z v = translate t v" "space_ok z"
    "block_used z = block_used w" "pool z k = pool w k"
proof -
  note uw = grownD[OF assms(4)]
  have ram: "ram z f = ram t f" if "block_used t (unat f)" "f \<noteq> F" for f
    using uw(4)[of f] that u by (simp add: z(1))
  have rec: "has_table t 1023" "table_frame t 1023 = directory t" using space_okD(1)[OF assms(1)] by (simp_all add: recursive_def)
  have off: "directory t \<noteq> F" "has_table t i \<Longrightarrow> table_frame t i \<noteq> F" for i using assms(2) by (auto simp: off_tables_def)
  show dir: "directory z = directory t" using z by (simp add: directory_def)
  have "block_used t (unat (directory t))" using space_okD(4)[OF assms(1) rec(1)] rec(2) by simp
  then show entry: "dir_entry z = dir_entry t"
    using ram off(1) by (simp add: dir_entry_def dir fun_eq_iff)
  show "translate z v = translate t v"
    using space_okD(4)[OF assms(1)] by (intro translate_cong) (simp_all add: entry ram off(2))
  show used: "block_used z = block_used w" by (simp add: z(1) block_used_def fun_eq_iff)
  show "pool z k = pool w k" unfolding pool_def used by (simp add: z(1) searched_def)
  have "pmm_ok z" using space_okD(2)[OF assms(3)] by (simp add: pmm_ok_def used) (simp add: z(1))
  moreover have "block_used w n" if "block_used t n" for n using uw(3)[of n] that u(2) by simp
  moreover have "has_table z = has_table t" "table_frame z = table_frame t"
    by (simp_all add: has_table_def table_frame_def entry fun_eq_iff)
  ultimately show "space_ok z" using assms(1) by (simp add: space_ok_def recursive_def dir used)
qed

section \<open>What user mode reaches\<close>

text \<open>The frame behind an address for user mode, and whether it can be written, in the address space of a directory.\<close>

definition user_page :: "memory \<Rightarrow> frame \<Rightarrow> u32 \<Rightarrow> (frame \<times> bool) option" where
  "user_page m d v =
     (let pde = m d (dir_of v)
      in if \<not> (entry_present pde \<and> entry_user pde) then None
         else if entry_large pde then Some (ucast (drop_bit 22 pde) * 1024 + ucast (TABLE_INDEX v), bit pde 1)
         else let pte = m (entry_frame pde) (table_of v)
              in if entry_present pte \<and> entry_user pte then Some (entry_frame pte, bit pde 1 \<and> bit pte 1) else None)"

lemma user_page_pte:
  assumes "has_table s (dir_of v)" "entry_user (dir_entry s (dir_of v))" "bit (dir_entry s (dir_of v)) 1"
  shows "user_page (ram s) (directory s) v =
    (if entry_present (pte s v) \<and> entry_user (pte s v) then Some (entry_frame (pte s v), bit (pte s v) 1) else None)"
  using assms by (simp add: user_page_def Let_def has_table_def pte_def page_entry_def table_frame_def dir_entry_def)

lemma user_page_none:
  "\<not> (entry_present (dir_entry s (dir_of v)) \<and> entry_user (dir_entry s (dir_of v))) \<Longrightarrow> user_page (ram s) (directory s) v = None"
  by (auto simp: user_page_def Let_def dir_entry_def)

text \<open>A process of \<open>num\<close> pages of code behind \<open>p\<close> and ten pages of stack behind \<open>q\<close>, and nothing else.\<close>

definition process_space :: "memory \<Rightarrow> frame \<Rightarrow> nat \<Rightarrow> u32 \<Rightarrow> u32 \<Rightarrow> bool" where
  "process_space m d num p q \<longleftrightarrow> (\<forall>v. user_page m d v =
     (if page_of v < num then Some (entry_frame (p + of_nat (page_of v) * PAGE_SIZE), False)
      else if 0xBFFF6 \<le> page_of v \<and> page_of v < 0xC0000 then Some (entry_frame (q + of_nat (page_of v - 0xBFFF6) * PAGE_SIZE), True)
      else None))"

definition kernel_private :: "'s vmm_scheme \<Rightarrow> bool" where
  "kernel_private s \<longleftrightarrow> (\<forall>i. 768 \<le> unat i \<and> entry_present (dir_entry s i) \<longrightarrow> \<not> entry_user (dir_entry s i))"

lemma dirs_of_page:
  assumes "i \<in> dirs_of a n" "a + n \<le> 2 ^ 20"
  shows "\<exists>v. dir_of v = i \<and> a \<le> page_of v \<and> page_of v < a + n"
proof -
  have "\<exists>k < n. unat i = (a + k) div 1024" using assms(1) unfolding dirs_of_def by (rule CollectD)
  then obtain k where k: "k < n" "unat i = (a + k) div 1024" by blast
  have "(a + k) * 4096 < 2 ^ 32" using k(1) assms(2) by simp
  then have "unat (of_nat ((a + k) * 4096) :: u32) = (a + k) * 4096" by (rule of_nat_unat_u32)
  then have p: "page_of (of_nat ((a + k) * 4096)) = a + k" unfolding page_of_def by simp
  then have "dir_of (of_nat ((a + k) * 4096)) = i" unfolding word_unat_eq_iff dir_of_page k(2) by simp
  then show ?thesis using p k(1) by (intro exI[of _ "of_nat ((a + k) * 4096)"]) simp
qed

lemma built_tables:
  assumes n: "num \<le> 0xBFFF6" and g2: "grown (dirs_of 0xBFFF6 10) True w1 w2"
    and c1: "\<forall>v. page_of v < num \<longrightarrow> has_table w1 (dir_of v) \<and> P v"
    and c2: "\<forall>v. 0xBFFF6 \<le> page_of v \<and> page_of v < 0xC0000 \<longrightarrow> has_table w2 (dir_of v) \<and> Q v"
    and i: "i \<in> dirs_of 0 num \<union> dirs_of 0xBFFF6 10"
  shows "has_table w2 i" "unat i < 768"
proof -
  show "has_table w2 i"
    using i
  proof
    assume "i \<in> dirs_of 0 num"
    then obtain x where "dir_of x = i" "page_of x < num" using dirs_of_page[of i 0 num] n by auto
    then show ?thesis using c1 grownD(9)[OF g2] by blast
  next
    assume "i \<in> dirs_of 0xBFFF6 10"
    then obtain x where "dir_of x = i" "0xBFFF6 \<le> page_of x" "page_of x < 0xC0000" using dirs_of_page[of i "0xBFFF6" 10] by auto
    then show ?thesis using c2 by blast
  qed
  obtain x where "dir_of x = i" "page_of x < 0xC0000"
    using i dirs_of_page[of i 0 num] dirs_of_page[of i "0xBFFF6" 10] n by fastforce
  then show "unat i < 768" by (auto simp: dir_of_page div_less_iff_less_mult)
qed

lemma process_space_built:
  assumes u: "\<And>i. unat i < 768 \<Longrightarrow> dir_entry u i = 0" "kernel_private u" "\<And>v. unat (dir_of v) < 768 \<Longrightarrow> pte u v = 0"
    and n: "num \<le> 0xBFFF6"
    and g1: "grown (dirs_of 0 num) True u w1" and g2: "grown (dirs_of 0xBFFF6 10) True w1 w2"
    and p: "unat p mod 4096 = 0" "unat p + num * 4096 \<le> 2 ^ 32" and q: "unat q mod 4096 = 0" "unat q + 10 * 4096 \<le> 2 ^ 32"
    and c1: "\<forall>v. page_of v < num \<longrightarrow> has_table w1 (dir_of v) \<and> pte w1 v = code_entry p (page_of v) AND NOT PAGE_RW"
    and o1: "\<forall>v. dir_of v \<noteq> 1023 \<and> num \<le> page_of v \<longrightarrow> pte w1 v = pte u v"
    and c2: "\<forall>v. 0xBFFF6 \<le> page_of v \<and> page_of v < 0xC0000 \<longrightarrow> has_table w2 (dir_of v) \<and> pte w2 v = code_entry q (page_of v - 0xBFFF6)"
    and o2: "\<forall>v. dir_of v \<noteq> 1023 \<and> (page_of v < 0xBFFF6 \<or> 0xC0000 \<le> page_of v) \<longrightarrow> pte w2 v = pte w1 v"
  shows "process_space (ram w2) (directory w2) num p q"
  unfolding process_space_def
proof
  fix v
  let ?J = "dirs_of 0 num \<union> dirs_of 0xBFFF6 10"
  have g: "grown ?J True u w2" by (rule grown_trans[OF grown_mono[OF g1] grown_mono[OF g2]]) auto
  note built = built_tables[OF n g2 c1 c2]
  show "user_page (ram w2) (directory w2) v =
     (if page_of v < num then Some (entry_frame (p + of_nat (page_of v) * PAGE_SIZE), False)
      else if 0xBFFF6 \<le> page_of v \<and> page_of v < 0xC0000 then Some (entry_frame (q + of_nat (page_of v - 0xBFFF6) * PAGE_SIZE), True)
      else None)"
  proof (cases "unat (dir_of v) < 768")
    case False
    then have "0xC0000 \<le> page_of v" unfolding dir_of_page by simp
    moreover have "dir_entry w2 (dir_of v) = dir_entry u (dir_of v)" using grownD(5)[OF g] built(2) False by blast
    then have "user_page (ram w2) (directory w2) v = None"
      using u(2) False by (intro user_page_none) (auto simp: kernel_private_def)
    ultimately show ?thesis using n by simp
  next
    case True
    then have d: "dir_of v \<noteq> 1023" by auto
    have low: "page_of v < 0xC0000" using True unfolding dir_of_page by simp
    show ?thesis
    proof (cases "dir_of v \<in> ?J")
      case False
      have "user_page (ram w2) (directory w2) v = None"
        using grownD(5)[OF g False] u(1)[OF True] by (intro user_page_none) (simp add: entry_present_def)
      moreover have "\<not> page_of v < num"
      proof
        assume "page_of v < num"
        then have "dir_of v \<in> dirs_of 0 num" unfolding dirs_of_def by (auto simp: dir_of_page)
        then show False using False by blast
      qed
      moreover have "\<not> 0xBFFF6 \<le> page_of v"
      proof
        assume b: "0xBFFF6 \<le> page_of v"
        then have "dir_of v \<in> dirs_of 0xBFFF6 10"
          unfolding dirs_of_def using low by (intro CollectI exI[of _ "page_of v - 0xBFFF6"]) (auto simp: dir_of_page)
        then show False using False by blast
      qed
      ultimately show ?thesis by simp
    next
      case J: True
      have "\<not> has_table u (dir_of v)" using u(1)[OF True] by (simp add: has_table_def entry_present_def)
      note t = built(1)[OF J] grownD(8)[OF g built(1)[OF J] this]
      note up = user_page_pte[OF t(1) conjunct1[OF t(2), simplified] conjunct2[OF t(2)]]
      consider "page_of v < num" | "num \<le> page_of v" "page_of v < 0xBFFF6" | "0xBFFF6 \<le> page_of v" "num \<le> page_of v"
        using n by linarith
      then show ?thesis
      proof cases
        case 1
        then have "pte w2 v = code_entry p (page_of v) AND NOT PAGE_RW" using o2 c1 d n by simp
        then show ?thesis using code_entry_fields(5-8)[OF p 1] 1 by (simp add: up)
      next
        case 2
        then have "pte w2 v = 0" using o2 o1 d u(3)[OF True] by simp
        then show ?thesis using 2 by (simp add: up entry_present_def)
      next
        case 3
        then have "pte w2 v = code_entry q (page_of v - 0xBFFF6)" "page_of v - 0xBFFF6 < 10" using c2 low by auto
        then show ?thesis using code_entry_fields(1-4)[OF q, of "page_of v - 0xBFFF6"] 3 low by (simp add: up)
      qed
    qed
  qed
qed

section \<open>The whole construction\<close>

definition kernel_ready :: "'s vmm_scheme \<Rightarrow> bool" where
  "kernel_ready s \<longleftrightarrow> space_ok s \<and> translate s KERNEL_HEAP_END_VIRT = None \<and> kernel_private s"

text \<open>The code lies in the kernel's half, in used frames that are not page tables; \<open>S\<close> names them.\<close>

definition kernel_source :: "'s vmm_scheme \<Rightarrow> u32 \<Rightarrow> nat \<Rightarrow> (nat \<Rightarrow> frame) \<Rightarrow> bool" where
  "kernel_source s code len S \<longleftrightarrow> (\<forall>i < len. translate s (code + of_nat i) = Some (S i) \<and> block_used s (unat (S i))
     \<and> off_tables s {S i} \<and> 0xC0000000 \<le> unat (code + of_nat i) \<and> dir_of (code + of_nat i) \<noteq> 1023)"

lemma directory_built:
  assumes "kernel_ready s" "pool s (Suc (Suc k))" "kernel_source s code len S"
  obtains pd s1 t e u where "pmm_alloc_page s = Ok pd s1" "proc_make_directory pd s1 = Ok () t"
    "andthen (paging_get_page 0xFFFFF000 False 0) read32 t = Ok e t" "entry_frame (e AND PAGE_FRAME) = directory s"
    "u = t\<lparr>cr3 := pd, current_page_directory := P2V pd\<rparr>"
    "space_ok t" "off_tables t {entry_frame pd}" "kernel_private t" "directory t = directory s" "pages_changed s t"
    "\<forall>v. dir_of v \<noteq> 1023 \<longrightarrow> translate t v = translate s v"
    "space_ok u" "pool u k" "directory u = entry_frame pd" "block_used u = block_used t" "kernel_private u"
    "\<forall>v. unat v < 0xC0000000 \<longrightarrow> dir_entry u (dir_of v) = 0 \<and> pte u v = 0"
    "\<forall>v. 0xC0000000 \<le> unat v \<and> dir_of v \<noteq> 1023 \<longrightarrow> translate u v = translate s v"
    "kernel_source u code len S" "\<forall>i < len. ram u (S i) = ram s (S i)"
    "unat pd mod 4096 = 0" "\<not> block_used s (unat (entry_frame pd))" "block_used u (unat (entry_frame pd))"
    "\<forall>f. block_used s (unat f) \<and> off_tables s {f} \<longrightarrow> f \<noteq> entry_frame pd \<and> off_tables t {f} \<and> ram t f = ram s f"
    "entry_present (dir_entry t 833)"
    "\<forall>b. frontier s b \<longrightarrow> unat pd = b * 4096 \<and> frontier u (if entry_present (dir_entry s 833) then b + 1 else b + 2)"
proof -
  have sp: "space_ok s" "translate s KERNEL_HEAP_END_VIRT = None" "kernel_private s" using assms(1) by (simp_all add: kernel_ready_def)
  from roomy_alloc[OF space_okD(2)[OF sp(1)] pool_roomy[OF assms(2)]] obtain n where
    a: "pmm_alloc_page s = Ok (of_nat n * PMM_BLOCK_SIZE) (mmap_set (of_nat n) s)" "n < 2 ^ 20" "\<not> block_used s n"
      "unat (of_nat n * PMM_BLOCK_SIZE) = n * 4096" "block_used (mmap_set (of_nat n) s) = (\<lambda>m. m = n \<or> block_used s m)"
      "pmm_ok (mmap_set (of_nat n) s)" by blast
  let ?s1 = "mmap_set (of_nat n) s" and ?pd = "of_nat n * PMM_BLOCK_SIZE" and ?F = "of_nat n :: frame"
  have F: "unat ?F = n" "entry_frame ?pd = ?F" using a(2,4) by (simp_all add: word_unat_eq_iff unat_entry_frame unat_of_nat)
  have tab: "has_table ?s1 = has_table s" "table_frame ?s1 = table_frame s" by (simp_all add: has_table_def table_frame_def fun_eq_iff)
  have sp1: "space_ok ?s1" using sp(1) a(5,6) by (simp add: space_ok_def recursive_def tab)
  have room1: "pool ?s1 (Suc k)" by (rule pool_alloc[OF space_okD(2)[OF sp(1)] assms(2) a(1)])
  have "\<forall>f \<in> {?F}. \<not> block_used s (unat f)" using a(3) F(1) by simp
  from off_tables_fresh[OF sp(1) this] have off1: "off_tables ?s1 {?F}" by (simp add: off_tables_def tab)
  have tmp: "translate ?s1 KERNEL_HEAP_END_VIRT = None" using sp(2) by simp
  have pd: "block_used ?s1 (unat ?F)" "unat ?pd = unat ?F * 4096" using a(4,5) F(1) by simp_all
  obtain t where t: "proc_make_directory ?pd ?s1 = Ok () t" "space_ok t" "pool t k" "off_tables t {?F}"
    "ram t ?F = process_directory t ?pd" "grown {833} False (with_frame ?s1 ?F (ram t ?F)) t"
    and tr: "\<forall>v. dir_of v \<noteq> 1023 \<longrightarrow> translate t v = translate ?s1 v" and t833: "has_table t 833" and take: "takes_table 833 ?s1 t"
    by (rule proc_make_directory_builds[OF sp1 room1 tmp off1 pd]) (rule that; assumption)
  let ?s2 = "with_frame ?s1 ?F (ram t ?F)"
  note off2 = off_frame[OF off1, of "ram t ?F"]
  note g = grownD[OF t(6)]
  have used: "block_used s m \<Longrightarrow> block_used t m" for m using g(3) a(5) by simp
  have dt: "directory t = directory s" using g(2) by simp
  have rec: "has_table t 1023" "table_frame t 1023 = directory t" using space_okD(1)[OF t(2)] by (simp_all add: recursive_def)
  have e: "andthen (paging_get_page 0xFFFFF000 False 0) read32 t = Ok (dir_entry t 1023) t"
  proof -
    have v: "unat (0xFFFFF000 :: u32) mod 4096 = 0" "dir_of 0xFFFFF000 = 1023" "table_of 0xFFFFF000 = 1023"
      by (simp_all add: word_unat_eq_iff unat_table_of unat_dir_of)
    have p: "entry_present (dir_entry t (dir_of 0xFFFFF000))" using rec(1) by (simp add: v(2) has_table_def)
    have "page_entry t 0xFFFFF000 = dir_entry t 1023" using rec(2) by (simp add: page_entry_def v(2,3) dir_entry_def)
    then show ?thesis
      using paging_get_page_present[OF v(1) space_okD(1)[OF t(2)] p] page_entry_access(1)[OF space_okD(1)[OF t(2)] p] by simp
  qed
  have frame: "entry_frame (dir_entry t 1023 AND PAGE_FRAME) = directory s"
  proof -
    have "entry_frame (dir_entry t 1023 AND PAGE_FRAME) = entry_frame (dir_entry t 1023)"
      by (rule bit_word_eqI) (auto simp: entry_frame_def bit_simps bit_PAGE_FRAME)
    then show ?thesis using rec(2) dt by (simp add: table_frame_def)
  qed
  have priv: "kernel_private t"
    unfolding kernel_private_def
  proof (intro allI impI)
    fix i assume i: "768 \<le> unat i \<and> entry_present (dir_entry t i)"
    show "\<not> entry_user (dir_entry t i)"
    proof (cases "entry_present (dir_entry s i)")
      case True
      then have "dir_entry t i = dir_entry s i" using g(6)[of i] off2(2)[of i] by simp
      then show ?thesis using sp(3) i by (simp add: kernel_private_def)
    next
      case False
      have "i = 833"
      proof (rule ccontr)
        assume "i \<noteq> 833"
        then have "dir_entry t i = dir_entry s i" using g(5)[of i] off2(2)[of i] by simp
        then show False using False i by simp
      qed
      moreover have "\<not> has_table ?s2 i" using False off2(5)[of i] by (simp add: has_table_def)
      ultimately show ?thesis using g(8)[of i] t833 by simp
    qed
  qed
  define u where "u = t\<lparr>cr3 := ?pd, current_page_directory := P2V ?pd\<rparr>"
  have usedF: "block_used t (unat ?F)" using g(3) pd(1) by simp
  note sw = switched_space[OF t(2,4) usedF t(5) pd(2) u_def]
  have privu: "kernel_private u"
  proof -
    have m: "unat ?pd mod 4096 = 0" using a(4) by simp
    have "\<not> entry_user (?pd OR PAGE_PRESENT OR PAGE_RW)"
      using aligned_bits[OF m, of 2] by (simp add: entry_user_def bit_simps page_bits)
    then show ?thesis using priv by (auto simp: kernel_private_def sw(2) process_directory_def)
  qed
  have low: "\<forall>v. unat v < 0xC0000000 \<longrightarrow> dir_entry u (dir_of v) = 0 \<and> pte u v = 0"
    using sw(2,8) by (auto simp: process_directory_def dir_of_low[symmetric])
  have high: "\<forall>v. 0xC0000000 \<le> unat v \<and> dir_of v \<noteq> 1023 \<longrightarrow> translate u v = translate s v"
  proof (intro allI impI)
    fix v assume v: "0xC0000000 \<le> unat v \<and> dir_of v \<noteq> 1023"
    then have "768 \<le> unat (dir_of v)" using dir_of_low[of v] by (meson linorder_not_less)
    then show "translate u v = translate s v" using sw(9)[of v] tr v by simp
  qed
  have other: "f \<noteq> ?F" "off_tables t {f}" "ram t f = ram s f" if "block_used s (unat f)" "off_tables s {f}" for f
  proof -
    show n: "f \<noteq> ?F" using that(1) a(3) F(1) by auto
    have o: "off_tables ?s2 {f}" using that(2) off1 n by (auto simp: off_tables_def tab off2(5,6))
    have b: "block_used ?s2 (unat f)" using that(1) a(5) by simp
    show "off_tables t {f}" by (rule grown_off[OF t(6) o]) (use b in simp)
    have "ram t f = ram ?s2 f" by (rule g(4)[OF b]) (use o in \<open>auto simp: off_tables_def\<close>)
    then show "ram t f = ram s f" using n by simp
  qed
  have src: "S i \<noteq> ?F" "off_tables t {S i}" "ram t (S i) = ram s (S i)" if "i < len" for i
    using other[of "S i"] assms(3) that by (simp_all add: kernel_source_def)
  have srcu: "kernel_source u code len S"
    unfolding kernel_source_def
  proof (intro allI impI)
    fix i assume i: "i < len"
    note s = assms(3)[unfolded kernel_source_def, rule_format, OF i]
    have "off_tables u {S i}" using src(1,2)[OF i] unfolding off_tables_def sw(1,3,4) by auto
    then show "translate u (code + of_nat i) = Some (S i) \<and> block_used u (unat (S i)) \<and> off_tables u {S i}
        \<and> 0xC0000000 \<le> unat (code + of_nat i) \<and> dir_of (code + of_nat i) \<noteq> 1023"
      using s high used by (simp add: sw(7))
  qed
  have "pages_changed s t" using pages_changed_trans[OF pages_changed_with_frame[OF pages_changed_mmap_set] g(1)] .
  moreover have "\<forall>i < len. ram u (S i) = ram s (S i)" using src(3) by (simp add: u_def)
  moreover have "pool u k" using t(3) by (simp add: sw(6))
  moreover have "\<forall>v. dir_of v \<noteq> 1023 \<longrightarrow> translate t v = translate s v" using tr by simp
  moreover have "block_used u (unat ?F)" using usedF by (simp add: sw(7))
  moreover have "\<forall>f. block_used s (unat f) \<and> off_tables s {f} \<longrightarrow> f \<noteq> entry_frame ?pd \<and> off_tables t {f} \<and> ram t f = ram s f"
    using other F(2) by blast
  moreover have "entry_present (dir_entry t 833)" using t833 by (simp add: has_table_def)
  moreover have "\<forall>b. frontier s b \<longrightarrow> unat ?pd = b * 4096 \<and> frontier u (if entry_present (dir_entry s 833) then b + 1 else b + 2)"
  proof (intro allI impI)
    fix b assume b: "frontier s b"
    note f = frontier_alloc[OF space_okD(2)[OF sp(1)] assms(2) b a(1)]
    have "b < 2 ^ 20" using frontier_pool(1)[OF b assms(2)] limit_ok[OF space_okD(2)[OF sp(1)]] by simp
    then have "unat ?pd = b * 4096" using f(1) block_address(1)[of b] by simp
    moreover have "frontier u c = frontier t c" for c using sw(7) by (simp add: frontier_def searched_def u_def)
    moreover have "dir_entry ?s1 833 = dir_entry s 833" by simp
    ultimately show "unat ?pd = b * 4096 \<and> frontier u (if entry_present (dir_entry s 833) then b + 1 else b + 2)"
      using take[unfolded takes_table_def, rule_format, OF f(3)] by (simp split: if_splits)
  qed
  ultimately show ?thesis
    using that[OF a(1) t(1) e frame u_def t(2) _ priv dt _ _ sw(5) _ _ sw(7) privu low high srcu] t(4) sw(1) a(3,4) F by (simp, metis)
qed

text \<open>
  The tables of another address space: what user mode reaches through its directory is its own, and the last
  entry of the directory leads back to it.
\<close>

definition self_mapped :: "memory \<Rightarrow> frame \<Rightarrow> bool" where
  "self_mapped m d \<longleftrightarrow> entry_present (m d 1023) \<and> \<not> entry_large (m d 1023) \<and> entry_frame (m d 1023) = d"

lemma recursive_self: "recursive s \<longleftrightarrow> self_mapped (ram s) (directory s)"
  by (simp add: recursive_def has_table_def table_frame_def dir_entry_def self_mapped_def)

definition own_tables :: "'s vmm_scheme \<Rightarrow> frame \<Rightarrow> bool" where
  "own_tables s d \<longleftrightarrow> block_used s (unat d) \<and> off_tables s {d} \<and> self_mapped (ram s) d
     \<and> (\<forall>i. entry_present (ram s d i) \<and> entry_user (ram s d i) \<longrightarrow> \<not> entry_large (ram s d i)
          \<and> block_used s (unat (entry_frame (ram s d i))) \<and> off_tables s {entry_frame (ram s d i)})"

text \<open>Frames in use outside the kernel's page tables keep what they hold.\<close>

definition leaves_frames :: "'s vmm_scheme \<Rightarrow> 's vmm_scheme \<Rightarrow> bool" where
  "leaves_frames s s' \<longleftrightarrow> (\<forall>n. block_used s n \<longrightarrow> block_used s' n)
     \<and> (\<forall>f. block_used s (unat f) \<and> off_tables s {f} \<longrightarrow> off_tables s' {f} \<and> ram s' f = ram s f)"

lemma leaves_frames_refl [simp]: "leaves_frames s s"
  by (simp add: leaves_frames_def)

lemma leaves_frames_trans: "leaves_frames s t \<Longrightarrow> leaves_frames t u \<Longrightarrow> leaves_frames s u"
  unfolding leaves_frames_def by fastforce

lemma own_tables_kept:
  assumes "leaves_frames s s'" "own_tables s d"
  shows "own_tables s' d" "user_page (ram s') d v = user_page (ram s) d v"
proof -
  have d: "block_used s (unat d)" "off_tables s {d}" and m: "self_mapped (ram s) d"
    and t: "\<And>i. entry_present (ram s d i) \<Longrightarrow> entry_user (ram s d i) \<Longrightarrow>
      \<not> entry_large (ram s d i) \<and> block_used s (unat (entry_frame (ram s d i))) \<and> off_tables s {entry_frame (ram s d i)}"
    using assms(2) by (simp_all add: own_tables_def)
  have k: "\<And>n. block_used s n \<Longrightarrow> block_used s' n" "\<And>f. block_used s (unat f) \<Longrightarrow> off_tables s {f} \<Longrightarrow> off_tables s' {f} \<and> ram s' f = ram s f"
    using assms(1) by (simp_all add: leaves_frames_def)
  have r: "ram s' d = ram s d" using k(2)[OF d] by simp
  have "self_mapped (ram s') d" using m by (simp add: self_mapped_def r)
  then show "own_tables s' d" unfolding own_tables_def r using k(1)[OF d(1)] k(2)[OF d] t k by blast
  show "user_page (ram s') d v = user_page (ram s) d v"
    using t[of "dir_of v"] k(2)[of "entry_frame (ram s d (dir_of v))"] by (auto simp: user_page_def Let_def r)
qed

text \<open>The blocks of a process: its directory, its code and its stack.\<close>

definition process_blocks :: "u32 \<Rightarrow> nat \<Rightarrow> u32 \<Rightarrow> u32 \<Rightarrow> nat set" where
  "process_blocks pd num p q = {unat pd div 4096} \<union> frames num p \<union> frames 10 q"

text \<open>
  Where they lie: the directory at block \<open>b\<close>, and from block \<open>c\<close> on the code, the table of the code, the stack and
  the table of the stack. Entries 0 and 767 of the directory hold the frames of the two tables.
\<close>

definition placed :: "memory \<Rightarrow> u32 \<Rightarrow> nat \<Rightarrow> u32 \<Rightarrow> u32 \<Rightarrow> nat \<Rightarrow> nat \<Rightarrow> bool" where
  "placed m pd num p q b c \<longleftrightarrow> unat pd = b * 4096 \<and> unat p = c * 4096 \<and> unat q = (c + num + 1) * 4096
     \<and> unat (entry_frame (m (entry_frame pd) 0)) = c + num \<and> unat (entry_frame (m (entry_frame pd) 767)) = c + num + 11"

lemma space_built:
  assumes "kernel_ready s" "pool s (2 * unat num + 22 + k)" "unat num = unat len div 4096 + 1" "kernel_source s code (unat len) S"
  obtains pd s1 t e w1 w2 z p q where "pmm_alloc_page s = Ok pd s1" "proc_make_directory pd s1 = Ok () t"
    "andthen (paging_get_page 0xFFFFF000 False 0) read32 t = Ok e t"
    "proc_load_code code len num (t\<lparr>cr3 := pd, current_page_directory := P2V pd\<rparr>) = Ok () w1"
    "proc_map_stack PROC_KERNEL_STACK_PAGES w1 = Ok () w2"
    "z = w2\<lparr>cr3 := e AND PAGE_FRAME, current_page_directory := P2V (e AND PAGE_FRAME)\<rparr>"
    "\<exists>m b c r d. z = s\<lparr>bitmap := b, used_blocks := c, ram := m, cr3 := r, current_page_directory := d\<rparr>"
    "kernel_ready z" "pool z k" "directory z = directory s" "\<forall>v. dir_of v \<noteq> 1023 \<longrightarrow> translate z v = translate s v"
    "\<forall>v. 0xC0000000 \<le> unat v \<and> dir_of v \<noteq> 1023 \<longrightarrow> walk (ram z) (entry_frame pd) v = translate s v"
    "process_space (ram z) (entry_frame pd) (unat num) p q"
    "\<forall>i < unat len. byte (ram z) (code_frame p i) (of_nat i) = byte (ram s) (S i) (code + of_nat i)"
    "unat pd mod 4096 = 0" "frames (unat num) p \<inter> frames 10 q = {}"
    "unat pd div 4096 \<notin> frames (unat num) p \<union> frames 10 q"
    "\<forall>n \<in> process_blocks pd (unat num) p q. \<not> block_used s n \<and> block_used z n"
    "leaves_frames s z" "own_tables z (entry_frame pd)"
    "unat p mod 4096 = 0" "unat p + unat num * 4096 \<le> 2 ^ 32" "unat q mod 4096 = 0" "unat q + 10 * 4096 \<le> 2 ^ 32"
    "\<forall>f. unat f \<in> process_blocks pd (unat num) p q \<longrightarrow> off_tables z {f}"
    "\<forall>i. entry_present (ram z (entry_frame pd) i) \<and> entry_user (ram z (entry_frame pd) i) \<longrightarrow>
       \<not> block_used s (unat (entry_frame (ram z (entry_frame pd) i)))
       \<and> unat (entry_frame (ram z (entry_frame pd) i)) \<notin> frames (unat num) p \<union> frames 10 q"
    "entry_present (dir_entry z 833)"
    "\<forall>b c. frontier s b \<and> unat num \<le> 1024 \<and> c = (if entry_present (dir_entry s 833) then b + 1 else b + 2) \<longrightarrow>
       placed (ram z) pd (unat num) p q b c \<and> frontier z (c + unat num + 12)"
proof -
  let ?n = "unat num"
  have room: "pool s (Suc (Suc (2 * ?n + (20 + k))))" using pool_mono[OF assms(2)] by simp
  obtain pd s1 t e u where d: "pmm_alloc_page s = Ok pd s1" "proc_make_directory pd s1 = Ok () t"
    "andthen (paging_get_page 0xFFFFF000 False 0) read32 t = Ok e t" "entry_frame (e AND PAGE_FRAME) = directory s"
    "u = t\<lparr>cr3 := pd, current_page_directory := P2V pd\<rparr>"
    and t: "space_ok t" "off_tables t {entry_frame pd}" "kernel_private t" "directory t = directory s" "pages_changed s t"
    "\<forall>v. dir_of v \<noteq> 1023 \<longrightarrow> translate t v = translate s v"
    and u: "space_ok u" "pool u (2 * ?n + (20 + k))" "directory u = entry_frame pd" "block_used u = block_used t" "kernel_private u"
    and low: "\<forall>v. unat v < 0xC0000000 \<longrightarrow> dir_entry u (dir_of v) = 0 \<and> pte u v = 0"
    and high: "\<forall>v. 0xC0000000 \<le> unat v \<and> dir_of v \<noteq> 1023 \<longrightarrow> translate u v = translate s v"
    and src: "kernel_source u code (unat len) S" "\<forall>i < unat len. ram u (S i) = ram s (S i)"
    and pd: "unat pd mod 4096 = 0" "\<not> block_used s (unat (entry_frame pd))" "block_used u (unat (entry_frame pd))"
    and other: "\<forall>f. block_used s (unat f) \<and> off_tables s {f} \<longrightarrow> f \<noteq> entry_frame pd \<and> off_tables t {f} \<and> ram t f = ram s f"
    and t833: "entry_present (dir_entry t 833)"
    and pl0: "\<forall>b. frontier s b \<longrightarrow> unat pd = b * 4096 \<and> frontier u (if entry_present (dir_entry s 833) then b + 1 else b + 2)"
    by (rule directory_built[OF assms(1) room assms(4)]) (rule that; assumption)
  have "pool u ?n" by (rule pool_mono[OF u(2)]) simp
  have n: "?n < 0x80000"
  proof -
    have "2 * ?n \<le> searched u" using u(2) by (auto simp: pool_def)
    also have "\<dots> < 2 ^ 20" by (rule limit_ok[OF space_okD(2)[OF u(1)]])
    finally show ?thesis by simp
  qed
  then have n': "?n * 4096 < 0xC0000000" "?n \<le> 0xBFFF6" by simp_all
  have empty: "dir_of v \<notin> large_pages u \<and> pte u v = 0" if "unat v < 0xC0000000" for v
    using low that by (simp add: large_pages_def entry_present_def)
  have srcu: "translate u (code + of_nat i) = Some (S i) \<and> block_used u (unat (S i)) \<and> off_tables u {S i}
      \<and> 0xC0000000 \<le> unat (code + of_nat i) \<and> dir_of (code + of_nat i) \<noteq> 1023" if "i < unat len" for i
    using src(1) that by (simp add: kernel_source_def)
  obtain p w1 where w1: "proc_load_code code len num u = Ok () w1" "space_ok w1" "pool w1 (20 + k)" "grown (dirs_of 0 ?n) True u w1"
    and p: "unat p mod 4096 = 0" "unat p + ?n * 4096 \<le> 2 ^ 32"
    and fp: "\<forall>m \<in> frames ?n p. \<not> block_used u m \<and> block_used w1 m" and off1: "off_tables w1 (run_frames ?n p)"
    and c1: "\<forall>v. page_of v < ?n \<longrightarrow> has_table w1 (dir_of v) \<and> pte w1 v = code_entry p (page_of v) AND NOT PAGE_RW"
    and o1: "\<forall>v. dir_of v \<noteq> 1023 \<and> ?n \<le> page_of v \<longrightarrow> pte w1 v = pte u v"
    and bytes: "\<forall>i < unat len. byte (ram w1) (code_frame p i) (of_nat i) = byte (ram u) (S i) (code + of_nat i)"
    and pl1: "\<forall>b. frontier u b \<and> ?n \<le> 1024 \<and> dir_entry u 0 = 0 \<longrightarrow>
       unat p = b * 4096 \<and> unat (table_frame w1 0) = b + ?n \<and> frontier w1 (b + ?n + 1)"
    by (rule proc_load_code_builds[OF u(1,2) assms(3) n'(1)], rule empty, assumption, rule srcu, assumption) (rule that; assumption)
  have none: "dir_of v \<notin> large_pages w1 \<and> pte w1 v = 0" if v: "0xBFFF6 \<le> page_of v" "page_of v < 0xC0000" for v
  proof -
    have l: "unat v < 0xC0000000" using v(2) unfolding page_of_def by (simp add: div_less_iff_less_mult)
    have d: "dir_of v \<noteq> 1023" by (rule dir_of_below) (use l in simp)
    have "pte w1 v = 0" using o1 d v(1) n'(2) low l by simp
    moreover have "dir_of v \<notin> large_pages w1"
    proof
      assume lp: "dir_of v \<in> large_pages w1"
      show False
      proof (cases "dir_of v \<in> dirs_of 0 ?n")
        case True
        then obtain x where "dir_of x = dir_of v" "page_of x < ?n" using dirs_of_page[of "dir_of v" 0 ?n] n by auto
        then have "has_table w1 (dir_of v)" using c1 by metis
        then show False using lp by (simp add: large_pages_def has_table_def)
      next
        case False
        then show False using lp grownD(5)[OF w1(4) False] low l by (simp add: large_pages_def entry_present_def)
      qed
    qed
    ultimately show ?thesis by simp
  qed
  obtain q w2 where w2: "proc_map_stack PROC_KERNEL_STACK_PAGES w1 = Ok () w2" "space_ok w2" "pool w2 k" "grown (dirs_of 0xBFFF6 10) True w1 w2"
    and q: "unat q mod 4096 = 0" "unat q + 10 * 4096 \<le> 2 ^ 32"
    and fq: "\<forall>m \<in> frames 10 q. \<not> block_used w1 m \<and> block_used w2 m"
    and c2: "\<forall>v. 0xBFFF6 \<le> page_of v \<and> page_of v < 0xC0000 \<longrightarrow> has_table w2 (dir_of v) \<and> pte w2 v = code_entry q (page_of v - 0xBFFF6)"
    and o2: "\<forall>v. dir_of v \<noteq> 1023 \<and> (page_of v < 0xBFFF6 \<or> 0xC0000 \<le> page_of v) \<longrightarrow> pte w2 v = pte w1 v"
    and off2: "off_tables w2 (run_frames 10 q)"
    and pl2: "\<forall>b. frontier w1 b \<and> dir_entry w1 767 = 0 \<longrightarrow> unat q = b * 4096 \<and> unat (table_frame w2 767) = b + 10 \<and> frontier w2 (b + 11)"
    by (rule proc_map_stack_builds[OF w1(2,3)], rule none, assumption, assumption) (rule that; assumption)
  let ?J = "dirs_of 0 ?n \<union> dirs_of 0xBFFF6 10"
  have g: "grown ?J True u w2" by (rule grown_trans[OF grown_mono[OF w1(4)] grown_mono[OF w2(4)]]) auto
  have J: "\<exists>v. dir_of v = i \<and> unat v < 0xC0000000" if i: "i \<in> ?J" for i
  proof -
    obtain x where "dir_of x = i" "page_of x < 0xC0000"
      using i dirs_of_page[of i 0 ?n] dirs_of_page[of i "0xBFFF6" 10] n by fastforce
    then show ?thesis unfolding page_of_def by (auto simp: div_less_iff_less_mult)
  qed
  have noJ: "\<forall>i \<in> ?J. \<not> has_table u i"
    using J low by (fastforce simp: has_table_def entry_present_def)
  let ?r = "e AND PAGE_FRAME"
  define z where "z = w2\<lparr>cr3 := ?r, current_page_directory := P2V ?r\<rparr>"
  have ramu: "ram u = ram t" by (simp add: d(5))
  have rt: "entry_frame ?r = directory t" using d(4) t(4) by simp
  note home = returned_space[OF t(1,2) w2(2) g u(3,4) ramu noJ z_def rt]
  have ramz: "ram z = ram w2" by (simp add: z_def)
  have dirw: "directory w2 = entry_frame pd" using grownD(2)[OF g] u(3) by simp
  show ?thesis
  proof (rule that[OF d(1-3) w1(1)[unfolded d(5)] w2(1) z_def])
    obtain m b c where t': "t = s\<lparr>bitmap := b, used_blocks := c, ram := m\<rparr>" using t(5) by (auto simp: pages_changed_def)
    obtain m' b' c' where "w2 = u\<lparr>bitmap := b', used_blocks := c', ram := m'\<rparr>" using grownD(1)[OF g] by (auto simp: pages_changed_def)
    then have "z = s\<lparr>bitmap := b', used_blocks := c', ram := m', cr3 := ?r, current_page_directory := P2V ?r\<rparr>"
      by (simp add: z_def d(5) t')
    then show "\<exists>m b c r d. z = s\<lparr>bitmap := b, used_blocks := c, ram := m, cr3 := r, current_page_directory := d\<rparr>" by blast
    have same: "translate z v = translate s v" if "dir_of v \<noteq> 1023" for v using home(3) t(6) that by simp
    then show "\<forall>v. dir_of v \<noteq> 1023 \<longrightarrow> translate z v = translate s v" by blast
    have "kernel_private z" using t(3) by (simp add: kernel_private_def home(2))
    then show "kernel_ready z"
      using assms(1) home(4) same[of KERNEL_HEAP_END_VIRT] temporary_page(2) by (simp add: kernel_ready_def)
    show "pool z k" using w2(3) home(6) by simp
    show "directory z = directory s" using home(1) t(4) by simp
    show "\<forall>v. 0xC0000000 \<le> unat v \<and> dir_of v \<noteq> 1023 \<longrightarrow> walk (ram z) (entry_frame pd) v = translate s v"
    proof (intro allI impI)
      fix v assume v: "0xC0000000 \<le> unat v \<and> dir_of v \<noteq> 1023"
      have out: "dir_of v \<notin> ?J" using J[of "dir_of v"] v dir_of_low by (metis linorder_not_less)
      have "walk (ram z) (entry_frame pd) v = translate w2 v"
        using dirw by (simp add: ramz translate_def directory_def)
      also have "\<dots> = translate u v"
      proof (rule translate_cong)
        show "dir_entry w2 (dir_of v) = dir_entry u (dir_of v)" by (rule grownD(5)[OF g out])
        assume h: "has_table u (dir_of v)"
        have "ram w2 (table_frame u (dir_of v)) = ram u (table_frame u (dir_of v))"
          by (rule grownD(4)[OF g space_okD(4)[OF u(1) h] space_okD(5)[OF u(1) h]]) (use v noJ in auto)
        then show "ram w2 (table_frame u (dir_of v)) (table_of v) = ram u (table_frame u (dir_of v)) (table_of v)" by simp
      qed
      also have "\<dots> = translate s v" using high v by blast
      finally show "walk (ram z) (entry_frame pd) v = translate s v" .
    qed
    have u0: "dir_entry u i = 0" if i: "unat i < 768" for i
    proof -
      have "unat (of_nat (unat i * 2 ^ 22) :: u32) = unat i * 2 ^ 22" by (rule of_nat_unat_u32) (use i in simp)
      then have "dir_of (of_nat (unat i * 2 ^ 22)) = i" "unat (of_nat (unat i * 2 ^ 22) :: u32) < 0xC0000000"
        using i by (simp_all add: dir_of_iff)
      then show ?thesis using low by metis
    qed
    have "process_space (ram w2) (directory w2) ?n p q"
      by (rule process_space_built[OF u0 u(5) _ n'(2) w1(4) w2(4) p q c1 o1 c2 o2]) (use low dir_of_low in auto)
    then show "process_space (ram z) (entry_frame pd) ?n p q" by (simp add: ramz dirw)
    show "\<forall>i < unat len. byte (ram z) (code_frame p i) (of_nat i) = byte (ram s) (S i) (code + of_nat i)"
    proof (intro allI impI)
      fix i assume i: "i < unat len"
      have "i div 4096 < ?n" using i assms(3) by (simp add: div_less_iff_less_mult)
      from run_frame(2)[OF p this] have f: "code_frame p i \<in> run_frames ?n p" by (simp add: code_frame_def)
      have "ram w2 (code_frame p i) = ram w1 (code_frame p i)"
        by (rule grownD(4)[OF w2(4)]) (use f fp off1 in \<open>auto simp: run_frames_def off_tables_def\<close>)
      then show "byte (ram z) (code_frame p i) (of_nat i) = byte (ram s) (S i) (code + of_nat i)"
        using bytes src(2) i by (simp add: byte_def ramz)
    qed
    show "unat pd mod 4096 = 0" by (rule pd(1))
    have k1: "block_used u m \<Longrightarrow> block_used w1 m" for m using grownD(3)[OF w1(4)] .
    have k2: "block_used w1 m \<Longrightarrow> block_used z m" for m using grownD(3)[OF w2(4)] home(5) by simp
    have k0: "block_used s m \<Longrightarrow> block_used u m" for m using pages_changed_fields(10)[OF t(5)] u(4) by simp
    show "frames ?n p \<inter> frames 10 q = {}" using fp fq by blast
    have F: "unat (entry_frame pd) = unat pd div 4096" by (rule unat_entry_frame)
    show "unat pd div 4096 \<notin> frames ?n p \<union> frames 10 q" using fp fq pd(3) k1 unfolding F by blast
    show "\<forall>n \<in> process_blocks pd ?n p q. \<not> block_used s n \<and> block_used z n"
    proof
      fix m assume "m \<in> process_blocks pd ?n p q"
      then consider "m = unat pd div 4096" | "m \<in> frames ?n p" | "m \<in> frames 10 q" by (auto simp: process_blocks_def)
      then show "\<not> block_used s m \<and> block_used z m"
      proof cases
        case 1
        then show ?thesis using pd(2,3) k1 k2 unfolding F by blast
      next
        case 2
        then show ?thesis using fp k0 k2 by blast
      next
        case 3
        then show ?thesis using fq k0 k1 home(5) by auto
      qed
    qed
    have offz: "off_tables z {f}" if "off_tables t {f}" for f
      using that by (simp add: off_tables_def home(1,2) has_table_def table_frame_def)
    have "off_tables z {f} \<and> ram z f = ram s f" if "block_used s (unat f)" "off_tables s {f}" for f
    proof -
      have o: "f \<noteq> entry_frame pd" "off_tables t {f}" "ram t f = ram s f" using other that by blast+
      have "ram w2 f = ram u f" by (rule grownD(4)[OF g]) (use that o(1) k0 noJ u(3) in auto)
      then show ?thesis using o(2,3) offz by (simp add: ramz ramu)
    qed
    then show "leaves_frames s z" using k0 k1 k2 by (simp add: leaves_frames_def)
    note built = built_tables[OF n'(2) w2(4) c1 c2]
    have tables: "\<not> entry_large (ram z (entry_frame pd) i) \<and> block_used z (unat (entry_frame (ram z (entry_frame pd) i)))
        \<and> off_tables z {entry_frame (ram z (entry_frame pd) i)}"
      "\<not> block_used s (unat (entry_frame (ram z (entry_frame pd) i)))
        \<and> unat (entry_frame (ram z (entry_frame pd) i)) \<notin> frames ?n p \<union> frames 10 q"
      if i: "entry_present (ram z (entry_frame pd) i)" "entry_user (ram z (entry_frame pd) i)" for i
    proof -
      have e: "ram z (entry_frame pd) i = dir_entry w2 i" by (simp add: ramz dir_entry_def dirw)
      have J: "i \<in> ?J"
      proof (rule ccontr)
        assume "i \<notin> ?J"
        then have "dir_entry w2 i = dir_entry u i" by (rule grownD(5)[OF g])
        then show False using i u(5) u0[of i] unfolding e kernel_private_def
          by (cases "unat i < 768") (auto simp: entry_present_def)
      qed
      have h: "has_table w2 i" "\<not> has_table u i" using built(1)[OF J] noJ J by blast+
      have fresh: "\<not> block_used u (unat (table_frame w2 i))" by (rule grownD(7)[OF g h])
      have rec: "has_table t 1023" "table_frame t 1023 = directory t" using space_okD(1)[OF t(1)] by (simp_all add: recursive_def)
      have "off_tables t {table_frame w2 i}"
        using fresh space_okD(4)[OF t(1)] rec unfolding off_tables_def u(4) by (metis singletonD)
      then show "\<not> entry_large (ram z (entry_frame pd) i) \<and> block_used z (unat (entry_frame (ram z (entry_frame pd) i)))
        \<and> off_tables z {entry_frame (ram z (entry_frame pd) i)}"
        using h(1) space_okD(4)[OF w2(2) h(1)] offz home(5) by (simp add: e has_table_def table_frame_def)
      have "off_tables w2 (run_frames ?n p)" by (rule grown_off[OF w2(4) off1]) (use fp in \<open>simp add: run_frames_def\<close>)
      then have "table_frame w2 i \<notin> run_frames ?n p \<union> run_frames 10 q" using off2 h(1) by (simp add: off_tables_def)
      then show "\<not> block_used s (unat (entry_frame (ram z (entry_frame pd) i)))
        \<and> unat (entry_frame (ram z (entry_frame pd) i)) \<notin> frames ?n p \<union> frames 10 q"
        using fresh k0 by (auto simp: e table_frame_def run_frames_def)
    qed
    have "block_used z (unat (entry_frame pd))" using pd(3) k1 k2 by blast
    moreover have "off_tables z {entry_frame pd}" by (rule offz[OF t(2)])
    moreover have "self_mapped (ram z) (entry_frame pd)"
      using space_okD(1)[OF w2(2)] by (simp add: recursive_self dirw ramz)
    ultimately show "own_tables z (entry_frame pd)" using tables(1) by (simp add: own_tables_def)
    show "\<forall>i. entry_present (ram z (entry_frame pd) i) \<and> entry_user (ram z (entry_frame pd) i) \<longrightarrow>
       \<not> block_used s (unat (entry_frame (ram z (entry_frame pd) i)))
       \<and> unat (entry_frame (ram z (entry_frame pd) i)) \<notin> frames (unat num) p \<union> frames 10 q" using tables(2) by blast
    show "unat p mod 4096 = 0" "unat p + unat num * 4096 \<le> 2 ^ 32" "unat q mod 4096 = 0" "unat q + 10 * 4096 \<le> 2 ^ 32"
      using p q by simp_all
    show "entry_present (dir_entry z 833)" using t833 home(2) by simp
    have "placed (ram z) pd ?n p q b c \<and> frontier z (c + ?n + 12)"
      if b: "frontier s b" "?n \<le> 1024" and c: "c = (if entry_present (dir_entry s 833) then b + 1 else b + 2)" for b c
    proof -
      have 1: "unat p = c * 4096" "unat (table_frame w1 0) = c + ?n" "frontier w1 (c + ?n + 1)"
        using pl1 pl0 b c u0[of 0] by simp_all
      have d0: "dir_of 0 = 0" "page_of 0 = 0" by (simp_all add: dir_of_iff page_of_def)
      have "(767 :: 10 word) \<notin> dirs_of 0 ?n" using b(2) by (auto simp: dirs_of_def)
      then have "dir_entry w1 767 = 0" using grownD(5)[OF w1(4)] u0[of 767] by simp
      then have 2: "unat q = (c + ?n + 1) * 4096" "unat (table_frame w2 767) = c + ?n + 1 + 10" "frontier w2 (c + ?n + 1 + 11)"
        using pl2 1(3) by blast+
      have "has_table w1 0" using c1[rule_format, of 0] d0 assms(3) by simp
      then have "table_frame w2 0 = table_frame w1 0" using grownD(9)[OF w2(4)] by simp
      moreover have "entry_frame (ram z (entry_frame pd) i) = table_frame w2 i" for i
        by (simp add: ramz table_frame_def dir_entry_def dirw)
      moreover have "frontier z (c + ?n + 12)" using 2(3) home(5) by (simp add: frontier_def searched_def z_def add.commute)
      ultimately show ?thesis using 1(1,2) 2(1,2) pl0 b(1) by (simp add: placed_def)
    qed
    then show "\<forall>b c. frontier s b \<and> unat num \<le> 1024 \<and> c = (if entry_present (dir_entry s 833) then b + 1 else b + 2) \<longrightarrow>
       placed (ram z) pd (unat num) p q b c \<and> frontier z (c + unat num + 12)" by blast
    show "\<forall>f. unat f \<in> process_blocks pd ?n p q \<longrightarrow> off_tables z {f}"
    proof (intro allI impI)
      fix f :: frame assume f: "unat f \<in> process_blocks pd ?n p q"
      show "off_tables z {f}"
      proof (cases "unat f = unat pd div 4096")
        case True
        then have "f = entry_frame pd" by (simp add: word_unat_eq_iff unat_entry_frame)
        then show ?thesis using offz[OF t(2)] by simp
      next
        case False
        then have "\<not> block_used t (unat f)" using f fp fq k1 u(4) by (auto simp: process_blocks_def)
        then show ?thesis using offz off_tables_fresh[OF t(1), of "{f}"] by simp
      qed
    qed
  qed
qed

section \<open>Creating a process\<close>

text \<open>Everything said about address spaces depends on memory, \<open>cr3\<close> and the bitmap alone.\<close>

lemma same_space:
  assumes "ram s' = ram s" "cr3 s' = cr3 s" "bitmap s' = bitmap s" "used_blocks s' = used_blocks s" "max_blocks s' = max_blocks s"
  shows "directory s' = directory s" "dir_entry s' = dir_entry s" "translate s' = translate s" "has_table s' = has_table s"
    "table_frame s' = table_frame s" "block_used s' = block_used s" "space_ok s' = space_ok s" "pool s' k = pool s k"
    "kernel_ready s' = kernel_ready s" "kernel_source s' code n S = kernel_source s code n S" "off_tables s' U = off_tables s U"
    "frontier s' b = frontier s b" "own_tables s' f = own_tables s f" "leaves_frames s' t = leaves_frames s t" "leaves_frames t s' = leaves_frames t s"
proof -
  show d: "directory s' = directory s" by (simp add: directory_def assms)
  then show e: "dir_entry s' = dir_entry s" by (simp add: dir_entry_def assms fun_eq_iff)
  show t: "translate s' = translate s" by (simp add: translate_def assms fun_eq_iff)
  show h: "has_table s' = has_table s" "table_frame s' = table_frame s" by (simp_all add: has_table_def table_frame_def e fun_eq_iff)
  show u: "block_used s' = block_used s" by (simp add: block_used_def assms fun_eq_iff)
  show sp: "space_ok s' = space_ok s" by (simp add: space_ok_def recursive_def pmm_ok_def h u d assms)
  show "pool s' k = pool s k" "frontier s' b = frontier s b" by (simp_all add: pool_def frontier_def searched_def u assms)
  show "kernel_ready s' = kernel_ready s" by (simp add: kernel_ready_def kernel_private_def sp t e)
  show o: "off_tables s' U = off_tables s U" for U by (simp add: off_tables_def d h)
  show "kernel_source s' code n S = kernel_source s code n S" by (simp add: kernel_source_def t u o)
  show "own_tables s' f = own_tables s f" by (simp add: own_tables_def u o assms(1))
  show "leaves_frames s' t = leaves_frames s t" "leaves_frames t s' = leaves_frames t s" by (simp_all add: leaves_frames_def u o assms(1))
qed

lemma kmalloc_grants:
  assumes "unat (heap_pointer s) + unat n < 0xD0400000"
  shows "kmalloc n s = Ok (heap_pointer s) (s\<lparr>heap_pointer := heap_pointer s + n\<rparr>)"
proof -
  have "unat (heap_pointer s + n) = unat (heap_pointer s) + unat n" by (rule unat_sum) (use assms in simp)
  then show ?thesis using assms by (simp add: kmalloc_def heap_limits)
qed

text \<open>\<open>in_ring ps s\<close>: the ring, or that there is none yet; \<open>joined\<close>: the ring with a new process behind the current one.\<close>

fun in_ring :: "u32 list \<Rightarrow> 's proc_scheme \<Rightarrow> bool" where
  "in_ring [] s \<longleftrightarrow> current_process s = 0"
| "in_ring (c # ps) s \<longleftrightarrow> scheduled (c # ps) s"

fun joined :: "u32 \<Rightarrow> u32 list \<Rightarrow> u32 list" where
  "joined n [] = [n]"
| "joined n (c # ps) = c # n # ps"

lemma proc_insert_joins:
  assumes "processes s n = Some y" "n \<noteq> 0" "in_ring ps s" "n \<notin> set ps"
  obtains s' m c q where "proc_insert n s = Ok () s'" "scheduled (joined n ps) s'"
    "s' = s\<lparr>current_process := c, processes := m\<rparr>" "m n = Some (y\<lparr>p_next := q\<rparr>)"
    "\<forall>r. r \<noteq> n \<longrightarrow> map_option (\<lambda>x. x\<lparr>p_next := 0\<rparr>) (m r) = map_option (\<lambda>x. x\<lparr>p_next := 0\<rparr>) (processes s r)"
proof (cases ps)
  case Nil
  then have "current_process s = 0" using assms(3) by simp
  from proc_insert_links(1)[OF assms(1,2) this] obtain s' where
    "proc_insert n s = Ok () s'" "scheduled [n] s'" "s' = s\<lparr>current_process := n, processes := (processes s)(n \<mapsto> y\<lparr>p_next := n\<rparr>)\<rparr>" by blast
  then show ?thesis by (intro that[of s' "(processes s)(n \<mapsto> y\<lparr>p_next := n\<rparr>)" n n]) (simp_all add: Nil)
next
  case (Cons c qs)
  then have sch: "scheduled (c # qs) s" "n \<notin> set (c # qs)" using assms(3,4) by simp_all
  then obtain x where x: "processes s c = Some x" using ring_member[of "processes s" "c # qs" c] by (auto simp: scheduled_def)
  let ?m = "(processes s)(c \<mapsto> x\<lparr>p_next := n\<rparr>, n \<mapsto> y\<lparr>p_next := p_next x\<rparr>)"
  from proc_insert_links(2)[OF assms(1,2) sch x] obtain s' where
    "proc_insert n s = Ok () s'" "scheduled (c # n # qs) s'" "s' = s\<lparr>processes := ?m\<rparr>" by blast
  then show ?thesis using x by (intro that[of s' ?m "current_process s" "p_next x"]) (simp_all add: Cons)
qed

lemma proc_run_code_runs:
  assumes ready: "kernel_ready s" "pool s (2 * (unat len div 4096 + 1) + 22 + k)" "kernel_source s code (unat len) S"
    and heap: "0xD0000000 \<le> unat (heap_pointer s)" "unat (heap_pointer s) + 4196 < 0xD0400000"
    and ring: "in_ring ps s" "heap_pointer s \<notin> set ps"
  defines "n \<equiv> heap_pointer s" and "num \<equiv> unat len div 4096 + 1"
  obtains s' x pd p q where "proc_run_code code len s = Ok () s'"
    "scheduled (joined n ps) s'" "processes s' n = Some x" "p_pid x = next_pid s" "p_code_len x = of_nat num" "p_stack_len x = 10"
    "p_directory x = pd" "p_kernel_stack x = n + 4195" "p_registers x = initial_registers" "next_pid s' = next_pid s + 1"
    "\<forall>r. r \<noteq> n \<longrightarrow> map_option (\<lambda>x. x\<lparr>p_next := 0\<rparr>) (processes s' r) = map_option (\<lambda>x. x\<lparr>p_next := 0\<rparr>) (processes s r)"
    "unat (heap_pointer s') = unat (heap_pointer s) + 4196" "con s' = con s" "max_blocks s' = max_blocks s"
    "\<exists>m b c r d h pr cp ni. s' = s\<lparr>bitmap := b, used_blocks := c, heap_pointer := h, ram := m, cr3 := r, current_page_directory := d,
       processes := pr, current_process := cp, next_pid := ni\<rparr>"
    "kernel_ready s'" "pool s' k" "directory s' = directory s" "\<forall>v. dir_of v \<noteq> 1023 \<longrightarrow> translate s' v = translate s v"
    "\<forall>v. 0xC0000000 \<le> unat v \<and> dir_of v \<noteq> 1023 \<longrightarrow> walk (ram s') (entry_frame pd) v = translate s v"
    "process_space (ram s') (entry_frame pd) num p q"
    "\<forall>i < unat len. byte (ram s') (code_frame p i) (of_nat i) = byte (ram s) (S i) (code + of_nat i)"
    "unat pd mod 4096 = 0" "frames num p \<inter> frames 10 q = {}" "unat pd div 4096 \<notin> frames num p \<union> frames 10 q"
    "\<forall>b \<in> process_blocks pd num p q. \<not> block_used s b \<and> block_used s' b"
    "leaves_frames s s'" "own_tables s' (entry_frame pd)"
    "unat p mod 4096 = 0" "unat p + num * 4096 \<le> 2 ^ 32" "unat q mod 4096 = 0" "unat q + 10 * 4096 \<le> 2 ^ 32"
    "\<forall>f. unat f \<in> process_blocks pd num p q \<longrightarrow> off_tables s' {f}"
    "\<forall>i. entry_present (ram s' (entry_frame pd) i) \<and> entry_user (ram s' (entry_frame pd) i) \<longrightarrow>
       \<not> block_used s (unat (entry_frame (ram s' (entry_frame pd) i)))
       \<and> unat (entry_frame (ram s' (entry_frame pd) i)) \<notin> frames num p \<union> frames 10 q"
    "entry_present (dir_entry s' 833)"
    "\<forall>b c. frontier s b \<and> num \<le> 1024 \<and> c = (if entry_present (dir_entry s 833) then b + 1 else b + 2) \<longrightarrow>
       placed (ram s') pd num p q b c \<and> frontier s' (c + num + 12)"
proof -
  have size: "sizeof_process = 100" "unat PAGE_SIZE = 4096" by (simp_all add: sizeof_process_def PAGE_SIZE_def)
  let ?pages = "len div PAGE_SIZE + 1"
  have num: "unat ?pages = num"
  proof -
    have "unat (len div PAGE_SIZE) = unat len div 4096" by (simp add: unat_div size(2))
    moreover have "unat len div 4096 < 0x100000" by (rule less_mult_imp_div_less) simp
    then have "unat len div 4096 + 1 < 2 ^ 32" by simp
    ultimately show ?thesis unfolding num_def by (intro unat_sum2) simp_all
  qed
  let ?s0 = "s\<lparr>heap_pointer := n + 100\<rparr>" and ?s1 = "s\<lparr>heap_pointer := n + 100 + 4096\<rparr>"
  have u: "unat (n + 100) = unat n + 100" by (rule unat_sum2) (use heap in \<open>simp_all add: n_def\<close>)
  have u2: "unat (n + 100 + 4096) = unat n + 4196" by (subst unat_sum2[OF u, of 4096 4096]) (use heap in \<open>simp_all add: n_def\<close>)
  have k1: "kmalloc sizeof_process s = Ok n ?s0"
    using kmalloc_grants[of s sizeof_process] heap by (simp add: size n_def)
  have k2: "kmalloc PAGE_SIZE ?s0 = Ok (n + 100) ?s1"
    using kmalloc_grants[of ?s0 PAGE_SIZE] heap u by (simp add: size(2) n_def) (simp add: PAGE_SIZE_def)
  have same1: "ram ?s1 = ram s" "cr3 ?s1 = cr3 s" "bitmap ?s1 = bitmap s" "used_blocks ?s1 = used_blocks s" "max_blocks ?s1 = max_blocks s"
    by simp_all
  note same1 = same_space[OF this]
  have ready1: "kernel_ready ?s1" "pool ?s1 (2 * unat ?pages + 22 + k)" "kernel_source ?s1 code (unat len) S"
    using ready by (simp_all only: same1 num num_def)
  have pages: "unat ?pages = unat len div 4096 + 1" by (simp add: num num_def)
  obtain pd s2 t e w1 w2 z p q where run: "pmm_alloc_page ?s1 = Ok pd s2" "proc_make_directory pd s2 = Ok () t"
    "andthen (paging_get_page 0xFFFFF000 False 0) read32 t = Ok e t"
    "proc_load_code code len ?pages (t\<lparr>cr3 := pd, current_page_directory := P2V pd\<rparr>) = Ok () w1"
    "proc_map_stack PROC_KERNEL_STACK_PAGES w1 = Ok () w2"
    "z = w2\<lparr>cr3 := e AND PAGE_FRAME, current_page_directory := P2V (e AND PAGE_FRAME)\<rparr>"
    and chg: "\<exists>m b c r d. z = ?s1\<lparr>bitmap := b, used_blocks := c, ram := m, cr3 := r, current_page_directory := d\<rparr>"
    and z: "kernel_ready z" "pool z k" "directory z = directory ?s1" "\<forall>v. dir_of v \<noteq> 1023 \<longrightarrow> translate z v = translate ?s1 v"
    and sp: "\<forall>v. 0xC0000000 \<le> unat v \<and> dir_of v \<noteq> 1023 \<longrightarrow> walk (ram z) (entry_frame pd) v = translate ?s1 v"
    "process_space (ram z) (entry_frame pd) (unat ?pages) p q"
    "\<forall>i < unat len. byte (ram z) (code_frame p i) (of_nat i) = byte (ram ?s1) (S i) (code + of_nat i)"
    and bl: "unat pd mod 4096 = 0" "frames (unat ?pages) p \<inter> frames 10 q = {}"
    "unat pd div 4096 \<notin> frames (unat ?pages) p \<union> frames 10 q"
    "\<forall>n \<in> process_blocks pd (unat ?pages) p q. \<not> block_used ?s1 n \<and> block_used z n"
    and other: "leaves_frames ?s1 z" "own_tables z (entry_frame pd)"
    "unat p mod 4096 = 0" "unat p + unat ?pages * 4096 \<le> 2 ^ 32" "unat q mod 4096 = 0" "unat q + 10 * 4096 \<le> 2 ^ 32"
    "\<forall>f. unat f \<in> process_blocks pd (unat ?pages) p q \<longrightarrow> off_tables z {f}"
    "\<forall>i. entry_present (ram z (entry_frame pd) i) \<and> entry_user (ram z (entry_frame pd) i) \<longrightarrow>
       \<not> block_used ?s1 (unat (entry_frame (ram z (entry_frame pd) i)))
       \<and> unat (entry_frame (ram z (entry_frame pd) i)) \<notin> frames (unat ?pages) p \<union> frames 10 q"
    "entry_present (dir_entry z 833)"
    "\<forall>b c. frontier ?s1 b \<and> unat ?pages \<le> 1024 \<and> c = (if entry_present (dir_entry ?s1 833) then b + 1 else b + 2) \<longrightarrow>
       placed (ram z) pd (unat ?pages) p q b c \<and> frontier z (c + unat ?pages + 12)"
    by (rule space_built[OF ready1(1,2) pages ready1(3)]) (rule that; assumption)
  obtain m b c r d where zs: "z = ?s1\<lparr>bitmap := b, used_blocks := c, ram := m, cr3 := r, current_page_directory := d\<rparr>"
    using chg by blast
  let ?y = "\<lparr>p_next = 0, p_pid = next_pid s, p_stack_len = PROC_KERNEL_STACK_PAGES, p_code_len = ?pages, p_directory = pd,
    p_kernel_stack = n + 100 + PAGE_SIZE - 1, p_registers = initial_registers\<rparr>"
  let ?z1 = "z\<lparr>next_pid := next_pid s + 1, processes := (processes s)(n \<mapsto> ?y)\<rparr>"
  have n0: "n \<noteq> 0" using heap(1) by (auto simp: n_def)
  have ins: "processes ?z1 n = Some ?y" "in_ring ps ?z1" "n \<notin> set ps"
  proof -
    show "processes ?z1 n = Some ?y" by simp
    show n: "n \<notin> set ps" using ring(2) by (simp add: n_def)
    show "in_ring ps ?z1"
    proof (cases ps)
      case Nil
      then show ?thesis using ring(1) by (simp add: zs)
    next
      case (Cons a qs)
      then show ?thesis using ring(1) n by (auto simp: zs scheduled_def ring_Cons chain_other)
    qed
  qed
  obtain s' mm cp nx where s': "proc_insert n ?z1 = Ok () s'" "scheduled (joined n ps) s'"
    "s' = ?z1\<lparr>current_process := cp, processes := mm\<rparr>" "mm n = Some (?y\<lparr>p_next := nx\<rparr>)"
    and mo: "\<forall>r. r \<noteq> n \<longrightarrow> map_option (\<lambda>x. x\<lparr>p_next := 0\<rparr>) (mm r) = map_option (\<lambda>x. x\<lparr>p_next := 0\<rparr>) (processes ?z1 r)"
    by (rule proc_insert_joins[OF ins(1) n0 ins(2,3)]) (rule that; assumption)
  have z_np: "next_pid z = next_pid s" "processes z = processes s" by (simp_all add: zs)
  have exec: "proc_run_code code len s = Ok () s'"
    using k1 k2 run(1-5) s'(1) n0 z_np unfolding run(6)
    by (simp add: proc_run_code_def Let_def paging_switch_directory_def store_process_def)
  have same2: "ram s' = ram z" "cr3 s' = cr3 z" "bitmap s' = bitmap z" "used_blocks s' = used_blocks z" "max_blocks s' = max_blocks z"
    by (simp_all add: s'(3))
  note eq = same_space[OF same2]
  have ram1: "ram ?s1 = ram s" by simp
  show ?thesis
  proof (rule that[OF exec s'(2)])
    show "processes s' n = Some (?y\<lparr>p_next := nx\<rparr>)" using s'(3,4) by simp
    show "p_pid (?y\<lparr>p_next := nx\<rparr>) = next_pid s" "p_registers (?y\<lparr>p_next := nx\<rparr>) = initial_registers"
      "p_directory (?y\<lparr>p_next := nx\<rparr>) = pd" "p_stack_len (?y\<lparr>p_next := nx\<rparr>) = 10" by (simp_all add: PROC_KERNEL_STACK_PAGES_def)
    show "p_code_len (?y\<lparr>p_next := nx\<rparr>) = of_nat num" using num by (metis process.select_convs(4) process.update_convs(1) ucast_id of_nat_unat)
    show "p_kernel_stack (?y\<lparr>p_next := nx\<rparr>) = n + 4195" by (simp add: PAGE_SIZE_def)
    show "next_pid s' = next_pid s + 1" by (simp add: s'(3))
    show "\<forall>r. r \<noteq> n \<longrightarrow> map_option (\<lambda>x. x\<lparr>p_next := 0\<rparr>) (processes s' r) = map_option (\<lambda>x. x\<lparr>p_next := 0\<rparr>) (processes s r)"
      using mo by (simp add: s'(3))
    show "unat (heap_pointer s') = unat (heap_pointer s) + 4196" using u2 by (simp add: s'(3) zs n_def)
    show "con s' = con s" "max_blocks s' = max_blocks s" by (simp_all add: s'(3) zs)
    show "\<exists>m b c r d h pr cp ni. s' = s\<lparr>bitmap := b, used_blocks := c, heap_pointer := h, ram := m, cr3 := r, current_page_directory := d,
       processes := pr, current_process := cp, next_pid := ni\<rparr>"
      by (rule exI[of _ m], rule exI[of _ b], rule exI[of _ c], rule exI[of _ r], rule exI[of _ d], rule exI[of _ "n + 100 + 4096"],
          rule exI[of _ mm], rule exI[of _ cp], rule exI[of _ "next_pid s + 1"]) (simp add: s'(3) zs)
    show "unat pd mod 4096 = 0" by (rule bl(1))
  qed (use z sp bl other in \<open>simp_all only: eq same1 num same2(1) ram1 simp_thms\<close>)
qed

section \<open>Several processes\<close>

definition user_frames :: "memory \<Rightarrow> frame \<Rightarrow> frame set" where
  "user_frames m d = {f. \<exists>v b. user_page m d v = Some (f, b)}"

text \<open>
  The frames that the processor reads on the way to them: the directory and its tables. In a space of its own
  a process does not reach its own tables, and no frame is mapped both writable and read-only.
\<close>

definition table_frames :: "memory \<Rightarrow> frame \<Rightarrow> frame set" where
  "table_frames m d = insert d {entry_frame (m d i) | i. entry_present (m d i) \<and> entry_user (m d i)}"

definition held :: "memory \<Rightarrow> frame \<Rightarrow> frame set" where
  "held m d = user_frames m d \<union> table_frames m d"

definition own_space :: "memory \<Rightarrow> frame \<Rightarrow> bool" where
  "own_space m d \<longleftrightarrow> user_frames m d \<inter> table_frames m d = {}
     \<and> (\<forall>v w f. user_page m d v = Some (f, True) \<longrightarrow> user_page m d w \<noteq> Some (f, False))
     \<and> (\<forall>i. entry_present (m d i) \<and> entry_user (m d i) \<longrightarrow> \<not> entry_large (m d i))"

text \<open>User mode finds the bytes that lay at \<open>code\<close> from address 0 on, and cannot write them.\<close>

definition program_loaded :: "'s vmm_scheme \<Rightarrow> memory \<Rightarrow> frame \<Rightarrow> u32 \<Rightarrow> u32 \<Rightarrow> bool" where
  "program_loaded s m d code len \<longleftrightarrow> (\<forall>k < unat len. \<exists>f g. user_page m d (of_nat k) = Some (f, False)
     \<and> translate s (code + of_nat k) = Some g \<and> byte m f (of_nat k) = byte (ram s) g (code + of_nat k))"

lemma process_space_page:
  assumes "process_space m d num p q" "unat p mod 4096 = 0" "unat p + num * 4096 \<le> 2 ^ 32"
    "unat q mod 4096 = 0" "unat q + 10 * 4096 \<le> 2 ^ 32" "user_page m d v = Some (f, b)"
  shows "unat f \<in> (if b then frames 10 q else frames num p)"
proof -
  have u: "user_page m d v =
     (if page_of v < num then Some (entry_frame (p + of_nat (page_of v) * PAGE_SIZE), False)
      else if 0xBFFF6 \<le> page_of v \<and> page_of v < 0xC0000 then Some (entry_frame (q + of_nat (page_of v - 0xBFFF6) * PAGE_SIZE), True)
      else None)" using assms(1) by (simp only: process_space_def)
  show ?thesis
  proof (cases "page_of v < num")
    case True
    then have "f = entry_frame (p + of_nat (page_of v) * PAGE_SIZE)" "\<not> b" using u assms(6) by simp_all
    then show ?thesis using run_frame(2)[OF assms(2,3) True] by (simp add: run_frames_def)
  next
    case False
    then have r: "0xBFFF6 \<le> page_of v" "page_of v < 0xC0000" and f: "f = entry_frame (q + of_nat (page_of v - 0xBFFF6) * PAGE_SIZE)" "b"
      using u assms(6) by (auto split: if_splits)
    have "page_of v - 0xBFFF6 < 10" using r by simp
    from run_frame(2)[OF assms(4,5) this] f show ?thesis by (simp add: run_frames_def)
  qed
qed

lemma user_frames_blocks:
  assumes "process_space m (entry_frame pd) num p q" "unat p mod 4096 = 0" "unat p + num * 4096 \<le> 2 ^ 32"
    "unat q mod 4096 = 0" "unat q + 10 * 4096 \<le> 2 ^ 32" "f \<in> user_frames m (entry_frame pd)"
  shows "unat f \<in> process_blocks pd num p q"
proof -
  obtain v b where "user_page m (entry_frame pd) v = Some (f, b)" using assms(6) by (auto simp: user_frames_def)
  from process_space_page[OF assms(1-5) this] show ?thesis by (auto simp: process_blocks_def split: if_splits)
qed

lemma own_space_built:
  assumes "process_space m (entry_frame pd) num p q" "unat p mod 4096 = 0" "unat p + num * 4096 \<le> 2 ^ 32"
    "unat q mod 4096 = 0" "unat q + 10 * 4096 \<le> 2 ^ 32"
    and "frames num p \<inter> frames 10 q = {}" "unat pd div 4096 \<notin> frames num p \<union> frames 10 q" "own_tables s (entry_frame pd)" "m = ram s"
    and tables: "\<forall>i. entry_present (m (entry_frame pd) i) \<and> entry_user (m (entry_frame pd) i) \<longrightarrow>
       unat (entry_frame (m (entry_frame pd) i)) \<notin> frames num p \<union> frames 10 q"
  shows "own_space m (entry_frame pd)"
proof -
  note page = process_space_page[OF assms(1-5)]
  have "unat f \<in> frames num p \<union> frames 10 q" if f: "f \<in> user_frames m (entry_frame pd)" for f
  proof -
    obtain v b where "user_page m (entry_frame pd) v = Some (f, b)" using f by (auto simp: user_frames_def)
    from page[OF this] show ?thesis by (auto split: if_splits)
  qed
  moreover have "unat f \<notin> frames num p \<union> frames 10 q" if "f \<in> table_frames m (entry_frame pd)" for f
    using that assms(7) tables by (auto simp: table_frames_def unat_entry_frame)
  ultimately have "user_frames m (entry_frame pd) \<inter> table_frames m (entry_frame pd) = {}" by blast
  moreover have "user_page m (entry_frame pd) w \<noteq> Some (f, False)" if "user_page m (entry_frame pd) v = Some (f, True)" for v w f
    using page[of v f True] page[of w f False] assms(6) that by auto
  ultimately show ?thesis using assms(8,9) by (simp add: own_space_def own_tables_def)
qed

lemma process_space_loaded:
  assumes "process_space m d (unat len div 4096 + 1) p q"
    and "\<forall>i < unat len. byte m (code_frame p i) (of_nat i) = byte (ram s) (S i) (code + of_nat i)"
    and "kernel_source s code (unat len) S"
  shows "program_loaded s m d code len"
  unfolding program_loaded_def
proof (intro allI impI)
  fix k assume k: "k < unat len"
  have "k < 2 ^ 32" using less_trans[OF k unat_less_numeral_u32] by simp
  then have pg: "page_of (of_nat k) = k div 4096" by (simp add: page_of_def unat_of_nat)
  have "k div 4096 < unat len div 4096 + 1" using k div_le_mono[of k "unat len" 4096] by simp
  then have "user_page m d (of_nat k) = Some (code_frame p k, False)"
    using assms(1) by (simp add: process_space_def pg code_frame_def)
  moreover have "translate s (code + of_nat k) = Some (S k)" using assms(3) k by (simp add: kernel_source_def)
  ultimately show "\<exists>f g. user_page m d (of_nat k) = Some (f, False) \<and> translate s (code + of_nat k) = Some g
      \<and> byte m f (of_nat k) = byte (ram s) g (code + of_nat k)" using assms(2) k by blast
qed

lemma kernel_source_kept:
  assumes "leaves_frames s s'" "\<forall>v. dir_of v \<noteq> 1023 \<longrightarrow> translate s' v = translate s v" "kernel_source s code n S"
  shows "kernel_source s' code n S"
  using assms unfolding kernel_source_def leaves_frames_def by metis

lemma program_loaded_from:
  assumes "leaves_frames s s'" "\<forall>v. dir_of v \<noteq> 1023 \<longrightarrow> translate s' v = translate s v" "kernel_source s code (unat len) S"
    "program_loaded s' m d code len"
  shows "program_loaded s m d code len"
  unfolding program_loaded_def
proof (intro allI impI)
  fix k assume k: "k < unat len"
  then obtain f g where f: "user_page m d (of_nat k) = Some (f, False)" "translate s' (code + of_nat k) = Some g"
    "byte m f (of_nat k) = byte (ram s') g (code + of_nat k)" using assms(4) unfolding program_loaded_def by blast
  have c: "translate s (code + of_nat k) = Some (S k)" "block_used s (unat (S k))" "off_tables s {S k}" "dir_of (code + of_nat k) \<noteq> 1023"
    using assms(3) k by (simp_all add: kernel_source_def)
  then have "g = S k" "ram s' (S k) = ram s (S k)" using f(2) assms(1,2) by (auto simp: leaves_frames_def)
  then show "\<exists>f g. user_page m d (of_nat k) = Some (f, False) \<and> translate s (code + of_nat k) = Some g
      \<and> byte m f (of_nat k) = byte (ram s) g (code + of_nat k)" using f c(1) by (auto simp: byte_def)
qed

lemma program_loaded_kept:
  assumes "leaves_frames s' t" "own_tables s' d" "program_loaded s (ram s') d code len"
    and "\<forall>f \<in> user_frames (ram s') d. block_used s' (unat f) \<and> off_tables s' {f}"
  shows "program_loaded s (ram t) d code len"
  unfolding program_loaded_def
proof (intro allI impI)
  fix k assume "k < unat len"
  then obtain f g where f: "user_page (ram s') d (of_nat k) = Some (f, False)" "translate s (code + of_nat k) = Some g"
    "byte (ram s') f (of_nat k) = byte (ram s) g (code + of_nat k)" using assms(3) unfolding program_loaded_def by blast
  then have "f \<in> user_frames (ram s') d" unfolding user_frames_def by blast
  then have "ram t f = ram s' f" using assms(1,4) by (auto simp: leaves_frames_def)
  then show "\<exists>f g. user_page (ram t) d (of_nat k) = Some (f, False) \<and> translate s (code + of_nat k) = Some g
      \<and> byte (ram t) f (of_nat k) = byte (ram s) g (code + of_nat k)"
    using f own_tables_kept(2)[OF assms(1,2)] by (auto simp: byte_def)
qed

lemma user_frames_kept:
  "leaves_frames s t \<Longrightarrow> own_tables s d \<Longrightarrow> user_frames (ram t) d = user_frames (ram s) d"
  by (simp add: user_frames_def own_tables_kept(2))

lemma own_space_kept:
  assumes "leaves_frames s t" "own_tables s d"
  shows "ram t d = ram s d" "table_frames (ram t) d = table_frames (ram s) d" "held (ram t) d = held (ram s) d"
    "own_space (ram t) d = own_space (ram s) d" "process_space (ram t) d n p q = process_space (ram s) d n p q"
proof -
  show r: "ram t d = ram s d" using assms unfolding leaves_frames_def own_tables_def by blast
  show f: "table_frames (ram t) d = table_frames (ram s) d" by (simp add: table_frames_def r)
  then show "held (ram t) d = held (ram s) d" by (simp add: held_def user_frames_kept[OF assms])
  show "own_space (ram t) d = own_space (ram s) d"
    by (simp add: own_space_def f r user_frames_kept[OF assms] own_tables_kept(2)[OF assms])
  show "process_space (ram t) d n p q = process_space (ram s) d n p q"
    by (simp add: process_space_def own_tables_kept(2)[OF assms])
qed

lemma table_frames_used: "own_tables s d \<Longrightarrow> f \<in> table_frames (ram s) d \<Longrightarrow> block_used s (unat f)"
  by (auto simp: table_frames_def own_tables_def)

text \<open>The address that process \<open>i\<close> gets when the heap pointer is \<open>h\<close>.\<close>

definition slot :: "u32 \<Rightarrow> nat \<Rightarrow> u32" where "slot h i = h + 4196 * of_nat i"

lemma slot_simps: "slot h 0 = h" "slot h (Suc i) = slot (h + 4196) i"
  by (simp_all add: slot_def algebra_simps)

lemma unat_slot: "unat h + 4196 * i < 2 ^ 32 \<Longrightarrow> unat (slot h i) = unat h + 4196 * i"
proof -
  assume b: "unat h + 4196 * i < 2 ^ 32"
  have "(4196 * of_nat i :: u32) = of_nat (4196 * i)" by simp
  moreover have "unat (of_nat (4196 * i) :: u32) = 4196 * i" by (rule of_nat_unat_u32) (use b in simp)
  ultimately have "unat (4196 * of_nat i :: u32) = 4196 * i" by (simp only:)
  then show ?thesis unfolding slot_def by (rule unat_sum2[OF refl]) (use b in simp)
qed

definition spawn_all :: "(u32 \<times> u32) list \<Rightarrow> ('s proc_scheme, unit) action" where
  "spawn_all codes = foreach codes (\<lambda>(code, len). proc_run_code code len)"

fun blocks_needed :: "(u32 \<times> u32) list \<Rightarrow> nat" where
  "blocks_needed [] = 0"
| "blocks_needed ((code, len) # codes) = 2 * (unat len div 4096 + 1) + 22 + blocks_needed codes"

text \<open>What is known of the process at \<open>n\<close> with directory \<open>d\<close>, of a program taken from memory as it was in \<open>s\<close>.\<close>

definition process_built :: "'s proc_scheme \<Rightarrow> 's proc_scheme \<Rightarrow> u32 \<Rightarrow> frame \<Rightarrow> u32 \<times> u32 \<Rightarrow> bool" where
  "process_built s s' n d c \<longleftrightarrow> (\<exists>x. processes s' n = Some x \<and> entry_frame (p_directory x) = d
       \<and> p_kernel_stack x = n + 4195 \<and> p_registers x = initial_registers)
     \<and> own_tables s' d \<and> program_loaded s (ram s') d (fst c) (snd c)
     \<and> own_space (ram s') d \<and> (\<exists>p q. process_space (ram s') d (unat (snd c) div 4096 + 1) p q)
     \<and> (\<forall>f \<in> user_frames (ram s') d. \<not> block_used s (unat f) \<and> block_used s' (unat f) \<and> off_tables s' {f})
     \<and> (\<forall>f \<in> table_frames (ram s') d. \<not> block_used s (unat f))"

abbreviation unlinked :: "process \<Rightarrow> process" where "unlinked x \<equiv> x\<lparr>p_next := 0\<rparr>"

lemma process_built_kept:
  assumes "process_built s s1 n d c" "leaves_frames s1 s'" "map_option unlinked (processes s' n) = map_option unlinked (processes s1 n)"
  shows "process_built s s' n d c"
proof -
  obtain x where x: "processes s1 n = Some x" "entry_frame (p_directory x) = d" "p_kernel_stack x = n + 4195" "p_registers x = initial_registers"
    and o: "own_tables s1 d" "program_loaded s (ram s1) d (fst c) (snd c)"
    and f: "\<forall>f \<in> user_frames (ram s1) d. \<not> block_used s (unat f) \<and> block_used s1 (unat f) \<and> off_tables s1 {f}"
    and sp: "own_space (ram s1) d \<and> (\<exists>p q. process_space (ram s1) d (unat (snd c) div 4096 + 1) p q)"
      "\<forall>f \<in> table_frames (ram s1) d. \<not> block_used s (unat f)"
    using assms(1) unfolding process_built_def by blast
  obtain y where y: "processes s' n = Some y" "unlinked y = unlinked x" using assms(3) x(1) by auto
  have "p_directory y = p_directory x" "p_kernel_stack y = p_kernel_stack x" "p_registers y = p_registers x"
    using arg_cong[OF y(2), of p_directory] arg_cong[OF y(2), of p_kernel_stack] arg_cong[OF y(2), of p_registers] by simp_all
  then have "\<exists>x. processes s' n = Some x \<and> entry_frame (p_directory x) = d \<and> p_kernel_stack x = n + 4195 \<and> p_registers x = initial_registers"
    using x y(1) by simp
  moreover have "program_loaded s (ram s') d (fst c) (snd c)" using program_loaded_kept[OF assms(2) o] f by blast
  moreover have "\<forall>f \<in> user_frames (ram s') d. \<not> block_used s (unat f) \<and> block_used s' (unat f) \<and> off_tables s' {f}"
    using f assms(2) unfolding user_frames_kept[OF assms(2) o(1)] by (simp add: leaves_frames_def)
  ultimately show ?thesis using own_tables_kept(1)[OF assms(2) o(1)] sp by (simp add: process_built_def own_space_kept[OF assms(2) o(1)])
qed

lemma process_built_from:
  assumes "process_built s1 s' n d c" "leaves_frames s s1" "\<forall>v. dir_of v \<noteq> 1023 \<longrightarrow> translate s1 v = translate s v"
    "kernel_source s (fst c) (unat (snd c)) S"
  shows "process_built s s' n d c"
  using assms program_loaded_from[OF assms(2-4)] unfolding process_built_def leaves_frames_def by blast

text \<open>The rest of the state: all that creating processes leaves alone.\<close>

definition proc_rest :: "'s proc_scheme \<Rightarrow> 's proc_scheme" where
  "proc_rest s = s\<lparr>bitmap := \<lambda>_. 0, used_blocks := 0, heap_pointer := 0, ram := \<lambda>_ _. 0, cr3 := 0, current_page_directory := 0,
     processes := Map.empty, current_process := 0, next_pid := 0\<rparr>"

lemma proc_run_code_built:
  assumes "kernel_ready s" "pool s (2 * (unat len div 4096 + 1) + 22 + k)" "kernel_source s code (unat len) S"
    and "0xD0000000 \<le> unat (heap_pointer s)" "unat (heap_pointer s) + 4196 < 0xD0400000"
    and "in_ring ps s" "heap_pointer s \<notin> set ps"
  obtains s' d where "proc_run_code code len s = Ok () s'" "kernel_ready s'" "pool s' k"
    "\<forall>v. dir_of v \<noteq> 1023 \<longrightarrow> translate s' v = translate s v" "leaves_frames s s'" "heap_pointer s' = heap_pointer s + 4196"
    "in_ring (joined (heap_pointer s) ps) s'" "process_built s s' (heap_pointer s) d (code, len)"
    "\<forall>r. r \<noteq> heap_pointer s \<longrightarrow> map_option unlinked (processes s' r) = map_option unlinked (processes s r)" "con s' = con s"
    "next_pid s' = next_pid s + 1" "proc_rest s' = proc_rest s"
proof -
  obtain s' x pd p q where run: "proc_run_code code len s = Ok () s'"
    and ring: "scheduled (joined (heap_pointer s) ps) s'" and x: "processes s' (heap_pointer s) = Some x"
      "p_directory x = pd" "p_kernel_stack x = heap_pointer s + 4195" "p_registers x = initial_registers"
    and rest: "\<forall>r. r \<noteq> heap_pointer s \<longrightarrow> map_option unlinked (processes s' r) = map_option unlinked (processes s r)"
      "unat (heap_pointer s') = unat (heap_pointer s) + 4196" "con s' = con s" "next_pid s' = next_pid s + 1"
    and frame: "\<exists>m b c r d h pr cp ni. s' = s\<lparr>bitmap := b, used_blocks := c, heap_pointer := h, ram := m, cr3 := r, current_page_directory := d,
       processes := pr, current_process := cp, next_pid := ni\<rparr>"
    and sp: "kernel_ready s'" "pool s' k" "\<forall>v. dir_of v \<noteq> 1023 \<longrightarrow> translate s' v = translate s v"
    and proc: "process_space (ram s') (entry_frame pd) (unat len div 4096 + 1) p q"
      "\<forall>i < unat len. byte (ram s') (code_frame p i) (of_nat i) = byte (ram s) (S i) (code + of_nat i)"
    and bl: "\<forall>b \<in> process_blocks pd (unat len div 4096 + 1) p q. \<not> block_used s b \<and> block_used s' b"
    and own: "leaves_frames s s'" "own_tables s' (entry_frame pd)"
    and al: "unat p mod 4096 = 0" "unat p + (unat len div 4096 + 1) * 4096 \<le> 2 ^ 32" "unat q mod 4096 = 0" "unat q + 10 * 4096 \<le> 2 ^ 32"
    and off: "\<forall>f. unat f \<in> process_blocks pd (unat len div 4096 + 1) p q \<longrightarrow> off_tables s' {f}"
    and dis: "frames (unat len div 4096 + 1) p \<inter> frames 10 q = {}" "unat pd div 4096 \<notin> frames (unat len div 4096 + 1) p \<union> frames 10 q"
    and tab: "\<forall>i. entry_present (ram s' (entry_frame pd) i) \<and> entry_user (ram s' (entry_frame pd) i) \<longrightarrow>
       \<not> block_used s (unat (entry_frame (ram s' (entry_frame pd) i)))
       \<and> unat (entry_frame (ram s' (entry_frame pd) i)) \<notin> frames (unat len div 4096 + 1) p \<union> frames 10 q"
    by (rule proc_run_code_runs[OF assms]) (rule that; assumption)
  have "unat (heap_pointer s + 4196) = unat (heap_pointer s) + 4196" by (rule unat_sum2) (use assms(5) in simp_all)
  then have h: "heap_pointer s' = heap_pointer s + 4196" using rest(2) by (simp only: word_unat_eq_iff)
  have "in_ring (joined (heap_pointer s) ps) s'" using ring by (cases ps) simp_all
  moreover have "process_built s s' (heap_pointer s) (entry_frame pd) (code, len)"
  proof -
    have "own_space (ram s') (entry_frame pd)"
      by (rule own_space_built[OF proc(1) al dis own(2) refl]) (use tab in blast)
    moreover have "\<forall>f \<in> table_frames (ram s') (entry_frame pd). \<not> block_used s (unat f)"
      using tab bl by (auto simp: table_frames_def process_blocks_def unat_entry_frame)
    moreover have "\<exists>p q. process_space (ram s') (entry_frame pd) (unat len div 4096 + 1) p q" using proc(1) by blast
    ultimately show ?thesis
      using x own(2) process_space_loaded[OF proc assms(3)] user_frames_blocks[OF proc(1) al] bl off
      unfolding process_built_def by auto
  qed
  moreover have "proc_rest s' = proc_rest s" using frame by (auto simp: proc_rest_def)
  ultimately show ?thesis using that[OF run sp own(1) h] rest by blast
qed

lemma spawn_all_runs:
  assumes "kernel_ready s" "pool s (blocks_needed codes + k)" "\<forall>c \<in> set codes. \<exists>S. kernel_source s (fst c) (unat (snd c)) S"
    and "0xD0000000 \<le> unat (heap_pointer s)" "unat (heap_pointer s) + 4196 * length codes < 0xD0400000"
    and "in_ring ps s" "\<forall>p \<in> set ps. unat p < unat (heap_pointer s)"
  defines "n \<equiv> length codes" and "h \<equiv> heap_pointer s"
  shows "\<exists>s' ds. spawn_all codes s = Ok () s' \<and> length ds = n \<and> kernel_ready s' \<and> pool s' k
    \<and> (\<forall>v. dir_of v \<noteq> 1023 \<longrightarrow> translate s' v = translate s v) \<and> leaves_frames s s' \<and> con s' = con s
    \<and> in_ring (fold joined (map (slot h) [0..<n]) ps) s'
    \<and> (\<forall>i < n. process_built s s' (slot h i) (ds ! i) (codes ! i))
    \<and> (\<forall>i < n. \<forall>j < i. held (ram s') (ds ! i) \<inter> held (ram s') (ds ! j) = {})
    \<and> (\<forall>r. (\<forall>i < n. r \<noteq> slot h i) \<longrightarrow> map_option unlinked (processes s' r) = map_option unlinked (processes s r))
    \<and> proc_rest s' = proc_rest s"
  using assms(1-7) unfolding n_def h_def
proof (induction codes arbitrary: s ps)
  case Nil
  then show ?case by (intro exI[of _ s] exI[of _ "[]"]) (simp add: spawn_all_def)
next
  case (Cons c codes)
  obtain code len where c: "c = (code, len)" by (cases c)
  let ?n = "length codes"
  obtain S where S: "kernel_source s code (unat len) S" using Cons.prems(3) by (auto simp: c)
  have room: "pool s (2 * (unat len div 4096 + 1) + 22 + (blocks_needed codes + k))" using Cons.prems(2) by (simp add: c add.assoc)
  have h: "unat (heap_pointer s) + 4196 < 0xD0400000" "heap_pointer s \<notin> set ps" using Cons.prems(5,7) by auto
  obtain s1 d where s1: "proc_run_code code len s = Ok () s1" "kernel_ready s1" "pool s1 (blocks_needed codes + k)"
    "\<forall>v. dir_of v \<noteq> 1023 \<longrightarrow> translate s1 v = translate s v" "leaves_frames s s1" "heap_pointer s1 = heap_pointer s + 4196"
    "in_ring (joined (heap_pointer s) ps) s1"
    and b1: "process_built s s1 (heap_pointer s) d (code, len)"
    and o1: "\<forall>r. r \<noteq> heap_pointer s \<longrightarrow> map_option unlinked (processes s1 r) = map_option unlinked (processes s r)" "con s1 = con s"
    and r1: "proc_rest s1 = proc_rest s"
    by (rule proc_run_code_built[OF Cons.prems(1) room S Cons.prems(4) h(1) Cons.prems(6) h(2)]) (rule that; assumption)
  have u1: "unat (heap_pointer s1) = unat (heap_pointer s) + 4196"
    unfolding s1(6) by (rule unat_sum2) (use h in simp_all)
  have src: "\<forall>c \<in> set codes. \<exists>S. kernel_source s1 (fst c) (unat (snd c)) S"
    using Cons.prems(3) kernel_source_kept[OF s1(5,4)] by (meson list.set_intros(2))
  have set: "set (joined (heap_pointer s) ps) = insert (heap_pointer s) (set ps)" by (cases ps) auto
  have below: "\<forall>p \<in> set (joined (heap_pointer s) ps). unat p < unat (heap_pointer s1)"
    unfolding set u1 using Cons.prems(7) by auto
  have hp: "0xD0000000 \<le> unat (heap_pointer s1)" "unat (heap_pointer s1) + 4196 * ?n < 0xD0400000"
    using Cons.prems(4,5) by (simp_all add: u1)
  from Cons.IH[OF s1(2,3) src hp s1(7) below] obtain s' ds where s': "spawn_all codes s1 = Ok () s'" "length ds = ?n"
    "kernel_ready s'" "pool s' k" "\<forall>v. dir_of v \<noteq> 1023 \<longrightarrow> translate s' v = translate s1 v" "leaves_frames s1 s'" "con s' = con s1"
    "in_ring (fold joined (map (slot (heap_pointer s1)) [0..<?n]) (joined (heap_pointer s) ps)) s'"
    and b: "\<forall>i < ?n. process_built s1 s' (slot (heap_pointer s1) i) (ds ! i) (codes ! i)"
    and dis: "\<forall>i < ?n. \<forall>j < i. held (ram s') (ds ! i) \<inter> held (ram s') (ds ! j) = {}"
    and o: "\<forall>r. (\<forall>i < ?n. r \<noteq> slot (heap_pointer s1) i) \<longrightarrow> map_option unlinked (processes s' r) = map_option unlinked (processes s1 r)"
    and r': "proc_rest s' = proc_rest s1"
    by blast
  have slots: "slot (heap_pointer s) (Suc i) = slot (heap_pointer s1) i" for i by (simp add: slot_simps s1(6))
  have first: "heap_pointer s \<noteq> slot (heap_pointer s1) i" if "i < ?n" for i
  proof -
    have "unat (slot (heap_pointer s1) i) = unat (heap_pointer s1) + 4196 * i" by (rule unat_slot) (use hp(2) that in simp)
    then show ?thesis using u1 by auto
  qed
  have ring: "fold joined (map (slot (heap_pointer s)) [0..<Suc ?n]) ps = fold joined (map (slot (heap_pointer s1)) [0..<?n]) (joined (heap_pointer s) ps)"
    by (simp only: upt_conv_Cons[OF zero_less_Suc] map_Suc_upt[symmetric] list.map fold.simps o_apply slot_simps(1) map_map)
      (simp add: slots o_def)
  have b0: "process_built s s' (heap_pointer s) d (code, len)"
    by (rule process_built_kept[OF b1 s'(6)]) (use o first in blast)
  have bs: "process_built s s' (slot (heap_pointer s) (Suc i)) (ds ! i) (codes ! i)" if i: "i < ?n" for i
  proof -
    obtain T where T: "kernel_source s (fst (codes ! i)) (unat (snd (codes ! i))) T" using Cons.prems(3) i by (meson list.set_intros(2) nth_mem)
    show ?thesis unfolding slots by (rule process_built_from[OF _ s1(5,4) T]) (use b i in blast)
  qed
  have d0: "held (ram s') (ds ! i) \<inter> held (ram s') d = {}" if i: "i < ?n" for i
  proof -
    have o: "own_tables s1 d" using b1 by (simp add: process_built_def)
    have "\<forall>f \<in> held (ram s1) d. block_used s1 (unat f)" using b1 table_frames_used[OF o] by (auto simp: process_built_def held_def)
    moreover have "\<forall>f \<in> held (ram s') (ds ! i). \<not> block_used s1 (unat f)" using b i by (auto simp: process_built_def held_def)
    ultimately show ?thesis unfolding own_space_kept(3)[OF s'(6) o] by blast
  qed
  let ?ds = "d # ds"
  have "spawn_all (c # codes) s = Ok () s'" using s1(1) s'(1) by (simp add: spawn_all_def c)
  moreover have "\<forall>i < Suc ?n. process_built s s' (slot (heap_pointer s) i) (?ds ! i) ((c # codes) ! i)"
    unfolding All_less_Suc2 using b0 bs by (simp add: slot_simps(1) c)
  moreover have "\<forall>i < Suc ?n. \<forall>j < i. held (ram s') (?ds ! i) \<inter> held (ram s') (?ds ! j) = {}"
    unfolding All_less_Suc2 using d0 dis by simp
  moreover have "\<forall>r. (\<forall>i < Suc ?n. r \<noteq> slot (heap_pointer s) i) \<longrightarrow> map_option unlinked (processes s' r) = map_option unlinked (processes s r)"
    unfolding All_less_Suc2 slots slot_simps(1) using o o1(1) by metis
  moreover have "leaves_frames s s'" by (rule leaves_frames_trans[OF s1(5) s'(6)])
  ultimately show ?case
    using s' s1(4) o1(2) r1 r' ring by (intro exI[of _ s'] exI[of _ ?ds]) simp
qed

section \<open>Properties\<close>

text \<open>C9: \<open>proc_run_code\<close> builds a process. In a kernel whose address space is in order, with room on the heap
  and a run of free blocks, it returns with the process linked in behind the current one and with a page
  directory of its own: user mode finds the code from address 0 on, byte for byte and read-only, and ten
  writable pages below the kernel, all in frames that were free before, and can reach nothing else; the
  kernel's half is mapped as in the caller's space; and the caller's space is what it was.\<close>

theorem run_code_builds_process:
  assumes "kernel_ready s" "pool s (2 * (unat len div 4096 + 1) + 22)" "kernel_source s code (unat len) S"
    and "0xD0000000 \<le> unat (heap_pointer s)" "unat (heap_pointer s) + 4196 < 0xD0400000"
    and "in_ring ps s" "heap_pointer s \<notin> set ps"
  shows "\<exists>s' x p q. proc_run_code code len s = Ok () s' \<and> processes s' (heap_pointer s) = Some x
    \<and> p_pid x = next_pid s \<and> p_registers x = initial_registers \<and> p_kernel_stack x = heap_pointer s + 4195
    \<and> scheduled (joined (heap_pointer s) ps) s'
    \<and> process_space (ram s') (entry_frame (p_directory x)) (unat len div 4096 + 1) p q
    \<and> program_loaded s (ram s') (entry_frame (p_directory x)) code len
    \<and> (\<forall>f \<in> user_frames (ram s') (entry_frame (p_directory x)). \<not> block_used s (unat f) \<and> block_used s' (unat f))
    \<and> (\<forall>v. 0xC0000000 \<le> unat v \<and> dir_of v \<noteq> 1023 \<longrightarrow> walk (ram s') (entry_frame (p_directory x)) v = translate s v)
    \<and> kernel_ready s' \<and> directory s' = directory s \<and> (\<forall>v. dir_of v \<noteq> 1023 \<longrightarrow> translate s' v = translate s v)"
proof -
  have room: "pool s (2 * (unat len div 4096 + 1) + 22 + 0)" using assms(2) by simp
  obtain s' x pd p q where r: "proc_run_code code len s = Ok () s'" "scheduled (joined (heap_pointer s) ps) s'"
      "processes s' (heap_pointer s) = Some x" "p_pid x = next_pid s" "p_kernel_stack x = heap_pointer s + 4195" "p_registers x = initial_registers"
    and pd: "p_directory x = pd"
    and sp: "kernel_ready s'" "directory s' = directory s" "\<forall>v. dir_of v \<noteq> 1023 \<longrightarrow> translate s' v = translate s v"
      "\<forall>v. 0xC0000000 \<le> unat v \<and> dir_of v \<noteq> 1023 \<longrightarrow> walk (ram s') (entry_frame pd) v = translate s v"
    and proc: "process_space (ram s') (entry_frame pd) (unat len div 4096 + 1) p q"
      "\<forall>i < unat len. byte (ram s') (code_frame p i) (of_nat i) = byte (ram s) (S i) (code + of_nat i)"
    and bl: "\<forall>b \<in> process_blocks pd (unat len div 4096 + 1) p q. \<not> block_used s b \<and> block_used s' b"
    and al: "unat p mod 4096 = 0" "unat p + (unat len div 4096 + 1) * 4096 \<le> 2 ^ 32" "unat q mod 4096 = 0" "unat q + 10 * 4096 \<le> 2 ^ 32"
    by (rule proc_run_code_runs[OF assms(1) room assms(3-7)]) (rule that; assumption)
  have "\<forall>f \<in> user_frames (ram s') (entry_frame pd). \<not> block_used s (unat f) \<and> block_used s' (unat f)"
    using user_frames_blocks[OF proc(1) al] bl by blast
  with r sp proc(1) process_space_loaded[OF proc assms(3)] show ?thesis by (metis pd)
qed

text \<open>A kernel in its first 2 MiB, with its directory in frame 0x110, code in frame 0x103 and an empty heap.\<close>

definition young_kernel :: proc where
  "young_kernel = vmm.extend (empty_space\<lparr>
       ram := (\<lambda>f i. if f = 0x110 then (if i = 768 then 0x83 else if i = 1023 then 0x110003 else 0)
                     else if f = 0x103 then 0x90909090 else 0),
       cr3 := 0x110000, bitmap := (\<lambda>i. if i < 16 then 0xFFFFFFFF else 0), used_blocks := 512, heap_pointer := 0xD0000000\<rparr>)
     \<lparr>processes = Map.empty, current_process = 0, next_pid = 1\<rparr>"

lemma young_kernel_simps:
  "cr3 young_kernel = 0x110000" "used_blocks young_kernel = 512" "max_blocks young_kernel = 4096" "heap_pointer young_kernel = 0xD0000000"
  "bitmap young_kernel = (\<lambda>i. if i < 16 then 0xFFFFFFFF else 0)" "current_process young_kernel = 0" "con young_kernel = blank_tty"
  "ram young_kernel = (\<lambda>f i. if f = 0x110 then (if i = 768 then 0x83 else if i = 1023 then 0x110003 else 0)
                     else if f = 0x103 then 0x90909090 else 0)"
  using empty_space_simps(3,6) by (simp_all add: young_kernel_def vmm.defs)

lemma young_kernel_used: "n < 4096 \<Longrightarrow> block_used young_kernel n \<longleftrightarrow> n < 512"
proof -
  have m: "(0xFFFFFFFF :: u32) = - 1" by simp
  have "bit (0xFFFFFFFF :: u32) (n mod 32)" unfolding m by simp
  then show "n < 4096 \<Longrightarrow> block_used young_kernel n \<longleftrightarrow> n < 512"
    by (simp add: block_used_def young_kernel_simps div_less_iff_less_mult)
qed

lemma young_kernel_space:
  "directory young_kernel = 0x110" "dir_entry young_kernel i = (if i = 768 then 0x83 else if i = 1023 then 0x110003 else 0)"
  "has_table young_kernel i \<longleftrightarrow> i = 1023" "table_frame young_kernel 1023 = 0x110" "kernel_ready young_kernel"
proof -
  show d: "directory young_kernel = 0x110" by (simp add: directory_def young_kernel_simps entry_frame_def)
  show e: "dir_entry young_kernel i = (if i = 768 then 0x83 else if i = 1023 then 0x110003 else 0)" for i
    unfolding dir_entry_def d by (simp add: young_kernel_simps)
  show h: "has_table young_kernel i \<longleftrightarrow> i = 1023" for i
    by (auto simp: has_table_def e entry_present_def entry_large_def bit_numeral_rec)
  show t: "table_frame young_kernel 1023 = 0x110" by (simp add: table_frame_def e entry_frame_def)
  have "recursive young_kernel" by (simp add: recursive_def h t d)
  moreover have "pmm_ok young_kernel" using young_kernel_used[of 0] by (simp add: pmm_ok_def young_kernel_simps)
  ultimately have "space_ok young_kernel" using young_kernel_used[of "0x110"] by (simp add: space_ok_def h t)
  moreover have "translate young_kernel KERNEL_HEAP_END_VIRT = None"
    by (simp add: translate_eq e temporary_page(2) entry_present_def)
  moreover have "kernel_private young_kernel"
    by (auto simp: kernel_private_def e entry_user_def entry_present_def bit_numeral_rec)
  ultimately show "kernel_ready young_kernel" by (simp add: kernel_ready_def)
qed

lemma young_kernel_pool: "k \<le> 3584 \<Longrightarrow> pool young_kernel k"
proof -
  assume k: "k \<le> 3584"
  then have "free_run (block_used young_kernel) 512 k" using young_kernel_used by (auto simp: free_run_def)
  then show "pool young_kernel k" unfolding pool_def searched_def
    using k by (intro conjI exI[of _ 512]) (simp_all add: young_kernel_simps)
qed

lemma young_kernel_source:
  assumes "unat code = 0xC0103000 + a" "a + len \<le> 4096"
  shows "kernel_source young_kernel code len (\<lambda>_. 0x103)"
  unfolding kernel_source_def
proof (intro allI impI)
  fix i assume i: "i < len"
  let ?v = "code + of_nat i"
  have u: "unat ?v = 0xC0103000 + a + i"
    by (rule unat_sum2[OF assms(1)]) (use assms(2) i in \<open>simp_all add: unat_of_nat\<close>)
  then have range: "0xC0000000 \<le> unat ?v" "unat ?v < 0xC0400000" using assms(2) i by simp_all
  have "dir_entry young_kernel 768 = 0x83" by (simp add: young_kernel_space(2))
  note tr = translate_kernel[OF this range]
  have "unat (V2P ?v) = 0x103000 + (a + i)" using unat_V2P[OF range(1)] u by simp
  then have "unat (entry_frame (V2P ?v)) = 0x103" unfolding unat_entry_frame using assms(2) i by simp
  then have "entry_frame (V2P ?v) = 0x103" by (simp add: word_unat_eq_iff)
  moreover have "off_tables young_kernel {0x103}" by (simp add: off_tables_def young_kernel_space(1,3,4))
  ultimately show "translate young_kernel ?v = Some 0x103 \<and> block_used young_kernel (unat (0x103 :: frame)) \<and> off_tables young_kernel {0x103}
      \<and> 0xC0000000 \<le> unat ?v \<and> dir_of ?v \<noteq> 1023"
    using tr range young_kernel_used[of "0x103"] by simp
qed

theorem run_code_builds_process_witness:
  "\<exists>s' x. proc_run_code 0xC0103000 128 young_kernel = Ok () s' \<and> processes s' 0xD0000000 = Some x
     \<and> scheduled [0xD0000000] s' \<and> program_loaded young_kernel (ram s') (entry_frame (p_directory x)) 0xC0103000 128"
proof -
  have p: "pool young_kernel (2 * (unat (128 :: u32) div 4096 + 1) + 22)" by (rule young_kernel_pool) simp
  have s: "kernel_source young_kernel 0xC0103000 (unat (128 :: u32)) (\<lambda>_. 0x103)" by (rule young_kernel_source[of _ 0]) simp_all
  have h: "0xD0000000 \<le> unat (heap_pointer young_kernel)" "unat (heap_pointer young_kernel) + 4196 < 0xD0400000"
    "in_ring [] young_kernel" "heap_pointer young_kernel \<notin> set []"
    by (simp_all add: young_kernel_simps)
  from run_code_builds_process[OF young_kernel_space(5) p s h] show ?thesis by (auto simp: young_kernel_simps(4))
qed

text \<open>C6: processes are isolated. Of any list of programs in the kernel's memory, while there is room for all,
  \<open>proc_run_code\<close> makes processes such that user mode of each finds its own program from address 0 on,
  none reaches a frame, a page table or the directory of another, nor its own page tables, and none of the
  frames they reach was in use before; the processes
  stand in the ring in the order that repeated linking behind the current one gives, at consecutive
  places on the heap, and the kernel's own mapping is unchanged.\<close>

theorem processes_isolated:
  assumes "kernel_ready s" "pool s (blocks_needed codes)" "\<forall>c \<in> set codes. \<exists>S. kernel_source s (fst c) (unat (snd c)) S"
    and "0xD0000000 \<le> unat (heap_pointer s)" "unat (heap_pointer s) + 4196 * length codes < 0xD0400000"
    and "in_ring ps s" "\<forall>p \<in> set ps. unat p < unat (heap_pointer s)"
  shows "\<exists>s' ds. spawn_all codes s = Ok () s' \<and> length ds = length codes \<and> kernel_ready s'
    \<and> (\<forall>v. dir_of v \<noteq> 1023 \<longrightarrow> translate s' v = translate s v)
    \<and> in_ring (fold joined (map (slot (heap_pointer s)) [0..<length codes]) ps) s'
    \<and> (\<forall>i < length codes. \<exists>x. processes s' (slot (heap_pointer s) i) = Some x \<and> entry_frame (p_directory x) = ds ! i
         \<and> program_loaded s (ram s') (ds ! i) (fst (codes ! i)) (snd (codes ! i)) \<and> own_space (ram s') (ds ! i)
         \<and> (\<forall>f \<in> user_frames (ram s') (ds ! i). \<not> block_used s (unat f) \<and> block_used s' (unat f)))
    \<and> (\<forall>i < length codes. \<forall>j < i. held (ram s') (ds ! i) \<inter> held (ram s') (ds ! j) = {})"
proof -
  have "pool s (blocks_needed codes + 0)" using assms(2) by simp
  from spawn_all_runs[OF assms(1) this assms(3-7)] obtain s' ds where
    r: "spawn_all codes s = Ok () s'" "length ds = length codes" "kernel_ready s'" "\<forall>v. dir_of v \<noteq> 1023 \<longrightarrow> translate s' v = translate s v"
      "in_ring (fold joined (map (slot (heap_pointer s)) [0..<length codes]) ps) s'"
    and b: "\<forall>i < length codes. process_built s s' (slot (heap_pointer s) i) (ds ! i) (codes ! i)"
    and d: "\<forall>i < length codes. \<forall>j < i. held (ram s') (ds ! i) \<inter> held (ram s') (ds ! j) = {}" by blast
  have b': "process_built s s' n e c \<Longrightarrow> \<exists>x. processes s' n = Some x \<and> entry_frame (p_directory x) = e
      \<and> program_loaded s (ram s') e (fst c) (snd c) \<and> own_space (ram s') e
      \<and> (\<forall>f \<in> user_frames (ram s') e. \<not> block_used s (unat f) \<and> block_used s' (unat f))" for n e c
    by (auto simp: process_built_def)
  show ?thesis by (intro exI[of _ s'] exI[of _ ds] conjI r d allI impI b' b[rule_format])
qed

theorem processes_isolated_witness:
  "\<exists>s' d e. spawn_all [(0xC0103000, 128), (0xC0103080, 128), (0xC0103100, 128)] young_kernel = Ok () s'
     \<and> in_ring [0xD0000000, 0xD00020C8, 0xD0001064] s' \<and> program_loaded young_kernel (ram s') d 0xC0103000 128
     \<and> program_loaded young_kernel (ram s') e 0xC0103080 128 \<and> held (ram s') e \<inter> held (ram s') d = {}"
proof -
  let ?c = "[(0xC0103000, 128), (0xC0103080, 128), (0xC0103100, 128)] :: (u32 \<times> u32) list"
  have p: "pool young_kernel (blocks_needed ?c)" by (rule young_kernel_pool) simp
  have "kernel_source young_kernel 0xC0103000 (unat (128 :: u32)) (\<lambda>_. 0x103)" by (rule young_kernel_source[of _ 0]) simp_all
  moreover have "kernel_source young_kernel 0xC0103080 (unat (128 :: u32)) (\<lambda>_. 0x103)" by (rule young_kernel_source[of _ 128]) simp_all
  moreover have "kernel_source young_kernel 0xC0103100 (unat (128 :: u32)) (\<lambda>_. 0x103)" by (rule young_kernel_source[of _ 256]) simp_all
  ultimately have s: "\<forall>c \<in> set ?c. \<exists>S. kernel_source young_kernel (fst c) (unat (snd c)) S"
    by (simp only: list.set ball_simps fst_conv snd_conv) blast
  have h: "0xD0000000 \<le> unat (heap_pointer young_kernel)" "unat (heap_pointer young_kernel) + 4196 * length ?c < 0xD0400000"
    "in_ring [] young_kernel" "\<forall>p \<in> set []. unat p < unat (heap_pointer young_kernel)"
    by (simp_all add: young_kernel_simps)
  have len: "length ?c = 3" by simp
  from processes_isolated[OF young_kernel_space(5) p s h, unfolded len young_kernel_simps(4)] obtain s' ds where
    s': "spawn_all ?c young_kernel = Ok () s'" "in_ring (fold joined (map (slot 0xD0000000) [0..<3]) []) s'"
    and b: "\<forall>i < 3. program_loaded young_kernel (ram s') (ds ! i) (fst (?c ! i)) (snd (?c ! i))"
    and d: "\<forall>i < 3. \<forall>j < i. held (ram s') (ds ! i) \<inter> held (ram s') (ds ! j) = {}"
    by blast
  have "fold joined (map (slot 0xD0000000) [0..<3]) [] = [0xD0000000, 0xD00020C8, 0xD0001064]"
    by (simp add: upt_rec slot_def)
  moreover have "program_loaded young_kernel (ram s') (ds ! 0) 0xC0103000 128" using b[rule_format, of 0] by simp
  moreover have "program_loaded young_kernel (ram s') (ds ! 1) 0xC0103080 128" using b[rule_format, of 1] by simp
  moreover have "held (ram s') (ds ! 1) \<inter> held (ram s') (ds ! 0) = {}" using d[rule_format, of 1 0] by simp
  ultimately show ?thesis using s' by auto
qed

end
