(* ===== verification/Layout.thy ===== *)
theory Layout
  imports Spawn
begin

text \<open>
  Where the processes lie in physical memory. As both searches of \<open>pmm.c\<close> take the lowest place, the blocks of processes
  that are created one after the other are neighbours: the directory, the code, the table of the code, the stack, the
  table of the stack, and behind it the directory of the next process. \<open>proc_exit_current_process\<close> frees
  the length of code and stack from the two tables on, so that it reaches the blocks of the next process.
\<close>

section \<open>The places\<close>

abbreviation code_pages :: "u32 \<times> u32 \<Rightarrow> nat" where
  "code_pages c \<equiv> unat (snd c) div 4096 + 1"

text \<open>
  The block of the directory and the first block of the code, for programs that are created from a frontier \<open>b\<close> on. Between
  the two of the first process lies the table of the page behind the heap, if that is not there yet.
\<close>

fun places :: "(u32 \<times> u32) list \<Rightarrow> bool \<Rightarrow> nat \<Rightarrow> (nat \<times> nat) list" where
  "places [] table b = []"
| "places (x # codes) table b =
     (let c = (if table then b + 1 else b + 2) in (b, c) # places codes True (c + code_pages x + 12))"

fun place_end :: "(u32 \<times> u32) list \<Rightarrow> bool \<Rightarrow> nat \<Rightarrow> nat" where
  "place_end [] table b = b"
| "place_end (x # codes) table b = place_end codes True ((if table then b + 1 else b + 2) + code_pages x + 12)"

lemma places_length [simp]: "length (places codes table b) = length codes"
  by (induction codes arbitrary: table b) (simp_all add: Let_def)

lemma place_end_ge: "b \<le> place_end codes table b"
proof (induction codes arbitrary: table b)
  case (Cons x codes)
  show ?case using Cons.IH[of "(if table then b + 1 else b + 2) + code_pages x + 12" True] by (auto split: if_splits)
qed simp

lemma place_end_le: "place_end codes table b \<le> b + blocks_needed codes"
proof (induction codes arbitrary: table b)
  case (Cons x codes)
  obtain code len where x: "x = (code, len)" by (cases x)
  have "place_end (x # codes) table b \<le> (if table then b + 1 else b + 2) + code_pages x + 12 + blocks_needed codes"
    using Cons.IH[of True "(if table then b + 1 else b + 2) + code_pages x + 12"] by simp
  then show ?case by (simp add: x split: if_splits)
qed simp

lemma places_own:
  "i < length codes \<Longrightarrow> fst (places codes table b ! i) < snd (places codes table b ! i)
     \<and> snd (places codes table b ! i) \<le> fst (places codes table b ! i) + 2
     \<and> snd (places codes table b ! i) + code_pages (codes ! i) + 12 \<le> place_end codes table b
     \<and> b \<le> fst (places codes table b ! i)"
proof (induction codes arbitrary: table b i)
  case (Cons x codes)
  show ?case
  proof (cases i)
    case 0
    then show ?thesis using place_end_ge[of "(if table then b + 1 else b + 2) + code_pages x + 12" codes True] by (simp add: Let_def)
  next
    case (Suc j)
    then show ?thesis
      using Cons.prems Cons.IH[of j True "(if table then b + 1 else b + 2) + code_pages x + 12"] by (auto simp: Let_def split: if_splits)
  qed
qed simp

lemma places_next:
  "Suc i < length codes \<Longrightarrow> fst (places codes table b ! Suc i) = snd (places codes table b ! i) + code_pages (codes ! i) + 12
     \<and> snd (places codes table b ! Suc i) = fst (places codes table b ! Suc i) + 1"
proof (induction codes arbitrary: table b i)
  case (Cons x codes)
  show ?case
  proof (cases i)
    case 0
    then obtain y ys where "codes = y # ys" using Cons.prems by (cases codes) auto
    then show ?thesis using 0 by (simp add: Let_def)
  next
    case (Suc j)
    then show ?thesis using Cons by (simp add: Let_def)
  qed
qed simp

section \<open>Processes at their places\<close>

definition process_placed :: "'s proc_scheme \<Rightarrow> u32 \<Rightarrow> nat \<Rightarrow> nat \<times> nat \<Rightarrow> bool" where
  "process_placed s n num bc \<longleftrightarrow> (\<exists>x p q. processes s n = Some x \<and> p_code_len x = of_nat num \<and> p_stack_len x = 10
     \<and> own_tables s (entry_frame (p_directory x)) \<and> process_space (ram s) (entry_frame (p_directory x)) num p q
     \<and> placed (ram s) (p_directory x) num p q (fst bc) (snd bc))"

lemma process_placed_kept:
  assumes "process_placed s n num bc" "leaves_frames s s'" "map_option unlinked (processes s' n) = map_option unlinked (processes s n)"
  shows "process_placed s' n num bc"
proof -
  obtain x p q where x: "processes s n = Some x" "p_code_len x = of_nat num" "p_stack_len x = 10"
    and o: "own_tables s (entry_frame (p_directory x))" "process_space (ram s) (entry_frame (p_directory x)) num p q"
      "placed (ram s) (p_directory x) num p q (fst bc) (snd bc)"
    using assms(1) unfolding process_placed_def by blast
  obtain y where y: "processes s' n = Some y" "unlinked y = unlinked x" using assms(3) x(1) by auto
  have e: "p_directory y = p_directory x" "p_code_len y = p_code_len x" "p_stack_len y = p_stack_len x"
    using arg_cong[OF y(2), of p_directory] arg_cong[OF y(2), of p_code_len] arg_cong[OF y(2), of p_stack_len] by simp_all
  let ?d = "entry_frame (p_directory x)"
  have "ram s' ?d = ram s ?d" using o(1) assms(2) by (simp add: own_tables_def leaves_frames_def)
  then have "placed (ram s') (p_directory x) num p q (fst bc) (snd bc)" using o(3) by (simp add: placed_def)
  moreover have "process_space (ram s') ?d num p q"
    using o(2) by (simp add: process_space_def own_tables_kept(2)[OF assms(2) o(1)])
  ultimately show ?thesis
    unfolding process_placed_def using y(1) x(2,3) own_tables_kept(1)[OF assms(2) o(1)]
    by (intro exI[of _ y] exI[of _ p] exI[of _ q]) (simp add: e)
qed

lemma proc_run_code_placed:
  assumes "kernel_ready s" "pool s (2 * (unat len div 4096 + 1) + 22 + k)" "kernel_source s code (unat len) S"
    and "0xD0000000 \<le> unat (heap_pointer s)" "unat (heap_pointer s) + 4196 < 0xD0400000"
    and "in_ring ps s" "heap_pointer s \<notin> set ps" "frontier s b" "unat len div 4096 + 1 \<le> 1024"
  defines "c \<equiv> if entry_present (dir_entry s 833) then b + 1 else b + 2"
  obtains s' where "proc_run_code code len s = Ok () s'" "process_placed s' (heap_pointer s) (unat len div 4096 + 1) (b, c)"
    "frontier s' (c + (unat len div 4096 + 1) + 12)" "entry_present (dir_entry s' 833)"
proof -
  let ?n = "unat len div 4096 + 1"
  obtain s' x pd p q where r: "proc_run_code code len s = Ok () s'" "processes s' (heap_pointer s) = Some x" "p_code_len x = of_nat ?n"
      "p_stack_len x = 10" and pd: "p_directory x = pd" and sp: "process_space (ram s') (entry_frame pd) ?n p q" and o: "own_tables s' (entry_frame pd)"
    and e: "entry_present (dir_entry s' 833)"
    and pl: "\<forall>b c. frontier s b \<and> ?n \<le> 1024 \<and> c = (if entry_present (dir_entry s 833) then b + 1 else b + 2) \<longrightarrow>
       placed (ram s') pd ?n p q b c \<and> frontier s' (c + ?n + 12)"
    by (rule proc_run_code_runs[OF assms(1-7)]) (rule that; assumption)
  have p: "placed (ram s') pd ?n p q b c" "frontier s' (c + ?n + 12)" using pl assms(8,9) unfolding c_def by blast+
  then have "process_placed s' (heap_pointer s) ?n (b, c)"
    unfolding process_placed_def using r(2-4) sp o pd by (intro exI[of _ x] exI[of _ p] exI[of _ q]) simp
  then show ?thesis using that r(1) p(2) e by blast
qed

lemma spawn_all_placed:
  assumes "kernel_ready s" "pool s (blocks_needed codes)" "\<forall>c \<in> set codes. \<exists>S. kernel_source s (fst c) (unat (snd c)) S"
    and "0xD0000000 \<le> unat (heap_pointer s)" "unat (heap_pointer s) + 4196 * length codes < 0xD0400000"
    and "in_ring ps s" "\<forall>p \<in> set ps. unat p < unat (heap_pointer s)"
    and "frontier s b" "\<forall>c \<in> set codes. code_pages c \<le> 1024"
  defines "here \<equiv> places codes (entry_present (dir_entry s 833)) b"
  shows "\<exists>s'. spawn_all codes s = Ok () s' \<and> frontier s' (place_end codes (entry_present (dir_entry s 833)) b)
    \<and> max_blocks s' = max_blocks s
    \<and> (\<forall>i < length codes. process_placed s' (slot (heap_pointer s) i) (code_pages (codes ! i)) (here ! i))"
  using assms(1-9) unfolding here_def
proof (induction codes arbitrary: s ps b)
  case Nil
  then show ?case by (simp add: spawn_all_def)
next
  case (Cons c codes)
  obtain code len where c: "c = (code, len)" by (cases c)
  let ?n = "length codes" and ?c = "if entry_present (dir_entry s 833) then b + 1 else b + 2" and ?pages = "unat len div 4096 + 1"
  obtain S where S: "kernel_source s code (unat len) S" using Cons.prems(3) by (auto simp: c)
  have room: "pool s (2 * ?pages + 22 + blocks_needed codes)" using Cons.prems(2) by (simp add: c)
  have h: "unat (heap_pointer s) + 4196 < 0xD0400000" "heap_pointer s \<notin> set ps" using Cons.prems(5,7) by auto
  note first = Cons.prems(1) room S Cons.prems(4) h(1) Cons.prems(6) h(2)
  obtain s1 d where s1: "proc_run_code code len s = Ok () s1" "kernel_ready s1" "pool s1 (blocks_needed codes)"
    "\<forall>v. dir_of v \<noteq> 1023 \<longrightarrow> translate s1 v = translate s v" "leaves_frames s s1" "heap_pointer s1 = heap_pointer s + 4196"
    "in_ring (joined (heap_pointer s) ps) s1"
    and r1: "proc_rest s1 = proc_rest s"
    by (rule proc_run_code_built[OF first]) (rule that; assumption)
  have small: "?pages \<le> 1024" using Cons.prems(9) by (simp add: c)
  obtain s1' where s1': "proc_run_code code len s = Ok () s1'" "process_placed s1' (heap_pointer s) ?pages (b, ?c)"
    "frontier s1' (?c + ?pages + 12)" "entry_present (dir_entry s1' 833)"
    by (rule proc_run_code_placed[OF first Cons.prems(8) small]) (rule that; assumption)
  have "s1' = s1" using s1(1) s1'(1) by simp
  note s1' = s1'(2-4)[unfolded this]
  have u1: "unat (heap_pointer s1) = unat (heap_pointer s) + 4196"
    unfolding s1(6) by (rule unat_sum2) (use h in simp_all)
  have src: "\<forall>c \<in> set codes. \<exists>S. kernel_source s1 (fst c) (unat (snd c)) S"
    using Cons.prems(3) kernel_source_kept[OF s1(5,4)] by (meson list.set_intros(2))
  have set: "set (joined (heap_pointer s) ps) = insert (heap_pointer s) (set ps)" by (cases ps) auto
  have below: "\<forall>p \<in> set (joined (heap_pointer s) ps). unat p < unat (heap_pointer s1)"
    unfolding set u1 using Cons.prems(7) by auto
  have hp: "0xD0000000 \<le> unat (heap_pointer s1)" "unat (heap_pointer s1) + 4196 * ?n < 0xD0400000"
    using Cons.prems(4,5) by (simp_all add: u1)
  have small': "\<forall>c \<in> set codes. code_pages c \<le> 1024" using Cons.prems(9) by simp
  from Cons.IH[OF s1(2,3) src hp s1(7) below s1'(2) small'] obtain s' where s': "spawn_all codes s1 = Ok () s'"
    "frontier s' (place_end codes True (?c + ?pages + 12))" "max_blocks s' = max_blocks s1"
    and p: "\<forall>i < ?n. process_placed s' (slot (heap_pointer s1) i) (code_pages (codes ! i)) (places codes True (?c + ?pages + 12) ! i)"
    using s1'(3) by auto
  have "pool s1 (blocks_needed codes + 0)" using s1(3) by simp
  from spawn_all_runs[OF s1(2) this src hp s1(7) below] s'(1) have k: "leaves_frames s1 s'"
    and o: "\<forall>r. (\<forall>i < ?n. r \<noteq> slot (heap_pointer s1) i) \<longrightarrow> map_option unlinked (processes s' r) = map_option unlinked (processes s1 r)"
    by auto
  have new: "heap_pointer s \<noteq> slot (heap_pointer s1) i" if "i < ?n" for i
  proof -
    have "unat (slot (heap_pointer s1) i) = unat (heap_pointer s1) + 4196 * i" by (rule unat_slot) (use hp(2) that in simp)
    then show ?thesis using u1 by auto
  qed
  have p0: "process_placed s' (heap_pointer s) ?pages (b, ?c)"
    by (rule process_placed_kept[OF s1'(1) k]) (use o new in blast)
  have slots: "slot (heap_pointer s) (Suc i) = slot (heap_pointer s1) i" for i by (simp add: slot_simps s1(6))
  have "\<forall>i < Suc ?n. process_placed s' (slot (heap_pointer s) i) (code_pages ((c # codes) ! i))
      (places (c # codes) (entry_present (dir_entry s 833)) b ! i)"
    unfolding All_less_Suc2 using p0 p by (simp add: slot_simps(1) slots c Let_def)
  moreover have "spawn_all (c # codes) s = Ok () s'" using s1(1) s'(1) by (simp add: spawn_all_def c)
  moreover have "max_blocks s1 = max_blocks s" using arg_cong[OF r1, of max_blocks] by (simp add: proc_rest_def)
  ultimately show ?case using s'(2,3) by (intro exI[of _ s']) (simp add: c)
qed

section \<open>Exit\<close>

text \<open>The blocks in use after the exit of a process with \<open>num\<close> pages of code, and the search for a stack in them.\<close>

lemma freed_run:
  assumes "\<And>n. n < hi \<Longrightarrow> used n \<longleftrightarrow> n < e \<and> n \<noteq> b \<and> \<not> (c + num \<le> n \<and> n < c + num + num) \<and> \<not> (c + num + 11 \<le> n \<and> n < c + num + 11 + 10)"
    and "b < c" "c \<le> b + 2" "0 < num" "num \<le> 9" "c + num + 25 \<le> e" "e \<le> hi"
  shows "first_run used 10 hi (c + num + 11)"
  unfolding first_run_def free_run_def
proof (intro conjI ballI allI impI notI)
  fix m assume m: "m < c + num + 11" and f: "\<forall>n \<in> {m..<m + 10}. \<not> used n"
  let ?w = "if m = b then b + 1 else if c + num \<le> m \<and> m < c + num + num then c + num + num else m"
  have "?w \<in> {m..<m + 10}" using assms(5) by auto
  moreover have "used ?w" using m assms by (subst assms(1)) auto
  ultimately show False using f by blast
qed (use assms in auto)

lemma first_run_unique: "first_run used k hi n \<Longrightarrow> first_run used k hi m \<Longrightarrow> n = m"
  unfolding first_run_def by (metis linorder_neqE_nat)

lemma find_first_run:
  assumes "pmm_ok s" "0 < k" "first_run (block_used s) (unat k) (searched s) n"
  shows "unat (mmap_find_free_frame k s) = n"
  using mmap_find_free_frame_first_run[of s k] assms first_run_unique by (metis pmm_ok_def)

abbreviation sizes :: "process \<Rightarrow> u32 \<times> u32 \<times> u32" where
  "sizes x \<equiv> (p_directory x, p_code_len x, p_stack_len x)"

lemma exit_of_placed:
  assumes "process_placed s' n num (b, c)" "frontier s' e" "0 < num" "num \<le> 9"
    and "ram t = ram s'" "block_used t = block_used s'" "max_blocks t = max_blocks s'"
    and "processes t n = Some x" "map_option sizes (processes s' n) = Some (sizes x)" "cr3 t = p_directory x"
  shows "recursive t"
    "m < searched t \<Longrightarrow> block_used (exit_freed x t) m \<longleftrightarrow> m < e \<and> m \<noteq> b \<and> \<not> (c + num \<le> m \<and> m < c + num + num)
       \<and> \<not> (c + num + 11 \<le> m \<and> m < c + num + 11 + 10)"
proof -
  let ?d = "entry_frame (p_directory x)"
  obtain p q where l: "p_code_len x = of_nat num" "p_stack_len x = 10" and o: "own_tables s' ?d" and pl: "placed (ram s') (p_directory x) num p q b c"
    using assms(1,9) by (auto simp: process_placed_def)
  have d: "directory t = ?d" by (simp add: directory_def assms(10))
  show r: "recursive t" using o by (simp add: recursive_self own_tables_def d assms(5))
  have tf: "table_frame t i = entry_frame (ram s' ?d i)" for i by (simp add: table_frame_def dir_entry_def d assms(5))
  have len: "unat (p_code_len x) = num" "unat (p_stack_len x) = 10" using assms(4) by (simp_all add: l unat_of_nat)
  have f: "unat (table_frame t 1023) = b" "unat (table_frame t 767) = c + num + 11" "unat (table_frame t 0) = c + num"
    using pl r unfolding tf by (simp_all add: placed_def recursive_def tf[symmetric] d unat_entry_frame)
  have "block_used (exit_freed x t) = exit_frees t x (block_used t)" by (rule exit_freed_used) (use len assms(4) in simp_all)
  then show "block_used (exit_freed x t) m \<longleftrightarrow> m < e \<and> m \<noteq> b \<and> \<not> (c + num \<le> m \<and> m < c + num + num)
       \<and> \<not> (c + num + 11 \<le> m \<and> m < c + num + 11 + 10)" if "m < searched t"
    using assms(2) that by (auto simp: exit_frees_def drop_blocks_def f len frontier_def searched_def assms(6,7))
qed

section \<open>Properties\<close>

text \<open>C19: exit gives away a process that is alive. Let processes be created one after the other while the blocks in use are
  those below a frontier, and let one of them run and end while the one created after it is still in the ring. The call
  succeeds and enters the next process of the ring, but among the blocks that it frees are the page directory and the first page of code of
  that other process, and the next search for the ten pages of a stack finds just the run that holds them.\<close>

theorem exit_frees_next_process:
  fixes s t :: "'s proc_scheme"
  assumes "kernel_ready s" "pool s (blocks_needed codes)" "\<forall>c \<in> set codes. \<exists>S. kernel_source s (fst c) (unat (snd c)) S"
    and "0xD0000000 \<le> unat (heap_pointer s)" "unat (heap_pointer s) + 4196 * length codes < 0xD0400000"
    and "current_process s = 0" "frontier s b" "\<forall>c \<in> set codes. unat (snd c) < 0x9000"
    and "spawn_all codes s = Ok () s'" "Suc i < length codes"
    and "ram t = ram s'" "block_used t = block_used s'" "max_blocks t = max_blocks s'"
    and "\<forall>r. map_option sizes (processes t r) = map_option sizes (processes s' r)"
    and "scheduled (slot (heap_pointer s) i # ps) t" "slot (heap_pointer s) (Suc i) \<in> set ps" "quiet (con t)" "length ps < fuel"
    and "processes t (slot (heap_pointer s) i) = Some x" "cr3 t = p_directory x"
  shows "\<exists>y z f t'. proc_exit_current_process fuel t = Exit (user_frame y) t' \<and> scheduled ps t'
    \<and> processes t' (slot (heap_pointer s) (Suc i)) = Some z
    \<and> user_page (ram t) (entry_frame (p_directory z)) 0 = Some (f, False)
    \<and> \<not> block_used t' (unat (entry_frame (p_directory z))) \<and> \<not> block_used t' (unat f)
    \<and> unat (mmap_find_free_frame 10 t') + 1 = unat (entry_frame (p_directory z))"
proof -
  let ?here = "places codes (entry_present (dir_entry s 833)) b" and ?e = "place_end codes (entry_present (dir_entry s 833)) b"
  let ?n = "code_pages (codes ! i)" and ?h = "slot (heap_pointer s)"
  have small: "\<forall>c \<in> set codes. code_pages c \<le> 1024" using assms(8) by fastforce
  have "in_ring [] s" "\<forall>p \<in> set []. unat p < unat (heap_pointer s)" using assms(6) by simp_all
  from spawn_all_placed[OF assms(1-5) this assms(7) small] assms(9)
  have s': "frontier s' ?e" "max_blocks s' = max_blocks s"
    and placed: "\<And>j. j < length codes \<Longrightarrow> process_placed s' (?h j) (code_pages (codes ! j)) (?here ! j)" by auto
  obtain b' c where bc: "?here ! i = (b', c)" by (cases "?here ! i")
  obtain b2 c2 where bc2: "?here ! Suc i = (b2, c2)" by (cases "?here ! Suc i")
  have i: "i < length codes" using assms(10) by simp
  have n: "0 < ?n" "?n \<le> 9"
  proof -
    have "unat (snd (codes ! i)) < 0x9000" using assms(8) i by simp
    then show "0 < ?n" "?n \<le> 9" by simp_all
  qed
  have own: "b \<le> b'" "b' < c" "c \<le> b' + 2" using places_own[OF i, of "entry_present (dir_entry s 833)" b] by (simp_all add: bc)
  have next_: "b2 = c + ?n + 12" "c2 = b2 + 1" "c2 + code_pages (codes ! Suc i) + 12 \<le> ?e"
    using places_next[OF assms(10), of "entry_present (dir_entry s 833)" b] places_own[OF assms(10), of "entry_present (dir_entry s 833)" b]
    by (simp_all add: bc bc2)
  have search: "searched t = searched s" by (simp add: searched_def assms(13) s'(2))
  have hi: "?e \<le> searched t"
  proof -
    have "0 < blocks_needed codes" using i by (cases codes rule: blocks_needed.cases) auto
    from frontier_pool(1)[OF assms(7,2) this] place_end_le[of codes "entry_present (dir_entry s 833)" b] show ?thesis
      unfolding search by simp
  qed
  have sx: "map_option sizes (processes s' (?h i)) = Some (sizes x)" using assms(14)[rule_format, of "?h i"] assms(19) by simp
  note ex = exit_of_placed[OF placed[OF i, unfolded bc] s'(1) n assms(11-13,19) sx assms(20)]
  have "ps \<noteq> []" using assms(16) by auto
  obtain y t' z' where run: "proc_exit_current_process fuel t = Exit (user_frame y) t'" "scheduled ps t'"
    "processes t (last ps) = Some z'" "processes t' = (processes t)(last ps \<mapsto> z'\<lparr>p_next := hd ps\<rparr>)"
    "block_used t' = block_used (exit_freed x t)" "max_blocks t' = max_blocks t"
    by (rule proc_exit_runs[OF assms(15) \<open>ps \<noteq> []\<close> assms(17) ex(1) assms(18,19)]) (rule that; assumption)
  have search': "searched t' = searched t" by (simp add: searched_def run(6))
  have used: "block_used t' m \<longleftrightarrow> m < ?e \<and> m \<noteq> b' \<and> \<not> (c + ?n \<le> m \<and> m < c + ?n + ?n) \<and> \<not> (c + ?n + 11 \<le> m \<and> m < c + ?n + 11 + 10)"
    if "m < searched t" for m using ex(2)[OF that] by (simp add: run(5))
  have e: "c + ?n + 25 \<le> ?e" using next_ by simp
  obtain x2 p q where x2: "processes s' (?h (Suc i)) = Some x2"
    and sp: "process_space (ram s') (entry_frame (p_directory x2)) (code_pages (codes ! Suc i)) p q"
    and pl: "placed (ram s') (p_directory x2) (code_pages (codes ! Suc i)) p q b2 c2"
    using placed[OF assms(10)] by (auto simp: process_placed_def bc2)
  obtain z0 where z0: "processes t (?h (Suc i)) = Some z0" "p_directory z0 = p_directory x2"
    using assms(14)[rule_format, of "?h (Suc i)"] x2 by auto
  then obtain z where z: "processes t' (?h (Suc i)) = Some z" "p_directory z = p_directory x2"
    using run(3,4) by (cases "?h (Suc i) = last ps") auto
  have d: "unat (entry_frame (p_directory z)) = b2" using pl by (simp add: z(2) unat_entry_frame placed_def)
  let ?f = "entry_frame p"
  have f: "unat ?f = c2" using pl by (simp add: unat_entry_frame placed_def)
  have "user_page (ram t) (entry_frame (p_directory z)) 0 = Some (?f, False)"
    using sp by (simp add: process_space_def z(2) assms(11) page_of_def)
  moreover have "\<not> block_used t' b2" "\<not> block_used t' c2" using next_ hi e by (simp_all add: used)
  moreover have "unat (mmap_find_free_frame 10 t') = c + ?n + 11"
  proof (rule find_first_run)
    have "pmm_ok s" using assms(1) by (simp add: kernel_ready_def space_okD(2))
    moreover have "block_used t' 0"
    proof -
      have "block_used s 0" using \<open>pmm_ok s\<close> by (simp add: pmm_ok_def)
      then have "0 < b" using assms(7) hi e by (simp add: frontier_def search)
      then show ?thesis using used[of 0] hi e own by simp
    qed
    ultimately show "pmm_ok t'" by (simp add: pmm_ok_def run(6) assms(13) s'(2))
    show "first_run (block_used t') (unat (10 :: u32)) (searched t') (c + ?n + 11)"
      unfolding search' using freed_run[OF used own(2,3) n e hi] by simp
  qed simp
  ultimately show ?thesis
    using run(1,2) z(1) d f next_(1) by (intro exI[of _ y] exI[of _ z] exI[of _ ?f] exI[of _ t']) simp
qed

theorem exit_frees_next_process_witness:
  "\<exists>(t :: proc) y z f t'. scheduled [0xD0000000, 0xD0001064] t \<and> proc_exit_current_process 2 t = Exit (user_frame y) t'
    \<and> scheduled [0xD0001064] t' \<and> processes t' 0xD0001064 = Some z
    \<and> user_page (ram t) (entry_frame (p_directory z)) 0 = Some (f, False)
    \<and> \<not> block_used t' (unat (entry_frame (p_directory z))) \<and> \<not> block_used t' (unat f)
    \<and> unat (mmap_find_free_frame 10 t') + 1 = unat (entry_frame (p_directory z))"
proof -
  let ?c = "[(0xC0103000, 128), (0xC0103080, 128)] :: (u32 \<times> u32) list"
  have p: "pool young_kernel (blocks_needed ?c)" by (rule young_kernel_pool) simp
  have "kernel_source young_kernel 0xC0103000 (unat (128 :: u32)) (\<lambda>_. 0x103)" by (rule young_kernel_source[of _ 0]) simp_all
  moreover have "kernel_source young_kernel 0xC0103080 (unat (128 :: u32)) (\<lambda>_. 0x103)" by (rule young_kernel_source[of _ 128]) simp_all
  ultimately have src: "\<forall>c \<in> set ?c. \<exists>S. kernel_source young_kernel (fst c) (unat (snd c)) S"
    by (simp only: list.set ball_simps fst_conv snd_conv) blast
  have h: "0xD0000000 \<le> unat (heap_pointer young_kernel)" "unat (heap_pointer young_kernel) + 4196 * length ?c < 0xD0400000"
    "current_process young_kernel = 0" "in_ring [] young_kernel" "\<forall>p \<in> set []. unat p < unat (heap_pointer young_kernel)"
    "\<forall>c \<in> set ?c. unat (snd c) < 0x9000"
    by (simp_all add: young_kernel_simps)
  have fr: "frontier young_kernel 512" using young_kernel_used by (simp add: frontier_def searched_def young_kernel_simps)
  have "pool young_kernel (blocks_needed ?c + 0)" using p by simp
  from spawn_all_runs[OF young_kernel_space(5) this src h(1,2,4,5)] obtain s' ds where s': "spawn_all ?c young_kernel = Ok () s'"
    and ring: "in_ring (fold joined (map (slot (heap_pointer young_kernel)) [0..<length ?c]) []) s'" and con: "con s' = con young_kernel"
    and b: "\<forall>i < length ?c. process_built young_kernel s' (slot (heap_pointer young_kernel) i) (ds ! i) (?c ! i)"
    by blast
  have slots: "slot (heap_pointer young_kernel) 0 = 0xD0000000" "slot (heap_pointer young_kernel) (Suc 0) = 0xD0001064"
    by (simp_all add: slot_def young_kernel_simps)
  have "[0..<length ?c] = [0, Suc 0]" by (simp add: upt_rec)
  then have sch: "scheduled [0xD0000000, 0xD0001064] s'" using ring by (simp add: slots)
  obtain x where x: "processes s' 0xD0000000 = Some x" using b[rule_format, of 0] by (auto simp: process_built_def slots)
  let ?t = "s'\<lparr>cr3 := p_directory x\<rparr>"
  have t: "scheduled (slot (heap_pointer young_kernel) 0 # [0xD0001064]) ?t" "slot (heap_pointer young_kernel) (Suc 0) \<in> set [0xD0001064]"
    "quiet (con ?t)" "length [0xD0001064 :: u32] < 2" "processes ?t (slot (heap_pointer young_kernel) 0) = Some x" "Suc 0 < length ?c"
    "block_used ?t = block_used s'"
    using sch x con unfolding slots by (simp_all add: scheduled_def blank_heap_simps young_kernel_simps(7) block_used_def fun_eq_iff)
  have same: "ram ?t = ram s'" "max_blocks ?t = max_blocks s'" "\<forall>r. map_option sizes (processes ?t r) = map_option sizes (processes s' r)"
    "cr3 ?t = p_directory x" by simp_all
  from exit_frees_next_process[OF young_kernel_space(5) p src h(1-3) fr h(6) s' t(6) same(1) t(7) same(2,3) t(1-5) same(4)] t(1)
  show ?thesis unfolding slots by blast
qed

end
