(* ===== verification/Start.thy ===== *)
theory Start
  imports Kernel Spawn
begin

unbundle bit_operations_syntax

text \<open>
  The start of the kernel as a whole: \<open>kernel_main\<close> of \<open>kernel/src/kernel.c\<close>, from the state in which
  \<open>boot.S\<close> leaves the machine to the \<open>iret\<close> that enters the first process. Each section takes one stretch
  of it and says what it sets up and which parts of the state it leaves as they were.
\<close>

section \<open>Descriptor tables, interrupts, devices\<close>

text \<open>The part of the state that is neither the processor's tables, the ports nor the handlers of interrupts.\<close>

definition hardware_set :: "'s irq_scheme \<Rightarrow> 's irq_scheme \<Rightarrow> bool" where
  "hardware_set s s' \<longleftrightarrow> s' = s\<lparr>io_events := io_events s', interrupt_flag := interrupt_flag s', gdt_entries := gdt_entries s',
     gdt_ptr := gdt_ptr s', tss := tss s', task_register := task_register s', gdtr := gdtr s', idt_entries := idt_entries s',
     idt_entry_ptr := idt_entry_ptr s', idtr := idtr s', irq_handlers := irq_handlers s'\<rparr>"

lemma hardware_set_trans: "hardware_set s t \<Longrightarrow> hardware_set t u \<Longrightarrow> hardware_set s u"
  unfolding hardware_set_def by (cases s, cases t, cases u) simp

lemma hardware_frame:
  assumes "hardware_set s s'"
  shows "con s' = con s" "isr_handlers s' = isr_handlers s" "bitmap s' = bitmap s" "used_blocks s' = used_blocks s"
    "max_blocks s' = max_blocks s" "irq.more s' = irq.more s"
  using assms unfolding hardware_set_def by (cases s, cases s', simp)+

lemma gdt_init_frame:
  assumes "length (gdt_entries s) = 6"
  obtains s' where "gdt_init gdt_addr tss_addr s = Ok () s'" "hardware_set s s'"
    "idt_entries s' = idt_entries s" "irq_handlers s' = irq_handlers s"
proof -
  obtain a b c d e f where "gdt_entries s = [a, b, c, d, e, f]"
    using assms by (auto simp: numeral_eq_Suc length_Suc_conv)
  then have "\<exists>s'. gdt_init gdt_addr tss_addr s = Ok () s' \<and> hardware_set s s' \<and> idt_entries s' = idt_entries s
      \<and> irq_handlers s' = irq_handlers s"
    by (simp add: gdt_init_def gdt_write_tss_def gdt_set_entry_def Let_def TSS_SIZE_def selector_defs
        SEG_SELECTOR_REQUESTED_PRIV_def hardware_set_def)
  then show ?thesis using that by blast
qed

lemma before_OkE:
  assumes "before m k s = Ok a t"
  obtains b u where "m s = Ok b u" "k u = Ok a t"
  using assms by (cases "m s") (auto simp: before_def andthen_def)

lemma hardware_init_runs:
  fixes s :: "'s keyboard_scheme"
  assumes "length (gdt_entries s) = 6" "length (idt_entries s) = 256" "irq_handlers s ! 0 = None" "irq_handlers s ! 1 = None"
  obtains s' where "\<forall>k :: ('s keyboard_scheme, unit) action. before (gdt_init ga ta) (before (idt_init ia) (before (isr_init is)
      (before (irq_init qs) (before timer_init (before keyboard_init k))))) s = k s'"
    "hardware_set s s'" "interrupt_flag s'"
    "irq_handlers s' = (irq_handlers s)[0 := Some Timer_callback, 1 := Some Keyboard_handler]"
    "\<forall>n < 49. idt_entries s' ! n = (if 32 \<le> n \<and> n < 48 then make_idt_entry (qs (n - 32)) 8 0x8E
       else make_idt_entry (is n) 8 (if n = 48 then 0xEE else 0x8E))"
proof -
  obtain s1 where s1: "gdt_init ga ta s = Ok () s1" "hardware_set s s1" "idt_entries s1 = idt_entries s" "irq_handlers s1 = irq_handlers s"
    by (rule gdt_init_frame[OF assms(1)])
  define s2 where "s2 = s1\<lparr>idt_entry_ptr := (of_nat (ISR_COUNT * 8 - 1), ia), idtr := (of_nat (ISR_COUNT * 8 - 1), ia)\<rparr>"
  have s2: "idt_init ia s1 = Ok () s2" "hardware_set s1 s2" by (simp_all add: idt_init_def s2_def hardware_set_def)
  have l2: "length (idt_entries s2) = 256" using assms(2) s1(3) by (simp add: s2_def)
  obtain fs l where
    g: "before (isr_init is) (irq_init qs) s2 = Ok () (s2\<lparr>idt_entries := fs, io_events := io_events s2 @ l, interrupt_flag := True\<rparr>)"
      "length fs = 256"
      "\<forall>n < 256. fs ! n = (if n < 32 then make_idt_entry (is n) 8 0x8E else if n < 48 then make_idt_entry (qs (n - 32)) 8 0x8E
         else if n = 48 then make_idt_entry (is 48) 8 0xEE else idt_entries s2 ! n)"
    by (rule gates_init_runs[OF l2, of "is" qs]) (rule that; assumption)
  let ?s3 = "s2\<lparr>idt_entries := fs, io_events := io_events s2 @ l, interrupt_flag := True\<rparr>"
  from g(1) obtain t where t: "isr_init is s2 = Ok () t" "irq_init qs t = Ok () ?s3" by (rule before_OkE) auto
  have h3: "irq_handlers ?s3 = irq_handlers s" using s1(4) by (simp add: s2_def)
  obtain ev where tm: "timer_init ?s3 = Ok () (?s3\<lparr>io_events := ev, irq_handlers := (irq_handlers s)[0 := Some Timer_callback]\<rparr>)"
    using timer_runs_too_fast[of ?s3] assms(3) h3 by auto
  let ?s4 = "?s3\<lparr>io_events := ev, irq_handlers := (irq_handlers s)[0 := Some Timer_callback]\<rparr>"
  have kb: "keyboard_init ?s4 = Ok () (?s4\<lparr>irq_handlers := (irq_handlers s)[0 := Some Timer_callback, 1 := Some Keyboard_handler]\<rparr>)"
    using register_keyboard[of ?s4] assms(4) by (simp add: keyboard_init_def)
  let ?s' = "?s4\<lparr>irq_handlers := (irq_handlers s)[0 := Some Timer_callback, 1 := Some Keyboard_handler]\<rparr>"
  have "hardware_set s2 ?s'" by (simp add: hardware_set_def)
  then have "hardware_set s ?s'" using s1(2) s2(2) hardware_set_trans by blast
  moreover have "\<forall>n < 49. fs ! n = (if 32 \<le> n \<and> n < 48 then make_idt_entry (qs (n - 32)) 8 0x8E
       else make_idt_entry (is n) 8 (if n = 48 then 0xEE else 0x8E))"
  proof (intro allI impI)
    fix n :: nat assume "n < 49"
    then have "n < 32 \<or> 32 \<le> n \<and> n < 48 \<or> n = 48" by linarith
    then show "fs ! n = (if 32 \<le> n \<and> n < 48 then make_idt_entry (qs (n - 32)) 8 0x8E
       else make_idt_entry (is n) 8 (if n = 48 then 0xEE else 0x8E))" using g(3) by auto
  qed
  ultimately show ?thesis
    using s1(1) s2(1) t tm kb by (intro that[of ?s']) simp_all
qed

section \<open>Physical memory\<close>

text \<open>\<open>pmm_init\<close> leaves alone what is not its own.\<close>

definition pmm_rest :: "'s pmm_scheme \<Rightarrow> 's pmm_scheme" where
  "pmm_rest s = s\<lparr>con := blank_tty, mem_size := 0, used_blocks := 0, max_blocks := 0, bitmap := \<lambda>_. 0\<rparr>"

lemma pmm_rest_eq:
  assumes "pmm_rest s' = pmm_rest s"
  shows "s' = s\<lparr>con := con s', mem_size := mem_size s', used_blocks := used_blocks s', max_blocks := max_blocks s', bitmap := bitmap s'\<rparr>"
  using assms unfolding pmm_rest_def by (cases s, cases s') simp

lemma rest_console: "keeps (\<lambda>s. pmm_rest s = r) (on_console m)"
  unfolding on_console_def by (rule keeps_zoom[of "\<lambda>_. True"]) (simp_all add: keeps_def pmm_rest_def split: outcome.splits)

lemma rest_mark [simp]: "pmm_rest (mmap_set b s) = pmm_rest s" "pmm_rest (mmap_unset b s) = pmm_rest s"
  by (simp_all add: pmm_rest_def mmap_set_def mmap_unset_def)

lemma rest_each [simp]: "pmm_rest (each_block mmap_set b n s) = pmm_rest s" "pmm_rest (each_block mmap_unset b n s) = pmm_rest s"
  by (simp_all add: each_block_def fold_frame)

lemma rest_regions: "keeps (\<lambda>s. pmm_rest s = r) (pmm_init_region a n)" "keeps (\<lambda>s. pmm_rest s = r) (pmm_deinit_region a n)"
  unfolding pmm_init_region_def pmm_deinit_region_def kprintf_def by (intro keeps_Let keeps_intros rest_console; simp)+

lemma rest_loop: "keeps (\<lambda>s. pmm_rest s = r) (pmm_init_loop entry_at stop fuel mmap available unavailable)"
  by (induction fuel arbitrary: mmap available unavailable)
    (auto simp: Let_def intro!: keeps_intros rest_regions)

lemma pmm_init_frame:
  assumes "pmm_init kernel_end entry_at fuel mbi s = Ok () s'"
  shows "pmm_rest s' = pmm_rest s"
proof -
  have "keeps (\<lambda>t. pmm_rest t = pmm_rest s) (pmm_init kernel_end entry_at fuel mbi)"
    unfolding pmm_init_def kprintf_def split_beta
    by (intro keeps_Let keeps_intros rest_console rest_regions rest_loop) (simp add: pmm_rest_def)
  from keeps_OkD[OF this assms] show ?thesis by simp
qed

text \<open>
  Memory that suffices: behind the kernel and the bitmap there is a run of \<open>k\<close> blocks that the walk over the
  memory map frees, which are those of the available regions when the entries are \<open>addressable\<close>, and the
  count that \<open>pmm_init\<close> arrives at admits \<open>k\<close> blocks more.
\<close>

definition first_block :: "u32 \<Rightarrow> multiboot_info \<Rightarrow> u32" where
  "first_block kernel_end mbi = (kernel_end + total_blocks mbi div 8) div PMM_BLOCK_SIZE"

text \<open>
  Enough memory for \<open>k\<close> blocks in one piece, and a bitmap that ends with a block. The model keeps the bitmap
  apart from the rest of memory, which is right as long as no block that holds a part of it is handed out; where
  it ends inside a block, the first request gets that block (\<open>first_page_holds_bitmap\<close> below).
\<close>

definition memory_enough :: "u32 \<Rightarrow> multiboot_info \<Rightarrow> multiboot_mmap_entry list \<Rightarrow> nat \<Rightarrow> bool" where
  "memory_enough kernel_end mbi es k \<longleftrightarrow>
     (kernel_end + total_blocks mbi div 8) mod PMM_BLOCK_SIZE = 0
     \<and> (\<exists>a. unat (first_block kernel_end mbi) \<le> a \<and> a + k \<le> 32 * (unat (total_blocks mbi) div 32)
        \<and> (\<forall>n \<in> {a..<a + k}. \<exists>e \<in> set es. n \<in> freed_blocks e))
     \<and> unat (total_blocks mbi - sum_list (map entry_count es) + first_block kernel_end mbi) + k \<le> unat (total_blocks mbi)"

text \<open>The sum of the kernel's end and the size of the bitmap does not wrap around.\<close>

lemma bitmap_end:
  assumes "unat kernel_end \<le> 0x400000"
  shows "unat (kernel_end + total_blocks mbi div 8) = unat kernel_end + unat (total_blocks mbi) div 8"
    "unat (first_block kernel_end mbi) = unat (kernel_end + total_blocks mbi div 8) div 4096"
proof -
  have "unat (total_blocks mbi div 8) = unat (total_blocks mbi) div 8" by (simp add: unat_div)
  moreover have "unat (total_blocks mbi) < 2 ^ 20" using total_blocks_small[of mbi] by (simp add: word_less_nat_alt)
  ultimately show "unat (kernel_end + total_blocks mbi div 8) = unat kernel_end + unat (total_blocks mbi) div 8"
    using assms by (intro unat_sum2) simp_all
  show "unat (first_block kernel_end mbi) = unat (kernel_end + total_blocks mbi div 8) div 4096"
    unfolding first_block_def by (rule unat_frame)
qed

lemma pmm_init_ready:
  assumes entries: "map_entries entry_at (P2V (mmap_addr mbi) + mmap_length mbi) fuel (P2V (mmap_addr mbi)) = Some es"
    and "quiet (con s)" "4096 \<le> unat kernel_end" "unat kernel_end \<le> 0x400000" "memory_enough kernel_end mbi es k"
  obtains s' where "pmm_init kernel_end entry_at fuel mbi s = Ok () s'" "quiet (con s')" "pmm_rest s' = pmm_rest s" "pmm_ok s'" "pool s' k"
    "\<And>n. n < unat kernel_end div 4096 \<Longrightarrow> block_used s' n"
proof -
  obtain s' where s': "pmm_init kernel_end entry_at fuel mbi s = Ok () s'" "quiet (con s')" "max_blocks s' = total_blocks mbi"
    and used: "\<And>n. n < 8 * (unat (total_blocks mbi) div 8) \<Longrightarrow>
       block_used s' n \<longleftrightarrow> n < unat (kernel_end + total_blocks mbi div 8) div 4096 \<or> (\<forall>e \<in> set es. n \<notin> freed_blocks e)"
    and count: "used_blocks s' = total_blocks mbi - sum_list (map entry_count es) + first_block kernel_end mbi"
    unfolding first_block_def using pmm_init_runs[OF assms(1,2), of kernel_end] by metis
  obtain a where a: "unat (first_block kernel_end mbi) \<le> a" "a + k \<le> 32 * (unat (total_blocks mbi) div 32)"
    "\<forall>n \<in> {a..<a + k}. \<exists>e \<in> set es. n \<in> freed_blocks e" using assms(5) by (auto simp: memory_enough_def)
  note top = bitmap_end(2)[OF assms(4), of mbi]
  have low: "unat kernel_end div 4096 \<le> unat (first_block kernel_end mbi)"
    unfolding top bitmap_end(1)[OF assms(4)] by (simp add: div_le_mono)
  have bound: "32 * (unat (total_blocks mbi) div 32) \<le> 8 * (unat (total_blocks mbi) div 8)"
    using times_div_less_eq_dividend[of 4 "unat (total_blocks mbi) div 8"] by (simp add: div_mult2_eq[symmetric])
  have kept: "block_used s' n" if "n < unat kernel_end div 4096" for n
    using that low a(1,2) bound used[of n] top by simp
  have "1 \<le> unat kernel_end div 4096" using assms(3) by (simp add: div_le_mono[of 4096, simplified])
  then have "pmm_ok s'" using kept[of 0] total_blocks_small s'(3) by (simp add: pmm_ok_def)
  moreover have "pool s' k"
    unfolding pool_def searched_def s'(3) count
  proof (intro conjI exI[of _ a])
    show "a + k \<le> 32 * (unat (total_blocks mbi) div 32)" by (rule a(2))
    show "free_run (block_used s') a k" unfolding free_run_def
      using a bound used top by fastforce
    show "unat (total_blocks mbi - sum_list (map entry_count es) + first_block kernel_end mbi) + k \<le> unat (total_blocks mbi)"
      using assms(5) by (simp add: memory_enough_def)
  qed
  ultimately show ?thesis using that[OF s'(1,2) pmm_init_frame[OF s'(1)]] kept by blast
qed

section \<open>The address space of the kernel\<close>

lemma kernel_dirs: "dirs_of (page_of 0) 256 = {0}" "dirs_of (page_of 0xD0000000) 1024 = {832}"
proof -
  have "unat i = (0 :: nat) \<longleftrightarrow> i = 0" "unat i = 832 \<longleftrightarrow> i = 832" for i :: "10 word"
    by (simp_all add: word_unat_eq_iff)
  moreover have "k < 1024 \<Longrightarrow> (0xD0000 + k) div 1024 = (832 :: nat)" "k < 256 \<Longrightarrow> k div 1024 = (0 :: nat)" for k by simp_all
  moreover have "page_of 0 = 0" "page_of 0xD0000000 = 0xD0000" by (simp_all add: page_of_def)
  ultimately show "dirs_of (page_of 0) 256 = {0}" "dirs_of (page_of 0xD0000000) 1024 = {832}"
    unfolding dirs_of_def by (auto intro!: exI[of _ 0] simp: set_eq_iff cong: conj_cong)
qed

lemma paging_init_ready:
  assumes "booted kdir s" "pmm_ok s" "block_used s (unat (directory s))" "pool s (2305 + k)" "isr_handlers s ! 14 = None"
  obtains p s' where "paging_init kdir s = Ok () s'" "kernel_ready s'" "pool s' k" "directory s' = directory s"
    "\<forall>v. dir_of v \<noteq> 1023 \<longrightarrow> translate s' v = kernel_map p v"
    "\<forall>n. block_used s n \<longrightarrow> block_used s' n"
    "\<forall>f. block_used s (unat f) \<and> f \<noteq> directory s \<longrightarrow> off_tables s' {f} \<and> ram s' f = ram s f"
    "\<exists>b u m. s' = s\<lparr>isr_handlers := (isr_handlers s)[14 := Some Paging_fault_handler], bitmap := b, used_blocks := u, ram := m,
       current_page_directory := kdir, con := term_set_buffer KERNEL_VGA_BASE_VIRT (con s)\<rparr>"
proof -
  let ?s0 = "s\<lparr>isr_handlers := (isr_handlers s)[14 := Some Paging_fault_handler]\<rparr>"
  have b0: "booted kdir ?s0" "pmm_ok ?s0" "block_used ?s0 (unat (directory ?s0))"
    using assms(1-3) by (simp_all add: booted_def space_ok_frame pmm_ok_def)
  define s1 where "s1 = kernel_space kdir ?s0"
  note ks = kernel_space_ok[OF b0, folded s1_def]
  have d1: "directory s1 = directory s" using ks(2) by (simp add: space_ok_frame)
  have pool1: "pool s1 (2305 + k)" using assms(4) by (simp add: s1_def kernel_space_def pool_def searched_def space_ok_frame poke_with_frame)
  have kd: "unat (V2P kdir) mod 4096 = 0"
  proof -
    obtain q where q: "unat kdir = 4096 * q" using assms(1) unfolding booted_def by (metis mod_0_imp_dvd dvdE)
    have "4096 * q - 0xC0000000 = 4096 * (q - 786432)" by simp
    then show ?thesis using assms(1) q by (simp add: unat_V2P booted_def)
  qed
  note f = entry_fields[OF kd, of 0]
  have e1: "has_table s1 i \<longleftrightarrow> i = 1023" "entry_present (dir_entry s1 i) \<longleftrightarrow> i = 1023 \<or> i = 768"
    "i \<in> large_pages s1 \<longleftrightarrow> i = 768" "\<not> entry_user (dir_entry s1 i)" for i
    using f(3,5) aligned_bits[OF kd, of 2]
    by (auto simp: has_table_def large_pages_def ks(3) entry_present_def entry_large_def entry_user_def bit_numeral_rec bit_simps page_bits)
  have p1: "pte s1 v = 0" if "dir_of v \<noteq> 1023" for v using that by (simp add: pte_def e1(1))
  have rw: "\<not> bit PAGE_RW 7" "bit PAGE_RW 2 = False" by (simp_all add: page_bits)
  have z: "unat (0 :: u32) mod 4096 = 0" "unat (0 :: u32) + unat (256 :: u32) * 4096 \<le> 0xFFC00000"
    "unat (0 :: u32) + unat (256 :: u32) * 4096 \<le> 2 ^ 32" "unat (256 :: u32) = 256" "unat (1024 :: u32) = 1024" by simp_all
  have none0: "dir_of v \<notin> large_pages s1 \<and> pte s1 v = 0"
    if "page_of 0 \<le> page_of v" "page_of v < page_of 0 + unat (256 :: u32)" for v
  proof -
    have "unat (dir_of v) = 0" using that by (simp add: dir_of_page page_of_def[of 0])
    then have "dir_of v = 0" by (simp add: word_unat_eq_iff)
    then show ?thesis using e1(3) p1 by simp
  qed
  have roomA: "pool s1 (unat (256 :: u32) + (1024 + (1024 + Suc k)))" using pool1 by simp
  obtain s2 where A: "paging_map_pages 0 0 256 PAGE_RW s1 = Ok () s2" "space_ok s2" "pool s2 (1024 + (1024 + Suc k))"
    and A0: "grown (dirs_of (page_of 0) (unat (256 :: u32))) (bit PAGE_RW 2) s1 s2"
    and At: "\<forall>j < unat (256 :: u32). \<forall>v. page_of v = page_of 0 + j \<longrightarrow> has_table s2 (dir_of v)
      \<and> pte s2 v = (0 + of_nat j * PAGE_SIZE) OR PAGE_PRESENT OR (PAGE_RW AND PAGE_FLAGS)"
    by (rule map_pages_grows[OF z(1,1) ks(1) z(2,3) none0 rw(1) roomA]) (assumption | (rule that; assumption))+
  have gA: "grown {0} False s1 s2" using A0 by (simp add: kernel_dirs z rw)
  define s3 where "s3 = s2\<lparr>current_page_directory := kdir\<rparr>"
  have "ram s3 = ram s2" "cr3 s3 = cr3 s2" "bitmap s3 = bitmap s2" "used_blocks s3 = used_blocks s2" "max_blocks s3 = max_blocks s2"
    by (simp_all add: s3_def)
  note eq3 = same_space[OF this]
  have sp3: "space_ok s3" "pool s3 (unat (1024 :: u32) + (1024 + Suc k))" using A(2,3) by (simp_all add: eq3)
  have pos: "(0 :: u32) < 1024" by simp
  obtain p s4 where C: "pmm_alloc_pages 1024 s3 = Ok p s4" "space_ok s4" "pool s4 (1024 + Suc k)" "grown {831, 832} False s3 s4"
    "unat p mod 4096 = 0" "unat p + unat (1024 :: u32) * 4096 \<le> 2 ^ 32"
    and C0: "\<forall>v. pte s4 v = pte s3 v" "large_pages s4 = large_pages s3" "dir_entry s4 = dir_entry s3"
    by (rule pmm_alloc_pages_grown[OF sp3 pos, of "{831, 832}" False]) (rule that; assumption)
  have e4: "dir_entry s4 i = dir_entry s1 i" if "i \<noteq> 0" for i
    using that grownD(5)[OF gA, of i] by (simp add: C0 eq3)
  have none4: "dir_of v \<notin> large_pages s4 \<and> pte s4 v = 0" if "dir_of v \<noteq> 0" "dir_of v \<noteq> 768" "dir_of v \<noteq> 1023" for v
    using that e4[OF that(1)] e1(2)[of "dir_of v"] by (simp add: large_pages_def pte_def has_table_def)
  have noneD: "dir_of v \<notin> large_pages s4 \<and> pte s4 v = 0"
    if "page_of 0xD0000000 \<le> page_of v" "page_of v < page_of 0xD0000000 + unat (1024 :: u32)" for v
  proof -
    have "unat (dir_of v) = 832" using that unfolding dir_of_page by (simp add: page_of_def[of "0xD0000000"])
    then have "dir_of v = 832" by (simp add: word_unat_eq_iff)
    then show ?thesis using none4[of v] by simp
  qed
  have h: "unat (0xD0000000 :: u32) mod 4096 = 0" "unat (0xD0000000 :: u32) + unat (1024 :: u32) * 4096 \<le> 0xFFC00000" by simp_all
  have roomD: "pool s4 (unat (1024 :: u32) + Suc k)" using C(3) by simp
  obtain s5 where D: "paging_map_pages 0xD0000000 p 1024 PAGE_RW s4 = Ok () s5" "space_ok s5" "pool s5 (Suc k)"
    and D0: "grown (dirs_of (page_of 0xD0000000) (unat (1024 :: u32))) (bit PAGE_RW 2) s4 s5"
    and Dt: "\<forall>j < unat (1024 :: u32). \<forall>v. page_of v = page_of 0xD0000000 + j \<longrightarrow> has_table s5 (dir_of v)
      \<and> pte s5 v = (p + of_nat j * PAGE_SIZE) OR PAGE_PRESENT OR (PAGE_RW AND PAGE_FLAGS)"
    by (rule map_pages_grows[OF h(1) C(5,2) h(2) C(6) noneD rw(1) roomD]) (assumption | (rule that; assumption))+
  have gD: "grown {832} False s4 s5" using D0 by (simp add: kernel_dirs z rw)
  have table832: "has_table s5 832"
  proof -
    have "dir_of 0xD0000000 = 832" "page_of 0xD0000000 = page_of 0xD0000000 + 0" by (simp_all add: dir_of_iff)
    then show ?thesis using Dt by (metis zero_less_numeral z(5))
  qed
  have vga: "unat (0xCFFFF000 :: u32) mod 4096 = 0" "dir_of 0xCFFFF000 = 831" "dir_of 0xCFFFF000 \<noteq> 1023" by (simp_all add: dir_of_iff)
  have "dir_entry s5 831 = dir_entry s1 831" using grownD(5)[OF gD, of 831] e4[of 831] by simp
  then have "translate s5 0xCFFFF000 = None" using e1(2)[of 831] by (simp add: translate_eq vga(2))
  note vga_runs = map_page_grows[OF vga(1) D(2) vga(3) this rw(1) D(3)]
  obtain s6 where E: "paging_map_page 0xCFFFF000 VGA_MEMORY PAGE_RW s5 = Ok () s6" "space_ok s6" "pool s6 k"
    "grown {dir_of 0xCFFFF000} (bit PAGE_RW 2) s5 s6" "has_table s6 (dir_of 0xCFFFF000)"
    by (rule vga_runs) (rule that; assumption)
  have g36: "grown {831, 832} False s3 s6"
  proof -
    have "grown {831, 832} False s4 s5" by (rule grown_mono[OF gD]) simp
    moreover have "grown {831, 832} False s5 s6" by (rule grown_mono[OF E(4)[unfolded vga(2) rw(2)]]) simp
    ultimately show ?thesis using C(4) grown_trans by blast
  qed
  have tables6: "has_table s6 832" "has_table s6 831" using table832 grownD(9)[OF E(4)] E(5) by (simp_all add: vga(2))
  let ?s7 = "s6\<lparr>con := term_set_buffer KERNEL_VGA_BASE_VIRT (con s6)\<rparr>"
  have exec: "paging_init kdir s = Ok () ?s7"
  proof -
    have c: "(KERNEL_HEAP_END_VIRT - 0xD0000000) div PAGE_SIZE = 1024" "KERNEL_HEAP_BASE_VIRT = 0xD0000000"
      "KERNEL_VGA_BASE_VIRT = 0xCFFFF000" by (simp_all add: heap_defs PAGE_SIZE_def KERNEL_VGA_BASE_VIRT_def)
    have "isr_register_handler 14 Paging_fault_handler s = Ok () ?s0"
      using isr_register_free[of 14 s] assms(5) by simp
    then show ?thesis
      using kernel_space_writes[OF b0(1)] A(1) C(1) D(1) E(1)
      by (simp add: paging_init_def Let_def c paging_invalidate_page_def on_console_def zoom_def kernel_space_def[symmetric]
          s1_def[symmetric] s3_def[symmetric])
  qed
  have "roomy s 2305" by (rule pool_roomy[OF pool_mono[OF assms(4)]]) simp
  from paging_init_runs[OF assms(1-3) this assms(5)] obtain q s'' where
    "paging_init kdir s = Ok () s''" "\<forall>v. dir_of v \<noteq> 1023 \<longrightarrow> translate s'' v = kernel_map q v" by metis
  then have tr: "\<forall>v. dir_of v \<noteq> 1023 \<longrightarrow> translate ?s7 v = kernel_map q v" using exec by simp
  have d6: "directory s6 = directory s" using grownD(2)[OF g36] grownD(2)[OF gA] d1 by (simp add: eq3)
  have used: "block_used s n \<Longrightarrow> block_used s6 n" for n
    using grownD(3)[OF g36] grownD(3)[OF gA] ks(5) by (simp add: eq3 space_ok_frame)
  have other: "off_tables s6 {f}" "ram s6 f = ram s f" if f: "block_used s (unat f)" "f \<noteq> directory s" for f
  proof -
    have b1: "block_used s1 (unat f)" using f(1) ks(5) by (simp add: space_ok_frame)
    have o1: "off_tables s1 {f}" using f(2) d1 space_okD(1)[OF ks(1)] by (auto simp: off_tables_def e1(1) recursive_def)
    have o3: "off_tables s3 {f}" using grown_off[OF gA o1] b1 by (simp add: eq3)
    have b3: "block_used s3 (unat f)" using grownD(3)[OF gA] b1 by (simp add: eq3)
    show "off_tables s6 {f}" by (rule grown_off[OF g36 o3]) (use b3 in simp)
    have "ram s6 f = ram s3 f" by (rule grownD(4)[OF g36 b3]) (use o3 in \<open>auto simp: off_tables_def\<close>)
    also have "\<dots> = ram s2 f" by (simp add: s3_def)
    also have "\<dots> = ram s1 f" by (rule grownD(4)[OF gA b1]) (use o1 in \<open>auto simp: off_tables_def\<close>)
    also have "\<dots> = ram s f" using f(2) by (simp add: s1_def kernel_space_def poke_def space_ok_frame)
    finally show "ram s6 f = ram s f" .
  qed
  have priv: "kernel_private s6"
    unfolding kernel_private_def
  proof (intro allI impI)
    fix i assume i: "768 \<le> unat i \<and> entry_present (dir_entry s6 i)"
    then have i0: "i \<noteq> 0" by auto
    have e3: "dir_entry s3 i = dir_entry s1 i" using e4[OF i0] C0(3) by simp
    show "\<not> entry_user (dir_entry s6 i)"
    proof (cases "entry_present (dir_entry s1 i)")
      case True
      then show ?thesis using grownD(6)[OF g36, of i] e3 e1(4) by simp
    next
      case False
      then have "i \<in> {831, 832}" using grownD(5)[OF g36, of i] e3 i by metis
      then have "has_table s6 i" using tables6 by auto
      moreover have "\<not> has_table s3 i" using False e3 by (simp add: has_table_def)
      ultimately show ?thesis using grownD(8)[OF g36] by blast
    qed
  qed
  have same: "ram ?s7 = ram s6" "cr3 ?s7 = cr3 s6" "bitmap ?s7 = bitmap s6" "used_blocks ?s7 = used_blocks s6" "max_blocks ?s7 = max_blocks s6"
    by simp_all
  note eq7 = same_space[OF same]
  have top: "dir_of KERNEL_HEAP_END_VIRT \<noteq> 1023" "kernel_map q KERNEL_HEAP_END_VIRT = None"
    by (simp_all add: dir_of_iff heap_defs kernel_map_def)
  have "translate ?s7 KERNEL_HEAP_END_VIRT = None" using tr top by simp
  then have "kernel_ready s6" using E(2) priv by (simp add: eq7(3) kernel_ready_def)
  then have ready: "kernel_ready ?s7" by (simp only: eq7)
  have frame: "\<exists>b u m. ?s7 = s\<lparr>isr_handlers := (isr_handlers s)[14 := Some Paging_fault_handler], bitmap := b, used_blocks := u, ram := m,
       current_page_directory := kdir, con := term_set_buffer KERNEL_VGA_BASE_VIRT (con s)\<rparr>"
  proof -
    obtain m b u where 2: "s2 = s1\<lparr>bitmap := b, used_blocks := u, ram := m\<rparr>" using grownD(1)[OF gA] unfolding pages_changed_def by blast
    obtain m' b' u' where 6: "s6 = s3\<lparr>bitmap := b', used_blocks := u', ram := m'\<rparr>" using grownD(1)[OF g36] unfolding pages_changed_def by blast
    show ?thesis by (rule exI[of _ b'], rule exI[of _ u'], rule exI[of _ m']) (simp add: 2 6 s3_def s1_def kernel_space_def poke_def)
  qed
  show ?thesis
  proof (rule that[OF exec ready _ _ tr _ _ frame])
    show "pool ?s7 k" using E(3) by (simp only: eq7)
    show "directory ?s7 = directory s" using d6 by (simp only: eq7)
    show "\<forall>n. block_used s n \<longrightarrow> block_used ?s7 n" using used by (simp only: eq7) blast
    show "\<forall>f. block_used s (unat f) \<and> f \<noteq> directory s \<longrightarrow> off_tables ?s7 {f} \<and> ram ?s7 f = ram s f"
      using other by (simp only: eq7 same(1)) blast
  qed
qed

section \<open>The state that the boot stub leaves\<close>

text \<open>
  The image is linked into the first 4 MiB behind 1 MiB, the page directory and the three programs
  are whole within it, and no program shares a page with the directory.
\<close>

definition in_image :: "image \<Rightarrow> u32 \<Rightarrow> nat \<Rightarrow> bool" where
  "in_image img v n \<longleftrightarrow> 0xC0000000 \<le> unat v \<and> unat v + n \<le> 0xC0000000 + unat (kernel_end_phys img) div 4096 * 4096"

definition image_ok :: "image \<Rightarrow> bool" where
  "image_ok img \<longleftrightarrow> 0x100000 \<le> unat (kernel_end_phys img) \<and> unat (kernel_end_phys img) \<le> 0x400000
     \<and> in_image img (kernel_directory_address img) 4096
     \<and> (\<forall>p \<in> {process_1 img, process_2 img, process_3 img}. in_image img p 128
          \<and> (unat p + 128 \<le> unat (kernel_directory_address img) \<or> unat (kernel_directory_address img) + 4096 \<le> unat p))"

text \<open>The variables of the kernel have their initial values, and paging is on with the two large pages of \<open>boot.S\<close>.\<close>

definition kernel_loaded :: "image \<Rightarrow> 's sys_scheme \<Rightarrow> bool" where
  "kernel_loaded img s \<longleftrightarrow> quiet (con s) \<and> length (gdt_entries s) = 6 \<and> length (idt_entries s) = 256
     \<and> isr_handlers s = replicate 256 None \<and> irq_handlers s = replicate 16 None \<and> callback s = None
     \<and> syscall_handlers s = replicate 256 None \<and> heap_pointer s = KERNEL_HEAP_BASE_VIRT \<and> current_process s = 0 \<and> next_pid s = 1
     \<and> booted (kernel_directory_address img) s"

text \<open>Addresses of the image and the frames behind them.\<close>

lemma image_frame:
  assumes "in_image img v n" "i < n" "unat (kernel_end_phys img) \<le> 0x400000"
  shows "unat (v + of_nat i) = unat v + i" "0xC0000000 \<le> unat (v + of_nat i)" "unat (v + of_nat i) < 0xC0400000"
    "unat (entry_frame (V2P (v + of_nat i))) = (unat v + i - 0xC0000000) div 4096"
    "unat (entry_frame (V2P (v + of_nat i))) < unat (kernel_end_phys img) div 4096"
proof -
  have b: "0xC0000000 \<le> unat v" "unat v + n \<le> 0xC0000000 + unat (kernel_end_phys img) div 4096 * 4096" using assms(1) by (simp_all add: in_image_def)
  have top: "unat (kernel_end_phys img) div 4096 * 4096 \<le> 0x400000" using assms(3) div_times_less_eq_dividend le_trans by blast
  have i: "unat v + i < 0xC0400000" using b(2) assms(2) top by linarith
  show u: "unat (v + of_nat i) = unat v + i"
    by (rule unat_sum2[OF refl]) (use i in \<open>simp_all add: unat_of_nat\<close>)
  show r: "0xC0000000 \<le> unat (v + of_nat i)" "unat (v + of_nat i) < 0xC0400000" using u b(1) i by simp_all
  show f: "unat (entry_frame (V2P (v + of_nat i))) = (unat v + i - 0xC0000000) div 4096"
    unfolding unat_entry_frame unat_V2P[OF r(1)] u ..
  have "unat v + i - 0xC0000000 < unat (kernel_end_phys img) div 4096 * 4096" using b assms(2) by linarith
  then show "unat (entry_frame (V2P (v + of_nat i))) < unat (kernel_end_phys img) div 4096"
    unfolding f by (rule less_mult_imp_div_less)
qed

lemma kernel_memory_ready:
  fixes s :: "'s vmm_scheme"
  defines "S \<equiv> \<lambda>code i. entry_frame (V2P (code + of_nat i))"
  assumes img: "image_ok img" and boot: "booted (kernel_directory_address img) s"
    and "quiet (con s)" "isr_handlers s ! 14 = None"
    and entries: "map_entries entry_at (P2V (mmap_addr mbi) + mmap_length mbi) fuel (P2V (mmap_addr mbi)) = Some es"
    and enough: "memory_enough (kernel_end_phys img) mbi es (2305 + k)"
  obtains p s1 s2 where "pmm_init (kernel_end_phys img) entry_at fuel mbi s = Ok () s1"
    "paging_init (kernel_directory_address img) s1 = Ok () s2" "kernel_ready s2" "pool s2 k" "quiet (con s2)"
    "\<exists>c z b u x m. s2 = s\<lparr>con := c, mem_size := z, used_blocks := u, max_blocks := x, bitmap := b,
       isr_handlers := (isr_handlers s)[14 := Some Paging_fault_handler], ram := m, current_page_directory := kernel_directory_address img\<rparr>"
    "\<forall>v. dir_of v \<noteq> 1023 \<longrightarrow> translate s2 v = kernel_map p v"
    "\<forall>code \<in> {process_1 img, process_2 img, process_3 img}. kernel_source s2 code 128 (S code)
       \<and> (\<forall>i < 128. translate s (code + of_nat i) = Some (S code i) \<and> ram s2 (S code i) = ram s (S code i))"
proof -
  let ?kdir = "kernel_directory_address img"
  have kend: "4096 \<le> unat (kernel_end_phys img)" "unat (kernel_end_phys img) \<le> 0x400000" using img by (simp_all add: image_ok_def)
  obtain s1 where s1: "pmm_init (kernel_end_phys img) entry_at fuel mbi s = Ok () s1" "quiet (con s1)" "pmm_rest s1 = pmm_rest s"
    "pmm_ok s1" "pool s1 (2305 + k)" and used: "\<And>n. n < unat (kernel_end_phys img) div 4096 \<Longrightarrow> block_used s1 n"
    using pmm_init_ready[OF entries assms(4) kend enough] by metis
  have f1: "cr3 s1 = cr3 s" "ram s1 = ram s" "isr_handlers s1 = isr_handlers s"
    using arg_cong[OF s1(3), of cr3] arg_cong[OF s1(3), of ram] arg_cong[OF s1(3), of isr_handlers] by (simp_all add: pmm_rest_def)
  have d: "directory s1 = directory s" "dir_entry s1 = dir_entry s" by (simp_all add: directory_def dir_entry_def f1 fun_eq_iff)
  have b1: "booted ?kdir s1" using boot by (simp add: booted_def d f1)
  have kd: "in_image img ?kdir 4096" using img by (simp add: image_ok_def)
  have dirf: "directory s = entry_frame (V2P ?kdir)" using boot by (simp add: directory_def booted_def)
  have "unat (entry_frame (V2P ?kdir)) < unat (kernel_end_phys img) div 4096"
    using image_frame(5)[OF kd, of 0] kend(2) by simp
  then have u1: "block_used s1 (unat (directory s1))" using used by (simp add: d dirf)
  have h1: "isr_handlers s1 ! 14 = None" using assms(5) f1 by simp
  obtain p s2 where s2: "paging_init ?kdir s1 = Ok () s2" "kernel_ready s2" "pool s2 k"
    and tr: "\<forall>v. dir_of v \<noteq> 1023 \<longrightarrow> translate s2 v = kernel_map p v"
    and u2: "\<forall>n. block_used s1 n \<longrightarrow> block_used s2 n"
    and o2: "\<forall>f. block_used s1 (unat f) \<and> f \<noteq> directory s1 \<longrightarrow> off_tables s2 {f} \<and> ram s2 f = ram s1 f"
    and fr: "\<exists>b u m. s2 = s1\<lparr>isr_handlers := (isr_handlers s1)[14 := Some Paging_fault_handler], bitmap := b, used_blocks := u, ram := m,
       current_page_directory := ?kdir, con := term_set_buffer KERNEL_VGA_BASE_VIRT (con s1)\<rparr>"
    by (rule paging_init_ready[OF b1 s1(4) u1 s1(5) h1]) (rule that; assumption)
  have con2: "quiet (con s2)" using fr s1(2) by (auto simp: in_mode_def term_set_buffer_def)
  have frame: "\<exists>c z b u x m. s2 = s\<lparr>con := c, mem_size := z, used_blocks := u, max_blocks := x, bitmap := b,
       isr_handlers := (isr_handlers s)[14 := Some Paging_fault_handler], ram := m, current_page_directory := ?kdir\<rparr>"
  proof -
    obtain b u m where e2: "s2 = s1\<lparr>isr_handlers := (isr_handlers s1)[14 := Some Paging_fault_handler], bitmap := b, used_blocks := u,
       ram := m, current_page_directory := ?kdir, con := term_set_buffer KERNEL_VGA_BASE_VIRT (con s1)\<rparr>" using fr by blast
    obtain c z u' x b' where e1: "s1 = s\<lparr>con := c, mem_size := z, used_blocks := u', max_blocks := x, bitmap := b'\<rparr>"
      using pmm_rest_eq[OF s1(3)] by blast
    show ?thesis
      by (rule exI[of _ "term_set_buffer KERNEL_VGA_BASE_VIRT c"], rule exI[of _ z], rule exI[of _ b], rule exI[of _ u], rule exI[of _ x],
          rule exI[of _ m]) (simp add: e2 e1)
  qed
  have src: "kernel_source s2 code 128 (S code)
       \<and> (\<forall>i < 128. translate s (code + of_nat i) = Some (S code i) \<and> ram s2 (S code i) = ram s (S code i))"
    if code: "code \<in> {process_1 img, process_2 img, process_3 img}" for code
  proof -
    have c: "in_image img code 128" "unat code + 128 \<le> unat ?kdir \<or> unat ?kdir + 4096 \<le> unat code"
      using img code unfolding image_ok_def by blast+
    have each: "translate s2 (code + of_nat i) = Some (S code i)" "translate s (code + of_nat i) = Some (S code i)"
      "block_used s1 (unat (S code i))" "S code i \<noteq> directory s1" "dir_of (code + of_nat i) \<noteq> 1023" "0xC0000000 \<le> unat (code + of_nat i)"
      if i: "i < 128" for i
    proof -
      note m = image_frame[OF c(1) i kend(2)]
      have "dir_entry s 768 = 0x83" using boot by (simp add: booted_def)
      note t = translate_kernel[OF this m(2,3)]
      show "translate s (code + of_nat i) = Some (S code i)" using t(1) by (simp add: S_def)
      show n: "dir_of (code + of_nat i) \<noteq> 1023" using t(2) by simp
      show "translate s2 (code + of_nat i) = Some (S code i)" using tr n m(2,3) by (simp add: kernel_map_def S_def)
      show "block_used s1 (unat (S code i))" using used[OF m(5)] by (simp add: S_def)
      show "0xC0000000 \<le> unat (code + of_nat i)" by (rule m(2))
      show "S code i \<noteq> directory s1"
      proof
        assume "S code i = directory s1"
        then have "unat (entry_frame (V2P (code + of_nat i))) = unat (entry_frame (V2P ?kdir))" by (simp add: S_def d dirf)
        then have e: "(unat code + i - 0xC0000000) div 4096 = (unat ?kdir - 0xC0000000) div 4096"
          using m(4) image_frame(4)[OF kd, of 0] kend(2) by simp
        obtain q where q: "unat ?kdir = 4096 * q" using boot unfolding booted_def by (metis mod_0_imp_dvd dvdE)
        have low: "0xC0000000 \<le> unat code" "0xC0000000 \<le> unat ?kdir" using c(1) kd by (simp_all add: in_image_def)
        have "(unat ?kdir - 0xC0000000) = 4096 * (q - 0xC0000)" using q by simp
        then have "(unat code + i - 0xC0000000) div 4096 = q - 0xC0000" using e by simp
        then have "(q - 0xC0000) * 4096 \<le> unat code + i - 0xC0000000 \<and> unat code + i - 0xC0000000 < (q - 0xC0000) * 4096 + 4096"
          by (subst (asm) div_range) simp_all
        then show False using c(2) i q low by linarith
      qed
    qed
    have "kernel_source s2 code 128 (S code)" unfolding kernel_source_def using each u2 o2 by blast
    moreover have "ram s2 (S code i) = ram s (S code i)" if "i < 128" for i using each(3,4)[OF that] o2 f1(2) by simp
    ultimately show ?thesis using each(2) by blast
  qed
  show ?thesis using that[OF s1(1) s2(1,2,3) con2 frame tr] src by blast
qed

section \<open>From the boot stub to the first process\<close>

lemma hardware_fields:
  fixes s s' :: "'s sys_scheme"
  assumes "hardware_set s s'"
  shows "con s' = con s" "isr_handlers s' = isr_handlers s" "callback s' = callback s" "heap_pointer s' = heap_pointer s"
    "ram s' = ram s" "cr3 s' = cr3 s" "processes s' = processes s" "current_process s' = current_process s" "next_pid s' = next_pid s"
    "syscall_handlers s' = syscall_handlers s"
  by (subst assms[unfolded hardware_set_def], simp)+

lemma spawn_three:
  assumes "spawn_all [(a, n), (b, n), (c, n)] s = Ok () s'"
  shows "before (proc_run_code a n) (before (proc_run_code b n) (before (proc_run_code c n) k)) s = k s'"
proof -
  obtain t u where "proc_run_code a n s = Ok () t" "proc_run_code b n t = Ok () u" "proc_run_code c n u = Ok () s'"
    using assms unfolding spawn_all_def by (auto elim!: before_OkE)
  then show ?thesis by simp
qed

definition programs :: "image \<Rightarrow> (u32 \<times> u32) list" where
  "programs img = [(process_1 img, 128), (process_2 img, 128), (process_3 img, 128)]"

text \<open>
  The state after the three processes are created, and what the kernel was before: \<open>sy\<close> is the state in
  which the first is created, \<open>sr\<close> the one after the third, \<open>ds\<close> are the directories.
\<close>

lemma kernel_main_runs:
  fixes s :: "'s sys_scheme"
  assumes img: "image_ok img" and loaded: "kernel_loaded img s"
    and checks: "magic = MULTIBOOT_BOOTLOADER_MAGIC" "mb_flags mbi AND MULTIBOOT_INFO_MEM_MAP \<noteq> 0"
    and entries: "map_entries entry_at (P2V (mmap_addr mbi) + mmap_length mbi) fuel (P2V (mmap_addr mbi)) = Some es"
    and enough: "memory_enough (kernel_end_phys img) mbi es 2377" and fuel: "2 < fuel"
  obtains sy sr ds t y where
    "kernel_main img entry_at get_time fuel mbi magic s =
       Exit (user_frame y) (enter 0xD00020C8 y (sr\<lparr>callback := Some Proc_timer_callback, con := t\<rparr>))"
    "quiet t" "processes sr 0xD00020C8 = Some y" "kernel_ready sr" "scheduled [0xD0000000, 0xD00020C8, 0xD0001064] sr"
    "\<forall>i < 3. process_built sy sr (slot 0xD0000000 i) (ds ! i) (programs img ! i)"
    "\<forall>i < 3. \<forall>j < i. held (ram sr) (ds ! i) \<inter> held (ram sr) (ds ! j) = {}"
    "\<forall>c \<in> set (programs img). \<forall>k < 128. translate s (fst c + of_nat k) = translate sy (fst c + of_nat k)
       \<and> (\<forall>g. translate sy (fst c + of_nat k) = Some g \<longrightarrow> ram sy g = ram s g)"
    "isr_handlers sr = (replicate 256 None)[14 := Some Paging_fault_handler, 48 := Some Syscall_handler]"
    "irq_handlers sr = (replicate 16 None)[0 := Some Timer_callback, 1 := Some Keyboard_handler]"
    "syscall_handlers sr = sys_table" "interrupt_flag sr"
    "\<forall>n < 49. idt_entries sr ! n = (if 32 \<le> n \<and> n < 48 then make_idt_entry (irq_stubs img (n - 32)) 8 0x8E
       else make_idt_entry (isr_stubs img n) 8 (if n = 48 then 0xEE else 0x8E))"
proof -
  have l: "quiet (con s)" "length (gdt_entries s) = 6" "length (idt_entries s) = 256" "isr_handlers s = replicate 256 None"
    "irq_handlers s = replicate 16 None" "callback s = None" "syscall_handlers s = replicate 256 None" "heap_pointer s = 0xD0000000"
    "current_process s = 0" "booted (kernel_directory_address img) s"
    using loaded by (simp_all add: kernel_loaded_def heap_defs)
  let ?f1 = "''Welcome to '' @ CHR 0x1B # ''[33mNimble OS'' @ CHR 0x1B # ''[37m v1.0 !\<newline>\<newline>''"
  let ?f2 = "''Kernel loaded at 0x%X, ending at 0x%X (%dKB)\<newline>''"
  let ?a2 = "[Num (kernel_begin_phys img), Num (kernel_end_phys img), Num (kernel_size img div 1024)]"
  have f: "format_text ?f1 [] \<noteq> None" "format_modes resting ?f1 = Some resting" "list_all plain_arg []"
    "format_text ?f2 ?a2 \<noteq> None" "format_modes resting ?f2 = Some resting" "list_all plain_arg ?a2"
    by (simp_all add: format_eval)
  let ?s0 = "s\<lparr>con := term_init (con s)\<rparr>"
  have "quiet (con ?s0)" using l(1) by (simp add: in_mode_def)
  from kprintf_returns[OF f(1-3) this] obtain t1 where t1: "kprintf ?f1 [] ?s0 = Ok () (s\<lparr>con := t1\<rparr>)" "quiet t1" by auto
  then have "quiet (con (s\<lparr>con := t1\<rparr>))" by simp
  from kprintf_returns[OF f(4-6) this] obtain t2 where t2: "kprintf ?f2 ?a2 (s\<lparr>con := t1\<rparr>) = Ok () (s\<lparr>con := t2\<rparr>)" "quiet t2" by auto
  let ?s1 = "s\<lparr>con := t2\<rparr>"
  have h: "length (gdt_entries ?s1) = 6" "length (idt_entries ?s1) = 256" "irq_handlers ?s1 ! 0 = None" "irq_handlers ?s1 ! 1 = None"
    using l by simp_all
  obtain sh where sh: "\<forall>k :: ('s sys_scheme, unit) action. before (gdt_init (gdt_address img) (tss_address img)) (before (idt_init (idt_address img))
      (before (isr_init (isr_stubs img)) (before (irq_init (irq_stubs img)) (before timer_init (before keyboard_init k))))) ?s1 = k sh"
    and hw: "hardware_set ?s1 sh" "interrupt_flag sh" "irq_handlers sh = (irq_handlers ?s1)[0 := Some Timer_callback, 1 := Some Keyboard_handler]"
    "\<forall>n < 49. idt_entries sh ! n = (if 32 \<le> n \<and> n < 48 then make_idt_entry (irq_stubs img (n - 32)) 8 0x8E
       else make_idt_entry (isr_stubs img n) 8 (if n = 48 then 0xEE else 0x8E))"
    by (rule hardware_init_runs[OF h]) (rule that; assumption)
  note hf = hardware_fields[OF hw(1)]
  let ?kdir = "kernel_directory_address img"
  have dd: "directory sh = directory s" "dir_entry sh = dir_entry s" "translate sh = translate s"
    by (simp_all add: directory_def dir_entry_def translate_def hf fun_eq_iff)
  have mem: "booted ?kdir sh" "quiet (con sh)" "isr_handlers sh ! 14 = None" "memory_enough (kernel_end_phys img) mbi es (2305 + 72)"
    using l t2(2) enough by (simp_all add: booted_def dd hf)
  let ?S = "\<lambda>code i. entry_frame (V2P (code + of_nat i))"
  obtain p sp sv where sv: "pmm_init (kernel_end_phys img) entry_at fuel mbi sh = Ok () sp" "paging_init ?kdir sp = Ok () sv"
      "kernel_ready sv" "pool sv 72" "quiet (con sv)"
    and svf: "\<exists>c z b u x m. sv = sh\<lparr>con := c, mem_size := z, used_blocks := u, max_blocks := x, bitmap := b,
       isr_handlers := (isr_handlers sh)[14 := Some Paging_fault_handler], ram := m, current_page_directory := ?kdir\<rparr>"
    and src: "\<forall>code \<in> {process_1 img, process_2 img, process_3 img}. kernel_source sv code 128 (?S code)
       \<and> (\<forall>i < 128. translate sh (code + of_nat i) = Some (?S code i) \<and> ram sv (?S code i) = ram sh (?S code i))"
    by (rule kernel_memory_ready[OF img mem(1,2,3) entries mem(4)]) (rule that; assumption)
  have vf: "isr_handlers sv = (isr_handlers s)[14 := Some Paging_fault_handler]" "syscall_handlers sv = syscall_handlers s"
    "heap_pointer sv = heap_pointer s" "current_process sv = 0" "callback sv = callback s" "irq_handlers sv = irq_handlers sh"
    "interrupt_flag sv" "idt_entries sv = idt_entries sh"
    using svf l(9) hw(2) by (auto simp: hf)
  let ?hs = "(replicate 256 None)[14 := Some Paging_fault_handler, 48 := Some Syscall_handler]"
  define sy where "sy = sv\<lparr>isr_handlers := ?hs, syscall_handlers := sys_table\<rparr>"
  have sys: "syscall_init sv = Ok () sy"
    using syscall_init_table[of sv] by (simp add: vf l sy_def)
  have "ram sy = ram sv" "cr3 sy = cr3 sv" "bitmap sy = bitmap sv" "used_blocks sy = used_blocks sv" "max_blocks sy = max_blocks sv"
    by (simp_all add: sy_def)
  note eqy = same_space[OF this]
  have len: "unat (128 :: u32) = 128" by simp
  have y: "kernel_ready sy" "pool sy (blocks_needed (programs img) + 0)"
    "\<forall>c \<in> set (programs img). \<exists>S. kernel_source sy (fst c) (unat (snd c)) S"
    "0xD0000000 \<le> unat (heap_pointer sy)" "unat (heap_pointer sy) + 4196 * length (programs img) < 0xD0400000"
    "in_ring [] sy" "\<forall>p \<in> set []. unat p < unat (heap_pointer sy)"
    using sv(3,4) src by (simp_all add: eqy programs_def len) (auto simp: sy_def vf l)
  have hp: "heap_pointer sy = 0xD0000000" "length (programs img) = 3" by (simp_all add: sy_def vf l programs_def)
  from spawn_all_runs[OF y, unfolded hp] obtain sr ds where r: "spawn_all (programs img) sy = Ok () sr" "kernel_ready sr" "con sr = con sy"
      "in_ring (fold joined (map (slot 0xD0000000) [0..<3]) []) sr"
    and b: "\<forall>i < 3. process_built sy sr (slot 0xD0000000 i) (ds ! i) (programs img ! i)"
    and dis: "\<forall>i < 3. \<forall>j < i. held (ram sr) (ds ! i) \<inter> held (ram sr) (ds ! j) = {}"
    and rest: "proc_rest sr = proc_rest sy" by blast
  have rf: "isr_handlers sr = isr_handlers sy" "irq_handlers sr = irq_handlers sy" "syscall_handlers sr = syscall_handlers sy"
    "interrupt_flag sr = interrupt_flag sy" "idt_entries sr = idt_entries sy" "callback sr = callback sy"
    using arg_cong[OF rest, of isr_handlers] arg_cong[OF rest, of irq_handlers] arg_cong[OF rest, of syscall_handlers]
      arg_cong[OF rest, of interrupt_flag] arg_cong[OF rest, of idt_entries] arg_cong[OF rest, of callback] by (simp_all add: proc_rest_def)
  have "fold joined (map (slot 0xD0000000) [0..<3]) [] = [0xD0000000, 0xD00020C8, 0xD0001064]" by (simp add: upt_rec slot_def)
  then have ring: "scheduled [0xD0000000, 0xD00020C8, 0xD0001064] sr" using r(4) by simp
  have qr: "quiet (con sr)" using r(3) sv(5) by (simp add: sy_def)
  have "length [0xD00020C8, 0xD0001064 :: u32] < fuel" using fuel by simp
  from proc_print_runs[OF ring qr this] obtain t3 where t3: "proc_print_processes fuel sr = Ok () (sr\<lparr>con := t3\<rparr>)" "quiet t3" .
  let ?s9 = "sr\<lparr>con := t3, callback := Some Proc_timer_callback\<rparr>"
  have reg: "timer_register_callback Proc_timer_callback (sr\<lparr>con := t3\<rparr>) = Ok () ?s9"
    by (simp add: timer_register_callback_def rf sy_def vf l)
  have "scheduled [0xD0000000, 0xD00020C8, 0xD0001064] ?s9" "quiet (con ?s9)" using ring t3(2) by (simp_all add: scheduled_def)
  note switch = proc_switch_runs[OF this, of None]
  obtain t y where t: "quiet t" "processes sr 0xD00020C8 = Some y"
    "proc_switch_process None ?s9 = Exit (user_frame y) (enter 0xD00020C8 y (sr\<lparr>callback := Some Proc_timer_callback, con := t\<rparr>))"
    by (rule switch) (rule that; simp add: save_registers_def)
  have init: "before proc_init k (sr\<lparr>con := t3\<rparr>) = Exit (user_frame y) (enter 0xD00020C8 y (sr\<lparr>callback := Some Proc_timer_callback, con := t\<rparr>))"
    for k :: "('s sys_scheme, unit) action" using reg t(3) by (simp add: proc_init_def)
  have flag: "(mb_flags mbi AND MULTIBOOT_INFO_MEM_MAP \<noteq> 0) = True" using checks(2) by simp
  note three = spawn_three[OF r(1)[unfolded programs_def]]
  have main: "kernel_main img entry_at get_time fuel mbi magic s =
       Exit (user_frame y) (enter 0xD00020C8 y (sr\<lparr>callback := Some Proc_timer_callback, con := t\<rparr>))"
    unfolding kernel_main_def checks(1) flag
    using t1(1) t2(1) by (simp add: on_console_def zoom_def sh[rule_format] sv(1,2) sys three t3(1) init)
  show ?thesis
  proof (rule that[OF main t(1,2) r(2) ring b dis])
    show "isr_handlers sr = ?hs" "syscall_handlers sr = sys_table" "interrupt_flag sr"
      "irq_handlers sr = (replicate 16 None)[0 := Some Timer_callback, 1 := Some Keyboard_handler]"
      by (simp_all add: rf sy_def vf hw(3) l)
    show "\<forall>n < 49. idt_entries sr ! n = (if 32 \<le> n \<and> n < 48 then make_idt_entry (irq_stubs img (n - 32)) 8 0x8E
       else make_idt_entry (isr_stubs img n) 8 (if n = 48 then 0xEE else 0x8E))"
      using hw(4) by (simp add: rf sy_def vf)
    show "\<forall>c \<in> set (programs img). \<forall>k < 128. translate s (fst c + of_nat k) = translate sy (fst c + of_nat k)
       \<and> (\<forall>g. translate sy (fst c + of_nat k) = Some g \<longrightarrow> ram sy g = ram s g)"
    proof (intro ballI allI impI)
      fix c k assume c: "c \<in> set (programs img)" and k: "k < (128 :: nat)"
      have "fst c \<in> {process_1 img, process_2 img, process_3 img}" using c by (auto simp: programs_def)
      then have "translate sv (fst c + of_nat k) = Some (?S (fst c) k)" "translate sh (fst c + of_nat k) = Some (?S (fst c) k)"
        "ram sv (?S (fst c) k) = ram sh (?S (fst c) k)" using src k unfolding kernel_source_def by blast+
      then show "translate s (fst c + of_nat k) = translate sy (fst c + of_nat k)
         \<and> (\<forall>g. translate sy (fst c + of_nat k) = Some g \<longrightarrow> ram sy g = ram s g)"
        by (simp add: eqy dd(3)) (simp add: sy_def hf)
    qed
  qed
qed

section \<open>Properties\<close>

lemma program_loaded_earlier:
  assumes "program_loaded sy m d code len"
    and "\<forall>k < unat len. translate s (code + of_nat k) = translate sy (code + of_nat k)
       \<and> (\<forall>g. translate sy (code + of_nat k) = Some g \<longrightarrow> ram sy g = ram s g)"
  shows "program_loaded s m d code len"
  unfolding program_loaded_def
proof (intro allI impI)
  fix k assume k: "k < unat len"
  from assms(1) k obtain f g where "user_page m d (of_nat k) = Some (f, False)" "translate sy (code + of_nat k) = Some g"
    "byte m f (of_nat k) = byte (ram sy) g (code + of_nat k)" unfolding program_loaded_def by blast
  then show "\<exists>f g. user_page m d (of_nat k) = Some (f, False) \<and> translate s (code + of_nat k) = Some g
       \<and> byte m f (of_nat k) = byte (ram s) g (code + of_nat k)"
    using assms(2) k by (simp add: byte_def)
qed

lemma program_slots: "i < 3 \<Longrightarrow> programs img ! i \<in> set (programs img)" "i < 3 \<Longrightarrow> snd (programs img ! i) = 128"
  "slot 0xD0000000 0 = 0xD0000000" "slot 0xD0000000 1 = 0xD0001064" "slot 0xD0000000 2 = 0xD00020C8"
proof -
  assume "i < 3"
  then have "i \<in> {0, 1, 2}" by auto
  then show "programs img ! i \<in> set (programs img)" "snd (programs img ! i) = 128" by (auto simp: programs_def)
qed (simp_all add: slot_def)

text \<open>The state in which the first process is entered.\<close>

definition kernel_up :: "image \<Rightarrow> 's sys_scheme \<Rightarrow> frame list \<Rightarrow> 's sys_scheme \<Rightarrow> bool" where
  "kernel_up img s ds s' \<longleftrightarrow> scheduled [0xD00020C8, 0xD0001064, 0xD0000000] s' \<and> quiet (con s')
     \<and> (\<forall>i < 3. \<exists>x. processes s' (slot 0xD0000000 i) = Some x \<and> entry_frame (p_directory x) = ds ! i
          \<and> p_registers x = initial_registers \<and> p_kernel_stack x = slot 0xD0000000 i + 4195
          \<and> program_loaded s (ram s') (ds ! i) (fst (programs img ! i)) 128 \<and> own_space (ram s') (ds ! i)
          \<and> (\<exists>p q. process_space (ram s') (ds ! i) 1 p q) \<and> self_mapped (ram s') (ds ! i))
     \<and> (\<forall>i < 3. \<forall>j < i. held (ram s') (ds ! i) \<inter> held (ram s') (ds ! j) = {})
     \<and> entry_frame (cr3 s') = ds ! 2 \<and> (\<exists>x. processes s' 0xD00020C8 = Some x \<and> cr3 s' = p_directory x \<and> t_esp0 (tss s') = p_kernel_stack x)
     \<and> isr_handlers s' = (replicate 256 None)[14 := Some Paging_fault_handler, 48 := Some Syscall_handler]
     \<and> irq_handlers s' = (replicate 16 None)[0 := Some Timer_callback, 1 := Some Keyboard_handler]
     \<and> callback s' = Some Proc_timer_callback \<and> syscall_handlers s' = sys_table
     \<and> (\<forall>n < 49. idt_entries s' ! n = (if 32 \<le> n \<and> n < 48 then make_idt_entry (irq_stubs img (n - 32)) 8 0x8E
          else make_idt_entry (isr_stubs img n) 8 (if n = 48 then 0xEE else 0x8E)))"

lemma kernel_up_process:
  assumes "kernel_up img s ds s'" "i < 3"
  obtains x p q where "processes s' (slot 0xD0000000 i) = Some x" "entry_frame (p_directory x) = ds ! i" "p_registers x = initial_registers"
    "program_loaded s (ram s') (ds ! i) (fst (programs img ! i)) 128" "own_space (ram s') (ds ! i)"
    "process_space (ram s') (ds ! i) 1 p q" "self_mapped (ram s') (ds ! i)"
proof -
  have "\<forall>i < 3. \<exists>x. processes s' (slot 0xD0000000 i) = Some x \<and> entry_frame (p_directory x) = ds ! i
          \<and> p_registers x = initial_registers \<and> p_kernel_stack x = slot 0xD0000000 i + 4195
          \<and> program_loaded s (ram s') (ds ! i) (fst (programs img ! i)) 128 \<and> own_space (ram s') (ds ! i)
          \<and> (\<exists>p q. process_space (ram s') (ds ! i) 1 p q) \<and> self_mapped (ram s') (ds ! i)"
    using assms(1) unfolding kernel_up_def by blast
  then show ?thesis using assms(2) that by blast
qed

lemma kernel_main_up:
  fixes s :: "'s sys_scheme"
  assumes "image_ok img" "kernel_loaded img s" "magic = MULTIBOOT_BOOTLOADER_MAGIC" "mb_flags mbi AND MULTIBOOT_INFO_MEM_MAP \<noteq> 0"
    and "map_entries entry_at (P2V (mmap_addr mbi) + mmap_length mbi) fuel (P2V (mmap_addr mbi)) = Some es"
    and "memory_enough (kernel_end_phys img) mbi es 2377" "2 < fuel"
  obtains ds s' where "kernel_main img entry_at get_time fuel mbi magic s = Exit (Iret 0 0x1B 0x200 0xBFFFFFFC 0x23) s'"
    "kernel_up img s ds s'"
proof -
  obtain sy sr ds t y where
    main: "kernel_main img entry_at get_time fuel mbi magic s =
       Exit (user_frame y) (enter 0xD00020C8 y (sr\<lparr>callback := Some Proc_timer_callback, con := t\<rparr>))"
    and y: "quiet t" "processes sr 0xD00020C8 = Some y" "kernel_ready sr" "scheduled [0xD0000000, 0xD00020C8, 0xD0001064] sr"
    and b: "\<forall>i < 3. process_built sy sr (slot 0xD0000000 i) (ds ! i) (programs img ! i)"
    and dis: "\<forall>i < 3. \<forall>j < i. held (ram sr) (ds ! i) \<inter> held (ram sr) (ds ! j) = {}"
    and src: "\<forall>c \<in> set (programs img). \<forall>k < 128. translate s (fst c + of_nat k) = translate sy (fst c + of_nat k)
       \<and> (\<forall>g. translate sy (fst c + of_nat k) = Some g \<longrightarrow> ram sy g = ram s g)"
    and h: "isr_handlers sr = (replicate 256 None)[14 := Some Paging_fault_handler, 48 := Some Syscall_handler]"
    "irq_handlers sr = (replicate 16 None)[0 := Some Timer_callback, 1 := Some Keyboard_handler]"
    "syscall_handlers sr = sys_table" "interrupt_flag sr"
    "\<forall>n < 49. idt_entries sr ! n = (if 32 \<le> n \<and> n < 48 then make_idt_entry (irq_stubs img (n - 32)) 8 0x8E
       else make_idt_entry (isr_stubs img n) 8 (if n = 48 then 0xEE else 0x8E))"
    by (rule kernel_main_runs[OF assms]) (rule that; assumption)
  let ?s' = "enter 0xD00020C8 y (sr\<lparr>callback := Some Proc_timer_callback, con := t\<rparr>)"
  have b2: "process_built sy sr 0xD00020C8 (ds ! 2) (programs img ! 2)" using b[rule_format, of 2] unfolding program_slots(5) by simp
  then have p: "p_registers y = initial_registers" "entry_frame (p_directory y) = ds ! 2"
    using y(2) by (auto simp: process_built_def)
  have f: "user_frame y = Iret 0 0x1B 0x200 0xBFFFFFFC 0x23"
    by (simp add: user_frame_def p initial_registers_def KERNEL_BASE_VIRT_def)
  have ring: "ring (processes sr) [0xD0000000, 0xD00020C8, 0xD0001064]" using y(4) by (simp add: scheduled_def)
  have r: "ring (processes sr) [0xD00020C8, 0xD0001064, 0xD0000000]" using ring_rotate[OF ring] by simp
  have each: "\<exists>x. processes sr (slot 0xD0000000 i) = Some x \<and> entry_frame (p_directory x) = ds ! i
          \<and> p_registers x = initial_registers \<and> p_kernel_stack x = slot 0xD0000000 i + 4195
          \<and> program_loaded s (ram sr) (ds ! i) (fst (programs img ! i)) 128 \<and> own_space (ram sr) (ds ! i)
          \<and> (\<exists>p q. process_space (ram sr) (ds ! i) 1 p q) \<and> self_mapped (ram sr) (ds ! i)" if i: "i < 3" for i
  proof -
    note bi = b[rule_format, OF i]
    have "program_loaded sy (ram sr) (ds ! i) (fst (programs img ! i)) 128"
      using bi program_slots(2)[OF i, of img] by (simp add: process_built_def)
    moreover have "\<forall>k < unat (128 :: u32). translate s (fst (programs img ! i) + of_nat k) = translate sy (fst (programs img ! i) + of_nat k)
       \<and> (\<forall>g. translate sy (fst (programs img ! i) + of_nat k) = Some g \<longrightarrow> ram sy g = ram s g)"
      using src program_slots(1)[OF i, of img] by simp
    ultimately have "program_loaded s (ram sr) (ds ! i) (fst (programs img ! i)) 128" by (rule program_loaded_earlier)
    moreover have "unat (snd (programs img ! i)) div 4096 + 1 = 1" by (simp add: program_slots(2)[OF i])
    ultimately show ?thesis using bi unfolding process_built_def own_tables_def by metis
  qed
  have "kernel_up img s ds ?s'"
    unfolding kernel_up_def using r y(1,2) each dis h p(2) by (simp add: enter_def scheduled_def)
  then show ?thesis using that[of ?s' ds] main f by simp
qed

text \<open>The kernel starts. Entered from the boot stub by a Multiboot loader, with its image in the first 4 MiB and
  enough free memory in one piece, \<open>kernel_main\<close> sets everything up without a panic or undefined behaviour
  and ends in the \<open>iret\<close> that enters the third test process at address 0, in user mode, with interrupts on
  and its stack below the kernel. The three processes then form the ring, in the order 3, 2, 1. Each has its
  program, byte for byte the one of the image, at address 0 and read-only, and a stack of ten pages; nothing else is
  open to it; and none holds a frame, table or directory of another. \<open>cr3\<close> and the TSS are those of the
  process that runs, all gates are set with only the one of system calls open to user mode, and the page fault, system
  call, timer and keyboard handlers and the scheduler are registered.\<close>

theorem kernel_main_starts_processes:
  assumes "image_ok img" "kernel_loaded img s" "magic = MULTIBOOT_BOOTLOADER_MAGIC" "mb_flags mbi AND MULTIBOOT_INFO_MEM_MAP \<noteq> 0"
    and "map_entries entry_at (P2V (mmap_addr mbi) + mmap_length mbi) fuel (P2V (mmap_addr mbi)) = Some es"
    and "memory_enough (kernel_end_phys img) mbi es 2377" "2 < fuel"
  shows "\<exists>ds s'. kernel_main img entry_at get_time fuel mbi magic s = Exit (Iret 0 0x1B 0x200 0xBFFFFFFC 0x23) s'
    \<and> kernel_up img s ds s'"
  by (rule kernel_main_up[OF assms]) blast

text \<open>The sample image on a machine with 128 MiB, just behind the boot stub.\<close>

definition boot_state :: sys where
  "boot_state = proc.extend (vmm.extend (empty_space\<lparr>ram := (\<lambda>f i. if f = 0x110 \<and> (i = 0 \<or> i = 768) then 0x83 else 0),
       cr3 := 0x110000, heap_pointer := KERNEL_HEAP_BASE_VIRT\<rparr>)
     \<lparr>processes = Map.empty, current_process = 0, next_pid = 1\<rparr>) \<lparr>syscall_handlers = replicate 256 None\<rparr>"

definition boot_info :: multiboot_info where
  "boot_info = blank_info\<lparr>mb_flags := 0x40, mem_lower := 639, mem_upper := 130433, mmap_length := 24, mmap_addr := 0x9000\<rparr>"

definition boot_map :: "u32 \<Rightarrow> multiboot_mmap_entry" where
  "boot_map a = \<lparr>me_size = 20, me_addr = 0x100000, me_len = 0x7F00000, me_type = 1\<rparr>"

lemma boot_state_loaded: "kernel_loaded sample_image boot_state"
proof -
  have d: "directory boot_state = 0x110"
    by (simp add: boot_state_def proc.defs vmm.defs directory_def entry_frame_def)
  have e: "dir_entry boot_state i = (if i = 0 \<or> i = 768 then 0x83 else 0)" for i
    unfolding dir_entry_def d by (simp add: boot_state_def proc.defs vmm.defs)
  have "length (gdt_entries empty_space) = 6" "length (idt_entries empty_space) = 256" "isr_handlers empty_space = replicate 256 None"
    "irq_handlers empty_space = replicate 16 None" "callback empty_space = None" "quiet (con empty_space)"
    by (simp_all add: empty_space_simps blank_heap_simps(6))
      (simp_all add: empty_space_def blank_heap_def shifted_keyboard_def quiet_irq_def blank_isr_def blank_cpu_def heap.defs keyboard.defs timer.defs
        irq.defs isr.defs cpu.defs pmm.defs)
  then show ?thesis
    by (simp add: kernel_loaded_def booted_def e) (simp add: boot_state_def proc.defs vmm.defs sample_image_def V2P_def)
qed

lemma sample_image_ok: "image_ok sample_image"
  by (simp add: image_ok_def in_image_def sample_image_def)

lemma boot_info_enough:
  "map_entries boot_map (P2V (mmap_addr boot_info) + mmap_length boot_info) 3 (P2V (mmap_addr boot_info)) = Some [boot_map (P2V 0x9000)]"
  "memory_enough (kernel_end_phys sample_image) boot_info [boot_map (P2V 0x9000)] 2377"
  "mb_flags boot_info AND MULTIBOOT_INFO_MEM_MAP \<noteq> 0"
proof -
  show "map_entries boot_map (P2V (mmap_addr boot_info) + mmap_length boot_info) 3 (P2V (mmap_addr boot_info)) = Some [boot_map (P2V 0x9000)]"
    by (simp add: boot_info_def boot_map_def P2V_def numeral_3_eq_3)
  show "mb_flags boot_info AND MULTIBOOT_INFO_MEM_MAP \<noteq> 0" by (simp add: boot_info_def MULTIBOOT_INFO_MEM_MAP_def)
  have t: "total_blocks boot_info = 32768" by (simp add: boot_info_def total_blocks_def PMM_BLOCK_SIZE_def)
  have b: "first_block (kernel_end_phys sample_image) boot_info = 289"
    by (simp add: first_block_def t sample_image_def PMM_BLOCK_SIZE_def)
  have e: "freed_blocks (boot_map a) = {256..<32768}" "entry_count (boot_map a) = 32512" for a
    by (simp_all add: freed_blocks_def entry_count_def boot_map_def PMM_BLOCK_SIZE_def)
  show "memory_enough (kernel_end_phys sample_image) boot_info [boot_map (P2V 0x9000)] 2377"
    unfolding memory_enough_def t b by (intro conjI exI[of _ 289]) (simp_all add: e sample_image_def PMM_BLOCK_SIZE_def)
qed

theorem kernel_main_starts_processes_witness:
  "\<exists>ds s'. kernel_main sample_image boot_map (ret 0) 3 boot_info MULTIBOOT_BOOTLOADER_MAGIC boot_state
     = Exit (Iret 0 0x1B 0x200 0xBFFFFFFC 0x23) s' \<and> kernel_up sample_image boot_state ds s'"
  by (rule kernel_main_starts_processes[OF sample_image_ok boot_state_loaded refl boot_info_enough(3,1,2)]) simp

text \<open>C30: the memory manager hands out its own bitmap. The bitmap lies behind the kernel; when it does not end with
  a block, \<open>pmm_init\<close> leaves the block in which it ends free, and if the memory map frees that block at all, the
  first request after the initialisation, which is that of \<open>paging_init\<close> for its first page table, is granted
  exactly this block, with the last byte of the bitmap in it.\<close>

theorem first_page_holds_bitmap:
  assumes "map_entries entry_at (P2V (mmap_addr mbi) + mmap_length mbi) fuel (P2V (mmap_addr mbi)) = Some es" "quiet (con s)"
    and "4096 \<le> unat kernel_end" "unat kernel_end \<le> 0x400000"
    and "(kernel_end + total_blocks mbi div 8) mod PMM_BLOCK_SIZE \<noteq> 0"
    and "\<exists>e \<in> set es. unat (first_block kernel_end mbi) \<in> freed_blocks e"
    and "unat (first_block kernel_end mbi) < 32 * (unat (total_blocks mbi) div 32)"
    and "total_blocks mbi - sum_list (map entry_count es) + first_block kernel_end mbi \<noteq> total_blocks mbi"
  shows "\<exists>s1 s2. pmm_init kernel_end entry_at fuel mbi s = Ok () s1 \<and> pmm_alloc_page s1 = Ok (first_block kernel_end mbi * PMM_BLOCK_SIZE) s2
    \<and> unat (kernel_end + total_blocks mbi div 8 - 1) div 4096 = unat (first_block kernel_end mbi)"
proof -
  let ?b = "unat (first_block kernel_end mbi)" and ?total = "unat (total_blocks mbi)"
  let ?top = "kernel_end + total_blocks mbi div 8"
  obtain s1 where s1: "pmm_init kernel_end entry_at fuel mbi s = Ok () s1" "max_blocks s1 = total_blocks mbi"
    and used: "\<And>n. n < 8 * (?total div 8) \<Longrightarrow> block_used s1 n \<longleftrightarrow> n < unat ?top div 4096 \<or> (\<forall>e \<in> set es. n \<notin> freed_blocks e)"
    and count: "used_blocks s1 = total_blocks mbi - sum_list (map entry_count es) + first_block kernel_end mbi"
    unfolding first_block_def using pmm_init_runs[OF assms(1,2), of kernel_end] by metis
  note e = bitmap_end[OF assms(4), of mbi]
  have low: "0 < ?b" using assms(3) unfolding e by (simp add: div_le_mono[of 4096, simplified] div_greater_zero_iff)
  have bound: "32 * (?total div 32) \<le> 8 * (?total div 8)"
    using times_div_less_eq_dividend[of 4 "?total div 8"] by (simp add: div_mult2_eq[symmetric])
  have below: "block_used s1 n" if "n < ?b" for n using used[of n] that assms(7) bound e(2) by simp
  have "\<not> block_used s1 ?b" using used[of ?b] assms(6,7) bound e(2) by simp
  then have "first_free (block_used s1) 0 (searched s1) = Some ?b"
    unfolding first_free_Some searched_def s1(2) using assms(7) below by simp
  moreover have "pmm_ok s1" using below[OF low] total_blocks_small s1(2) by (simp add: pmm_ok_def)
  moreover have "max_blocks s1 \<noteq> used_blocks s1" using assms(8) unfolding count s1(2) by (rule not_sym)
  ultimately have "pmm_alloc_page s1 = Ok (first_block kernel_end mbi * PMM_BLOCK_SIZE) (mmap_set (first_block kernel_end mbi) s1)"
    using pmm_alloc_page_first[of s1] by simp
  moreover have "unat (?top - 1) div 4096 = ?b"
  proof -
    have m: "unat ?top mod 4096 \<noteq> 0"
      using assms(5) by (simp add: word_unat_eq_iff unat_mod PMM_BLOCK_SIZE_def)
    then have "?top \<noteq> 0" by auto
    then have "unat (?top - 1) = unat ?top - 1" by (simp add: unat_sub word_le_nat_alt unat_gt_0 Suc_le_eq)
    moreover have "(unat ?top - 1) div 4096 = unat ?top div 4096"
    proof -
      have "unat ?top = unat ?top div 4096 * 4096 + unat ?top mod 4096" by simp
      moreover have "unat ?top mod 4096 < 4096" by simp
      ultimately show ?thesis using m by (subst div_range) (simp, linarith)
    qed
    ultimately show ?thesis using e(2) by simp
  qed
  ultimately show ?thesis using s1(1) by blast
qed

text \<open>A machine with 127.6 MiB, as an emulator with 128 MiB reports it.\<close>

theorem first_page_holds_bitmap_witness:
  "\<exists>s1 s2. pmm_init 0x120000 boot_map 3 (boot_info\<lparr>mem_upper := 130048\<rparr>) boot_state = Ok () s1 \<and> pmm_alloc_page s1 = Ok 0x120000 s2"
proof -
  let ?mbi = "boot_info\<lparr>mem_upper := 130048\<rparr>"
  have entries: "map_entries boot_map (P2V (mmap_addr ?mbi) + mmap_length ?mbi) 3 (P2V (mmap_addr ?mbi)) = Some [boot_map (P2V 0x9000)]"
    by (simp add: boot_info_def boot_map_def P2V_def numeral_3_eq_3)
  have q: "quiet (con boot_state)" using boot_state_loaded by (simp add: kernel_loaded_def)
  have t: "total_blocks ?mbi = 32671" by (simp add: boot_info_def total_blocks_def PMM_BLOCK_SIZE_def)
  have b: "first_block 0x120000 ?mbi = 288" by (simp add: first_block_def t PMM_BLOCK_SIZE_def)
  have e: "freed_blocks (boot_map a) = {256..<32768}" "entry_count (boot_map a) = 32512" for a
    by (simp_all add: freed_blocks_def entry_count_def boot_map_def PMM_BLOCK_SIZE_def)
  from first_page_holds_bitmap[OF entries q, of "0x120000", unfolded t b] show ?thesis
    by (simp add: e PMM_BLOCK_SIZE_def)
qed

end
