(* ===== verification/Machine.thy ===== *)
theory Machine
  imports Start
begin

unbundle bit_operations_syntax

text \<open>
  The machine while processes run, with the protection of its pages: what interrupts leave alone in
  memory, and that no process ever changes memory of another, its own code or the kernel's.
\<close>

section \<open>What interrupts do to memory\<close>

text \<open>The contents of memory, and the directory of every process.\<close>

definition memory_core :: "'s proc_scheme \<Rightarrow> memory \<times> (u32 \<Rightarrow> u32 option)" where
  "memory_core s = (ram s, \<lambda>p. map_option p_directory (processes s p))"

interpretation memory: observation memory_core
  by unfold_locales (simp_all add: memory_core_def)

text \<open>A process keeps its directory.\<close>

lemma memory_update:
  assumes "\<And>x. p_directory (f x) = p_directory x"
  shows "keeps (\<lambda>s. Q (memory_core s)) (andthen (load_process c) (\<lambda>x. store_process c (f x)))"
  unfolding keeps_def
proof (intro allI impI)
  fix s :: "'a proc_scheme" assume q: "Q (memory_core s)"
  show "case andthen (load_process c) (\<lambda>x. store_process c (f x)) s of Ok a t \<Rightarrow> Q (memory_core t) | Exit e t \<Rightarrow> Q (memory_core t) | Undefined f \<Rightarrow> True"
  proof (cases "processes s c")
    case (Some x)
    then have "(\<lambda>p. map_option p_directory (((processes s)(c \<mapsto> f x)) p)) = (\<lambda>p. map_option p_directory (processes s p))"
      using assms by auto
    then show ?thesis using q Some by (simp add: load_process_def store_process_def memory_core_def)
  qed (simp add: load_process_def)
qed

lemma memory_set_next: "keeps (\<lambda>s. Q (memory_core s)) (set_next p q)"
  unfolding set_next_def by (rule memory_update) simp

lemma memory_set_current: "keeps (\<lambda>s. Q (memory_core s)) (set_current p)"
  by (simp add: keeps_def set_current_def memory_core_def)

lemma memory_load: "keeps (\<lambda>s. Q (memory_core s)) (load_process p)"
  by (auto simp: keeps_def load_process_def orelse_stuck_def split: option.splits)

lemma memory_current: "keeps (\<lambda>s. Q (memory_core s)) proc_current_process"
  by (simp add: keeps_def proc_current_process_def)

lemma memory_free_pages: "keeps (\<lambda>s. Q (memory_core s)) (pmm_free_pages p n)"
  unfolding keeps_def
proof (intro allI impI)
  fix s :: "'a proc_scheme" assume q: "Q (memory_core s)"
  obtain b u where "each_block mmap_unset (p div PMM_BLOCK_SIZE) n s = s\<lparr>bitmap := b, used_blocks := u\<rparr>"
    using fold_unmarks by blast
  then show "case pmm_free_pages p n s of Ok a t \<Rightarrow> Q (memory_core t) | Exit e t \<Rightarrow> Q (memory_core t) | Undefined f \<Rightarrow> True"
    using q by (simp add: pmm_free_pages_def memory_core_def)
qed

lemma memory_free_page: "keeps (\<lambda>s. Q (memory_core s)) (pmm_free_page p)"
  by (simp add: keeps_def pmm_free_page_def mmap_unset_def mmap_set_def memory_core_def)

lemmas memory_intros = memory.observed memory_set_next memory_set_current memory_load memory_current memory_free_pages memory_free_page

lemma memory_switch: "keeps (\<lambda>s. Q (memory_core s)) (proc_switch_process regs)"
proof -
  have regs: "keeps (\<lambda>s. Q (memory_core s)) (gdt_set_kernel_stack a)" "keeps (\<lambda>s. Q (memory_core s)) (paging_switch_directory a)" for a
    by (simp_all add: keeps_def gdt_set_kernel_stack_def paging_switch_directory_def memory_core_def)
  have save: "keeps (\<lambda>s. Q (memory_core s)) (andthen proc_current_process (\<lambda>c. andthen (load_process c) (\<lambda>x. store_process c (x\<lparr>p_registers := r\<rparr>))))" for r
    by (rule keeps_andthen[OF memory_current memory_update]) simp
  show ?thesis unfolding proc_switch_process_def by (intro save regs memory_intros)
qed

lemma memory_walks: "keeps (\<lambda>s. Q (memory_core s)) (print_chain fuel c p)" "keeps (\<lambda>s. Q (memory_core s)) (find_previous fuel c q)"
proof (induction fuel arbitrary: p q)
  case (Suc fuel)
  { case 1 then show ?case using Suc by (simp only: print_chain.simps) (intro memory_intros) }
  { case 2 then show ?case using Suc by (simp only: find_previous.simps) (intro memory_intros) }
qed (simp_all add: keeps_leave)

lemma memory_exit: "keeps (\<lambda>s. Q (memory_core s)) (proc_exit_current_process fuel)"
  unfolding proc_exit_current_process_def proc_print_processes_def
  by (intro memory_intros memory_walks memory_switch)

lemma memory_timer_callback: "keeps (\<lambda>s. Q (memory_core s)) (proc_timer_callback regs)"
  unfolding proc_timer_callback_def by (intro memory_intros memory_switch)

lemma memory_syscall: "keeps (\<lambda>s. Q (memory_core s)) (syscall_handler fuel regs)"
proof -
  have "keeps (\<lambda>s. Q (memory_core s)) (syscall_putchar regs)" unfolding syscall_putchar_def by (rule memory.on_console)
  then have "keeps (\<lambda>s. Q (memory_core s)) (run_sys_handler fuel h regs)" for h
    using memory_switch memory_exit
    by (cases h) (auto simp: syscall_yield_def syscall_exit_def syscall_wait_def intro: keeps_intros)
  then show ?thesis unfolding syscall_handler_def by (intro memory_intros)
qed

lemma memory_call_handler: "keeps (\<lambda>s :: 's sys_scheme. Q (memory_core s)) (call_handler fuel depth h regs)"
proof (induction depth arbitrary: h regs)
  case (Suc depth)
  show ?case
    using memory.timer[OF Suc] memory.page_fault memory.keyboard memory_syscall memory_timer_callback
    by (cases h) auto
qed (simp add: keeps_leave)

text \<open>No interrupt, exception or system call writes to memory or changes the directory of a process.\<close>

lemma memory_interrupt: "keeps (\<lambda>s. Q (memory_core s)) (interrupt fuel regs)"
  using memory.irq[OF memory_call_handler] memory.isr[OF memory_call_handler]
  unfolding interrupt_def by (rule keeps_if)

section \<open>Walls between address spaces\<close>

text \<open>What user mode reaches depends on the directory and its tables only.\<close>

lemma user_page_cong:
  assumes "\<forall>f \<in> table_frames m d. m' f = m f"
  shows "user_page m' d v = user_page m d v"
proof -
  have d: "m' d = m d" using assms by (simp add: table_frames_def)
  show ?thesis
  proof (cases "entry_present (m d (dir_of v)) \<and> entry_user (m d (dir_of v))")
    case True
    then have "entry_frame (m d (dir_of v)) \<in> table_frames m d" by (auto simp: table_frames_def)
    then show ?thesis using assms d by (simp add: user_page_def Let_def)
  next
    case False
    then show ?thesis by (auto simp: user_page_def Let_def d)
  qed
qed

lemma spaces_cong:
  assumes "\<forall>f \<in> table_frames m d. m' f = m f"
  shows "user_page m' d = user_page m d" "user_frames m' d = user_frames m d" "table_frames m' d = table_frames m d"
    "held m' d = held m d" "own_space m' d = own_space m d"
proof -
  show u: "user_page m' d = user_page m d" using user_page_cong[OF assms] by (rule ext)
  have d: "m' d = m d" using assms by (simp add: table_frames_def)
  show f: "user_frames m' d = user_frames m d" "table_frames m' d = table_frames m d" by (simp_all add: user_frames_def u table_frames_def d)
  show "held m' d = held m d" "own_space m' d = own_space m d" by (simp_all add: held_def own_space_def f u d)
qed

text \<open>The directory of a process, and processes whose address spaces are their own.\<close>

definition space_of :: "'s proc_scheme \<Rightarrow> u32 \<Rightarrow> frame" where
  "space_of s p = entry_frame (p_directory (the (processes s p)))"

definition walled :: "u32 set \<Rightarrow> 's proc_scheme \<Rightarrow> bool" where
  "walled P s \<longleftrightarrow> (\<forall>p \<in> P. processes s p \<noteq> None \<and> own_space (ram s) (space_of s p))
     \<and> (\<forall>p \<in> P. \<forall>q \<in> P. p \<noteq> q \<longrightarrow> held (ram s) (space_of s p) \<inter> held (ram s) (space_of s q) = {})"

text \<open>\<open>confined q s t\<close>: on the way from \<open>s\<close> to \<open>t\<close> memory changed at most where \<open>q\<close> may write.\<close>

definition confined :: "u32 \<Rightarrow> 's proc_scheme \<Rightarrow> 's proc_scheme \<Rightarrow> bool" where
  "confined q s t \<longleftrightarrow> (\<forall>p. map_option p_directory (processes t p) = map_option p_directory (processes s p))
     \<and> (\<forall>f. (\<forall>v. user_page (ram s) (space_of s q) v \<noteq> Some (f, True)) \<longrightarrow> ram t f = ram s f)"

lemma space_of_same:
  assumes "map_option p_directory (processes t p) = map_option p_directory (processes s p)"
  shows "space_of t p = space_of s p \<or> processes s p = None" "processes t p = None \<longleftrightarrow> processes s p = None"
  using assms by (cases "processes s p"; cases "processes t p"; simp add: space_of_def)+

lemma confined_frame:
  assumes "walled P s" "q \<in> P" "confined q s t" "p \<in> P"
  shows "f \<in> table_frames (ram s) (space_of s p) \<Longrightarrow> ram t f = ram s f"
    "user_page (ram s) (space_of s p) v = Some (f, False) \<Longrightarrow> ram t f = ram s f"
    "f \<in> user_frames (ram s) (space_of s p) \<Longrightarrow> p \<noteq> q \<Longrightarrow> ram t f = ram s f"
proof -
  have keep: "ram t f = ram s f" if "\<And>v. user_page (ram s) (space_of s q) v \<noteq> Some (f, True)" for f
    using assms(3) that by (auto simp: confined_def)
  have w: "user_page (ram s) (space_of s q) v = Some (f, True) \<Longrightarrow> f \<in> user_frames (ram s) (space_of s q)" for v f
    by (auto simp: user_frames_def)
  have apart: "held (ram s) (space_of s p) \<inter> held (ram s) (space_of s q) = {}" if "p \<noteq> q"
    using assms(1,2,4) that by (auto simp: walled_def)
  have own: "own_space (ram s) (space_of s q)" using assms(1,2) by (auto simp: walled_def)
  show t: "ram t f = ram s f" if f: "f \<in> table_frames (ram s) (space_of s p)"
  proof (rule keep, rule notI)
    fix v assume "user_page (ram s) (space_of s q) v = Some (f, True)"
    then show False using w f own apart by (cases "p = q") (auto simp: own_space_def held_def)
  qed
  show "ram t f = ram s f" if f: "user_page (ram s) (space_of s p) v = Some (f, False)" for v
  proof (rule keep, rule notI)
    fix v' assume v': "user_page (ram s) (space_of s q) v' = Some (f, True)"
    have "f \<in> user_frames (ram s) (space_of s p)" using f by (auto simp: user_frames_def)
    then show False using w[OF v'] f v' own apart by (cases "p = q") (auto simp: own_space_def held_def)
  qed
  show "ram t f = ram s f" if f: "f \<in> user_frames (ram s) (space_of s p)" "p \<noteq> q"
    by (rule keep, rule notI) (use w f apart in \<open>auto simp: held_def\<close>)
qed

lemma confined_walled:
  assumes "walled P s" "q \<in> P" "confined q s t"
  shows "walled P t" "p \<in> P \<Longrightarrow> space_of t p = space_of s p"
    "p \<in> P \<Longrightarrow> user_page (ram t) (space_of s p) = user_page (ram s) (space_of s p)"
proof -
  have c: "space_of t p = space_of s p" "processes t p \<noteq> None"
    "user_page (ram t) (space_of s p) = user_page (ram s) (space_of s p)" "held (ram t) (space_of s p) = held (ram s) (space_of s p)"
    "own_space (ram t) (space_of s p) = own_space (ram s) (space_of s p)" if p: "p \<in> P" for p
  proof -
    have n: "processes s p \<noteq> None" using assms(1) p by (simp add: walled_def)
    have "map_option p_directory (processes t p) = map_option p_directory (processes s p)" using assms(3) by (simp add: confined_def)
    from space_of_same[OF this] n show "space_of t p = space_of s p" "processes t p \<noteq> None" by auto
    have "\<forall>f \<in> table_frames (ram s) (space_of s p). ram t f = ram s f" using confined_frame(1)[OF assms p] by blast
    note sp = spaces_cong[OF this]
    show "user_page (ram t) (space_of s p) = user_page (ram s) (space_of s p)" "held (ram t) (space_of s p) = held (ram s) (space_of s p)"
      "own_space (ram t) (space_of s p) = own_space (ram s) (space_of s p)" by (rule sp)+
  qed
  show "walled P t" using assms(1) c unfolding walled_def by simp
  show "p \<in> P \<Longrightarrow> space_of t p = space_of s p" "p \<in> P \<Longrightarrow> user_page (ram t) (space_of s p) = user_page (ram s) (space_of s p)"
    using c by blast+
qed

section \<open>The machine while processes run\<close>

text \<open>
  The process that runs stores a word where its tables let it, a part of a word being such a store too, or accesses
  a port, of which \<open>user_mode_reaches_ports\<close> shows some to be open to it, or an interrupt comes, and its handler
  returns to the process or enters another. A page fault has set \<open>cr2\<close> before.
\<close>

inductive machine_step :: "nat \<Rightarrow> 's sys_scheme \<Rightarrow> 's sys_scheme \<Rightarrow> bool" for fuel where
  user_store: "user_page (ram s) (entry_frame (cr3 s)) v = Some (f, True) \<Longrightarrow> machine_step fuel s (poke f (word_of v) x s)"
| user_port: "port_write e s = Ok () t \<Longrightarrow> machine_step fuel s t"
| handled: "interrupt fuel regs (s\<lparr>cr2 := a\<rparr>) = Ok () t \<Longrightarrow> machine_step fuel s t"
| switched: "interrupt fuel regs (s\<lparr>cr2 := a\<rparr>) = Exit (Iret eip cs eflags esp ss) t \<Longrightarrow> machine_step fuel s t"

inductive_cases machine_stepE: "machine_step fuel s t"

lemma running_current:
  assumes "running P s"
  obtains x where "processes s (current_process s) = Some x" "cr3 s = p_directory x" "t_esp0 (tss s) = p_kernel_stack x"
    "current_process s \<in> P" "entry_frame (cr3 s) = space_of s (current_process s)"
proof -
  obtain ps x where p: "ring (processes s) ps" "current_process s = hd ps" "set ps \<subseteq> P"
    and x: "processes s (current_process s) = Some x" "cr3 s = p_directory x" "t_esp0 (tss s) = p_kernel_stack x"
    using assms by (auto simp: running_def core_def run_core_def)
  have "hd ps \<in> set ps" using p(1) by (auto simp: ring_def)
  then show ?thesis using that[OF x] p x by (auto simp: space_of_def)
qed

lemma interrupt_confined:
  assumes "interrupt fuel regs (s\<lparr>cr2 := a\<rparr>) = Ok () t \<or> interrupt fuel regs (s\<lparr>cr2 := a\<rparr>) = Exit e t"
  shows "confined q s t"
proof -
  have "(ram t, \<lambda>p. map_option p_directory (processes t p)) = (ram s, \<lambda>p. map_option p_directory (processes s p))"
    using assms keeps_OkD[OF memory_interrupt[of "\<lambda>m. m = memory_core s"], of _ regs "s\<lparr>cr2 := a\<rparr>"]
      keeps_ExitD[OF memory_interrupt[of "\<lambda>m. m = memory_core s"], of _ regs "s\<lparr>cr2 := a\<rparr>"]
    by (auto simp: memory_core_def)
  then show ?thesis by (simp add: confined_def fun_eq_iff)
qed

lemma machine_step_safe:
  assumes "machine_step fuel s t" "running P s" "finite P" "card P \<le> fuel"
  shows "running P t \<and> confined (current_process s) s t"
  using assms(1)
proof (cases rule: machine_step.cases)
  case (user_store v f x)
  obtain y where c: "entry_frame (cr3 s) = space_of s (current_process s)" using running_current[OF assms(2)] by blast
  have "running P t" using assms(2) user_store(1) by (simp add: running_def core_def poke_def)
  moreover have "confined (current_process s) s t" using user_store c by (auto simp: confined_def poke_def)
  ultimately show ?thesis ..
next
  case (user_port e)
  then have t: "t = s\<lparr>io_events := io_events s @ [e]\<rparr>" by (simp add: port_write_def)
  then show ?thesis using assms(2) by (simp add: running_def core_def confined_def)
next
  case (handled regs a)
  have "running P (s\<lparr>cr2 := a\<rparr>)" using assms(2) by (simp add: running_def core_def)
  with handled show ?thesis using keeps_OkD[OF keeps_interrupt[OF assms(3,4)]] interrupt_confined by blast
next
  case (switched regs a eip cs eflags esp ss)
  have "running P (s\<lparr>cr2 := a\<rparr>)" using assms(2) by (simp add: running_def core_def)
  with switched show ?thesis using keeps_ExitD[OF keeps_interrupt[OF assms(3,4)]] interrupt_confined by blast
qed

lemma running_start:
  assumes "scheduled ps s" "set ps \<subseteq> P" "processes s (hd ps) = Some x" "cr3 s = p_directory x" "t_esp0 (tss s) = p_kernel_stack x"
  shows "running P s"
  using assms by (auto simp: running_def core_def run_core_def scheduled_def)

lemma running_scheduled: "running P s \<Longrightarrow> \<exists>ps. scheduled ps s \<and> set ps \<subseteq> P"
  by (auto simp: running_def core_def run_core_def scheduled_def)

text \<open>\<open>spaces_kept P s t\<close>: the address spaces of \<open>P\<close>, what is read-only in them, and all memory outside them are the same.\<close>

definition spaces_kept :: "u32 set \<Rightarrow> 's proc_scheme \<Rightarrow> 's proc_scheme \<Rightarrow> bool" where
  "spaces_kept P s t \<longleftrightarrow>
     (\<forall>p \<in> P. space_of t p = space_of s p \<and> user_page (ram t) (space_of s p) = user_page (ram s) (space_of s p)
        \<and> (\<forall>v f. user_page (ram s) (space_of s p) v = Some (f, False) \<longrightarrow> ram t f = ram s f))
     \<and> (\<forall>f. (\<forall>p \<in> P. f \<notin> user_frames (ram s) (space_of s p)) \<longrightarrow> ram t f = ram s f)"

lemma spaces_kept_trans:
  assumes "spaces_kept P s t" "spaces_kept P t u"
  shows "spaces_kept P s u"
proof -
  have uf: "user_frames (ram t) (space_of s p) = user_frames (ram s) (space_of s p)" if "p \<in> P" for p
    using assms(1) that by (simp add: spaces_kept_def user_frames_def)
  show ?thesis
    unfolding spaces_kept_def
  proof (intro conjI ballI allI impI)
    fix p assume p: "p \<in> P"
    then show "space_of u p = space_of s p" "user_page (ram u) (space_of s p) = user_page (ram s) (space_of s p)"
      using assms by (simp_all add: spaces_kept_def)
    show "ram u f = ram s f" if "user_page (ram s) (space_of s p) v = Some (f, False)" for v f
      using assms p that unfolding spaces_kept_def by metis
  next
    fix f assume f: "\<forall>p \<in> P. f \<notin> user_frames (ram s) (space_of s p)"
    then have "\<forall>p \<in> P. f \<notin> user_frames (ram t) (space_of t p)" using assms(1) uf by (simp add: spaces_kept_def)
    then show "ram u f = ram s f" using f assms by (simp add: spaces_kept_def)
  qed
qed

lemma confined_kept:
  assumes "walled P s" "q \<in> P" "confined q s t"
  shows "spaces_kept P s t"
  unfolding spaces_kept_def
proof (intro conjI ballI allI impI)
  fix f assume f: "\<forall>p \<in> P. f \<notin> user_frames (ram s) (space_of s p)"
  then have "user_page (ram s) (space_of s q) v \<noteq> Some (f, True)" for v using assms(2) by (auto simp: user_frames_def)
  then show "ram t f = ram s f" using assms(3) by (simp add: confined_def)
qed (use confined_walled[OF assms] confined_frame(2)[OF assms] in blast)+

lemma machine_step_kept:
  assumes "machine_step fuel s t" "running P s" "walled P s" "finite P" "card P \<le> fuel"
  shows "running P t" "walled P t" "spaces_kept P s t"
    "p \<in> P \<Longrightarrow> p \<noteq> current_process s \<Longrightarrow> f \<in> user_frames (ram s) (space_of s p) \<Longrightarrow> ram t f = ram s f"
proof -
  note safe = machine_step_safe[OF assms(1,2,4,5)]
  have q: "current_process s \<in> P" using running_current[OF assms(2)] by blast
  note c = assms(3) q conjunct2[OF safe]
  show "running P t" "walled P t" "spaces_kept P s t" using safe confined_walled(1)[OF c] confined_kept[OF c] by blast+
  show "p \<in> P \<Longrightarrow> p \<noteq> current_process s \<Longrightarrow> f \<in> user_frames (ram s) (space_of s p) \<Longrightarrow> ram t f = ram s f"
    by (rule confined_frame(3)[OF c])
qed

lemma machine_run_kept:
  assumes "(machine_step fuel)\<^sup>*\<^sup>* s s'" "running P s" "walled P s" "finite P" "card P \<le> fuel"
  shows "running P s' \<and> walled P s' \<and> spaces_kept P s s'"
  using assms(1)
proof (induction rule: rtranclp_induct)
  case base
  show ?case using assms(2,3) by (simp add: spaces_kept_def)
next
  case (step t u)
  then show ?case
    using machine_step_kept(1-3)[OF step.hyps(2) _ _ assms(4,5)] spaces_kept_trans[of P s t u] by blast
qed

section \<open>Properties\<close>

text \<open>C7: the walls between processes stand. From a state in which a process runs in its own address space, and the
  address spaces of the processes share no frame, table or directory, whatever interrupts, system calls, faults and switches
  happen in whatever order, and wherever the processes store what their tables let them: each process
  keeps its directory and reaches the same frames with the same rights, what is read-only to it, as
  its code, is never written, no memory outside the frames of the processes changes, and the kernel
  still knows which process runs.\<close>

theorem address_spaces_survive:
  assumes "(machine_step fuel)\<^sup>*\<^sup>* s s'" "walled P s" "finite P" "card P \<le> fuel"
    and "scheduled ps s" "set ps \<subseteq> P" "processes s (hd ps) = Some x" "cr3 s = p_directory x" "t_esp0 (tss s) = p_kernel_stack x"
  shows "spaces_kept P s s' \<and> walled P s' \<and> entry_frame (cr3 s') = space_of s (current_process s') \<and> current_process s' \<in> P"
proof -
  have r: "running P s" by (rule running_start[OF assms(5-9)])
  note run = machine_run_kept[OF assms(1) r assms(2-4)]
  obtain y where c: "current_process s' \<in> P" "entry_frame (cr3 s') = space_of s' (current_process s')"
    using running_current[OF conjunct1[OF run]] by blast
  then show ?thesis using run by (simp add: spaces_kept_def)
qed

text \<open>C8: the memory of a process is private. As long as another process runs, whatever happens, not one
  word of the frames that it reaches changes.\<close>

theorem process_memory_private:
  assumes "(\<lambda>s t. machine_step fuel s t \<and> current_process s \<noteq> p)\<^sup>*\<^sup>* s s'" "walled P s" "finite P" "card P \<le> fuel"
    and "scheduled ps s" "set ps \<subseteq> P" "processes s (hd ps) = Some x" "cr3 s = p_directory x" "t_esp0 (tss s) = p_kernel_stack x"
    and "p \<in> P" "user_page (ram s) (space_of s p) v = Some (f, w)"
  shows "ram s' f = ram s f"
proof -
  have r: "running P s" by (rule running_start[OF assms(5-9)])
  have f: "f \<in> user_frames (ram s) (space_of s p)" using assms(11) by (auto simp: user_frames_def)
  from assms(1) have "running P s' \<and> walled P s' \<and> spaces_kept P s s' \<and> ram s' f = ram s f"
  proof (induction rule: rtranclp_induct)
    case base
    show ?case using r assms(2) by (simp add: spaces_kept_def)
  next
    case (step t u)
    have t: "machine_step fuel t u" "running P t" "walled P t" "current_process t \<noteq> p" "spaces_kept P s t" using step by blast+
    have "f \<in> user_frames (ram t) (space_of t p)" using t(5) f assms(10) by (simp add: spaces_kept_def user_frames_def)
    then show ?case
      using machine_step_kept[OF t(1-3) assms(3,4)] spaces_kept_trans[OF t(5)] t(4) assms(10) step.IH by metis
  qed
  then show ?thesis by blast
qed

section \<open>After the start\<close>

definition started :: "u32 set" where "started = {0xD0000000, 0xD0001064, 0xD00020C8}"

lemma started_slot: "p \<in> started \<longleftrightarrow> (\<exists>i < 3. p = slot 0xD0000000 i)"
proof -
  have "(\<exists>i < (3 :: nat). p = slot 0xD0000000 i) \<longleftrightarrow> p = slot 0xD0000000 0 \<or> p = slot 0xD0000000 1 \<or> p = slot 0xD0000000 2"
    by (auto simp: numeral_eq_Suc less_Suc_eq)
  then show ?thesis unfolding program_slots(3-5) by (auto simp: started_def)
qed

lemma kernel_up_walled:
  assumes "kernel_up img s0 ds s"
  shows "i < 3 \<Longrightarrow> space_of s (slot 0xD0000000 i) = ds ! i" "walled started s"
    "scheduled [0xD00020C8, 0xD0001064, 0xD0000000] s" "set [0xD00020C8, 0xD0001064, 0xD0000000] \<subseteq> started"
    "finite started" "card started \<le> 3"
    "\<exists>x. processes s (hd [0xD00020C8, 0xD0001064, 0xD0000000]) = Some x \<and> cr3 s = p_directory x \<and> t_esp0 (tss s) = p_kernel_stack x"
    "entry_frame (cr3 s) = ds ! 2"
proof -
  have b: "\<exists>x. processes s (slot 0xD0000000 i) = Some x \<and> entry_frame (p_directory x) = ds ! i \<and> own_space (ram s) (ds ! i)" if "i < 3" for i
    using kernel_up_process[OF assms that] by blast
  show sp: "space_of s (slot 0xD0000000 i) = ds ! i" if "i < 3" for i using b[OF that] by (auto simp: space_of_def)
  have dis: "held (ram s) (ds ! i) \<inter> held (ram s) (ds ! j) = {}" if "i < 3" "j < 3" "i \<noteq> j" for i j
    using assms that unfolding kernel_up_def by (metis Int_commute nat_neq_iff)
  show "walled started s"
    unfolding walled_def
  proof (intro conjI ballI impI)
    fix p assume "p \<in> started"
    then obtain i where i: "i < 3" "p = slot 0xD0000000 i" by (auto simp: started_slot)
    show "processes s p \<noteq> None" "own_space (ram s) (space_of s p)" using b[OF i(1)] sp[OF i(1)] i(2) by auto
    fix q assume "q \<in> started" "p \<noteq> q"
    then obtain j where j: "j < 3" "q = slot 0xD0000000 j" "i \<noteq> j" using i by (auto simp: started_slot)
    show "held (ram s) (space_of s p) \<inter> held (ram s) (space_of s q) = {}"
      using dis[OF i(1) j(1,3)] sp[OF i(1)] sp[OF j(1)] i(2) j(2) by simp
  qed
  show "scheduled [0xD00020C8, 0xD0001064, 0xD0000000] s" "entry_frame (cr3 s) = ds ! 2"
    "\<exists>x. processes s (hd [0xD00020C8, 0xD0001064, 0xD0000000]) = Some x \<and> cr3 s = p_directory x \<and> t_esp0 (tss s) = p_kernel_stack x"
    using assms by (simp_all add: kernel_up_def)
qed (simp_all add: started_def)

lemma program_loaded_kept_run:
  assumes "program_loaded s m d code len" "user_page m' d = user_page m d"
    and "\<And>v f. user_page m d v = Some (f, False) \<Longrightarrow> m' f = m f"
  shows "program_loaded s m' d code len"
  unfolding program_loaded_def
proof (intro allI impI)
  fix k assume "k < unat len"
  with assms(1) obtain f g where "user_page m d (of_nat k) = Some (f, False)" "translate s (code + of_nat k) = Some g"
    "byte m f (of_nat k) = byte (ram s) g (code + of_nat k)" unfolding program_loaded_def by blast
  then show "\<exists>f g. user_page m' d (of_nat k) = Some (f, False) \<and> translate s (code + of_nat k) = Some g
       \<and> byte m' f (of_nat k) = byte (ram s) g (code + of_nat k)"
    using assms(2,3) by (simp add: byte_def)
qed

lemma up_run:
  assumes "kernel_up img s0 ds s" "(machine_step fuel)\<^sup>*\<^sup>* s s'" "2 < fuel"
  shows "running started s'" "spaces_kept started s s'"
    "i < 3 \<Longrightarrow> program_loaded s0 (ram s') (ds ! i) (fst (programs img ! i)) 128"
    "entry_frame (cr3 s') \<in> {ds ! 0, ds ! 1, ds ! 2}"
proof -
  note w = kernel_up_walled[OF assms(1)]
  obtain x where x: "processes s (hd [0xD00020C8, 0xD0001064, 0xD0000000]) = Some x" "cr3 s = p_directory x"
    "t_esp0 (tss s) = p_kernel_stack x" using w(7) by blast
  have r: "running started s" by (rule running_start[OF w(3,4) x])
  have "card started \<le> fuel" using w(6) assms(3) by simp
  note run = machine_run_kept[OF assms(2) r w(2,5) this]
  then show r': "running started s'" and k: "spaces_kept started s s'" by blast+
  have sp: "space_of s' (slot 0xD0000000 i) = ds ! i" "user_page (ram s') (ds ! i) = user_page (ram s) (ds ! i)"
    "\<And>v f. user_page (ram s) (ds ! i) v = Some (f, False) \<Longrightarrow> ram s' f = ram s f" if i: "i < 3" for i
    using k w(1)[OF i] i unfolding spaces_kept_def by (metis started_slot)+
  show "i < 3 \<Longrightarrow> program_loaded s0 (ram s') (ds ! i) (fst (programs img ! i)) 128"
  proof -
    assume i: "i < 3"
    then have "program_loaded s0 (ram s) (ds ! i) (fst (programs img ! i)) 128" using kernel_up_process[OF assms(1)] by blast
    then show ?thesis by (rule program_loaded_kept_run) (rule sp[OF i], assumption?)+
  qed
  obtain c: "current_process s' \<in> started" "entry_frame (cr3 s') = space_of s' (current_process s')"
    using running_current[OF r'] by blast
  from c(1) obtain i where "i < 3" "current_process s' = slot 0xD0000000 i" by (auto simp: started_slot)
  moreover from this(1) have "i \<in> {0, 1, 2}" by auto
  ultimately show "entry_frame (cr3 s') \<in> {ds ! 0, ds ! 1, ds ! 2}" using c(2) sp(1) by auto
qed

text \<open>The machine of the witnesses: the sample image started, with a page of the first stack.\<close>

lemma sample_up:
  obtains ds s f where "kernel_up sample_image boot_state ds s" "user_page (ram s) (entry_frame (cr3 s)) 0xBFFFF000 = Some (f, True)"
proof -
  have two: "2 < (3 :: nat)" by simp
  obtain ds s where s: "kernel_up sample_image boot_state ds s"
    by (rule kernel_main_up[OF sample_image_ok boot_state_loaded refl boot_info_enough(3,1,2) two]) (rule that; assumption)
  obtain p q where "process_space (ram s) (ds ! 2) 1 p q" using kernel_up_process[OF s two] by blast
  then have "user_page (ram s) (entry_frame (cr3 s)) 0xBFFFF000 = Some (entry_frame (q + of_nat (page_of 0xBFFFF000 - 0xBFFF6) * PAGE_SIZE), True)"
    unfolding kernel_up_walled(8)[OF s] process_space_def by (simp add: page_of_def)
  then show ?thesis using that[OF s] by blast
qed
text \<open>C4: the programs survive. From the moment the kernel has entered the first process, after any number of
  interrupts, system calls, exceptions, switches and stores of the processes, at the addresses from 0 on user mode of each of
  the three processes still finds the bytes of its program as the image held them before \<open>kernel_main\<close>,
  one of the three is running in its own address space, and the processes in the ring are among the three.\<close>

theorem programs_survive:
  assumes "image_ok img" "kernel_loaded img s" "magic = MULTIBOOT_BOOTLOADER_MAGIC" "mb_flags mbi AND MULTIBOOT_INFO_MEM_MAP \<noteq> 0"
    and "map_entries entry_at (P2V (mmap_addr mbi) + mmap_length mbi) fuel (P2V (mmap_addr mbi)) = Some es"
    and "memory_enough (kernel_end_phys img) mbi es 2377" "2 < fuel"
  shows "\<exists>ds s1. kernel_main img entry_at get_time fuel mbi magic s = Exit (Iret 0 0x1B 0x200 0xBFFFFFFC 0x23) s1
    \<and> (\<forall>s2. (machine_step fuel)\<^sup>*\<^sup>* s1 s2 \<longrightarrow>
         (\<forall>i < 3. program_loaded s (ram s2) (ds ! i) (fst (programs img ! i)) 128)
         \<and> entry_frame (cr3 s2) \<in> {ds ! 0, ds ! 1, ds ! 2} \<and> (\<exists>ps. scheduled ps s2 \<and> set ps \<subseteq> started))"
proof -
  obtain ds s1 where m: "kernel_main img entry_at get_time fuel mbi magic s = Exit (Iret 0 0x1B 0x200 0xBFFFFFFC 0x23) s1"
    and up: "kernel_up img s ds s1" by (rule kernel_main_up[OF assms]) (rule that; assumption)
  show ?thesis using m up_run[OF up _ assms(7)] running_scheduled by blast
qed

theorem programs_survive_witness:
  "\<exists>ds s1. kernel_main sample_image boot_map (ret 0) 3 boot_info MULTIBOOT_BOOTLOADER_MAGIC boot_state
     = Exit (Iret 0 0x1B 0x200 0xBFFFFFFC 0x23) s1
     \<and> (\<forall>s2. machine_step 3 s1 s2 \<longrightarrow> program_loaded boot_state (ram s2) (ds ! 2) 0xC0103100 128)"
proof -
  have two: "2 < (3 :: nat)" by simp
  have c: "fst (programs sample_image ! 2) = 0xC0103100" by (simp add: programs_def sample_image_def)
  show ?thesis
    using programs_survive[OF sample_image_ok boot_state_loaded refl boot_info_enough(3,1,2) two, of "ret 0"]
    unfolding c[symmetric] by (metis r_into_rtranclp two)
qed
lemma sample_store:
  assumes "kernel_up sample_image boot_state ds s" "user_page (ram s) (entry_frame (cr3 s)) 0xBFFFF000 = Some (f, True)"
  shows "machine_step 3 s (poke f (word_of 0xBFFFF000) x s)" "current_process s = 0xD00020C8"
  using user_store[OF assms(2), of 3 x] assms(1) by (simp_all add: kernel_up_def scheduled_def)

theorem address_spaces_survive_witness:
  "\<exists>(s :: sys) t f. machine_step 3 s t \<and> current_process s = 0xD00020C8 \<and> ram t f (word_of 0xBFFFF000) = 0x2A \<and> spaces_kept started s t"
proof -
  obtain ds s f where s: "kernel_up sample_image boot_state ds s" "user_page (ram s) (entry_frame (cr3 s)) 0xBFFFF000 = Some (f, True)"
    by (rule sample_up)
  note w = kernel_up_walled[OF s(1)] and st = sample_store(1)[OF s, of "0x2A"] sample_store(2)[OF s]
  obtain x where x: "processes s (hd [0xD00020C8, 0xD0001064, 0xD0000000]) = Some x" "cr3 s = p_directory x"
    "t_esp0 (tss s) = p_kernel_stack x" using w(7) by blast
  have x42: "ram (poke f (word_of 0xBFFFF000) 0x2A s) f (word_of 0xBFFFF000) = 0x2A" by (simp add: poke_def)
  from address_spaces_survive[OF r_into_rtranclp[where r = "machine_step 3", OF st(1)] w(2,5,6,3,4) x] st x42 show ?thesis by blast
qed

theorem process_memory_private_witness:
  "\<exists>(s :: sys) t f g. machine_step 3 s t \<and> ram t f (word_of 0xBFFFF000) = 0x2A \<and> user_page (ram s) (space_of s 0xD0000000) 0 = Some (g, False) \<and> ram t g = ram s g"
proof -
  obtain ds s f where s: "kernel_up sample_image boot_state ds s" "user_page (ram s) (entry_frame (cr3 s)) 0xBFFFF000 = Some (f, True)"
    by (rule sample_up)
  note w = kernel_up_walled[OF s(1)] and st = sample_store(1)[OF s, of "0x2A"] sample_store(2)[OF s]
  obtain x where x: "processes s (hd [0xD00020C8, 0xD0001064, 0xD0000000]) = Some x" "cr3 s = p_directory x"
    "t_esp0 (tss s) = p_kernel_stack x" using w(7) by blast
  obtain p q where "process_space (ram s) (ds ! 0) 1 p q" using kernel_up_process[OF s(1) zero_less_numeral] by blast
  then obtain g where g: "user_page (ram s) (space_of s 0xD0000000) 0 = Some (g, False)"
    using w(1)[of 0] by (auto simp: process_space_def page_of_def program_slots)
  have step: "(\<lambda>s t. machine_step 3 s t \<and> current_process s \<noteq> 0xD0000000)\<^sup>*\<^sup>* s (poke f (word_of 0xBFFFF000) 0x2A s)"
    using st by (intro r_into_rtranclp) simp
  have p: "0xD0000000 \<in> started" by (simp add: started_def)
  have x42: "ram (poke f (word_of 0xBFFFF000) 0x2A s) f (word_of 0xBFFFF000) = 0x2A" by (simp add: poke_def)
  from process_memory_private[OF step w(2,5,6,3,4) x p g] st g x42 show ?thesis by blast
qed

end
