(* ===== verification/Programs.thy ===== *)
theory Programs
  imports Machine
begin

unbundle bit_operations_syntax

text \<open>
  The three test programs of \<open>kernel/src/kernel.c\<close>, written in inline assembly, and the processor in user
  mode as far as they use it: moves of a constant, \<open>push\<close>, \<open>pop\<close>, \<open>int\<close> and the jump of an
  endless loop. \<open>at\<close> gives the address of each instruction, which the assembler chooses; memory is
  accessed in aligned words, as the stack of the programs is. What the compiler puts around the assembly
  in a C function is not modelled.
\<close>

section \<open>User mode\<close>

datatype reg = EAX | EBX | ECX

datatype instr = Mov u32 reg | Push reg | Pop reg | Interrupt u32 | Jmp nat

primrec get_reg :: "reg \<Rightarrow> registers \<Rightarrow> u32" where
  "get_reg EAX = r_eax"
| "get_reg EBX = r_ebx"
| "get_reg ECX = r_ecx"

primrec set_reg :: "reg \<Rightarrow> u32 \<Rightarrow> registers \<Rightarrow> registers" where
  "set_reg EAX x regs = regs\<lparr>r_eax := x\<rparr>"
| "set_reg EBX x regs = regs\<lparr>r_ebx := x\<rparr>"
| "set_reg ECX x regs = regs\<lparr>r_ecx := x\<rparr>"

text \<open>Accesses with the rights of user mode, through the tables that \<open>cr3\<close> names.\<close>

definition user_read :: "u32 \<Rightarrow> ('s vmm_scheme, u32 option) action" where
  "user_read v = asks (\<lambda>s. map_option (\<lambda>(f, w). ram s f (word_of v)) (user_page (ram s) (entry_frame (cr3 s)) v))"

definition user_write :: "u32 \<Rightarrow> u32 \<Rightarrow> ('s vmm_scheme, bool) action" where
  "user_write v x s = (case user_page (ram s) (entry_frame (cr3 s)) v of
     Some (f, True) \<Rightarrow> Ok True (poke f (word_of v) x s)
   | _ \<Rightarrow> Ok False s)"

text \<open>
  A refused access raises the page fault, with the address in \<open>cr2\<close> and in the error code whether the page
  was present, the access a write, and the mode; the instruction runs again when the handler returns.
\<close>

definition user_fault :: "nat \<Rightarrow> bool \<Rightarrow> u32 \<Rightarrow> registers \<Rightarrow> ('s sys_scheme, unit) action" where
  "user_fault fuel write v regs =
     andthen (asks (\<lambda>s. translate s v \<noteq> None)) (\<lambda>present.
     before (change (\<lambda>s. s\<lparr>cr2 := v\<rparr>))
            (interrupt fuel (regs\<lparr>r_int_no := 14,
               r_err_code := (if present then 1 else 0) OR (if write then 2 else 0) OR 4\<rparr>)))"

text \<open>\<open>int\<close> needs a present gate of privilege 3, else it is a general protection fault.\<close>

definition gate_open :: "u32 \<Rightarrow> 's cpu_scheme \<Rightarrow> bool" where
  "gate_open n s \<longleftrightarrow> i_flags (idt_entries s ! unat n) AND 0xE0 = 0xE0"

text \<open>One instruction, from a program counter and registers to the next.\<close>

definition user_step :: "(nat \<Rightarrow> u32) \<Rightarrow> nat \<Rightarrow> instr list \<Rightarrow> nat \<times> registers \<Rightarrow> ('s sys_scheme, nat \<times> registers) action" where
  "user_step at fuel prog = (\<lambda>(pc, regs).
     if pc < length prog then (case prog ! pc of
       Mov x r \<Rightarrow> ret (pc + 1, set_reg r x regs)
     | Push r \<Rightarrow>
         andthen (user_write (r_esp regs - 4) (get_reg r regs)) (\<lambda>ok.
         if ok then ret (pc + 1, regs\<lparr>r_esp := r_esp regs - 4\<rparr>)
         else before (user_fault fuel True (r_esp regs - 4) (regs\<lparr>r_eip := at pc\<rparr>)) (ret (pc, regs)))
     | Pop r \<Rightarrow>
         andthen (user_read (r_esp regs)) (\<lambda>x. case x of
           Some x \<Rightarrow> ret (pc + 1, (set_reg r x regs)\<lparr>r_esp := r_esp regs + 4\<rparr>)
         | None \<Rightarrow> before (user_fault fuel False (r_esp regs) (regs\<lparr>r_eip := at pc\<rparr>)) (ret (pc, regs)))
     | Interrupt n \<Rightarrow>
         andthen (asks (gate_open n)) (\<lambda>ok.
         if ok then before (interrupt fuel (regs\<lparr>r_int_no := n, r_err_code := 0, r_eip := at (pc + 1)\<rparr>)) (ret (pc + 1, regs))
         else before (interrupt fuel (regs\<lparr>r_int_no := 13, r_err_code := n * 8 + 2, r_eip := at pc\<rparr>)) (ret (pc, regs)))
     | Jmp target \<Rightarrow> ret (target, regs))
     else stuck OutOfBounds)"

primrec user_run :: "(nat \<Rightarrow> u32) \<Rightarrow> nat \<Rightarrow> instr list \<Rightarrow> nat \<Rightarrow> nat \<times> registers \<Rightarrow> ('s sys_scheme, nat \<times> registers) action" where
  "user_run at fuel prog 0 c = ret c"
| "user_run at fuel prog (Suc n) c = andthen (user_step at fuel prog c) (user_run at fuel prog n)"

section \<open>The programs\<close>

definition process_1_program :: "instr list" where
  "process_1_program = [Mov 2022 ECX, Push ECX, Pop ECX, Jmp 0]"

definition process_2_program :: "instr list" where
  "process_2_program = [Mov 1414 ECX, Jmp 0]"

definition process_3_program :: "instr list" where
  "process_3_program =
    [Mov 3 EAX,
     Mov (of_char CHR ''H'') EBX, Interrupt 0x30,
     Mov (of_char CHR ''e'') EBX, Interrupt 0x30,
     Mov (of_char CHR ''l'') EBX, Interrupt 0x30,
     Mov (of_char CHR ''l'') EBX, Interrupt 0x30,
     Mov (of_char CHR ''o'') EBX, Interrupt 0x30,
     Mov (of_char CHR '','') EBX, Interrupt 0x30,
     Mov (of_char CHR '' '') EBX, Interrupt 0x30,
     Mov (of_char CHR ''w'') EBX, Interrupt 0x30,
     Mov (of_char CHR ''o'') EBX, Interrupt 0x30,
     Mov (of_char CHR ''r'') EBX, Interrupt 0x30,
     Mov (of_char CHR ''l'') EBX, Interrupt 0x30,
     Mov (of_char CHR ''d'') EBX, Interrupt 0x30,
     Mov (of_char CHR ''\<newline>'') EBX, Interrupt 0x30,
     Mov 2 EAX,
     Mov 10 EBX,
     Interrupt 0x30,
     Mov 1 EAX,
     Interrupt 0x30]"

section \<open>User mode stays inside the machine\<close>

lemma user_run_append: "user_run at fuel prog (m + n) c = andthen (user_run at fuel prog m c) (user_run at fuel prog n)"
  by (induction m arbitrary: c) (simp_all add: fun_eq_iff andthen_def split: outcome.splits)

lemma user_run_0 [simp]: "andthen m (user_run at fuel prog 0) = m"
  by (simp add: fun_eq_iff andthen_def split: outcome.splits)

text \<open>\<open>moves fuel m\<close>: \<open>m\<close> takes the machine to a state that its steps reach, if it stays inside defined behaviour.\<close>

definition moves :: "nat \<Rightarrow> ('s sys_scheme, 'a) action \<Rightarrow> bool" where
  "moves fuel m \<longleftrightarrow> (\<forall>s t. (\<exists>a. m s = Ok a t) \<or> (\<exists>eip cs eflags esp ss. m s = Exit (Iret eip cs eflags esp ss) t)
     \<longrightarrow> (machine_step fuel)\<^sup>*\<^sup>* s t)"

lemma moves_ret: "moves fuel (ret a)"
  by (simp add: moves_def)

lemma moves_andthen:
  assumes "moves fuel m" "\<And>a. moves fuel (k a)"
  shows "moves fuel (andthen m k)"
  unfolding moves_def
proof (intro allI impI)
  fix s t assume h: "(\<exists>a. andthen m k s = Ok a t) \<or> (\<exists>eip cs eflags esp ss. andthen m k s = Exit (Iret eip cs eflags esp ss) t)"
  show "(machine_step fuel)\<^sup>*\<^sup>* s t"
  proof (cases "m s")
    case (Ok a u)
    have "(machine_step fuel)\<^sup>*\<^sup>* s u" using assms(1) Ok by (auto simp: moves_def)
    moreover have "(\<exists>b. k a u = Ok b t) \<or> (\<exists>eip cs eflags esp ss. k a u = Exit (Iret eip cs eflags esp ss) t)" using h Ok by simp
    then have "(machine_step fuel)\<^sup>*\<^sup>* u t" using assms(2)[of a] unfolding moves_def by blast
    ultimately show ?thesis by (rule rtranclp_trans)
  next
    case (Exit e u)
    then show ?thesis using assms(1) h by (auto simp: moves_def)
  next
    case (Undefined f)
    then show ?thesis using h by simp
  qed
qed

lemma moves_interrupt: "moves fuel (interrupt fuel regs)"
proof -
  have "(machine_step fuel)\<^sup>*\<^sup>* s t" if "interrupt fuel regs s = Ok () t" for s t
    using handled[of fuel regs "cr2 s" s t] that by (intro r_into_rtranclp) simp
  moreover have "(machine_step fuel)\<^sup>*\<^sup>* s t" if "interrupt fuel regs s = Exit (Iret eip cs eflags esp ss) t" for s t eip cs eflags esp ss
    using switched[of fuel regs "cr2 s" s eip cs eflags esp ss t] that by (intro r_into_rtranclp) simp
  ultimately show ?thesis by (auto simp: moves_def)
qed

lemma moves_fault: "moves fuel (user_fault fuel w v regs)"
  unfolding moves_def user_fault_def using handled[where a = v] switched[where a = v] by fastforce

lemma moves_write: "moves fuel (user_write v x)"
  using user_store[of _ v _ fuel x] by (auto simp: moves_def user_write_def split: option.splits bool.splits intro!: r_into_rtranclp)

lemma moves_asks: "moves fuel (asks f)"
  by (simp add: moves_def)

lemma moves_before: "moves fuel m \<Longrightarrow> moves fuel k \<Longrightarrow> moves fuel (before m k)"
  unfolding before_def by (rule moves_andthen)

lemma moves_user_step: "moves fuel (user_step at fuel prog c)"
proof -
  obtain pc regs where c: "c = (pc, regs)" by (cases c)
  note intros = moves_ret moves_andthen moves_before moves_interrupt moves_fault moves_write moves_asks
  show ?thesis
  proof (cases "pc < length prog")
    case True
    then show ?thesis
      by (cases "prog ! pc") (auto simp: c user_step_def user_read_def intro!: intros split: option.split)
  qed (simp add: c user_step_def moves_def)
qed

lemma moves_user_run: "moves fuel (user_run at fuel prog n c)"
  by (induction n arbitrary: c) (simp_all add: moves_ret moves_andthen moves_user_step)

section \<open>System calls of a program\<close>

definition calls_open :: "'s sys_scheme \<Rightarrow> bool" where
  "calls_open s \<longleftrightarrow> isr_handlers s ! 48 = Some Syscall_handler \<and> syscall_handlers s = sys_table \<and> gate_open 0x30 s"

lemma calls_open_con [simp]: "calls_open (s\<lparr>con := t\<rparr>) = calls_open s"
  by (simp add: calls_open_def gate_open_def)

lemma interrupt_call: "calls_open s \<Longrightarrow> r_int_no regs = 0x30 \<Longrightarrow> interrupt fuel regs s = syscall_handler fuel regs s"
  by (simp add: calls_open_def interrupt_def isr_handler_def ISR_COUNT_def call_handler_2)

lemma handler_wait: "calls_open s \<Longrightarrow> r_eax regs = 2 \<Longrightarrow> syscall_handler fuel regs s = Ok () s"
  by (simp add: calls_open_def syscall_handler_def SYSCALL_COUNT_def sys_table_nth syscall_wait_def)

lemma handler_exit: "calls_open s \<Longrightarrow> r_eax regs = 1 \<Longrightarrow> syscall_handler fuel regs s = proc_exit_current_process fuel s"
  by (simp add: calls_open_def syscall_handler_def SYSCALL_COUNT_def sys_table_nth syscall_exit_def)

lemma char_arg: "to_char (uint (of_char c :: u32)) = c"
proof -
  have c: "of_char c = (of_nat (of_char c) :: u32)" "of_char c = int (of_char c)" by (simp_all only: of_nat_of_char)
  have b: "of_char c < (2 ^ 32 :: nat)" by (rule less_trans[OF nat_of_char_less_256]) simp
  have "uint (of_char c :: u32) = of_char c" unfolding c(1) c(2) uint_nat by (subst of_nat_unat_u32[OF b]) (rule refl)
  then show ?thesis by (simp add: to_char_def)
qed

lemma handler_putchar:
  "calls_open s \<Longrightarrow> r_eax regs = 3 \<Longrightarrow> r_ebx regs = of_char c \<Longrightarrow> term_putchar c (con s) = Ok () t \<Longrightarrow>
   syscall_handler fuel regs s = Ok () (s\<lparr>con := t\<rparr>)"
  by (simp add: calls_open_def syscall_handler_def SYSCALL_COUNT_def sys_table_nth syscall_putchar_runs char_arg)

lemma step_mov: "pc < length prog \<Longrightarrow> prog ! pc = Mov x r \<Longrightarrow> user_step at fuel prog (pc, regs) s = Ok (Suc pc, set_reg r x regs) s"
  by (simp add: user_step_def)

lemma step_call:
  fixes regs :: registers and at :: "nat \<Rightarrow> u32"
  assumes "pc < length prog" "prog ! pc = Interrupt 0x30" "calls_open s"
  defines "frame \<equiv> regs\<lparr>r_int_no := 0x30, r_err_code := 0, r_eip := at (Suc pc)\<rparr>"
  shows "user_step at fuel prog (pc, regs) s = before (syscall_handler fuel frame) (ret (Suc pc, regs)) s"
proof -
  have "interrupt fuel frame s = syscall_handler fuel frame s" by (rule interrupt_call[OF assms(3)]) (simp add: frame_def)
  moreover have "gate_open 0x30 s" using assms(3) by (simp add: calls_open_def)
  ultimately show ?thesis using assms(1,2) by (simp add: user_step_def before_def andthen_def frame_def)
qed

text \<open>A stretch of a program that prints a text, character by character.\<close>

definition putchars :: "string \<Rightarrow> instr list" where
  "putchars cs = concat (map (\<lambda>c. [Mov (of_char c) EBX, Interrupt 0x30]) cs)"

lemma putchars_run:
  "prog = pre @ putchars cs @ post \<Longrightarrow> pc = length pre \<Longrightarrow> calls_open s \<Longrightarrow> r_eax regs = 3 \<Longrightarrow> print_text cs (con s) = Ok () t \<Longrightarrow>
   \<exists>regs'. user_run at fuel prog (2 * length cs) (pc, regs) s = Ok (pc + 2 * length cs, regs') (s\<lparr>con := t\<rparr>)
     \<and> r_eax regs' = 3 \<and> r_esp regs' = r_esp regs"
proof (induction cs arbitrary: pre pc regs s)
  case Nil
  then show ?case by (simp add: print_text_def)
next
  case (Cons c cs)
  obtain t1 where t1: "term_putchar c (con s) = Ok () t1" "print_text cs t1 = Ok () t"
    using Cons.prems(5) by (auto simp: print_text_def elim!: before_OkE)
  let ?r = "regs\<lparr>r_ebx := of_char c\<rparr>"
  have pos: "pc < length prog" "Suc pc < length prog" "prog ! pc = Mov (of_char c) EBX" "prog ! Suc pc = Interrupt 0x30"
    using Cons.prems(1,2) by (simp_all add: putchars_def nth_append)
  have one: "user_step at fuel prog (pc, regs) s = Ok (Suc pc, ?r) s" using step_mov[OF pos(1,3)] by simp
  have "syscall_handler fuel (?r\<lparr>r_int_no := 0x30, r_err_code := 0, r_eip := at (Suc (Suc pc))\<rparr>) s = Ok () (s\<lparr>con := t1\<rparr>)"
    by (rule handler_putchar[OF Cons.prems(3) _ _ t1(1)]) (simp_all add: Cons.prems(4))
  then have two: "user_step at fuel prog (Suc pc, ?r) s = Ok (Suc (Suc pc), ?r) (s\<lparr>con := t1\<rparr>)"
    using step_call[OF pos(2,4) Cons.prems(3), of at fuel ?r] by simp
  have "\<exists>regs'. user_run at fuel prog (2 * length cs) (Suc (Suc pc), ?r) (s\<lparr>con := t1\<rparr>)
      = Ok (Suc (Suc pc) + 2 * length cs, regs') (s\<lparr>con := t1\<rparr>\<lparr>con := t\<rparr>) \<and> r_eax regs' = 3 \<and> r_esp regs' = r_esp ?r"
    by (rule Cons.IH[of "pre @ [Mov (of_char c) EBX, Interrupt 0x30]"]) (use Cons.prems t1(2) in \<open>simp_all add: putchars_def\<close>)
  then show ?case using one two by simp
qed

lemma process_3_parts:
  "process_3_program = [Mov 3 EAX] @ putchars ''Hello, world\<newline>'' @ [Mov 2 EAX, Mov 10 EBX, Interrupt 0x30, Mov 1 EAX, Interrupt 0x30]"
  by (simp add: process_3_program_def putchars_def)

text \<open>Up to its last instruction, process 3 does what \<open>printf\<close> of the text would do.\<close>

lemma process_3_prints:
  assumes "calls_open s" "print_text ''Hello, world\<newline>'' (con s) = Ok () t"
  shows "\<exists>regs'. user_run at fuel process_3_program 31 (0, regs) s = Ok (31, regs') (s\<lparr>con := t\<rparr>) \<and> r_eax regs' = 1 \<and> r_esp regs' = r_esp regs"
proof -
  let ?p = process_3_program and ?s = "s\<lparr>con := t\<rparr>"
  have nth: "?p ! 0 = Mov 3 EAX" "?p ! 27 = Mov 2 EAX" "?p ! 28 = Mov 10 EBX" "?p ! 29 = Interrupt 0x30" "?p ! 30 = Mov 1 EAX"
    "length ?p = 32" by (simp_all add: process_3_program_def)
  have s1: "user_run at fuel ?p 1 (0, regs) s = Ok (1, regs\<lparr>r_eax := 3\<rparr>) s"
    using step_mov[of 0 ?p 3 EAX] nth by simp
  obtain r2 where r2: "user_run at fuel ?p 26 (1, regs\<lparr>r_eax := 3\<rparr>) s = Ok (27, r2) ?s" "r_eax r2 = 3" "r_esp r2 = r_esp regs"
    using putchars_run[OF process_3_parts _ assms(1) _ assms(2), of 1 "regs\<lparr>r_eax := 3\<rparr>" at fuel] by auto
  let ?r3 = "r2\<lparr>r_eax := 2\<rparr>\<lparr>r_ebx := 10\<rparr>"
  have o: "calls_open ?s" using assms(1) by simp
  have s3: "user_step at fuel ?p (27, r2) ?s = Ok (28, r2\<lparr>r_eax := 2\<rparr>) ?s" using step_mov[of 27 ?p 2 EAX] nth by simp
  have s4: "user_step at fuel ?p (28, r2\<lparr>r_eax := 2\<rparr>) ?s = Ok (29, ?r3) ?s" using step_mov[of 28 ?p 10 EBX] nth by simp
  have s5: "user_step at fuel ?p (29, ?r3) ?s = Ok (30, ?r3) ?s"
    using step_call[OF _ nth(4) o, of at fuel ?r3] handler_wait[OF o] nth(6) by simp
  have s6: "user_step at fuel ?p (30, ?r3) ?s = Ok (31, ?r3\<lparr>r_eax := 1\<rparr>) ?s" using step_mov[of 30 ?p 1 EAX at fuel ?r3 ?s] nth by simp
  have s36: "user_run at fuel ?p 4 (27, r2) ?s = Ok (31, ?r3\<lparr>r_eax := 1\<rparr>) ?s"
    using s3 s4 s5 s6 by (simp add: numeral_eq_Suc)
  have "user_run at fuel ?p (1 + (26 + 4)) (0, regs) s = Ok (31, ?r3\<lparr>r_eax := 1\<rparr>) ?s"
    unfolding user_run_append using s1 r2(1) s36 by (simp add: user_run_append)
  then show ?thesis using r2(3) by simp
qed

lemma process_3_exits:
  assumes "calls_open s" "r_eax regs = 1"
  shows "user_run at fuel process_3_program 1 (31, regs) s = before (proc_exit_current_process fuel) (ret (32, regs)) s"
proof -
  have "process_3_program ! 31 = Interrupt 0x30" "length process_3_program = 32" by (simp_all add: process_3_program_def)
  from step_call[OF _ this(1) assms(1), of at fuel regs] this(2)
  have "user_step at fuel process_3_program (31, regs) s =
    before (syscall_handler fuel (regs\<lparr>r_int_no := 0x30, r_err_code := 0, r_eip := at 32\<rparr>)) (ret (32, regs)) s" by simp
  also have "\<dots> = before (proc_exit_current_process fuel) (ret (32, regs)) s"
    using handler_exit[OF assms(1), of "regs\<lparr>r_int_no := 0x30, r_err_code := 0, r_eip := at 32\<rparr>" fuel] assms(2)
    by (simp add: before_def andthen_def)
  finally show ?thesis by (simp add: andthen_def split: outcome.splits)
qed

section \<open>The endless programs\<close>

lemma poke_cr3: "cr3 (poke f i x s) = cr3 s"
  by (simp add: poke_def)

lemma process_1_round:
  assumes "own_space (ram s) (entry_frame (cr3 s))" "user_page (ram s) (entry_frame (cr3 s)) (r_esp regs - 4) = Some (f, True)"
  shows "user_run at fuel process_1_program 4 (0, regs) s
      = Ok (0, regs\<lparr>r_ecx := 2022\<rparr>) (poke f (word_of (r_esp regs - 4)) 2022 s)"
    and "own_space (ram (poke f i x s)) (entry_frame (cr3 s))"
    and "user_page (ram (poke f i x s)) (entry_frame (cr3 s)) = user_page (ram s) (entry_frame (cr3 s))"
proof -
  let ?d = "entry_frame (cr3 s)"
  have "f \<in> user_frames (ram s) ?d" using assms(2) by (auto simp: user_frames_def)
  then have "f \<notin> table_frames (ram s) ?d" using assms(1) by (auto simp: own_space_def)
  then have "\<forall>g \<in> table_frames (ram s) ?d. ram (poke f i x s) g = ram s g" for i x by (auto simp: poke_def)
  note kept = spaces_cong[OF this]
  show "own_space (ram (poke f i x s)) ?d" "user_page (ram (poke f i x s)) ?d = user_page (ram s) ?d"
    using assms(1) kept(1,5) by simp_all
  let ?t = "poke f (word_of (r_esp regs - 4)) 2022 s" and ?r = "regs\<lparr>r_ecx := 2022\<rparr>"
  have 1: "user_step at fuel process_1_program (0, regs) s = Ok (1, ?r) s"
    by (simp add: user_step_def process_1_program_def)
  have 2: "user_step at fuel process_1_program (1, ?r) s = Ok (2, ?r\<lparr>r_esp := r_esp regs - 4\<rparr>) ?t"
    using assms(2) by (simp add: user_step_def process_1_program_def user_write_def)
  have "user_page (ram ?t) (entry_frame (cr3 ?t)) (r_esp regs - 4) = Some (f, True)"
    using assms(2) kept(1)[of "word_of (r_esp regs - 4)" 2022] by (simp only: poke_cr3)
  moreover have "ram ?t f (word_of (r_esp regs - 4)) = 2022" by (simp add: poke_def)
  ultimately have 3: "user_step at fuel process_1_program (2, ?r\<lparr>r_esp := r_esp regs - 4\<rparr>) ?t = Ok (3, ?r) ?t"
    by (simp add: user_step_def process_1_program_def user_read_def)
  have 4: "user_step at fuel process_1_program (3, ?r) ?t = Ok (0, ?r) ?t"
    by (simp add: user_step_def process_1_program_def)
  show "user_run at fuel process_1_program 4 (0, regs) s = Ok (0, ?r) ?t"
    using 1 2 3 4 by (simp add: numeral_eq_Suc)
qed

section \<open>Properties\<close>

text \<open>Processes 1 and 2 run for ever. Each round of their loops comes back to its start without a trap, process 1
  with its stack pointer where it was and no memory changed but the frame below it; so they never
  give up the processor, and only the timer gets them off it.\<close>

theorem endless_processes:
  assumes "own_space (ram s) (entry_frame (cr3 s))" "user_page (ram s) (entry_frame (cr3 s)) (r_esp regs - 4) = Some (f, True)"
  shows "(\<exists>regs' m. user_run at fuel process_1_program (4 * n) (0, regs) s = Ok (0, regs') (s\<lparr>ram := m\<rparr>)
      \<and> r_esp regs' = r_esp regs \<and> (\<forall>g. g \<noteq> f \<longrightarrow> m g = ram s g)) \<and>
    (\<exists>regs'. user_run at fuel process_2_program (2 * n) (0, regs) s = Ok (0, regs') s)"
proof
  show "\<exists>regs' m. user_run at fuel process_1_program (4 * n) (0, regs) s = Ok (0, regs') (s\<lparr>ram := m\<rparr>)
      \<and> r_esp regs' = r_esp regs \<and> (\<forall>g. g \<noteq> f \<longrightarrow> m g = ram s g)"
    using assms
  proof (induction n arbitrary: s regs)
    case 0
    show ?case by (intro exI[of _ regs] exI[of _ "ram s"]) simp
  next
    case (Suc n)
    note r = process_1_round[OF Suc.prems]
    let ?t = "poke f (word_of (r_esp regs - 4)) 2022 s" and ?r = "regs\<lparr>r_ecx := 2022\<rparr>"
    have c: "cr3 ?t = cr3 s" by (simp add: poke_def)
    have "\<exists>regs' m. user_run at fuel process_1_program (4 * n) (0, ?r) ?t = Ok (0, regs') (?t\<lparr>ram := m\<rparr>)
        \<and> r_esp regs' = r_esp ?r \<and> (\<forall>g. g \<noteq> f \<longrightarrow> m g = ram ?t g)"
      by (rule Suc.IH) (use r(2,3) Suc.prems(2) in \<open>simp_all add: c\<close>)
    then obtain regs' m where m: "user_run at fuel process_1_program (4 * n) (0, ?r) ?t = Ok (0, regs') (s\<lparr>ram := m\<rparr>)"
      "r_esp regs' = r_esp regs" "\<forall>g. g \<noteq> f \<longrightarrow> m g = ram s g" by (auto simp: poke_def)
    have "4 * Suc n = 4 + 4 * n" by simp
    then have "user_run at fuel process_1_program (4 * Suc n) (0, regs) s = Ok (0, regs') (s\<lparr>ram := m\<rparr>)"
      unfolding user_run_append using r(1) m(1) by (simp add: user_run_append)
    then show ?case using m(2,3) by blast
  qed
  show "\<exists>regs'. user_run at fuel process_2_program (2 * n) (0, regs) s = Ok (0, regs') s"
  proof (induction n arbitrary: regs)
    case (Suc n)
    have "user_step at fuel process_2_program (0, regs) s = Ok (1, regs\<lparr>r_ecx := 1414\<rparr>) s"
      "user_step at fuel process_2_program (1, regs\<lparr>r_ecx := 1414\<rparr>) s = Ok (0, regs\<lparr>r_ecx := 1414\<rparr>) s"
      by (simp_all add: user_step_def process_2_program_def)
    then show ?case using Suc[of "regs\<lparr>r_ecx := 1414\<rparr>"] by simp
  qed simp
qed

lemma kernel_up_open:
  assumes "kernel_up img s0 ds s"
  shows "calls_open s"
proof -
  have "idt_entries s ! 48 = make_idt_entry (isr_stubs img 48) 8 0xEE" using assms by (simp add: kernel_up_def)
  then show ?thesis using assms by (simp add: calls_open_def gate_open_def kernel_up_def make_idt_entry_def)
qed

lemma kernel_up_exit:
  assumes up: "kernel_up img s0 ds s" and "2 < fuel" "quiet t"
  obtains s2 where "proc_exit_current_process fuel (s\<lparr>con := t\<rparr>) = Exit (Iret 0 0x1B 0x200 0xBFFFFFFC 0x23) s2"
    "scheduled [0xD0001064, 0xD0000000] s2" "entry_frame (cr3 s2) = ds ! 1" "ram s2 = ram s"
proof -
  let ?s = "s\<lparr>con := t\<rparr>"
  have sch: "scheduled [0xD00020C8, 0xD0001064, 0xD0000000] ?s" "quiet (con ?s)" using up assms(3) by (simp_all add: kernel_up_def scheduled_def)
  have "self_mapped (ram s) (ds ! 2)" using kernel_up_process[OF up, of 2] by auto
  moreover have "entry_frame (cr3 s) = ds ! 2" using up by (simp add: kernel_up_def)
  ultimately have rec: "recursive ?s" by (simp add: recursive_self directory_def)
  obtain x where x: "processes ?s 0xD00020C8 = Some x" using up by (auto simp: kernel_up_def)
  have l: "length [0xD0001064, 0xD0000000 :: u32] < fuel" "[0xD0001064, 0xD0000000 :: u32] \<noteq> []" using assms(2) by simp_all
  obtain y s2 z where r: "proc_exit_current_process fuel ?s = Exit (user_frame y) s2" "scheduled [0xD0001064, 0xD0000000] s2"
    "processes s2 (hd [0xD0001064, 0xD0000000]) = Some y" "cr3 s2 = p_directory y"
    "processes s2 = (processes ?s)(last [0xD0001064, 0xD0000000] \<mapsto> z\<lparr>p_next := hd [0xD0001064, 0xD0000000]\<rparr>)"
    by (rule proc_exit_runs[OF sch(1) l(2) sch(2) rec l(1) x])
  obtain w where w: "processes s 0xD0001064 = Some w" "p_registers w = initial_registers" "entry_frame (p_directory w) = ds ! 1"
    using kernel_up_process[OF up, of 1] program_slots(4) by auto
  have "y = w" using r(3,5) w(1) by simp
  then have f: "user_frame y = Iret 0 0x1B 0x200 0xBFFFFFFC 0x23"
    using w(2) by (simp add: user_frame_def initial_registers_def KERNEL_BASE_VIRT_def)
  have "memory_core s2 = memory_core ?s"
    using keeps_ExitD[OF memory_exit[of "\<lambda>m. m = memory_core ?s"] r(1)] by simp
  then have "ram s2 = ram s" by (simp add: memory_core_def)
  then show ?thesis using that[of s2] r(1,2,4) f w(3) \<open>y = w\<close> by simp
qed

text \<open>C2: from the boot stub to the exit of the first process. The kernel starts, and if no hardware interrupt comes,
  process 3, whatever the registers hold when it is entered, prints its text: the
  terminal is as \<open>printf ("Hello, world\n")\<close> in the kernel would have left it, and nothing else has changed. Its
  call of \<open>wait\<close> returns at once, and its exit enters process 2 at address 0, in its own address space with
  its program in place, with the ring of the two other processes intact.\<close>

theorem hello_world:
  assumes "image_ok img" "kernel_loaded img s" "magic = MULTIBOOT_BOOTLOADER_MAGIC" "mb_flags mbi AND MULTIBOOT_INFO_MEM_MAP \<noteq> 0"
    and "map_entries entry_at (P2V (mmap_addr mbi) + mmap_length mbi) fuel (P2V (mmap_addr mbi)) = Some es"
    and "memory_enough (kernel_end_phys img) mbi es 2377" "2 < fuel"
  shows "\<exists>s1 t s2. kernel_main img entry_at get_time fuel mbi magic s = Exit (Iret 0 0x1B 0x200 0xBFFFFFFC 0x23) s1
    \<and> kprintf ''Hello, world\<newline>'' [] s1 = Ok () (s1\<lparr>con := t\<rparr>) \<and> quiet t
    \<and> (\<forall>at regs. (\<exists>regs'. user_run at fuel process_3_program 31 (0, regs) s1 = Ok (31, regs') (s1\<lparr>con := t\<rparr>))
         \<and> user_run at fuel process_3_program 32 (0, regs) s1 = Exit (Iret 0 0x1B 0x200 0xBFFFFFFC 0x23) s2)
    \<and> scheduled [0xD0001064, 0xD0000000] s2 \<and> program_loaded s (ram s2) (entry_frame (cr3 s2)) (process_2 img) 128"
proof -
  obtain ds s1 where m: "kernel_main img entry_at get_time fuel mbi magic s = Exit (Iret 0 0x1B 0x200 0xBFFFFFFC 0x23) s1"
    and up: "kernel_up img s ds s1" by (rule kernel_main_up[OF assms]) (rule that; assumption)
  have q: "quiet (con s1)" using up by (simp add: kernel_up_def)
  obtain t where t: "kprintf ''Hello, world\<newline>'' [] s1 = Ok () (s1\<lparr>con := t\<rparr>)" "quiet t" "print_text ''Hello, world\<newline>'' (con s1) = Ok () t"
    by (rule kprintf_text[OF _ _ q, of "''Hello, world\<newline>''" "[]" "''Hello, world\<newline>''"]) (simp_all add: format_eval plain_def)
  obtain s2 where s2: "proc_exit_current_process fuel (s1\<lparr>con := t\<rparr>) = Exit (Iret 0 0x1B 0x200 0xBFFFFFFC 0x23) s2"
    "scheduled [0xD0001064, 0xD0000000] s2" "entry_frame (cr3 s2) = ds ! 1" "ram s2 = ram s1"
    by (rule kernel_up_exit[OF up assms(7) t(2)])
  have open1: "calls_open s1" "calls_open (s1\<lparr>con := t\<rparr>)" using kernel_up_open[OF up] by simp_all
  have run: "(\<exists>regs'. user_run at fuel process_3_program 31 (0, regs) s1 = Ok (31, regs') (s1\<lparr>con := t\<rparr>))
         \<and> user_run at fuel process_3_program 32 (0, regs) s1 = Exit (Iret 0 0x1B 0x200 0xBFFFFFFC 0x23) s2" for at regs
  proof -
    obtain r where r: "user_run at fuel process_3_program 31 (0, regs) s1 = Ok (31, r) (s1\<lparr>con := t\<rparr>)" "r_eax r = 1"
      using process_3_prints[OF open1(1) t(3)] by blast
    have "user_run at fuel process_3_program (31 + 1) (0, regs) s1 = Exit (Iret 0 0x1B 0x200 0xBFFFFFFC 0x23) s2"
      unfolding user_run_append using process_3_exits[OF open1(2) r(2), of at fuel] r(1) s2(1) by simp
    then show ?thesis using r(1) by simp
  qed
  have "program_loaded s (ram s1) (ds ! 1) (fst (programs img ! 1)) 128"
    using kernel_up_process[OF up one_less_numeral_iff[THEN iffD2]] by (metis semiring_norm(77))
  then have "program_loaded s (ram s2) (entry_frame (cr3 s2)) (process_2 img) 128" using s2(3,4) by (simp add: programs_def)
  then show ?thesis using m t(1,2) run s2(2) by blast
qed

theorem hello_world_witness:
  "\<exists>s1 t s2. kernel_main sample_image boot_map (ret 0) 3 boot_info MULTIBOOT_BOOTLOADER_MAGIC boot_state
      = Exit (Iret 0 0x1B 0x200 0xBFFFFFFC 0x23) s1
    \<and> user_run (\<lambda>n. of_nat n) 3 process_3_program 32 (0, initial_registers) s1 = Exit (Iret 0 0x1B 0x200 0xBFFFFFFC 0x23) s2
    \<and> kprintf ''Hello, world\<newline>'' [] s1 = Ok () (s1\<lparr>con := t\<rparr>) \<and> scheduled [0xD0001064, 0xD0000000] s2"
proof -
  have two: "2 < (3 :: nat)" by simp
  from hello_world[OF sample_image_ok boot_state_loaded refl boot_info_enough(3,1,2) two, of "ret 0"] show ?thesis by blast
qed

text \<open>The first process has just been entered; the second word of its stack's last page lies below its stack pointer.\<close>

lemma sample_stack:
  obtains ds s f where "kernel_up sample_image boot_state ds s" "user_page (ram s) (entry_frame (cr3 s)) (0xBFFFF008 - 4) = Some (f, True)"
    "own_space (ram s) (entry_frame (cr3 s))"
proof -
  obtain ds s f where s: "kernel_up sample_image boot_state ds s" "user_page (ram s) (entry_frame (cr3 s)) 0xBFFFF000 = Some (f, True)"
    by (rule sample_up)
  have two: "2 < (3 :: nat)" by simp
  have c: "entry_frame (cr3 s) = ds ! 2" using s(1) by (simp add: kernel_up_def)
  obtain p q where p: "process_space (ram s) (ds ! 2) 1 p q" "own_space (ram s) (ds ! 2)" using kernel_up_process[OF s(1) two] by blast
  then have "user_page (ram s) (ds ! 2) (0xBFFFF008 - 4) = user_page (ram s) (ds ! 2) 0xBFFFF000"
    by (simp add: process_space_def page_of_def)
  then show ?thesis using that[OF s(1)] s(2) p(2) unfolding c by simp
qed

theorem endless_processes_witness:
  "\<exists>(s :: sys) regs m. user_run (\<lambda>n. of_nat n) 3 process_1_program 400 (0, initial_registers\<lparr>r_esp := 0xBFFFF008\<rparr>) s = Ok (0, regs) (s\<lparr>ram := m\<rparr>)
    \<and> r_esp regs = 0xBFFFF008"
proof -
  obtain ds s f where s: "kernel_up sample_image boot_state ds s" "user_page (ram s) (entry_frame (cr3 s)) (0xBFFFF008 - 4) = Some (f, True)"
    "own_space (ram s) (entry_frame (cr3 s))" by (rule sample_stack)
  have "user_page (ram s) (entry_frame (cr3 s)) (r_esp (initial_registers\<lparr>r_esp := 0xBFFFF008\<rparr>) - 4) = Some (f, True)"
    using s(2) by simp
  from endless_processes[OF s(3) this, of "\<lambda>n. of_nat n" 3 100] show ?thesis by auto
qed

end
