(* ===== verification/Typing.thy ===== *)
theory Typing
  imports Programs
begin

unbundle bit_operations_syntax

text \<open>
  A user types while a program runs. Between the instructions of a process the keyboard may interrupt at any time; \<open>irq.S\<close>
  gives all registers back (\<open>interrupt_stubs\<close>), so the program goes on where it was, and what it prints is shuffled
  with what the keyboard handler echoes. Interrupts of the timer are not among these, since they switch processes.
\<close>

section \<open>A key\<close>

text \<open>The scan code that the keyboard answers with after the interrupt is acknowledged, and the state that the handler leaves.\<close>

definition key_code :: "'s keyboard_scheme \<Rightarrow> u8" where
  "key_code s = ucast (device s (io_events s @ [Out8 0x20 0x20]) 0x60)"

definition key_known :: "'s keyboard_scheme \<Rightarrow> bool" where
  "key_known s \<longleftrightarrow> unat (key_code s AND 0x7F) < 92"

definition key_taken :: "'s keyboard_scheme \<Rightarrow> 's keyboard_scheme" where
  "key_taken s = s\<lparr>io_events := io_events s @ [Out8 0x20 0x20, In8 0x60], interrupt_flag := True,
     keys_state := (keys_state s)[unat (key_code s AND 0x7F) :=
       if bit (key_code s) 7 then KEY_STATE_RELEASED else KEY_STATE_PRESSED]\<rparr>"

definition key_echo :: "'s keyboard_scheme \<Rightarrow> string" where
  "key_echo s = (let c = sc_to_char ! unat (key_code s AND 0x7F)
     in if c = NUL then [] else c # held_text (keys_state (key_taken s)))"

text \<open>The state behind \<open>n\<close> keys, and what they print, one after the other.\<close>

primrec keys_taken :: "nat \<Rightarrow> 's keyboard_scheme \<Rightarrow> 's keyboard_scheme" where
  "keys_taken 0 s = s"
| "keys_taken (Suc n) s = keys_taken n (key_taken s)"

primrec typed :: "nat \<Rightarrow> 's keyboard_scheme \<Rightarrow> string" where
  "typed 0 s = []"
| "typed (Suc n) s = key_echo s @ typed n (key_taken s)"

lemma key_con [simp]:
  "key_code (s\<lparr>con := t\<rparr>) = key_code s" "key_known (s\<lparr>con := t\<rparr>) = key_known s" "key_taken (s\<lparr>con := t\<rparr>) = (key_taken s)\<lparr>con := t\<rparr>"
  "key_echo (s\<lparr>con := t\<rparr>) = key_echo s"
  by (simp_all add: key_code_def key_known_def key_taken_def key_echo_def Let_def)

lemma keys_con [simp]:
  "keys_taken n (s\<lparr>con := t\<rparr>) = (keys_taken n s)\<lparr>con := t\<rparr>" "typed n (s\<lparr>con := t\<rparr>) = typed n s"
  by (induction n arbitrary: s) simp_all

lemma key_taken_kept [simp]:
  "con (key_taken s) = con s" "irq_handlers (key_taken s) = irq_handlers s"
  by (simp_all add: key_taken_def)

lemma key_taken_sys [simp]: "calls_open (key_taken s) = calls_open s"
  by (simp add: calls_open_def gate_open_def key_taken_def)

lemma interrupt_reaches_keyboard:
  fixes s :: "'s sys_scheme"
  assumes "irq_handlers s ! 1 = Some Keyboard_handler" "r_int_no regs = 33"
  shows "interrupt fuel regs s = before (keyboard_handler regs) STI (s\<lparr>io_events := io_events s @ [Out8 0x20 0x20]\<rparr>)"
proof -
  have call: "call_handler fuel 2 Keyboard_handler = keyboard_handler" by (simp add: fun_eq_iff numeral_2_eq_2)
  show ?thesis
    using assms by (simp add: interrupt_def irq_handler_def irq_spurious_def irq_send_eoi_def port_effects pic_defs irq_defs call Let_def)
qed

text \<open>A code of the table is echoed; any other makes the handler read behind the table.\<close>

lemma keyboard_interrupt:
  fixes s :: "'s sys_scheme"
  assumes "irq_handlers s ! 1 = Some Keyboard_handler" "quiet (con s)" "key_known s" "r_int_no regs = 33"
  obtains t where "interrupt fuel regs s = Ok () ((key_taken s)\<lparr>con := t\<rparr>)" "quiet t" "print_text (key_echo s) (con s) = Ok () t"
proof -
  let ?s = "s\<lparr>io_events := io_events s @ [Out8 0x20 0x20]\<rparr>"
  have q: "quiet (con ?s)" using assms(2) by simp
  have known: "\<not> 92 \<le> unat (key_code s AND 0x7F)" using assms(3) by (simp add: key_known_def)
  let ?s1 = "?s\<lparr>io_events := io_events ?s @ [In8 0x60], keys_state := (keys_state ?s)[unat (key_code s AND 0x7F) :=
      if \<not> bit (key_code s) 7 then KEY_STATE_PRESSED else KEY_STATE_RELEASED]\<rparr>"
  have code: "ucast (device ?s (io_events ?s) 0x60) = key_code s" by (simp add: key_code_def)
  from keyboard_handler_runs[OF q, of regs, unfolded code Let_def if_not_P[OF known] key_text_held] obtain t where
    t: "keyboard_handler regs ?s = Ok () (?s1\<lparr>con := t\<rparr>)" "quiet t"
      "print_text (if sc_to_char ! unat (key_code s AND 0x7F) = NUL then [] else
         sc_to_char ! unat (key_code s AND 0x7F) # held_text (keys_state ?s1)) (con ?s) = Ok () t"
    by blast
  have "interrupt fuel regs s = Ok () ((key_taken s)\<lparr>con := t\<rparr>)"
    using interrupt_reaches_keyboard[OF assms(1,4)] t(1) by (simp add: STI_def key_taken_def)
  moreover have ks: "keys_state ?s1 = keys_state (key_taken s)" by (simp add: key_taken_def)
  have "print_text (key_echo s) (con s) = Ok () t" using t(3) unfolding ks by (simp only: key_echo_def Let_def) simp
  ultimately show ?thesis using that[of t] t(2) by simp
qed

lemma keyboard_interrupt_unknown:
  fixes s :: "'s sys_scheme"
  assumes "irq_handlers s ! 1 = Some Keyboard_handler" "quiet (con s)" "\<not> key_known s" "r_int_no regs = 33"
  shows "interrupt fuel regs s = Undefined OutOfBounds"
proof -
  let ?s = "s\<lparr>io_events := io_events s @ [Out8 0x20 0x20]\<rparr>"
  have q: "quiet (con ?s)" using assms(2) by simp
  have unknown: "92 \<le> unat (key_code s AND 0x7F)" using assms(3) by (simp add: key_known_def)
  have code: "ucast (device ?s (io_events ?s) 0x60) = key_code s" by (simp add: key_code_def)
  from keyboard_handler_runs[OF q, of regs, unfolded code Let_def if_P[OF unknown]]
  show ?thesis using interrupt_reaches_keyboard[OF assms(1,4)] by simp
qed

section \<open>A stretch of a program without jumps\<close>

text \<open>The registers in front of instruction \<open>n\<close>, and what the instruction prints.\<close>

primrec after_move :: "instr \<Rightarrow> registers \<Rightarrow> registers" where
  "after_move (Mov x r) regs = set_reg r x regs"
| "after_move (Push r) regs = regs"
| "after_move (Pop r) regs = regs"
| "after_move (Interrupt n) regs = regs"
| "after_move (Jmp n) regs = regs"

definition regs_at :: "instr list \<Rightarrow> registers \<Rightarrow> nat \<Rightarrow> registers" where
  "regs_at prog regs n = fold after_move (take n prog) regs"

definition printed :: "instr list \<Rightarrow> registers \<Rightarrow> nat \<Rightarrow> string" where
  "printed prog regs n = (case prog ! n of
     Interrupt m \<Rightarrow> (if r_eax (regs_at prog regs n) = 3 then [to_char (uint (r_ebx (regs_at prog regs n)))] else [])
   | _ \<Rightarrow> [])"

text \<open>Only moves, and calls of \<open>wait\<close> and \<open>putchar\<close> with characters that are not control characters of the interpreter.\<close>

definition straight_at :: "instr list \<Rightarrow> registers \<Rightarrow> nat \<Rightarrow> bool" where
  "straight_at prog regs n \<longleftrightarrow> n < length prog \<and> list_all plain (printed prog regs n) \<and> (case prog ! n of
     Mov x r \<Rightarrow> True
   | Interrupt m \<Rightarrow> m = 0x30 \<and> (r_eax (regs_at prog regs n) = 2 \<or> r_eax (regs_at prog regs n) = 3)
   | _ \<Rightarrow> False)"

lemma regs_at_Suc: "n < length prog \<Longrightarrow> regs_at prog regs (Suc n) = after_move (prog ! n) (regs_at prog regs n)"
  by (simp add: regs_at_def take_Suc_conv_app_nth)

lemma print_plain:
  assumes "list_all plain out" "quiet t"
  obtains t' where "print_text out t = Ok () t'" "quiet t'"
  using escapes.put_all_returns[OF plain_modes[OF assms(1)] assms(2)] unfolding print_text_def by metis

text \<open>What \<open>n\<close> instructions from \<open>pc\<close> on print.\<close>

primrec said :: "instr list \<Rightarrow> registers \<Rightarrow> nat \<Rightarrow> nat \<Rightarrow> string" where
  "said prog regs pc 0 = []"
| "said prog regs pc (Suc n) = printed prog regs pc @ said prog regs (Suc pc) n"

lemma straight_step:
  fixes s :: "'s sys_scheme"
  assumes "straight_at prog regs n" "calls_open s" "quiet (con s)"
  obtains t where "user_step at fuel prog (n, regs_at prog regs n) s = Ok (Suc n, regs_at prog regs (Suc n)) (s\<lparr>con := t\<rparr>)"
    "quiet t" "print_text (printed prog regs n) (con s) = Ok () t"
proof -
  have n: "n < length prog" and p: "list_all plain (printed prog regs n)" using assms(1) by (simp_all add: straight_at_def)
  let ?r = "regs_at prog regs n"
  obtain t where t: "print_text (printed prog regs n) (con s) = Ok () t" "quiet t" by (rule print_plain[OF p assms(3)])
  consider x r where "prog ! n = Mov x r" | "prog ! n = Interrupt 0x30" "r_eax ?r = 2" | "prog ! n = Interrupt 0x30" "r_eax ?r = 3"
    using assms(1) by (auto simp: straight_at_def split: instr.splits)
  then have "user_step at fuel prog (n, ?r) s = Ok (Suc n, regs_at prog regs (Suc n)) (s\<lparr>con := t\<rparr>)"
  proof cases
    case 1
    then have "t = con s" using t(1) by (simp add: printed_def print_text_def)
    then show ?thesis using step_mov[OF n 1] 1 by (simp add: regs_at_Suc[OF n])
  next
    case 2
    then have "t = con s" using t(1) by (simp add: printed_def print_text_def)
    then show ?thesis using step_call[OF n 2(1) assms(2), of at fuel ?r] 2 handler_wait[OF assms(2)] by (simp add: regs_at_Suc[OF n])
  next
    case 3
    let ?f = "?r\<lparr>r_int_no := 0x30, r_err_code := 0, r_eip := at (Suc n)\<rparr>"
    have "term_putchar (to_char (uint (r_ebx ?r))) (con s) = Ok () t"
      using t(1) 3 by (auto simp: printed_def print_text_def elim!: before_OkE)
    then have "syscall_handler fuel ?f s = Ok () (s\<lparr>con := t\<rparr>)"
      using assms(2) 3(2) by (simp add: calls_open_def syscall_handler_def SYSCALL_COUNT_def sys_table_nth syscall_putchar_runs)
    then show ?thesis using step_call[OF n 3(1) assms(2), of at fuel ?r] 3 by (simp add: regs_at_Suc[OF n])
  qed
  then show ?thesis using that t by blast
qed

section \<open>Instructions and keys\<close>

datatype event = Instruction | Key

text \<open>The next thing that happens is an instruction of the program, or an interrupt of the keyboard in front of it.\<close>

primrec mixed_run ::
    "(nat \<Rightarrow> u32) \<Rightarrow> nat \<Rightarrow> instr list \<Rightarrow> event list \<Rightarrow> nat \<times> registers \<Rightarrow> ('s sys_scheme, nat \<times> registers) action" where
  "mixed_run at fuel prog [] c = ret c"
| "mixed_run at fuel prog (e # es) c = andthen
     (case e of
        Instruction \<Rightarrow> user_step at fuel prog c
      | Key \<Rightarrow> before (interrupt fuel ((snd c)\<lparr>r_int_no := 33, r_err_code := 0, r_eip := at (fst c)\<rparr>)) (ret c))
     (mixed_run at fuel prog es)"

text \<open>These runs too are runs of the machine.\<close>

lemma moves_mixed_run: "moves fuel (mixed_run at fuel prog es c)"
proof (induction es arbitrary: c)
  case (Cons e es)
  then show ?case by (cases e) (simp_all add: moves_andthen moves_user_step moves_before moves_interrupt moves_ret)
qed (simp add: moves_ret)

abbreviation instructions :: "event list \<Rightarrow> nat" where "instructions es \<equiv> count_list es Instruction"
abbreviation keys :: "event list \<Rightarrow> nat" where "keys es \<equiv> count_list es Key"

definition keys_known :: "nat \<Rightarrow> 's keyboard_scheme \<Rightarrow> bool" where
  "keys_known n s \<longleftrightarrow> (\<forall>k < n. key_known (keys_taken k s))"

lemma keys_known_con [simp]: "keys_known n (s\<lparr>con := t\<rparr>) = keys_known n s"
  by (simp add: keys_known_def)

lemma keys_known_Suc: "keys_known (Suc n) s \<longleftrightarrow> key_known s \<and> keys_known n (key_taken s)"
  by (simp add: keys_known_def All_less_Suc2)

lemma shuffles_prefix: "w \<in> shuffles xs ys \<Longrightarrow> us @ w \<in> shuffles (us @ xs) ys \<and> us @ w \<in> shuffles xs (us @ ys)"
  by (induction us) (simp_all add: Cons_in_shuffles_leftI Cons_in_shuffles_rightI)

lemma print_both: "print_text a t = Ok () u \<Longrightarrow> print_text b u = Ok () v \<Longrightarrow> print_text (a @ b) t = Ok () v"
  by (simp add: print_text_append)

text \<open>What is printed is a shuffle of what the instructions print and what the keys print.\<close>

lemma mixed_run_prints:
  fixes s :: "'s sys_scheme"
  assumes "\<forall>k. pc \<le> k \<and> k < pc + instructions es \<longrightarrow> straight_at prog regs k"
    and "calls_open s" "irq_handlers s ! 1 = Some Keyboard_handler" "quiet (con s)" "keys_known (keys es) s"
  shows "\<exists>out t. mixed_run at fuel prog es (pc, regs_at prog regs pc) s
      = Ok (pc + instructions es, regs_at prog regs (pc + instructions es)) ((keys_taken (keys es) s)\<lparr>con := t\<rparr>)
    \<and> quiet t \<and> print_text out (con s) = Ok () t
    \<and> out \<in> shuffles (said prog regs pc (instructions es)) (typed (keys es) s)"
  using assms
proof (induction es arbitrary: pc s)
  case Nil
  then show ?case by (intro exI[of _ "[]"] exI[of _ "con s"]) (simp add: print_text_def)
next
  case (Cons e es)
  show ?case
  proof (cases e)
    case Instruction
    then have st: "straight_at prog regs pc" and rest: "\<forall>k. Suc pc \<le> k \<and> k < Suc pc + instructions es \<longrightarrow> straight_at prog regs k"
      using Cons.prems(1) by simp_all
    obtain t where t: "user_step at fuel prog (pc, regs_at prog regs pc) s = Ok (Suc pc, regs_at prog regs (Suc pc)) (s\<lparr>con := t\<rparr>)"
      "quiet t" "print_text (printed prog regs pc) (con s) = Ok () t" by (rule straight_step[OF st Cons.prems(2,4)])
    have "keys_known (keys es) (s\<lparr>con := t\<rparr>)" "quiet (con (s\<lparr>con := t\<rparr>))" "calls_open (s\<lparr>con := t\<rparr>)"
      "irq_handlers (s\<lparr>con := t\<rparr>) ! 1 = Some Keyboard_handler" using Cons.prems t(2) Instruction by simp_all
    from Cons.IH[OF rest this(3,4,2,1)] obtain out u where u:
      "mixed_run at fuel prog es (Suc pc, regs_at prog regs (Suc pc)) (s\<lparr>con := t\<rparr>)
        = Ok (Suc pc + instructions es, regs_at prog regs (Suc pc + instructions es)) ((keys_taken (keys es) s)\<lparr>con := u\<rparr>)"
      "quiet u" "print_text out t = Ok () u"
      "out \<in> shuffles (said prog regs (Suc pc) (instructions es)) (typed (keys es) s)" by auto
    show ?thesis
      using t(1) u shuffles_prefix[OF u(4), of "printed prog regs pc"] print_both[OF t(3) u(3)] Instruction
      by (intro exI[of _ "printed prog regs pc @ out"] exI[of _ u]) simp
  next
    case Key
    let ?f = "(regs_at prog regs pc)\<lparr>r_int_no := 33, r_err_code := 0, r_eip := at pc\<rparr>"
    have known: "key_known s" "keys_known (keys es) (key_taken s)" using Cons.prems(5) Key by (simp_all add: keys_known_Suc)
    have n: "r_int_no ?f = 33" by simp
    obtain t where t: "interrupt fuel ?f s = Ok () ((key_taken s)\<lparr>con := t\<rparr>)" "quiet t" "print_text (key_echo s) (con s) = Ok () t"
      by (rule keyboard_interrupt[OF Cons.prems(3,4) known(1) n])
    let ?s = "(key_taken s)\<lparr>con := t\<rparr>"
    have s: "calls_open ?s" "irq_handlers ?s ! 1 = Some Keyboard_handler" "quiet (con ?s)" "keys_known (keys es) ?s"
      using Cons.prems(2,3) t(2) known(2) by simp_all
    have rest: "\<forall>k. pc \<le> k \<and> k < pc + instructions es \<longrightarrow> straight_at prog regs k" using Cons.prems(1) Key by simp
    from Cons.IH[OF rest s] obtain out u where u:
      "mixed_run at fuel prog es (pc, regs_at prog regs pc) ?s
        = Ok (pc + instructions es, regs_at prog regs (pc + instructions es)) ((keys_taken (keys es) (key_taken s))\<lparr>con := u\<rparr>)"
      "quiet u" "print_text out t = Ok () u"
      "out \<in> shuffles (said prog regs pc (instructions es)) (typed (keys es) (key_taken s))" by auto
    show ?thesis
      using t(1) u shuffles_prefix[OF u(4), of "key_echo s"] print_both[OF t(3) u(3)] Key
      by (intro exI[of _ "key_echo s @ out"] exI[of _ u]) simp
  qed
qed

text \<open>The first key with another code ends the run in undefined behaviour, wherever it is pressed.\<close>

lemma mixed_run_breaks:
  fixes s :: "'s sys_scheme"
  assumes "\<forall>k. pc \<le> k \<and> k < pc + instructions es \<longrightarrow> straight_at prog regs k"
    and "calls_open s" "irq_handlers s ! 1 = Some Keyboard_handler" "quiet (con s)" "\<not> keys_known (keys es) s"
  shows "mixed_run at fuel prog es (pc, regs_at prog regs pc) s = Undefined OutOfBounds"
  using assms
proof (induction es arbitrary: pc s)
  case Nil
  then show ?case by (simp add: keys_known_def)
next
  case (Cons e es)
  show ?case
  proof (cases e)
    case Instruction
    then have st: "straight_at prog regs pc" and rest: "\<forall>k. Suc pc \<le> k \<and> k < Suc pc + instructions es \<longrightarrow> straight_at prog regs k"
      using Cons.prems(1) by simp_all
    obtain t where t: "user_step at fuel prog (pc, regs_at prog regs pc) s = Ok (Suc pc, regs_at prog regs (Suc pc)) (s\<lparr>con := t\<rparr>)"
      "quiet t" by (rule straight_step[OF st Cons.prems(2,4)])
    have s: "calls_open (s\<lparr>con := t\<rparr>)" "irq_handlers (s\<lparr>con := t\<rparr>) ! 1 = Some Keyboard_handler" "quiet (con (s\<lparr>con := t\<rparr>))"
      "\<not> keys_known (keys es) (s\<lparr>con := t\<rparr>)" using Cons.prems t(2) Instruction by simp_all
    show ?thesis using t(1) Cons.IH[OF rest s] Instruction by simp
  next
    case Key
    let ?f = "(regs_at prog regs pc)\<lparr>r_int_no := 33, r_err_code := 0, r_eip := at pc\<rparr>"
    have n: "r_int_no ?f = 33" by simp
    show ?thesis
    proof (cases "key_known s")
      case False
      show ?thesis using keyboard_interrupt_unknown[OF Cons.prems(3,4) False n] Key by simp
    next
      case True
      obtain t where t: "interrupt fuel ?f s = Ok () ((key_taken s)\<lparr>con := t\<rparr>)" "quiet t"
        by (rule keyboard_interrupt[OF Cons.prems(3,4) True n])
      let ?s = "(key_taken s)\<lparr>con := t\<rparr>"
      have s: "calls_open ?s" "irq_handlers ?s ! 1 = Some Keyboard_handler" "quiet (con ?s)" "\<not> keys_known (keys es) ?s"
        using Cons.prems(2,3,5) t(2) True Key by (simp_all add: keys_known_Suc)
      have rest: "\<forall>k. pc \<le> k \<and> k < pc + instructions es \<longrightarrow> straight_at prog regs k" using Cons.prems(1) Key by simp
      show ?thesis using t(1) Cons.IH[OF rest s] Key by simp
    qed
  qed
qed

lemma said_append: "said prog regs pc (m + n) = said prog regs pc m @ said prog regs (pc + m) n"
  by (induction m arbitrary: pc) simp_all

text \<open>Every stretch of \<open>putchar\<close> calls is straight and prints its text.\<close>

lemma putchars_say:
  "prog = pre @ putchars cs @ post \<Longrightarrow> pc = length pre \<Longrightarrow> r_eax (regs_at prog regs pc) = 3 \<Longrightarrow> list_all plain cs \<Longrightarrow>
   said prog regs pc (2 * length cs) = cs \<and> r_eax (regs_at prog regs (pc + 2 * length cs)) = 3
   \<and> (\<forall>k. pc \<le> k \<and> k < pc + 2 * length cs \<longrightarrow> straight_at prog regs k)"
proof (induction cs arbitrary: pre pc)
  case (Cons c cs)
  have pos: "pc < length prog" "Suc pc < length prog" "prog ! pc = Mov (of_char c) EBX" "prog ! Suc pc = Interrupt 0x30"
    using Cons.prems(1,2) by (simp_all add: putchars_def nth_append)
  have r1: "regs_at prog regs (Suc pc) = (regs_at prog regs pc)\<lparr>r_ebx := of_char c\<rparr>" by (simp add: regs_at_Suc[OF pos(1)] pos(3))
  have r2: "regs_at prog regs (Suc (Suc pc)) = regs_at prog regs (Suc pc)" by (simp add: regs_at_Suc[OF pos(2)] pos(4))
  have p: "printed prog regs pc = []" "printed prog regs (Suc pc) = [c]"
    using Cons.prems(3) by (simp_all add: printed_def pos(3,4) r1 char_arg)
  have s: "straight_at prog regs pc" "straight_at prog regs (Suc pc)"
    using Cons.prems(3,4) by (simp_all add: straight_at_def pos p r1)
  have "said prog regs (Suc (Suc pc)) (2 * length cs) = cs \<and> r_eax (regs_at prog regs (Suc (Suc pc) + 2 * length cs)) = 3
      \<and> (\<forall>k. Suc (Suc pc) \<le> k \<and> k < Suc (Suc pc) + 2 * length cs \<longrightarrow> straight_at prog regs k)"
    by (rule Cons.IH[of "pre @ [Mov (of_char c) EBX, Interrupt 0x30]"])
      (use Cons.prems r1 r2 in \<open>simp_all add: putchars_def\<close>)
  moreover have "k = pc \<or> k = Suc pc \<or> Suc (Suc pc) \<le> k" if "pc \<le> k" for k using that by linarith
  ultimately show ?case using p s by (auto simp: less_Suc_eq_le)
qed auto

lemma process_3_straight:
  shows "said process_3_program regs 0 31 = ''Hello, world\<newline>''" "k < 31 \<Longrightarrow> straight_at process_3_program regs k"
    "r_eax (regs_at process_3_program regs 31) = 1"
proof -
  let ?p = process_3_program
  have len: "length ?p = 32" by (simp add: process_3_program_def)
  have nth: "?p ! 0 = Mov 3 EAX" "?p ! 27 = Mov 2 EAX" "?p ! 28 = Mov 10 EBX" "?p ! 29 = Interrupt 0x30" "?p ! 30 = Mov 1 EAX"
    by (simp_all add: process_3_program_def)
  have r0: "r_eax (regs_at ?p regs 1) = 3" using regs_at_Suc[of 0 ?p regs] nth(1) len by simp
  have plain: "list_all plain ''Hello, world\<newline>''" by (simp add: plain_def)
  have l: "2 * length ''Hello, world\<newline>'' = 26" "1 + 2 * length ''Hello, world\<newline>'' = 27" by simp_all
  have one: "1 = length [Mov 3 EAX]" by simp
  note mid = putchars_say[OF process_3_parts one r0 plain, unfolded l]
  have r: "r_eax (regs_at ?p regs 28) = 2" "r_eax (regs_at ?p regs 29) = 2" "r_eax (regs_at ?p regs 30) = 2"
      "r_eax (regs_at ?p regs 31) = 1"
    using regs_at_Suc[of 27 ?p regs] regs_at_Suc[of 28 ?p regs] regs_at_Suc[of 29 ?p regs] regs_at_Suc[of 30 ?p regs] nth len by simp_all
  then show "r_eax (regs_at ?p regs 31) = 1" by simp
  have pr: "printed ?p regs 0 = []" "printed ?p regs 27 = []" "printed ?p regs 28 = []" "printed ?p regs 29 = []" "printed ?p regs 30 = []"
    using nth r by (simp_all add: printed_def)
  have "said ?p regs 0 (1 + (26 + (1 + (1 + (1 + 1))))) = ''Hello, world\<newline>''"
    unfolding said_append using mid pr by simp
  then show "said ?p regs 0 31 = ''Hello, world\<newline>''" by simp
  show "straight_at ?p regs k" if "k < 31"
  proof -
    have "k = 0 \<or> 1 \<le> k \<and> k < 27 \<or> k = 27 \<or> k = 28 \<or> k = 29 \<or> k = 30" using that by presburger
    then show ?thesis
      by (elim disjE) (use mid pr nth r len in \<open>simp_all add: straight_at_def\<close>)
  qed
qed

lemma mixed_run_append:
  "mixed_run at fuel prog (es @ fs) c s = andthen (mixed_run at fuel prog es c) (mixed_run at fuel prog fs) s"
  by (induction es arbitrary: c s) (simp_all add: andthen_def split: outcome.splits)

section \<open>Properties\<close>

lemma kernel_up_key: "kernel_up img s0 ds s \<Longrightarrow> kernel_up img s0 ds (key_taken s)"
  by (simp add: kernel_up_def key_taken_def scheduled_def)

lemma kernel_up_keys: "kernel_up img s0 ds s \<Longrightarrow> kernel_up img s0 ds (keys_taken n s)"
  by (induction n arbitrary: s) (simp_all add: kernel_up_key)

lemma typing_disturbs_nothing:
  assumes "kernel_up img s ds s1" "2 < fuel" "instructions evs = 31" "keys_known (keys evs) s1"
  shows "\<exists>out t s2. print_text out (con s1) = Ok () t \<and> out \<in> shuffles ''Hello, world\<newline>'' (typed (keys evs) s1)
    \<and> mixed_run at fuel process_3_program evs (0, regs) s1
        = Ok (31, regs_at process_3_program regs 31) ((keys_taken (keys evs) s1)\<lparr>con := t\<rparr>)
    \<and> mixed_run at fuel process_3_program (evs @ [Instruction]) (0, regs) s1 = Exit (Iret 0 0x1B 0x200 0xBFFFFFFC 0x23) s2
    \<and> scheduled [0xD0001064, 0xD0000000] s2"
proof -
  let ?p = process_3_program
  have s1: "calls_open s1" "irq_handlers s1 ! 1 = Some Keyboard_handler" "quiet (con s1)"
    using kernel_up_open[OF assms(1)] assms(1) by (simp_all add: kernel_up_def)
  have st: "\<forall>k. 0 \<le> k \<and> k < 0 + instructions evs \<longrightarrow> straight_at ?p regs k" using process_3_straight(2) assms(3) by simp
  have r0: "regs_at ?p regs 0 = regs" by (simp add: regs_at_def)
  obtain out t where t: "mixed_run at fuel ?p evs (0, regs) s1 = Ok (31, regs_at ?p regs 31) ((keys_taken (keys evs) s1)\<lparr>con := t\<rparr>)"
    "quiet t" "print_text out (con s1) = Ok () t" "out \<in> shuffles ''Hello, world\<newline>'' (typed (keys evs) s1)"
    using mixed_run_prints[OF st s1 assms(4), of at fuel] by (auto simp: r0 assms(3) process_3_straight(1))
  let ?s = "(keys_taken (keys evs) s1)\<lparr>con := t\<rparr>"
  have up: "kernel_up img s ds (keys_taken (keys evs) s1)" by (rule kernel_up_keys[OF assms(1)])
  obtain s2 where s2: "proc_exit_current_process fuel ?s = Exit (Iret 0 0x1B 0x200 0xBFFFFFFC 0x23) s2"
    "scheduled [0xD0001064, 0xD0000000] s2" by (rule kernel_up_exit[OF up assms(2) t(2)])
  have "calls_open ?s" using kernel_up_open[OF up] by simp
  from process_3_exits[OF this process_3_straight(3), of at fuel regs] s2(1)
  have "user_step at fuel ?p (31, regs_at ?p regs 31) ?s = Exit (Iret 0 0x1B 0x200 0xBFFFFFFC 0x23) s2" by simp
  then have "mixed_run at fuel ?p (evs @ [Instruction]) (0, regs) s1 = Exit (Iret 0 0x1B 0x200 0xBFFFFFFC 0x23) s2"
    using t(1) by (simp add: mixed_run_append)
  then show ?thesis using t(1,3,4) s2(2) by blast
qed

lemma typing_breaks:
  assumes "kernel_up img s ds s1" "instructions evs = 31" "\<not> keys_known (keys evs) s1"
  shows "mixed_run at fuel process_3_program evs (0, regs) s1 = Undefined OutOfBounds"
proof -
  let ?p = process_3_program
  have s1: "calls_open s1" "irq_handlers s1 ! 1 = Some Keyboard_handler" "quiet (con s1)"
    using kernel_up_open[OF assms(1)] assms(1) by (simp_all add: kernel_up_def)
  have st: "\<forall>k. 0 \<le> k \<and> k < 0 + instructions evs \<longrightarrow> straight_at ?p regs k" using process_3_straight(2) assms(2) by simp
  have r0: "regs_at ?p regs 0 = regs" by (simp add: regs_at_def)
  show ?thesis using mixed_run_breaks[OF st s1 assms(3), of at fuel] by (simp only: r0)
qed

text \<open>C3: typing does not disturb the first process, as long as the keyboard answers with scan codes of the
  handler's table. In the state in which \<open>kernel_main\<close> ends, let keys be pressed and released at any
  time, between any two instructions of process 3. If each code but its bit 7 is below 92, the process comes to its
  last instruction with the registers that its own instructions leave; on the terminal
  stands, as if printed at once, its text shuffled with the echoes of the keys in their order, and
  apart from the terminal the state is that of the keys alone. Its exit then enters process 2. If any code is
  another, as the prefix 0xE0 of an extended key, the run ends in an access behind the table.\<close>

theorem hello_world_while_typing:
  assumes "kernel_up img s ds s1" "2 < fuel" "instructions evs = 31"
  shows "if \<forall>k < keys evs. unat (key_code (keys_taken k s1) AND 0x7F) < 92
    then \<exists>out t s2. print_text out (con s1) = Ok () t \<and> out \<in> shuffles ''Hello, world\<newline>'' (typed (keys evs) s1)
      \<and> mixed_run at fuel process_3_program evs (0, regs) s1
          = Ok (31, regs_at process_3_program regs 31) ((keys_taken (keys evs) s1)\<lparr>con := t\<rparr>)
      \<and> mixed_run at fuel process_3_program (evs @ [Instruction]) (0, regs) s1 = Exit (Iret 0 0x1B 0x200 0xBFFFFFFC 0x23) s2
      \<and> scheduled [0xD0001064, 0xD0000000] s2
    else mixed_run at fuel process_3_program evs (0, regs) s1 = Undefined OutOfBounds"
  using typing_disturbs_nothing[OF assms] typing_breaks[OF assms(1,3)]
  unfolding keys_known_def[symmetric] key_known_def[symmetric] by auto

text \<open>The letter \<open>x\<close> is pressed in front of the third instruction; or a cursor key, which sends 0xE0 first, in
  front of the last.\<close>

theorem hello_world_while_typing_witness:
  "\<exists>ds (s1 :: sys) out t s2. kernel_up sample_image boot_state ds s1 \<and> key_echo s1 = ''x''
    \<and> print_text out (con s1) = Ok () t \<and> out \<in> shuffles ''Hello, world\<newline>'' ''x''
    \<and> mixed_run (\<lambda>n. of_nat n) 3 process_3_program ([Instruction, Instruction, Key] @ replicate 29 Instruction @ [Instruction])
        (0, initial_registers) s1 = Exit (Iret 0 0x1B 0x200 0xBFFFFFFC 0x23) s2
    \<and> mixed_run (\<lambda>n. of_nat n) 3 process_3_program (replicate 30 Instruction @ [Key, Instruction]) (0, initial_registers)
        (s1\<lparr>device := \<lambda>h p. 0xE0\<rparr>) = Undefined OutOfBounds"
proof -
  obtain ds s f where s: "kernel_up sample_image boot_state ds s" "user_page (ram s) (entry_frame (cr3 s)) 0xBFFFF000 = Some (f, True)"
    by (rule sample_up)
  define s1 where "s1 = s\<lparr>device := \<lambda>h p. 0x2D, keys_state := replicate 256 KEY_STATE_RELEASED\<rparr>"
  let ?e = "[Instruction, Instruction, Key] @ replicate 29 Instruction"
  have up: "kernel_up sample_image boot_state ds s1" using s(1) by (simp add: s1_def kernel_up_def scheduled_def)
  have code: "key_code s1 = 0x2D" by (simp add: key_code_def s1_def)
  have x: "sc_to_char ! 45 = CHR ''x''" by (simp add: sc_to_char_def)
  have echo: "key_echo s1 = ''x''"
    by (simp add: key_echo_def code x held_text_def key_taken_def NUL_def bit_numeral_rec) (simp add: s1_def)
  have rep: "count_list (replicate n Instruction) Instruction = n" "count_list (replicate n Instruction) Key = 0" for n
    by (induction n) simp_all
  have e: "instructions ?e = 31" "keys ?e = 1" by (simp_all add: rep)
  have known: "\<forall>k < keys ?e. unat (key_code (keys_taken k s1) AND 0x7F) < 92" unfolding e by (simp add: code)
  have ty: "typed (keys ?e) s1 = ''x''" unfolding e by (simp add: echo)
  have two: "2 < (3 :: nat)" by simp
  from hello_world_while_typing[OF up two e(1), of "\<lambda>n. of_nat n" initial_registers, unfolded if_P[OF known] ty append_assoc] obtain out t s2 where
    "print_text out (con s1) = Ok () t" "out \<in> shuffles ''Hello, world\<newline>'' ''x''"
    "mixed_run (\<lambda>n. of_nat n) 3 process_3_program ([Instruction, Instruction, Key] @ replicate 29 Instruction @ [Instruction])
        (0, initial_registers) s1 = Exit (Iret 0 0x1B 0x200 0xBFFFFFFC 0x23) s2" by blast
  moreover have "mixed_run (\<lambda>n. of_nat n) 3 process_3_program (replicate 30 Instruction @ [Key, Instruction]) (0, initial_registers)
      (s1\<lparr>device := \<lambda>h p. 0xE0\<rparr>) = Undefined OutOfBounds"
  proof -
    let ?k = "replicate 30 Instruction @ [Key, Instruction]" and ?s = "s1\<lparr>device := \<lambda>h p. 0xE0\<rparr>"
    have up': "kernel_up sample_image boot_state ds ?s" using up by (simp add: kernel_up_def scheduled_def)
    have k: "instructions ?k = 31" "keys ?k = 1" by (simp_all add: rep)
    have "key_code ?s = 0xE0" by (simp add: key_code_def)
    then have "\<not> (\<forall>i < keys ?k. unat (key_code (keys_taken i ?s) AND 0x7F) < 92)" unfolding k by simp
    from hello_world_while_typing[OF up' two k(1), of "\<lambda>n. of_nat n" initial_registers, unfolded if_not_P[OF this]]
    show ?thesis .
  qed
  ultimately show ?thesis using up echo by blast
qed

end
