(* ===== verification/Boot.thy ===== *)
theory Boot
  imports Programs Segments
begin

unbundle bit_operations_syntax

text \<open>
  \<open>kernel/src/boot/boot.S\<close>, the first code of the kernel: the Multiboot header by which the loader finds it, the page directory
  that is part of the image, and the instructions from the loader's jump to the call of \<open>kernel_main\<close>. Every instruction
  is fetched through the translation of the moment, so that turning on paging in the middle of the code and the jump into the
  higher half are part of what is shown. The addresses that assembler and linker choose are the arguments
  \<open>img\<close> and \<open>lay\<close>; \<open>_init\<close> is that of \<open>crti.S\<close> and \<open>crtn.S\<close> around a body that the compiler supplies.
\<close>

section \<open>The Multiboot header\<close>

definition MULTIBOOT_HEADER_MAGIC :: u32 where "MULTIBOOT_HEADER_MAGIC = 0x1BADB002"
definition MULTIBOOT_PAGE_ALIGN :: u32 where "MULTIBOOT_PAGE_ALIGN = 0x00000001"
definition MULTIBOOT_MEMORY_INFO :: u32 where "MULTIBOOT_MEMORY_INFO = 0x00000002"
definition MULTIBOOT_VIDEO_MODE :: u32 where "MULTIBOOT_VIDEO_MODE = 0x00000004"
definition MULTIBOOT_AOUT_KLUDGE :: u32 where "MULTIBOOT_AOUT_KLUDGE = 0x00010000"

lemmas header_bits = MULTIBOOT_HEADER_MAGIC_def MULTIBOOT_PAGE_ALIGN_def MULTIBOOT_MEMORY_INFO_def MULTIBOOT_VIDEO_MODE_def
  MULTIBOOT_AOUT_KLUDGE_def

record multiboot_header =
  mh_magic :: u32
  mh_flags :: u32
  mh_checksum :: u32
  mh_header_addr :: u32
  mh_load_addr :: u32
  mh_load_end_addr :: u32
  mh_bss_end_addr :: u32
  mh_entry_addr :: u32
  mh_mode_type :: u32
  mh_width :: u32
  mh_height :: u32
  mh_depth :: u32

definition MAGIC :: u32 where "MAGIC = 0x1BADB002"
definition FLAGS :: u32 where "FLAGS = push_bit 0 1 OR push_bit 1 1"
definition CHECKSUM :: u32 where "CHECKSUM = - (MAGIC + FLAGS)"
definition KERNEL_VIRT_OFFSET :: u32 where "KERNEL_VIRT_OFFSET = 0xC0000000"
definition KERNEL_PAGE_NUMBER :: nat where "KERNEL_PAGE_NUMBER = unat (drop_bit 22 KERNEL_VIRT_OFFSET)"

definition boot_header :: multiboot_header where
  "boot_header = \<lparr>mh_magic = MAGIC, mh_flags = FLAGS, mh_checksum = CHECKSUM, mh_header_addr = 0, mh_load_addr = 0,
     mh_load_end_addr = 0, mh_bss_end_addr = 0, mh_entry_addr = 0, mh_mode_type = 0, mh_width = 0, mh_height = 0, mh_depth = 0\<rparr>"

text \<open>What a Multiboot loader asks of a header, and what it reads from its flags.\<close>

definition header_valid :: "multiboot_header \<Rightarrow> bool" where
  "header_valid h \<longleftrightarrow> mh_magic h = MULTIBOOT_HEADER_MAGIC \<and> mh_magic h + mh_flags h + mh_checksum h = 0"

lemma boot_header_valid:
  "header_valid boot_header" "mh_flags boot_header = MULTIBOOT_PAGE_ALIGN OR MULTIBOOT_MEMORY_INFO"
  by (simp_all add: header_valid_def boot_header_def MAGIC_def FLAGS_def CHECKSUM_def header_bits)

section \<open>The page directory of the image\<close>

definition boot_directory :: "u32 list" where
  "boot_directory = [0x00000083] @ replicate (KERNEL_PAGE_NUMBER - 1) 0 @ [0x00000083] @ replicate (1024 - KERNEL_PAGE_NUMBER - 1) 0"

lemma boot_directory_nth: "boot_directory ! unat (i :: 10 word) = (if i = 0 \<or> i = 768 then 0x83 else 0)"
proof -
  have p: "KERNEL_PAGE_NUMBER = 768" by (simp add: KERNEL_PAGE_NUMBER_def KERNEL_VIRT_OFFSET_def)
  have "i = 0 \<longleftrightarrow> unat i = 0" "i = 768 \<longleftrightarrow> unat i = 768" "unat i < 1024"
    using unsigned_less[of i, where 'a = nat] by (simp_all add: word_unat_eq_iff)
  then show ?thesis unfolding boot_directory_def p by (auto simp: nth_append nth_Cons')
qed

section \<open>The processor\<close>

record boot_cpu =
  b_eax :: u32
  b_ebx :: u32
  b_ecx :: u32
  b_esp :: u32
  b_ebp :: u32
  b_eip :: u32
  b_cr0 :: u32
  b_cr3 :: u32
  b_cr4 :: u32
  b_if :: bool
  b_mem :: memory

datatype boot_reg = Eax | Ebx | Ecx | Esp | Ebp
datatype control_reg = Cr0 | Cr3 | Cr4

primrec get_b :: "boot_reg \<Rightarrow> boot_cpu \<Rightarrow> u32" where
  "get_b Eax = b_eax" | "get_b Ebx = b_ebx" | "get_b Ecx = b_ecx" | "get_b Esp = b_esp" | "get_b Ebp = b_ebp"

primrec set_b :: "boot_reg \<Rightarrow> u32 \<Rightarrow> boot_cpu \<Rightarrow> boot_cpu" where
  "set_b Eax x c = c\<lparr>b_eax := x\<rparr>" | "set_b Ebx x c = c\<lparr>b_ebx := x\<rparr>" | "set_b Ecx x c = c\<lparr>b_ecx := x\<rparr>"
| "set_b Esp x c = c\<lparr>b_esp := x\<rparr>" | "set_b Ebp x c = c\<lparr>b_ebp := x\<rparr>"

primrec get_cr :: "control_reg \<Rightarrow> boot_cpu \<Rightarrow> u32" where
  "get_cr Cr0 = b_cr0" | "get_cr Cr3 = b_cr3" | "get_cr Cr4 = b_cr4"

primrec set_cr :: "control_reg \<Rightarrow> u32 \<Rightarrow> boot_cpu \<Rightarrow> boot_cpu" where
  "set_cr Cr0 x c = c\<lparr>b_cr0 := x\<rparr>" | "set_cr Cr3 x c = c\<lparr>b_cr3 := x\<rparr>" | "set_cr Cr4 x c = c\<lparr>b_cr4 := x\<rparr>"

text \<open>
  The frame behind an address: its own while paging is off (bit 31 of \<open>cr0\<close>), else the one of the tables, in which an entry is
  that of a large page only if those are enabled (bit 4 of \<open>cr4\<close>).
\<close>

definition boot_frame :: "boot_cpu \<Rightarrow> u32 \<Rightarrow> frame option" where
  "boot_frame c v =
     (if \<not> bit (b_cr0 c) 31 then Some (entry_frame v)
      else let pde = b_mem c (entry_frame (b_cr3 c)) (dir_of v)
           in if \<not> entry_present pde then None
              else if entry_large pde \<and> bit (b_cr4 c) 4 then Some (ucast (drop_bit 22 pde) * 1024 + ucast (TABLE_INDEX v))
              else let pte = b_mem c (entry_frame pde) (table_of v)
                   in if entry_present pte then Some (entry_frame pte) else None)"

definition boot_push :: "u32 \<Rightarrow> boot_cpu \<Rightarrow> boot_cpu option" where
  "boot_push x c =
     (case boot_frame c (b_esp c - 4) of
        None \<Rightarrow> None
      | Some f \<Rightarrow> Some (c\<lparr>b_esp := b_esp c - 4, b_mem := (b_mem c)(f := (b_mem c f)(word_of (b_esp c - 4) := x))\<rparr>))"

definition boot_pop :: "boot_cpu \<Rightarrow> (u32 \<times> boot_cpu) option" where
  "boot_pop c =
     (case boot_frame c (b_esp c) of
        None \<Rightarrow> None
      | Some f \<Rightarrow> Some (b_mem c f (word_of (b_esp c)), c\<lparr>b_esp := b_esp c + 4\<rparr>))"

section \<open>The code\<close>

datatype boot_fn = Init | Kernel_main | Fini

datatype boot_instr =
    Mov_imm u32 boot_reg | Mov_to_cr boot_reg control_reg | Mov_from_cr control_reg boot_reg | Or_imm u32 boot_reg
  | Add_imm u32 boot_reg | Push_reg boot_reg | Jmp_reg boot_reg | Call_fn boot_fn | Boot_cli | Boot_hlt | Jmp_back nat

text \<open>\<open>text_at n\<close> is the linked address of the instruction \<open>n\<close>, the one behind the last included.\<close>

record boot_layout =
  text_at :: "nat \<Rightarrow> u32"
  stack_top :: u32

definition boot_code :: "image \<Rightarrow> boot_layout \<Rightarrow> boot_instr list" where
  "boot_code img lay =
    [Mov_imm (kernel_directory_address img - KERNEL_VIRT_OFFSET) Ecx, Mov_to_cr Ecx Cr3,
     Mov_from_cr Cr4 Ecx, Or_imm 0x00000010 Ecx, Mov_to_cr Ecx Cr4,
     Mov_from_cr Cr0 Ecx, Or_imm 0x80000000 Ecx, Mov_to_cr Ecx Cr0,
     Mov_imm (text_at lay 10) Ecx, Jmp_reg Ecx,
     Mov_imm (stack_top lay) Esp, Mov_imm 0 Ebp,
     Push_reg Eax, Add_imm KERNEL_VIRT_OFFSET Ebx, Push_reg Ebx,
     Call_fn Init, Boot_cli, Call_fn Kernel_main,
     Add_imm 12 Esp, Call_fn Fini, Boot_cli, Boot_hlt, Jmp_back 21]"

text \<open>\<open>_init\<close>, and \<open>_fini\<close> like it: the ends are those of \<open>crti.S\<close> and \<open>crtn.S\<close>, \<open>body\<close> is what the compiler puts between them.\<close>

definition init_run :: "(boot_cpu \<Rightarrow> boot_cpu) \<Rightarrow> boot_cpu \<Rightarrow> boot_cpu option" where
  "init_run body c =
     (case boot_push (b_ebp c) c of
        None \<Rightarrow> None
      | Some d \<Rightarrow> (case boot_pop (body (d\<lparr>b_ebp := b_esp d\<rparr>)) of
          None \<Rightarrow> None
        | Some (ebp, e) \<Rightarrow> (case boot_pop (e\<lparr>b_ebp := ebp\<rparr>) of
            None \<Rightarrow> None
          | Some (eip, f) \<Rightarrow> Some (f\<lparr>b_eip := eip\<rparr>))))"

text \<open>The bytes from \<open>eip\<close> on are those that the linker placed for the instruction \<open>n\<close>.\<close>

definition fetched :: "boot_layout \<Rightarrow> nat \<Rightarrow> boot_cpu \<Rightarrow> bool" where
  "fetched lay n c \<longleftrightarrow> (\<forall>k < unat (text_at lay (n + 1) - text_at lay n).
     boot_frame c (b_eip c + of_nat k) = Some (entry_frame (V2P (text_at lay n + of_nat k)))
     \<and> PAGE_OFFSET (b_eip c + of_nat k) = PAGE_OFFSET (V2P (text_at lay n + of_nat k)))"

definition behind :: "boot_layout \<Rightarrow> nat \<Rightarrow> boot_cpu \<Rightarrow> boot_cpu" where
  "behind lay n c = c\<lparr>b_eip := b_eip c + (text_at lay (n + 1) - text_at lay n)\<rparr>"

datatype boot_result = Running nat boot_cpu | Enters boot_fn boot_cpu | Faulted

definition boot_step :: "image \<Rightarrow> boot_layout \<Rightarrow> (boot_cpu \<Rightarrow> boot_cpu) \<Rightarrow> nat \<Rightarrow> boot_cpu \<Rightarrow> boot_result" where
  "boot_step img lay body n c =
     (if n < length (boot_code img lay) \<and> fetched lay n c then
        (let c1 = behind lay n c in case boot_code img lay ! n of
           Mov_imm x r \<Rightarrow> Running (n + 1) (set_b r x c1)
         | Mov_to_cr r cr \<Rightarrow> Running (n + 1) (set_cr cr (get_b r c) c1)
         | Mov_from_cr cr r \<Rightarrow> Running (n + 1) (set_b r (get_cr cr c) c1)
         | Or_imm x r \<Rightarrow> Running (n + 1) (set_b r (get_b r c OR x) c1)
         | Add_imm x r \<Rightarrow> Running (n + 1) (set_b r (get_b r c + x) c1)
         | Push_reg r \<Rightarrow> (case boot_push (get_b r c) c1 of None \<Rightarrow> Faulted | Some d \<Rightarrow> Running (n + 1) d)
         | Jmp_reg r \<Rightarrow> (case find (\<lambda>k. text_at lay k = get_b r c) [0..<length (boot_code img lay)] of
             None \<Rightarrow> Faulted | Some k \<Rightarrow> Running k (c\<lparr>b_eip := get_b r c\<rparr>))
         | Call_fn f \<Rightarrow> (case boot_push (b_eip c1) c1 of
             None \<Rightarrow> Faulted
           | Some d \<Rightarrow> if f = Init then (case init_run body d of None \<Rightarrow> Faulted | Some e \<Rightarrow> Running (n + 1) e) else Enters f d)
         | Boot_cli \<Rightarrow> Running (n + 1) (c1\<lparr>b_if := False\<rparr>)
         | Boot_hlt \<Rightarrow> Running (n + 1) c1
         | Jmp_back k \<Rightarrow> Running k (c\<lparr>b_eip := b_eip c - (text_at lay n - text_at lay k)\<rparr>))
      else Faulted)"

primrec boot_run :: "image \<Rightarrow> boot_layout \<Rightarrow> (boot_cpu \<Rightarrow> boot_cpu) \<Rightarrow> nat \<Rightarrow> nat \<Rightarrow> boot_cpu \<Rightarrow> boot_result" where
  "boot_run img lay body 0 n c = Running n c"
| "boot_run img lay body (Suc k) n c = (case boot_step img lay body n c of
     Running m d \<Rightarrow> boot_run img lay body k m d | r \<Rightarrow> r)"

section \<open>What it needs\<close>

text \<open>Words of physical memory by their addresses, and changes that stay in a range of them.\<close>

definition word_address :: "frame \<Rightarrow> 10 word \<Rightarrow> nat" where
  "word_address f w = unat f * 4096 + 4 * unat w"

definition same_outside :: "nat \<Rightarrow> nat \<Rightarrow> memory \<Rightarrow> memory \<Rightarrow> bool" where
  "same_outside lo hi m m' \<longleftrightarrow> (\<forall>f w. \<not> (lo \<le> word_address f w \<and> word_address f w < hi) \<longrightarrow> m' f w = m f w)"

definition stack_bottom :: "boot_layout \<Rightarrow> nat" where
  "stack_bottom lay = unat (stack_top lay) - 0xC0000000 - 16384"

text \<open>The code is in the image, in order; the boot stack too, with words at word addresses, and apart from the directory and the programs.\<close>

definition layout_ok :: "image \<Rightarrow> boot_layout \<Rightarrow> bool" where
  "layout_ok img lay \<longleftrightarrow>
     (\<forall>n < 23. unat (text_at lay n) < unat (text_at lay (n + 1))) \<and> 0xC0000000 \<le> unat (text_at lay 0) \<and> unat (text_at lay 23) \<le> 0xC0400000
     \<and> unat (stack_top lay) mod 4 = 0 \<and> 0xC0000000 + 16384 \<le> unat (stack_top lay) \<and> unat (stack_top lay) \<le> 0xC0000000 + unat (kernel_end_phys img)
     \<and> (\<forall>(p, n) \<in> {(kernel_directory_address img, 4096), (process_1 img, 128), (process_2 img, 128), (process_3 img, 128)}.
          unat p + n \<le> unat (stack_top lay) - 16384 \<or> unat (stack_top lay) \<le> unat p)"

text \<open>The body of \<open>_init\<close> is a C function to its caller: it may use the stack below its stack pointer and the registers that are not the caller's.\<close>

definition body_keeps :: "boot_layout \<Rightarrow> (boot_cpu \<Rightarrow> boot_cpu) \<Rightarrow> bool" where
  "body_keeps lay body \<longleftrightarrow> (\<forall>c. \<exists>a x i m. body c = c\<lparr>b_eax := a, b_ecx := x, b_eip := i, b_mem := m\<rparr>
     \<and> same_outside (stack_bottom lay) (unat (b_esp c) - 0xC0000000) (b_mem c) m)"

text \<open>The machine as a Multiboot loader leaves it: paging off, the image loaded at its physical addresses, and a jump to the physical address of \<open>_start\<close>.\<close>

definition loader_state :: "image \<Rightarrow> boot_layout \<Rightarrow> boot_cpu \<Rightarrow> bool" where
  "loader_state img lay c \<longleftrightarrow> \<not> bit (b_cr0 c) 31 \<and> b_eip c = V2P (text_at lay 0) \<and> unat (kernel_directory_address img) mod 4096 = 0
     \<and> (\<forall>i. b_mem c (entry_frame (V2P (kernel_directory_address img))) i = boot_directory ! unat i)"

section \<open>The stub runs\<close>

lemma boot_frame_walk:
  "bit (b_cr0 c) 31 \<Longrightarrow> bit (b_cr4 c) 4 \<Longrightarrow> boot_frame c v = walk (b_mem c) (entry_frame (b_cr3 c)) v"
  by (simp add: boot_frame_def walk_def Let_def)

text \<open>Behind the two large pages of the image's directory: low addresses are physical ones, and the first 4 MiB of the higher half as well.\<close>

definition paged :: "boot_cpu \<Rightarrow> bool" where
  "paged c \<longleftrightarrow> bit (b_cr0 c) 31 \<and> bit (b_cr4 c) 4 \<and> b_mem c (entry_frame (b_cr3 c)) 0 = 0x83 \<and> b_mem c (entry_frame (b_cr3 c)) 768 = 0x83"

lemma boot_frame_high:
  assumes "paged c" "0xC0000000 \<le> unat v" "unat v < 0xC0400000"
  shows "boot_frame c v = Some (entry_frame (V2P v))"
proof -
  let ?s = "empty_space\<lparr>ram := b_mem c, cr3 := b_cr3 c\<rparr>"
  have "dir_entry ?s 768 = 0x83" using assms(1) by (simp add: paged_def dir_entry_def directory_def)
  from translate_kernel(1)[OF this assms(2,3)] show ?thesis
    using assms(1) by (simp add: paged_def boot_frame_walk translate_def)
qed

lemma boot_frame_low:
  assumes "paged c" "unat v < 0x400000"
  shows "boot_frame c v = Some (entry_frame v)"
proof -
  have "dir_of v = 0" using assms(2) by (simp add: dir_of_iff div_range)
  moreover have "ucast (TABLE_INDEX v) = entry_frame v"
  proof -
    have "unat v div 4096 < 1024" using assms(2) by (simp add: less_mult_imp_div_less)
    then have "unat (TABLE_INDEX v) = unat (entry_frame v)" by (simp add: unat_TABLE_INDEX unat_entry_frame)
    moreover have "unat (TABLE_INDEX v) < 1024" by (simp add: unat_TABLE_INDEX)
    ultimately show ?thesis by (simp add: word_unat_eq_iff unsigned_ucast_eq take_bit_nat_eq_self)
  qed
  ultimately show ?thesis
    using assms(1) by (simp add: paged_def boot_frame_walk walk_def entry_present_def entry_large_def bit_numeral_rec)
qed

text \<open>Every instruction lies inside the first 4 MiB of the higher half.\<close>

lemma text_range:
  assumes "layout_ok img lay" "n \<le> 23"
  shows "0xC0000000 \<le> unat (text_at lay n)" "unat (text_at lay n) \<le> 0xC0400000"
proof -
  have up: "n \<le> 23 \<Longrightarrow> unat (text_at lay 0) \<le> unat (text_at lay n)" for n
  proof (induction n)
    case (Suc n)
    then have "unat (text_at lay n) < unat (text_at lay (n + 1))" using assms(1) unfolding layout_ok_def by (auto simp: Suc_le_eq)
    then show ?case using Suc by simp
  qed simp
  have down: "k \<le> 23 \<Longrightarrow> unat (text_at lay (23 - k)) \<le> unat (text_at lay 23)" for k
  proof (induction k)
    case (Suc k)
    then have "unat (text_at lay (23 - Suc k)) < unat (text_at lay (23 - Suc k + 1))" using assms(1) unfolding layout_ok_def by auto
    moreover have "23 - Suc k + 1 = 23 - k" using Suc.prems by simp
    ultimately show ?case using Suc by simp
  qed simp
  show "0xC0000000 \<le> unat (text_at lay n)" using up[OF assms(2)] assms(1) by (simp add: layout_ok_def)
  show "unat (text_at lay n) \<le> 0xC0400000" using down[of "23 - n"] assms by (simp add: layout_ok_def)
qed

lemma text_byte:
  assumes "layout_ok img lay" "n < 23" "k < unat (text_at lay (n + 1) - text_at lay n)"
  shows "0xC0000000 \<le> unat (text_at lay n + of_nat k)" "unat (text_at lay n + of_nat k) < 0xC0400000"
    "unat (V2P (text_at lay n) + of_nat k) < 0x400000" "V2P (text_at lay n) + of_nat k = V2P (text_at lay n + of_nat k)"
proof -
  have o: "unat (text_at lay n) < unat (text_at lay (n + 1))" using assms(1,2) by (simp add: layout_ok_def)
  have r: "0xC0000000 \<le> unat (text_at lay n)" "unat (text_at lay (n + 1)) \<le> 0xC0400000"
    using text_range[OF assms(1), of n] text_range[OF assms(1), of "n + 1"] assms(2) by simp_all
  have "unat (text_at lay (n + 1) - text_at lay n) = unat (text_at lay (n + 1)) - unat (text_at lay n)"
    using o by (simp add: unat_sub word_le_nat_alt)
  then have k: "unat (text_at lay n) + k < 0xC0400000" using assms(3) r by linarith
  have u: "unat (text_at lay n + of_nat k) = unat (text_at lay n) + k"
    by (rule unat_sum2[OF refl]) (use k in \<open>simp_all add: unat_of_nat\<close>)
  show b: "0xC0000000 \<le> unat (text_at lay n + of_nat k)" "unat (text_at lay n + of_nat k) < 0xC0400000" using u k r by simp_all
  show e: "V2P (text_at lay n) + of_nat k = V2P (text_at lay n + of_nat k)" by (simp add: V2P_def)
  show "unat (V2P (text_at lay n) + of_nat k) < 0x400000" unfolding e using b by (simp add: unat_V2P)
qed

lemma V2P_add: "V2P (v + w) = V2P v + w"
  by (simp add: V2P_def)

lemma fetched_off: "\<not> bit (b_cr0 c) 31 \<Longrightarrow> b_eip c = V2P (text_at lay n) \<Longrightarrow> fetched lay n c"
  by (simp add: fetched_def boot_frame_def V2P_add)

lemma fetched_low:
  assumes "layout_ok img lay" "n < 23" "paged c" "b_eip c = V2P (text_at lay n)"
  shows "fetched lay n c"
  unfolding fetched_def assms(4)
  using boot_frame_low[OF assms(3) text_byte(3)[OF assms(1,2)]] text_byte(4)[OF assms(1,2)] by simp

lemma page_offset_V2P:
  assumes "0xC0000000 \<le> unat v"
  shows "PAGE_OFFSET (V2P v) = PAGE_OFFSET v"
proof -
  have u: "unat (PAGE_OFFSET x) = unat x mod 4096" for x
  proof -
    have "x AND 0xFFF = take_bit 12 x" by (simp add: take_bit_eq_mask mask_numeral)
    then show ?thesis by (simp add: PAGE_OFFSET_def take_bit_eq_mod unat_mod)
  qed
  have "(unat v - 0xC0000000) mod 4096 = (unat v - 0xC0000000 + 0xC0000 * 4096) mod 4096" by (simp only: mod_mult_self1)
  also have "\<dots> = unat v mod 4096" using assms by simp
  finally show ?thesis using assms by (simp add: word_unat_eq_iff u unat_V2P)
qed

lemma fetched_high:
  assumes "layout_ok img lay" "n < 23" "paged c" "b_eip c = text_at lay n"
  shows "fetched lay n c"
  unfolding fetched_def assms(4)
  using boot_frame_high[OF assms(3) text_byte(1,2)[OF assms(1,2)]] text_byte(1)[OF assms(1,2)] by (simp add: page_offset_V2P)

lemma behind_low: "b_eip c = V2P (text_at lay n) \<Longrightarrow> behind lay n c = c\<lparr>b_eip := V2P (text_at lay (n + 1))\<rparr>"
  by (simp add: behind_def V2P_def)

lemma behind_high: "b_eip c = text_at lay n \<Longrightarrow> behind lay n c = c\<lparr>b_eip := text_at lay (n + 1)\<rparr>"
  by (simp add: behind_def)

text \<open>The first eight instructions: the directory, large pages, and then paging itself.\<close>

lemma code_length [simp]: "length (boot_code img lay) = 23"
  by (simp add: boot_code_def)

lemma boot_to_paging:
  assumes "\<not> bit (b_cr0 c) 31" "b_eip c = V2P (text_at lay 0)"
  shows "boot_run img lay body 8 0 c = Running 8 (c\<lparr>b_ecx := b_cr0 c OR 0x80000000, b_cr3 := V2P (kernel_directory_address img),
    b_cr4 := b_cr4 c OR 0x10, b_cr0 := b_cr0 c OR 0x80000000, b_eip := V2P (text_at lay 8)\<rparr>)"
proof -
  note step = boot_step_def fetched_off behind_low
  have 8: "8 = Suc (Suc (Suc (Suc (Suc (Suc (Suc (Suc 0)))))))" by simp
  show ?thesis
    unfolding 8 using assms
    by (simp add: step) (simp add: boot_code_def KERNEL_VIRT_OFFSET_def V2P_def step)
qed

lemma paged_fields [simp]:
  "paged (c\<lparr>b_eip := x\<rparr>) = paged c" "paged (c\<lparr>b_eax := x\<rparr>) = paged c" "paged (c\<lparr>b_ebx := x\<rparr>) = paged c" "paged (c\<lparr>b_ecx := x\<rparr>) = paged c"
  "paged (c\<lparr>b_esp := x\<rparr>) = paged c" "paged (c\<lparr>b_ebp := x\<rparr>) = paged c" "paged (c\<lparr>b_if := i\<rparr>) = paged c"
  by (simp_all add: paged_def)

lemma code_at:
  "boot_code img lay ! 9 = Jmp_reg Ecx" "boot_code img lay ! 12 = Push_reg Eax" "boot_code img lay ! 13 = Add_imm KERNEL_VIRT_OFFSET Ebx"
  "boot_code img lay ! 14 = Push_reg Ebx" "boot_code img lay ! 15 = Call_fn Init" "boot_code img lay ! 16 = Boot_cli"
  "boot_code img lay ! 17 = Call_fn Kernel_main" "boot_code img lay ! 18 = Add_imm 12 Esp" "boot_code img lay ! 19 = Call_fn Fini"
  by (simp_all add: boot_code_def)

text \<open>The jump into the higher half and the registers of the stack.\<close>

lemma find_text:
  assumes "layout_ok img lay" "n < 23"
  shows "find (\<lambda>k. text_at lay k = text_at lay n) [0..<23] = Some n"
proof -
  have less: "i < j \<Longrightarrow> j \<le> 23 \<Longrightarrow> unat (text_at lay i) < unat (text_at lay j)" for i j
  proof (induction j)
    case (Suc j)
    have "unat (text_at lay j) < unat (text_at lay (j + 1))" using Suc.prems assms(1) by (simp add: layout_ok_def)
    then show ?case using Suc by (cases "i = j") simp_all
  qed simp
  show ?thesis
    unfolding find_Some_iff using assms(2) less[of _ n] by (intro exI[of _ n]) force
qed

lemma boot_to_high_half:
  assumes l: "layout_ok img lay" and "paged c" "b_eip c = V2P (text_at lay 8)"
  shows "boot_run img lay body 4 8 c = Running 12 (c\<lparr>b_ecx := text_at lay 10, b_esp := stack_top lay, b_ebp := 0, b_eip := text_at lay 12\<rparr>)"
proof -
  let ?d = "c\<lparr>b_ecx := text_at lay 10, b_eip := V2P (text_at lay 9)\<rparr>"
  have 1: "boot_step img lay body 8 c = Running 9 ?d"
    using fetched_low[OF l _ assms(2,3)] by (simp add: boot_step_def behind_low[OF assms(3)] boot_code_def)
  have "fetched lay 9 ?d" by (rule fetched_low[OF l]) (simp_all add: assms(2))
  then have 2: "boot_step img lay body 9 ?d = Running 10 (?d\<lparr>b_eip := text_at lay 10\<rparr>)"
    using find_text[OF l, of 10] by (simp add: boot_step_def code_at del: upt_rec_numeral)
  let ?e = "?d\<lparr>b_eip := text_at lay 10\<rparr>"
  have "fetched lay 10 ?e" by (rule fetched_high[OF l]) (simp_all add: assms(2))
  then have 3: "boot_step img lay body 10 ?e = Running 11 (?e\<lparr>b_esp := stack_top lay, b_eip := text_at lay 11\<rparr>)"
    by (simp add: boot_step_def behind_high boot_code_def)
  let ?f = "?e\<lparr>b_esp := stack_top lay, b_eip := text_at lay 11\<rparr>"
  have "fetched lay 11 ?f" by (rule fetched_high[OF l]) (simp_all add: assms(2))
  then have 4: "boot_step img lay body 11 ?f = Running 12 (?f\<lparr>b_ebp := 0, b_eip := text_at lay 12\<rparr>)"
    by (simp add: boot_step_def behind_high boot_code_def)
  have n: "4 = Suc (Suc (Suc (Suc 0)))" by simp
  show ?thesis unfolding n using 1 2 3 4 by simp
qed

text \<open>The stack: words of the higher half at their addresses, none of them in the directory.\<close>

definition stack_slot :: "boot_layout \<Rightarrow> u32 \<Rightarrow> bool" where
  "stack_slot lay v \<longleftrightarrow> unat v mod 4 = 0 \<and> unat (stack_top lay) - 16384 \<le> unat v \<and> unat v < unat (stack_top lay)"

definition boot_word :: "boot_cpu \<Rightarrow> u32 \<Rightarrow> u32" where
  "boot_word c v = b_mem c (entry_frame (V2P v)) (word_of v)"

definition poke_word :: "u32 \<Rightarrow> u32 \<Rightarrow> memory \<Rightarrow> memory" where
  "poke_word v x m = m(entry_frame (V2P v) := (m (entry_frame (V2P v)))(word_of v := x))"

lemma slot_address:
  assumes "0xC0000000 \<le> unat v" "unat v mod 4 = 0"
  shows "word_address (entry_frame (V2P v)) (word_of v) = unat v - 0xC0000000"
proof -
  obtain q where q: "unat v = 4 * q" using assms(2) by (metis mod_0_imp_dvd dvdE)
  have "unat (word_of v) = unat v div 4 mod 1024"
    by (simp add: word_of_def unsigned_ucast_eq take_bit_eq_mod unat_drop_bit_eq drop_bit_eq_div unat_div)
  then have w: "unat (word_of v) = q mod 1024" using q by simp
  have "unat (entry_frame (V2P v)) = (unat v - 0xC0000000) div 4096" using assms(1) by (simp add: unat_entry_frame unat_V2P)
  moreover have "unat v - 0xC0000000 = 4 * (q - 0x30000000)" using q by simp
  moreover have "4 * (q - 0x30000000) div 4096 = (q - 0x30000000) div 1024"
    using div_mult2_eq[of "4 * (q - 0x30000000)" 4 1024] by simp
  moreover have "q mod 1024 = (q - 0x30000000) mod 1024"
  proof -
    have "0x30000000 \<le> q" using assms(1) q by simp
    then have "q = (q - 0x30000000) + 0xC0000 * 1024" by simp
    then show ?thesis by (metis mod_mult_self1)
  qed
  moreover have "n div 1024 * 4096 + 4 * (n mod 1024) = 4 * n" for n :: nat
    using div_mult_mod_eq[of n 1024] by linarith
  ultimately show ?thesis by (simp add: word_address_def w)
qed

lemma same_outside_trans:
  "same_outside lo hi m m' \<Longrightarrow> same_outside lo hi' m' m'' \<Longrightarrow> hi' \<le> hi \<Longrightarrow> same_outside lo hi m m''"
  unfolding same_outside_def by (metis order_less_le_trans)

lemma same_outside_refl: "same_outside lo hi m m"
  by (simp add: same_outside_def)

lemma same_outside_poke:
  assumes "0xC0000000 \<le> unat v" "unat v mod 4 = 0" "lo \<le> unat v - 0xC0000000" "unat v - 0xC0000000 < hi"
  shows "same_outside lo hi m (poke_word v x m)"
  unfolding same_outside_def
proof (intro allI impI)
  fix f w assume n: "\<not> (lo \<le> word_address f w \<and> word_address f w < hi)"
  have "\<not> (f = entry_frame (V2P v) \<and> w = word_of v)" using n assms(3,4) slot_address[OF assms(1,2)] by auto
  then show "poke_word v x m f w = m f w" by (auto simp: poke_word_def)
qed

lemma slot_range:
  assumes "layout_ok img lay" "stack_slot lay v" "unat (kernel_end_phys img) \<le> 0x400000"
  shows "0xC0000000 \<le> unat v" "unat v < 0xC0400000" "unat v mod 4 = 0" "stack_bottom lay \<le> unat v - 0xC0000000"
    "unat v - 0xC0000000 < unat (stack_top lay) - 0xC0000000"
  using assms by (auto simp: layout_ok_def stack_slot_def stack_bottom_def)

lemma directory_kept:
  assumes "layout_ok img lay" "same_outside (stack_bottom lay) (unat (stack_top lay) - 0xC0000000) m m'"
    and "unat (kernel_directory_address img) mod 4096 = 0" "in_image img (kernel_directory_address img) 4096"
  shows "m' (entry_frame (V2P (kernel_directory_address img))) i = m (entry_frame (V2P (kernel_directory_address img))) i"
proof -
  let ?k = "kernel_directory_address img"
  have k: "0xC0000000 \<le> unat ?k" using assms(4) by (simp add: in_image_def)
  obtain q where q: "unat ?k = 4096 * q" using assms(3) by (metis mod_0_imp_dvd dvdE)
  have "unat (entry_frame (V2P ?k)) = (unat ?k - 0xC0000000) div 4096" using k by (simp add: unat_entry_frame unat_V2P)
  moreover have "unat ?k - 0xC0000000 = (q - 0xC0000) * 4096" using q by simp
  ultimately have "unat (entry_frame (V2P ?k)) * 4096 = unat ?k - 0xC0000000" by simp
  then have a: "word_address (entry_frame (V2P ?k)) i = unat ?k - 0xC0000000 + 4 * unat i" by (simp add: word_address_def)
  have "unat i < 1024" using unsigned_less[of i, where 'a = nat] by simp
  moreover have "unat ?k + 4096 \<le> unat (stack_top lay) - 16384 \<or> unat (stack_top lay) \<le> unat ?k"
    "0xC0000000 + 16384 \<le> unat (stack_top lay)" using assms(1) by (simp_all add: layout_ok_def)
  ultimately have "\<not> (stack_bottom lay \<le> word_address (entry_frame (V2P ?k)) i \<and> word_address (entry_frame (V2P ?k)) i < unat (stack_top lay) - 0xC0000000)"
    unfolding a stack_bottom_def using k by linarith
  then show ?thesis using assms(2) by (simp add: same_outside_def)
qed

text \<open>The addresses that the stub pushes to.\<close>

lemma stack_slots:
  assumes "layout_ok img lay" "k \<in> {4, 8, 12, 16}"
  shows "stack_slot lay (stack_top lay - k)" "unat (stack_top lay - k) = unat (stack_top lay) - unat k"
proof -
  have t: "unat (stack_top lay) mod 4 = 0" "0xC0000000 + 16384 \<le> unat (stack_top lay)" using assms(1) by (simp_all add: layout_ok_def)
  then have "k \<le> stack_top lay" using assms(2) by (auto simp: word_le_nat_alt)
  then show u: "unat (stack_top lay - k) = unat (stack_top lay) - unat k" by (simp add: unat_sub)
  obtain q where q: "unat (stack_top lay) = 4 * q" using t(1) by (metis mod_0_imp_dvd dvdE)
  have "\<exists>j. unat k = 4 * j \<and> 0 < j \<and> j \<le> 4" using assms(2) by (auto intro: exI[of _ 1] exI[of _ 2] exI[of _ 3] exI[of _ 4])
  then obtain j where j: "unat k = 4 * j" "0 < j" "j \<le> 4" by blast
  have "unat (stack_top lay - k) = 4 * (q - j)" unfolding u q j(1) by simp
  then show "stack_slot lay (stack_top lay - k)" using q j t(2) by (simp add: stack_slot_def u)
qed

lemma poke_word_read:
  assumes "0xC0000000 \<le> unat v" "unat v mod 4 = 0" "0xC0000000 \<le> unat w" "unat w mod 4 = 0"
  shows "poke_word v x m (entry_frame (V2P w)) (word_of w) = (if v = w then x else m (entry_frame (V2P w)) (word_of w))"
proof -
  have "v = w" if "entry_frame (V2P v) = entry_frame (V2P w)" "word_of v = word_of w"
    using slot_address[OF assms(1,2)] slot_address[OF assms(3,4)] that assms(1,3) by (simp add: word_unat_eq_iff)
  then show ?thesis by (auto simp: poke_word_def)
qed

lemma kept_word:
  assumes "same_outside lo (unat e - 0xC0000000) m m'" "0xC0000000 \<le> unat v" "unat v mod 4 = 0" "unat e \<le> unat v"
  shows "m' (entry_frame (V2P v)) (word_of v) = m (entry_frame (V2P v)) (word_of v)"
proof -
  have "\<not> word_address (entry_frame (V2P v)) (word_of v) < unat e - 0xC0000000"
    using slot_address[OF assms(2,3)] assms(4) by linarith
  then show ?thesis using assms(1) unfolding same_outside_def by blast
qed

text \<open>
  Paging is on, with the directory of the image, and only the boot stack has changed since \<open>m0\<close>; so the stack can be used.
\<close>

definition stub_ready :: "image \<Rightarrow> boot_layout \<Rightarrow> memory \<Rightarrow> boot_cpu \<Rightarrow> bool" where
  "stub_ready img lay m0 c \<longleftrightarrow> bit (b_cr0 c) 31 \<and> bit (b_cr4 c) 4 \<and> b_cr3 c = V2P (kernel_directory_address img)
     \<and> same_outside (stack_bottom lay) (unat (stack_top lay) - 0xC0000000) m0 (b_mem c)"

definition image_at :: "image \<Rightarrow> boot_layout \<Rightarrow> memory \<Rightarrow> bool" where
  "image_at img lay m0 \<longleftrightarrow> image_ok img \<and> layout_ok img lay \<and> unat (kernel_directory_address img) mod 4096 = 0
     \<and> (\<forall>i. m0 (entry_frame (V2P (kernel_directory_address img))) i = boot_directory ! unat i)"

lemma stub_directory:
  assumes "image_at img lay m0" "stub_ready img lay m0 c"
  shows "b_mem c (entry_frame (b_cr3 c)) i = (if i = 0 \<or> i = 768 then 0x83 else 0)"
proof -
  have i: "image_ok img" "layout_ok img lay" "unat (kernel_directory_address img) mod 4096 = 0"
    "m0 (entry_frame (V2P (kernel_directory_address img))) i = (if i = 0 \<or> i = 768 then 0x83 else 0)"
    using assms(1) by (simp_all add: image_at_def boot_directory_nth)
  have c: "b_cr3 c = V2P (kernel_directory_address img)" "same_outside (stack_bottom lay) (unat (stack_top lay) - 0xC0000000) m0 (b_mem c)"
    using assms(2) by (simp_all add: stub_ready_def)
  have "in_image img (kernel_directory_address img) 4096" using i(1) by (simp add: image_ok_def)
  from directory_kept[OF i(2) c(2) i(3) this, of i] show ?thesis using i(4) c(1) by simp
qed

lemma stub_paged: "image_at img lay m0 \<Longrightarrow> stub_ready img lay m0 c \<Longrightarrow> paged c"
  using stub_directory[of img lay m0 c 0] stub_directory[of img lay m0 c 768] by (simp add: paged_def stub_ready_def)

lemma stub_push:
  assumes i: "image_at img lay m0" and c: "stub_ready img lay m0 c" and v: "b_esp c - 4 = v" "stack_slot lay v"
  shows "boot_push x c = Some (c\<lparr>b_esp := v, b_mem := poke_word v x (b_mem c)\<rparr>)"
    "stub_ready img lay m0 (c\<lparr>b_esp := v, b_mem := poke_word v x (b_mem c)\<rparr>)"
proof -
  have l: "layout_ok img lay" "unat (kernel_end_phys img) \<le> 0x400000" using i by (simp_all add: image_at_def image_ok_def)
  note r = slot_range[OF l(1) v(2) l(2)]
  show "boot_push x c = Some (c\<lparr>b_esp := v, b_mem := poke_word v x (b_mem c)\<rparr>)"
    using boot_frame_high[OF stub_paged[OF i c] r(1,2)] by (simp add: boot_push_def v(1) poke_word_def)
  have "same_outside (stack_bottom lay) (unat (stack_top lay) - 0xC0000000) m0 (poke_word v x (b_mem c))"
    using same_outside_trans[OF _ same_outside_poke[OF r(1,3,4,5)] order_refl] c by (simp add: stub_ready_def)
  then show "stub_ready img lay m0 (c\<lparr>b_esp := v, b_mem := poke_word v x (b_mem c)\<rparr>)" using c by (simp add: stub_ready_def)
qed

lemma stub_pop:
  assumes i: "image_at img lay m0" and c: "stub_ready img lay m0 c" and v: "b_esp c = v" "stack_slot lay v"
  shows "boot_pop c = Some (boot_word c v, c\<lparr>b_esp := v + 4\<rparr>)"
proof -
  have l: "layout_ok img lay" "unat (kernel_end_phys img) \<le> 0x400000" using i by (simp_all add: image_at_def image_ok_def)
  note r = slot_range[OF l(1) v(2) l(2)]
  show ?thesis using boot_frame_high[OF stub_paged[OF i c] r(1,2)] by (simp add: boot_pop_def v(1) boot_word_def)
qed

lemma init_runs:
  assumes i: "image_at img lay m0" and b: "body_keeps lay body" and c: "stub_ready img lay m0 c" "b_esp c = stack_top lay - 12"
  obtains a x m where
    "init_run body c = Some (c\<lparr>b_eax := a, b_ecx := x, b_esp := stack_top lay - 8, b_eip := boot_word c (stack_top lay - 12), b_mem := m\<rparr>)"
    "stub_ready img lay m0 (c\<lparr>b_eax := a, b_ecx := x, b_esp := stack_top lay - 8, b_eip := boot_word c (stack_top lay - 12), b_mem := m\<rparr>)"
    "\<forall>k \<in> {4, 8}. m (entry_frame (V2P (stack_top lay - k))) (word_of (stack_top lay - k)) = boot_word c (stack_top lay - k)"
proof -
  let ?T = "stack_top lay"
  have l: "layout_ok img lay" "unat (kernel_end_phys img) \<le> 0x400000" using i by (simp_all add: image_at_def image_ok_def)
  have s: "stack_slot lay (?T - k)" "unat (?T - k) = unat ?T - unat k" "0xC0000000 \<le> unat (?T - k)" "unat (?T - k) mod 4 = 0"
    if "k \<in> {4, 8, 12, 16}" for k
    using stack_slots[OF l(1) that] slot_range[OF l(1) stack_slots(1)[OF l(1) that] l(2)] by simp_all
  have s16: "stack_slot lay (?T - 16)" and s12: "stack_slot lay (?T - 12)" using s(1) by simp_all
  have "b_esp c - 4 = ?T - 16" using c(2) by simp
  note p = stub_push[OF i c(1) this s16, of "b_ebp c"]
  let ?d = "c\<lparr>b_esp := ?T - 16, b_mem := poke_word (?T - 16) (b_ebp c) (b_mem c)\<rparr>"
  obtain a x e m where m: "body (?d\<lparr>b_ebp := ?T - 16\<rparr>) = ?d\<lparr>b_ebp := ?T - 16, b_eax := a, b_ecx := x, b_eip := e, b_mem := m\<rparr>"
    "same_outside (stack_bottom lay) (unat (?T - 16) - 0xC0000000) (b_mem ?d) m"
    using b[unfolded body_keeps_def, rule_format, of "?d\<lparr>b_ebp := ?T - 16\<rparr>"] by auto
  have above: "m (entry_frame (V2P (?T - k))) (word_of (?T - k)) = b_mem ?d (entry_frame (V2P (?T - k))) (word_of (?T - k))"
    if k: "k \<in> {4, 8, 12, 16}" for k
    by (rule kept_word[OF m(2) s(3,4)[OF k]]) (use s(2)[OF k] s(2)[of 16] k in auto)
  have "unat (?T - 16) - 0xC0000000 \<le> unat ?T - 0xC0000000" using s(2)[of 16] by simp
  then have same: "same_outside (stack_bottom lay) (unat ?T - 0xC0000000) m0 m"
    using same_outside_trans[OF _ m(2)] p(2) by (simp add: stub_ready_def)
  let ?f = "c\<lparr>b_esp := ?T - 16, b_ebp := ?T - 16, b_eax := a, b_ecx := x, b_eip := e, b_mem := m\<rparr>"
  have rf: "stub_ready img lay m0 ?f" using same c(1) by (simp add: stub_ready_def)
  have esp: "b_esp ?f = ?T - 16" by simp
  have "m (entry_frame (V2P (?T - 16))) (word_of (?T - 16)) = b_ebp c"
    using above[of 16] s[of 16] by (simp add: poke_word_read)
  then have pop1: "boot_pop ?f = Some (b_ebp c, ?f\<lparr>b_esp := ?T - 12\<rparr>)"
    using stub_pop[OF i rf esp s16] by (simp add: boot_word_def)
  let ?g = "?f\<lparr>b_esp := ?T - 12, b_ebp := b_ebp c\<rparr>"
  have rg: "stub_ready img lay m0 ?g" using same c(1) by (simp add: stub_ready_def)
  have esp2: "b_esp ?g = ?T - 12" by simp
  have keep: "m (entry_frame (V2P (?T - k))) (word_of (?T - k)) = boot_word c (?T - k)" if k: "k \<in> {4, 8, 12}" for k
  proof -
    have "?T - 16 \<noteq> ?T - k" using k by auto
    then show ?thesis using above[of k] s(3,4)[of k] s(3,4)[of 16] k by (auto simp: poke_word_read boot_word_def)
  qed
  have "boot_pop ?g = Some (boot_word c (?T - 12), ?g\<lparr>b_esp := ?T - 8\<rparr>)"
    using stub_pop[OF i rg esp2 s12] keep[of 12] by (simp add: boot_word_def)
  then have "init_run body c = Some (c\<lparr>b_eax := a, b_ecx := x, b_esp := ?T - 8, b_eip := boot_word c (?T - 12), b_mem := m\<rparr>)"
    using p(1) m(1) pop1 by (simp add: init_run_def)
  moreover have "stub_ready img lay m0 (c\<lparr>b_eax := a, b_ecx := x, b_esp := ?T - 8, b_eip := boot_word c (?T - 12), b_mem := m\<rparr>)"
    using same c(1) by (simp add: stub_ready_def)
  ultimately show ?thesis using that keep by simp
qed

lemma boot_enters_main:
  assumes i: "image_at img lay m0" and b: "body_keeps lay body" and c: "stub_ready img lay m0 c"
    and pos: "b_esp c = stack_top lay" "b_eip c = text_at lay 12"
  obtains d where "boot_run img lay body 6 12 c = Enters Kernel_main d" "stub_ready img lay m0 d" "b_esp d = stack_top lay - 12" "\<not> b_if d"
    "boot_word d (stack_top lay - 4) = b_eax c" "boot_word d (stack_top lay - 8) = b_ebx c + KERNEL_VIRT_OFFSET"
    "boot_word d (stack_top lay - 12) = text_at lay 18"
proof -
  let ?T = "stack_top lay"
  have l: "layout_ok img lay" "unat (kernel_end_phys img) \<le> 0x400000" using i by (simp_all add: image_at_def image_ok_def)
  have s: "stack_slot lay (?T - k)" "unat (?T - k) = unat ?T - unat k" "0xC0000000 \<le> unat (?T - k)" "unat (?T - k) mod 4 = 0"
    if "k \<in> {4, 8, 12, 16}" for k
    using stack_slots[OF l(1) that] slot_range[OF l(1) stack_slots(1)[OF l(1) that] l(2)] by simp_all
  have fetch: "fetched lay n x" if "n < 23" "stub_ready img lay m0 x" "b_eip x = text_at lay n" for n x
    by (rule fetched_high[OF l(1) that(1) stub_paged[OF i that(2)] that(3)])
  let ?x0 = "c\<lparr>b_eip := text_at lay 13\<rparr>"
  have r0: "stub_ready img lay m0 ?x0" "b_esp ?x0 - 4 = ?T - 4" using c pos by (simp_all add: stub_ready_def)
  note p0 = stub_push[OF i r0 s(1), of "b_eax c", simplified]
  let ?c1 = "?x0\<lparr>b_esp := ?T - 4, b_mem := poke_word (?T - 4) (b_eax c) (b_mem c)\<rparr>"
  have st12: "boot_step img lay body 12 c = Running 13 ?c1"
    using fetch[OF _ c pos(2)] p0(1) by (simp add: boot_step_def behind_high[OF pos(2)] code_at)
  have r1: "stub_ready img lay m0 ?c1" using p0(2) by simp
  let ?c2 = "?c1\<lparr>b_ebx := b_ebx c + KERNEL_VIRT_OFFSET, b_eip := text_at lay 14\<rparr>"
  have st13: "boot_step img lay body 13 ?c1 = Running 14 ?c2"
    using fetch[OF _ r1] by (simp add: boot_step_def behind_high code_at)
  have r2: "stub_ready img lay m0 ?c2" using r1 by (simp add: stub_ready_def)
  let ?x2 = "?c2\<lparr>b_eip := text_at lay 15\<rparr>"
  have r2': "stub_ready img lay m0 ?x2" "b_esp ?x2 - 4 = ?T - 8" using r2 by (simp_all add: stub_ready_def)
  note p2 = stub_push[OF i r2' s(1), of "b_ebx ?c2", simplified]
  let ?c3 = "?x2\<lparr>b_esp := ?T - 8, b_mem := poke_word (?T - 8) (b_ebx ?c2) (b_mem ?c2)\<rparr>"
  have st14: "boot_step img lay body 14 ?c2 = Running 15 ?c3"
    using fetch[OF _ r2] p2(1) by (simp add: boot_step_def behind_high code_at)
  have r3: "stub_ready img lay m0 ?c3" using p2(2) by simp
  let ?x3 = "?c3\<lparr>b_eip := text_at lay 16\<rparr>"
  have r3': "stub_ready img lay m0 ?x3" "b_esp ?x3 - 4 = ?T - 12" using r3 by (simp_all add: stub_ready_def)
  note p3 = stub_push[OF i r3' s(1), of "text_at lay 16", simplified]
  let ?d3 = "?x3\<lparr>b_esp := ?T - 12, b_mem := poke_word (?T - 12) (text_at lay 16) (b_mem ?c3)\<rparr>"
  have rd: "stub_ready img lay m0 ?d3" "b_esp ?d3 = ?T - 12" using p3(2) by simp_all
  have words: "boot_word ?d3 (?T - 12) = text_at lay 16" "boot_word ?d3 (?T - 8) = b_ebx c + KERNEL_VIRT_OFFSET" "boot_word ?d3 (?T - 4) = b_eax c"
    using s(3,4) by (simp_all add: boot_word_def poke_word_read)
  obtain a x m where ir: "init_run body ?d3 = Some (?d3\<lparr>b_eax := a, b_ecx := x, b_esp := ?T - 8, b_eip := text_at lay 16, b_mem := m\<rparr>)"
    "stub_ready img lay m0 (?d3\<lparr>b_eax := a, b_ecx := x, b_esp := ?T - 8, b_eip := text_at lay 16, b_mem := m\<rparr>)"
    and mk: "\<forall>k \<in> {4, 8}. m (entry_frame (V2P (?T - k))) (word_of (?T - k)) = boot_word ?d3 (?T - k)"
    by (rule init_runs[OF i b rd]) (use words(1) that in simp)
  let ?c4 = "?d3\<lparr>b_eax := a, b_ecx := x, b_esp := ?T - 8, b_eip := text_at lay 16, b_mem := m\<rparr>"
  have st15: "boot_step img lay body 15 ?c3 = Running 16 ?c4"
    using fetch[OF _ r3] p3(1) ir(1) by (simp add: boot_step_def behind_high code_at)
  let ?c5 = "?c4\<lparr>b_if := False, b_eip := text_at lay 17\<rparr>"
  have st16: "boot_step img lay body 16 ?c4 = Running 17 ?c5"
    using fetch[OF _ ir(2)] by (simp add: boot_step_def behind_high code_at)
  have r5: "stub_ready img lay m0 ?c5" using ir(2) by (simp add: stub_ready_def)
  let ?x5 = "?c5\<lparr>b_eip := text_at lay 18\<rparr>"
  have r5': "stub_ready img lay m0 ?x5" "b_esp ?x5 - 4 = ?T - 12" using r5 by (simp_all add: stub_ready_def)
  note p5 = stub_push[OF i r5' s(1), of "text_at lay 18", simplified]
  let ?d = "?x5\<lparr>b_esp := ?T - 12, b_mem := poke_word (?T - 12) (text_at lay 18) m\<rparr>"
  have st17: "boot_step img lay body 17 ?c5 = Enters Kernel_main ?d"
    using fetch[OF _ r5] p5(1) by (simp add: boot_step_def behind_high code_at)
  have n: "6 = Suc (Suc (Suc (Suc (Suc (Suc 0)))))" by simp
  have "boot_run img lay body 6 12 c = Enters Kernel_main ?d"
    unfolding n using st12 st13 st14 st15 st16 st17 by simp
  moreover have "stub_ready img lay m0 ?d" using p5(2) by simp
  moreover have "boot_word ?d (?T - 4) = b_eax c" "boot_word ?d (?T - 8) = b_ebx c + KERNEL_VIRT_OFFSET" "boot_word ?d (?T - 12) = text_at lay 18"
    using s(3,4) mk words by (simp_all add: boot_word_def poke_word_read)
  ultimately show ?thesis using that[of ?d] by simp
qed

lemma boot_run_append:
  "boot_run img lay body j n c = Running m d \<Longrightarrow> boot_run img lay body (j + k) n c = boot_run img lay body k m d"
proof (induction j arbitrary: n c)
  case (Suc j)
  then show ?case by (cases "boot_step img lay body n c") simp_all
qed simp

lemma boot_stub_runs:
  assumes "image_ok img" "layout_ok img lay" "body_keeps lay body" "loader_state img lay c"
  obtains d where "boot_run img lay body 18 0 c = Enters Kernel_main d" "stub_ready img lay (b_mem c) d" "image_at img lay (b_mem c)"
    "b_esp d = stack_top lay - 12" "\<not> b_if d" "boot_word d (stack_top lay - 4) = b_eax c" "boot_word d (stack_top lay - 8) = P2V (b_ebx c)"
    "boot_word d (stack_top lay - 12) = text_at lay 18"
proof -
  have i: "image_at img lay (b_mem c)" using assms(1,2,4) by (simp add: image_at_def loader_state_def)
  have l: "\<not> bit (b_cr0 c) 31" "b_eip c = V2P (text_at lay 0)" using assms(4) by (simp_all add: loader_state_def)
  let ?c8 = "c\<lparr>b_ecx := b_cr0 c OR 0x80000000, b_cr3 := V2P (kernel_directory_address img),
    b_cr4 := b_cr4 c OR 0x10, b_cr0 := b_cr0 c OR 0x80000000, b_eip := V2P (text_at lay 8)\<rparr>"
  have "(0x80000000 :: u32) = push_bit 31 1" "(0x10 :: u32) = push_bit 4 1" by simp_all
  then have bits: "bit (0x80000000 :: u32) 31" "bit (0x10 :: u32) 4" by (simp_all only: bit_push_bit_iff) simp_all
  have r8: "stub_ready img lay (b_mem c) ?c8" by (simp add: stub_ready_def bits bit_or_iff same_outside_refl)
  let ?c12 = "?c8\<lparr>b_ecx := text_at lay 10, b_esp := stack_top lay, b_ebp := 0, b_eip := text_at lay 12\<rparr>"
  have r12: "stub_ready img lay (b_mem c) ?c12" using r8 by (simp add: stub_ready_def)
  have eip: "b_eip ?c8 = V2P (text_at lay 8)" and pos: "b_esp ?c12 = stack_top lay" "b_eip ?c12 = text_at lay 12" by simp_all
  obtain d where d: "boot_run img lay body 6 12 ?c12 = Enters Kernel_main d" "stub_ready img lay (b_mem c) d" "b_esp d = stack_top lay - 12"
    "\<not> b_if d" "boot_word d (stack_top lay - 4) = b_eax ?c12" "boot_word d (stack_top lay - 8) = b_ebx ?c12 + KERNEL_VIRT_OFFSET"
    "boot_word d (stack_top lay - 12) = text_at lay 18"
    by (rule boot_enters_main[OF i assms(3) r12 pos]) (rule that; assumption)
  have "boot_run img lay body (8 + (4 + 6)) 0 c = boot_run img lay body (4 + 6) 8 ?c8"
    by (rule boot_run_append[OF boot_to_paging[OF l]])
  also have "\<dots> = boot_run img lay body 6 12 ?c12"
    by (rule boot_run_append[OF boot_to_high_half[OF assms(2) stub_paged[OF i r8] eip]])
  finally have "boot_run img lay body 18 0 c = Enters Kernel_main d" using d(1) by simp
  then show ?thesis using that[OF _ d(2) i d(3,4)] d(5-7) by (simp add: P2V_def KERNEL_VIRT_OFFSET_def)
qed

text \<open>
  The variables of the kernel as the image has them, and a kernel that runs on the machine in the state of the processor \<open>d\<close>. Both
  together are what the start of the kernel needs.
\<close>

definition initial_variables :: "'s sys_scheme \<Rightarrow> bool" where
  "initial_variables s \<longleftrightarrow> quiet (con s) \<and> length (gdt_entries s) = 6 \<and> length (idt_entries s) = 256
     \<and> isr_handlers s = replicate 256 None \<and> irq_handlers s = replicate 16 None \<and> callback s = None
     \<and> syscall_handlers s = replicate 256 None \<and> heap_pointer s = KERNEL_HEAP_BASE_VIRT \<and> current_process s = 0 \<and> next_pid s = 1"

definition runs_on :: "boot_cpu \<Rightarrow> 's sys_scheme \<Rightarrow> bool" where
  "runs_on d s \<longleftrightarrow> ram s = b_mem d \<and> cr3 s = b_cr3 d \<and> interrupt_flag s = b_if d"

lemma stub_loads_kernel:
  fixes s :: "'s sys_scheme"
  assumes i: "image_at img lay m0" and d: "stub_ready img lay m0 d" and s: "initial_variables s" "runs_on d s"
  shows "kernel_loaded img s"
proof -
  let ?k = "kernel_directory_address img"
  have dir: "dir_entry s j = (if j = 0 \<or> j = 768 then 0x83 else 0)" for j
    using stub_directory[OF i d, of j] s(2) by (simp add: dir_entry_def directory_def runs_on_def)
  have im: "in_image img ?k 4096" "unat (kernel_end_phys img) \<le> 0x400000" "unat ?k mod 4096 = 0"
    using i by (simp_all add: image_at_def image_ok_def)
  have "unat (kernel_end_phys img) div 4096 * 4096 \<le> unat (kernel_end_phys img)" by (rule div_times_less_eq_dividend)
  then have "0xC0000000 \<le> unat ?k" "unat ?k + 4096 \<le> 0xC0400000" using im(1)[unfolded in_image_def] im(2) by linarith+
  then have "booted ?k s"
    using dir s(2) d im(3) by (simp add: booted_def runs_on_def stub_ready_def)
  then show ?thesis using s(1) by (simp add: kernel_loaded_def initial_variables_def)
qed

text \<open>C1: from the loader to the first process. The image has a header that a Multiboot loader accepts, and asks for aligned
  modules and a memory map. Entered at \<open>_start\<close> with paging off, the stub sets up the directory of the image and large pages,
  turns on paging while it runs at its physical address, jumps to its linked address, sets up the boot stack, calls
  the constructors and enters \<open>kernel_main\<close> with interrupts off, the address of the loader's information, moved to the higher
  half, and the loader's magic number as its arguments; every instruction is fetched from where the linker placed it, and
  of memory only the boot stack has changed. From there, with the variables of the kernel as the image has them,
  \<open>kernel_main\<close> goes all the way to the first process without a panic or undefined behaviour, and ends as \<open>kernel_up\<close> says:
  the three test processes form the ring, each with its own program byte for byte and read-only at address 0, its own stack, and
  no frame of another; \<open>cr3\<close> and the TSS are those of the process that runs; the gates are set, with only the one of
  system calls open to user mode; and the page fault, system call, timer and keyboard handlers and the scheduler are registered.\<close>

theorem loader_to_first_process:
  fixes c :: boot_cpu
  assumes "image_ok img" "layout_ok img lay" "body_keeps lay body" "loader_state img lay c" "b_eax c = MULTIBOOT_BOOTLOADER_MAGIC"
    and "mb_flags mbi AND MULTIBOOT_INFO_MEM_MAP \<noteq> 0"
    and "map_entries entry_at (P2V (mmap_addr mbi) + mmap_length mbi) fuel (P2V (mmap_addr mbi)) = Some es"
    and "memory_enough (kernel_end_phys img) mbi es 2377" "2 < fuel"
  shows "header_valid boot_header \<and> mh_flags boot_header = MULTIBOOT_PAGE_ALIGN OR MULTIBOOT_MEMORY_INFO
    \<and> (\<exists>d. boot_run img lay body 18 0 c = Enters Kernel_main d \<and> \<not> b_if d
      \<and> boot_word d (b_esp d) = text_at lay 18 \<and> boot_word d (b_esp d + 4) = P2V (b_ebx c) \<and> boot_word d (b_esp d + 8) = b_eax c
      \<and> same_outside (stack_bottom lay) (unat (stack_top lay) - 0xC0000000) (b_mem c) (b_mem d)
      \<and> (\<forall>s :: 's sys_scheme. initial_variables s \<and> runs_on d s \<longrightarrow>
           (\<exists>ds s'. kernel_main img entry_at get_time fuel mbi (boot_word d (b_esp d + 8)) s = Exit (Iret 0 0x1B 0x200 0xBFFFFFFC 0x23) s'
              \<and> kernel_up img s ds s')))"
proof -
  obtain d where d: "boot_run img lay body 18 0 c = Enters Kernel_main d" "stub_ready img lay (b_mem c) d" "image_at img lay (b_mem c)"
    "b_esp d = stack_top lay - 12" "\<not> b_if d" "boot_word d (stack_top lay - 4) = b_eax c" "boot_word d (stack_top lay - 8) = P2V (b_ebx c)"
    "boot_word d (stack_top lay - 12) = text_at lay 18"
    by (rule boot_stub_runs[OF assms(1-4)]) (rule that; assumption)
  have main: "\<exists>ds s'. kernel_main img entry_at get_time fuel mbi (boot_word d (b_esp d + 8)) s = Exit (Iret 0 0x1B 0x200 0xBFFFFFFC 0x23) s'
      \<and> kernel_up img s ds s'" if s: "initial_variables s" "runs_on d s" for s :: "'s sys_scheme"
  proof -
    have m: "boot_word d (b_esp d + 8) = MULTIBOOT_BOOTLOADER_MAGIC" using d(4,6) assms(5) by simp
    show ?thesis
      by (rule kernel_main_up[OF assms(1) stub_loads_kernel[OF d(3,2) s] m assms(6-9)]) blast
  qed
  show ?thesis
    using boot_header_valid d(1,4-8) main d(2) by (intro conjI exI[of _ d]) (simp_all add: stub_ready_def)
qed

text \<open>The sample image with its stub at the start of the text and its stack at the end, as a loader with its information at \<open>0x9000\<close> enters it.\<close>

definition sample_layout :: boot_layout where
  "sample_layout = \<lparr>text_at = \<lambda>n. 0xC0100030 + 4 * of_nat n, stack_top = 0xC0120000\<rparr>"

definition sample_loader :: boot_cpu where
  "sample_loader = \<lparr>b_eax = MULTIBOOT_BOOTLOADER_MAGIC, b_ebx = 0x9000, b_ecx = 0, b_esp = 0, b_ebp = 0, b_eip = 0x00100030,
     b_cr0 = 0x11, b_cr3 = 0, b_cr4 = 0, b_if = False, b_mem = \<lambda>f i. if f = 0x110 \<and> (i = 0 \<or> i = 768) then 0x83 else 0\<rparr>"

lemma sample_layout_ok: "layout_ok sample_image sample_layout"
proof -
  have t: "n < 24 \<Longrightarrow> unat (text_at sample_layout n) = 0xC0100030 + 4 * n" for n
    unfolding sample_layout_def by (simp, subst unat_sum2[OF refl unat_prod2[OF refl refl]]) (simp_all add: unat_of_nat)
  have "\<forall>n < 23. unat (text_at sample_layout n) < unat (text_at sample_layout (n + 1))" by (simp add: t)
  then show ?thesis
    unfolding layout_ok_def using t[of 0] t[of 23] by (simp add: sample_layout_def sample_image_def)
qed

lemma sample_loader_state: "loader_state sample_image sample_layout sample_loader"
proof -
  have f: "entry_frame (V2P (kernel_directory_address sample_image)) = 0x110"
    by (simp add: sample_image_def V2P_def entry_frame_def)
  have "\<not> bit (b_cr0 sample_loader) 31" by (simp add: sample_loader_def bit_numeral_rec)
  moreover have "b_eip sample_loader = V2P (text_at sample_layout 0)" by (simp add: sample_loader_def sample_layout_def V2P_def)
  moreover have "b_mem sample_loader 0x110 i = (if i = 0 \<or> i = 768 then 0x83 else 0)" for i by (simp add: sample_loader_def)
  ultimately show ?thesis unfolding loader_state_def f boot_directory_nth by (simp add: sample_image_def)
qed

theorem loader_to_first_process_witness:
  "\<exists>d. boot_run sample_image sample_layout id 18 0 sample_loader = Enters Kernel_main d \<and> boot_word d (b_esp d + 4) = 0xC0009000
    \<and> (\<exists>ds s'. kernel_main sample_image boot_map (ret 0) 3 boot_info (boot_word d (b_esp d + 8)) (boot_state\<lparr>ram := b_mem d, cr3 := b_cr3 d, interrupt_flag := b_if d\<rparr>)
        = Exit (Iret 0 0x1B 0x200 0xBFFFFFFC 0x23) s' \<and> kernel_up sample_image (boot_state\<lparr>ram := b_mem d, cr3 := b_cr3 d, interrupt_flag := b_if d\<rparr>) ds s')"
proof -
  have "body_keeps sample_layout id"
    unfolding body_keeps_def
  proof
    fix c show "\<exists>a x i m. id c = c\<lparr>b_eax := a, b_ecx := x, b_eip := i, b_mem := m\<rparr>
        \<and> same_outside (stack_bottom sample_layout) (unat (b_esp c) - 0xC0000000) (b_mem c) m"
      by (intro exI[of _ "b_eax c"] exI[of _ "b_ecx c"] exI[of _ "b_eip c"] exI[of _ "b_mem c"]) (simp add: same_outside_refl)
  qed
  note run = loader_to_first_process[OF sample_image_ok sample_layout_ok this sample_loader_state _ boot_info_enough(3,1,2), of "ret 0", simplified]
  have "b_eax sample_loader = MULTIBOOT_BOOTLOADER_MAGIC" by (simp add: sample_loader_def)
  note r = run[OF this]
  have v: "initial_variables (boot_state\<lparr>ram := m, cr3 := x, interrupt_flag := b\<rparr>)" for m x b
    using boot_state_loaded by (simp add: kernel_loaded_def initial_variables_def)
  have o: "runs_on d (boot_state\<lparr>ram := b_mem d, cr3 := b_cr3 d, interrupt_flag := b_if d\<rparr>)" for d by (simp add: runs_on_def)
  have "P2V (b_ebx sample_loader) = 0xC0009000" by (simp add: sample_loader_def P2V_def)
  then show ?thesis using r v o by metis
qed

text \<open>
  If \<open>kernel_main\<close> returned, with the two arguments still on the stack as its caller left them, the stub would take three words
  off, and its call of \<open>_fini\<close> would write behind the top of the stack, where the image ends.
\<close>

lemma return_overruns_stack:
  assumes i: "image_at img lay m0" and e: "stub_ready img lay m0 e" "b_esp e = stack_top lay - 8" "b_eip e = text_at lay 18"
    and top: "unat (stack_top lay) < 0xC0400000"
  shows "\<exists>d. boot_run img lay body 2 18 e = Enters Fini d \<and> b_esp d = stack_top lay \<and> boot_word d (stack_top lay) = text_at lay 20"
proof -
  have l: "layout_ok img lay" using i by (simp add: image_at_def)
  let ?f = "e\<lparr>b_esp := stack_top lay + 4, b_eip := text_at lay 19\<rparr>"
  have "fetched lay 18 e" by (rule fetched_high[OF l _ stub_paged[OF i e(1)] e(3)]) simp
  then have 1: "boot_step img lay body 18 e = Running 19 ?f"
    by (simp add: boot_step_def behind_high[OF e(3)] code_at e(2))
  have p: "paged ?f" using stub_paged[OF i e(1)] by simp
  have "fetched lay 19 ?f" by (rule fetched_high[OF l _ p]) simp_all
  moreover have "boot_frame (?f\<lparr>b_eip := text_at lay 20\<rparr>) (stack_top lay) = Some (entry_frame (V2P (stack_top lay)))"
    by (rule boot_frame_high) (use p top l in \<open>simp_all add: layout_ok_def\<close>)
  ultimately have 2: "boot_step img lay body 19 ?f = Enters Fini (?f\<lparr>b_eip := text_at lay 20, b_esp := stack_top lay,
      b_mem := poke_word (stack_top lay) (text_at lay 20) (b_mem e)\<rparr>)"
    by (simp add: boot_step_def behind_high code_at boot_push_def poke_word_def)
  have n: "2 = Suc (Suc 0)" by simp
  show ?thesis unfolding n using 1 2 by (simp add: boot_word_def poke_word_def)
qed

end
