(* ===== verification/Spec2Isabelle.thy ===== *)
theory Spec2Isabelle
  imports Prelude Ctype Cstring Stdlib Screen Ansi Tty Printf Console Multiboot Pmm Cpu Isr Irq Devices Kheap Paging
    Stubs Segments Proc Syscall Kernel Space Spawn Layout Start Machine Programs Typing Boot
begin

text \<open>
  A model of the NimbleOS kernel (i686, C) and of the part of its C library that runs in the
  kernel, with the properties that make the parts correct. Each theory models one part; a definition
  has the name of the function it models, a helper the name of what it does.

  The parts, from the bottom to the top.

  \<^item> \<open>Prelude\<close>: machine integers (\<open>u8\<close> to \<open>u64\<close>, C's wrap-around is theirs), the \<open>outcome\<close> of a
    function (it returns, it leaves for good through \<open>abort\<close>, \<open>iret\<close>, a page fault or a fuel that is
    used up, or its behaviour is undefined), the combinators that statements are sequenced with, rules
    for total correctness (\<open>wp\<close>) and for invariants of every outcome (\<open>keeps\<close>), and the locale
    \<open>simulation\<close>: runs of an implementation follow runs of its specification.
  \<^item> \<open>Ctype\<close>, \<open>Cstring\<close>, \<open>Stdlib\<close>: \<open>libc/src/ctype\<close>, \<open>string\<close> and the number conversions of
    \<open>stdlib\<close>. Shown: copying with overlap, where \<open>memcpy\<close> with its \<open>restrict\<close> pointers is defined, the order of \<open>memcmp\<close>, the digits of every number in every
    base, and that \<open>atoi\<close> reads back what \<open>itoa\<close> writes.
  \<^item> \<open>Screen\<close>, \<open>Ansi\<close>, \<open>Tty\<close>: \<open>kernel/src/cpu/devices/tty.c\<close> and
    \<open>kernel/src/cpu/misc/ansi_interpreter.c\<close>. The two C files call each other; \<open>Screen\<close> has the
    part of \<open>tty.c\<close> that the interpreter calls, \<open>Tty\<close> the part that calls the interpreter. Shown: what an
    escape sequence does, when the interpreter overruns its arrays, and that the locale \<open>char_sink\<close>,
    a device that takes certain texts whatever its state, has the terminal as an instance for plain
    text and for text with complete escape sequences.
  \<^item> \<open>Printf\<close>: \<open>libc/src/stdio\<close>, \<open>abort\<close> and \<open>assert\<close> in the kernel build, on the terminal, refining a
    specification \<open>format_text\<close> of the text. \<open>Console\<close>: the same functions on the kernel's state. The
    record \<open>console\<close> is its first part, and the record of each later component extends that of the one
    before, in the order pmm, cpu, isr, irq, devices, heap, vmm, proc, sys.
  \<^item> \<open>Multiboot\<close>: the boot loader's records and the function that prints them. \<open>Pmm\<close>:
    \<open>kernel/src/mem/pmm.c\<close>, the bitmap of physical blocks, what the boot loader's memory map makes free, the searches against the set of free blocks,
    and the locale \<open>frame_allocator\<close> with single and large pages as instances.
  \<^item> \<open>Cpu\<close>, \<open>Isr\<close>, \<open>Irq\<close>, \<open>Devices\<close>: ports and descriptor tables (\<open>pmio.c\<close>, \<open>gdt.c\<close>, \<open>idt.c\<close>), the
    dispatch of exceptions and of hardware interrupts (\<open>isr.c\<close>, \<open>irq.c\<close>; the locale \<open>handler_table\<close> for
    both tables), timer and keyboard. A handler is an element of the type \<open>handler\<close>, named after the
    function, since a function pointer has no meaning before the function is defined.
  \<^item> \<open>Stubs\<close>: \<open>kernel/src/cpu/asm/isr.S\<close> and \<open>irq.S\<close>, the code between the gates and the dispatchers, on the
    registers and the stack. Shown: the \<open>registers_t\<close> that C is given, and which registers come back.
  \<^item> \<open>Segments\<close>: \<open>kernel/src/cpu/asm/gdt.S\<close>. Shown: it loads the registers as the model of \<open>gdt_init\<close> says, and what
    the processor makes of the loaded tables in user mode: which data segments and which ports a process has.
  \<^item> \<open>Kheap\<close>: \<open>kernel/src/mem/kheap.c\<close>, instance of the locale \<open>bump_allocator\<close>.
  \<^item> \<open>Paging\<close>: \<open>kernel/src/mem/paging.c\<close> over the physical memory and the walk of the memory
    management unit. The tables of an address space (\<open>address_space\<close>: every table is a frame of its own,
    reached through the recursive entry) stand for a partial function from pages to frames,
    \<open>page_map\<close>; mapping and unmapping are updates of that function (interpretation \<open>pages\<close>).
  \<^item> \<open>Proc\<close>, \<open>Syscall\<close>: \<open>kernel/src/sys\<close>. The pointers between processes form a ring (\<open>ring\<close>,
    \<open>scheduled\<close>: the ring from the current process on); a switch turns it, an exit takes one process
    out, a creation puts one in. From this follow round robin, the return to a preempted process, and
    what each system call does.
  \<^item> \<open>Space\<close>, \<open>Spawn\<close>: what \<open>proc_run_code\<close> does to the memory. \<open>Space\<close> has the rules for writing into
    a space with a pool of free blocks: mapping a range takes tables from the pool and keeps everything
    else (\<open>grown\<close>), and \<open>memcpy\<close> through a mapping copies bytes of frames. \<open>Spawn\<close> follows the construction
    of a process: its directory, the switch to it, code and stack, the way back. Shown: the process has
    its program and its stack in frames that were free, the rest of its space is the kernel's, and no
    process reaches a frame of another.
  \<^item> \<open>Layout\<close>: where the blocks of processes lie when they are created one after the other above a frontier of used
    blocks (\<open>frontier\<close>, \<open>places\<close>), and what follows for the exit of one of them, which frees blocks of its neighbour.
  \<^item> \<open>Kernel\<close>: \<open>isr_handler\<close> and \<open>irq_handler\<close> with the handlers that the kernel registers, and the start
    (\<open>kernel_main\<close>). The locale \<open>observation\<close> carries whatever the devices and the console leave alone
    through the dispatchers; its first instance, \<open>core\<close>, gives the invariant that interrupts keep the
    bookkeeping of the scheduler intact.
  \<^item> \<open>Start\<close>: \<open>kernel_main\<close> from the state that the boot stub leaves to the \<open>iret\<close> into the first process, the
    composition of what \<open>Pmm\<close>, \<open>Irq\<close>, \<open>Paging\<close>, \<open>Syscall\<close> and \<open>Spawn\<close> show of their parts. \<open>image_ok\<close>,
    \<open>kernel_loaded\<close> and \<open>memory_enough\<close> say what it needs, \<open>kernel_up\<close> the state in which it ends.
  \<^item> \<open>Machine\<close>: the machine while processes run, as steps that are stores of user mode where the tables allow
    them, its port accesses, and interrupts of any kind (\<open>machine_step\<close>). The second instance of \<open>observation\<close>, \<open>memory_core\<close>, shows
    that no interrupt writes to memory; so the walls between address spaces stand, and together with
    \<open>Start\<close> the programs of the image survive whatever happens.
  \<^item> \<open>Programs\<close>: the three test programs, and user mode as far as they use it; each run is one of the
    machine's. Shown: processes 1 and 2 never stop, and process 3 prints its text and ends.
  \<^item> \<open>Typing\<close>: interrupts of the keyboard between the instructions of a program (\<open>mixed_run\<close>). Shown: process 3 comes to
    its end all the same, and its text is shuffled with the echoes of the keys, unless a scan code is outside the handler's table.
  \<^item> \<open>Boot\<close>: \<open>kernel/src/boot/boot.S\<close> with the ends of \<open>_init\<close> in \<open>crti.S\<close> and \<open>crtn.S\<close>: the Multiboot header, the page
    directory of the image, and each instruction from the loader's jump on, fetched through the translation of the
    moment (\<open>boot_step\<close>). Shown: it reaches \<open>kernel_main\<close> with its arguments, in the state from which \<open>Start\<close> goes on, so
    that the start is followed from the loader to the first process (\<open>loader_to_first_process\<close>).

  Fuel and bounds. A loop that may not end takes a fuel and ends in \<open>OutOfFuel\<close> without it: the walk
  over the memory map (the number of its entries plus one is enough, or of its bytes; an entry of length 0 is not
  survived by any), the walks over the ring (the number of its processes is enough, as \<open>ring_survives\<close> states) and the
  nesting of handlers (2, the timer calls the scheduler). Loops of known length are \<open>foreach\<close> over their
  range.

  Arguments of the model. What the hardware answers on a port (\<open>device\<close>, a function of the accesses
  before), the addresses of the linker and of the assembly stubs, the body that the compiler gives \<open>_init\<close>, the memory map
  and texts behind the pointers of the boot loader.

  Not modelled. Writes of devices to memory; the encoding of the instructions of the assembly files, of which only
  the length counts in \<open>Boot\<close>; where the linker puts the boot stack, which no directive aligns (\<open>layout_ok\<close> asks for a
  multiple of 4); the time in seconds, which is computed with \<open>double\<close>; the
  overflow of the \<open>int\<close> that \<open>printf\<close> counts characters in, behind 2^31 of them; the
  translation cache of the processor, which the kernel invalidates after each change; the machine code of the test
  programs, of which the copies are followed byte by byte in \<open>Start\<close> and the instructions in \<open>Programs\<close>, the assembler
  between them not; the framebuffer code of \<open>multiboot.c\<close>, which is commented out; protection rings while
  the kernel runs, which needs only the present bits; interrupts during the start, which are masked until
  \<open>irq_init\<close> and from then on count ticks and echo keys, but are not interleaved with it; an interrupt
  inside the kernel, which the \<open>STI\<close> at the end of \<open>irq_handler\<close> admits up to the \<open>iret\<close> of the stub. A step of the machine that is undefined behaviour of the kernel, as a
  system call with a number behind the table, has no successor, so what is shown of all runs is shown up to there.
\<close>

end
